(* ===== verification/Prelude.thy ===== *)
theory Prelude
  imports Main "HOL-Library.Word" "HOL-Library.Monad_Syntax"
begin

text \<open>
  What the components share: the types of bytes and endianness, the reading of undefined
  behaviour, views into byte buffers, and the collections of proof rules.

  Undefined behaviour.  The library is written for targets where \<open>EMLABCPP_ASSERT\<close> is an empty
  macro (\<open>src/include/emlabcpp/assert.hpp\<close>, the default), so that a violated precondition of
  \<open>std::span\<close>, of \<open>std::optional::operator*\<close> or of an index is undefined behaviour of the
  program.  Every operation that can run into it returns an option here, and \<^const>\<open>None\<close> is
  "the program has no defined behaviour on this input".  The errors that the library reports to its
  caller are ordinary values and never \<^const>\<open>None\<close>.
\<close>

unbundle bit_operations_syntax

section \<open>Bytes, endianness, rule collections\<close>

type_synonym byte = "8 word"

datatype endian = Big | Little

named_theorems codec_intros \<comment> \<open>introduction rules of the codec contract, one per converter\<close>
named_theorems converter_simps \<comment> \<open>fields of the converters, one bundle per specialisation\<close>

section \<open>The option monad of possibly undefined operations\<close>

lemma bind_Some_iff [simp]:
  "(m \<bind> f = Some y) \<longleftrightarrow> (\<exists>x. m = Some x \<and> f x = Some y)"
  by (auto simp: bind_eq_Some_conv)

lemma bind_not_None [simp]:
  "(m \<bind> f \<noteq> None) \<longleftrightarrow> (\<exists>x. m = Some x \<and> f x \<noteq> None)"
  by (cases m) auto

section \<open>Sub-spans of a buffer\<close>

text \<open>
  A call \<open>f( buffer.subspan< off, n >() )\<close> that writes through the span: the callee sees the \<open>n\<close>
  bytes at \<open>off\<close>, and what it leaves there replaces them in the caller's buffer.  The span must lie
  inside the buffer.
\<close>

definition with_span ::
  "nat \<Rightarrow> nat \<Rightarrow> byte list \<Rightarrow> (byte list \<Rightarrow> (byte list \<times> 'a) option) \<Rightarrow> (byte list \<times> 'a) option"
where
  "with_span off n buf f =
     (if off + n \<le> length buf
      then do {
        (part, r) \<leftarrow> f (take n (drop off buf));
        Some (take off buf @ part @ drop (off + n) buf, r)
      }
      else None)"

text \<open>A read-only \<open>buffer.subspan( off )\<close>: the bytes from \<open>off\<close> on, undefined past the end.\<close>

definition subspan :: "nat \<Rightarrow> byte list \<Rightarrow> byte list option" where
  "subspan off buf = (if off \<le> length buf then Some (drop off buf) else None)"

lemma subspan_append [simp]: "subspan (length xs) (xs @ ys) = Some ys"
  by (simp add: subspan_def)

lemma subspan_le: "off \<le> length buf \<Longrightarrow> subspan off buf = Some (drop off buf)"
  by (simp add: subspan_def)

text \<open>
  The shape all serialisers share: the callee overwrites a prefix of its span with \<open>bs\<close> and leaves
  the rest alone.  Then the caller's buffer changes in exactly these bytes.
\<close>

lemma with_span_prefix:
  assumes "n \<le> length rest" and "length bs \<le> n"
    and "\<And>b. length b = n \<Longrightarrow> f b = Some (bs @ drop (length bs) b, r)"
  shows "with_span (length pre) n (pre @ rest) f = Some (pre @ bs @ drop (length bs) rest, r)"
proof -
  have "drop (length bs) (take n rest) @ drop n rest = drop (length bs) rest"
    using assms(1,2)
    by (metis add.commute append_take_drop_id drop_drop drop_take le_add_diff_inverse2)
  then show ?thesis
    using assms by (simp add: with_span_def)
qed

lemma with_span_first:
  assumes "n \<le> length buf" and "length bs \<le> n"
    and "\<And>b. length b = n \<Longrightarrow> f b = Some (bs @ drop (length bs) b, r)"
  shows "with_span 0 n buf f = Some (bs @ drop (length bs) buf, r)"
  using with_span_prefix [where pre = "[]", OF assms] by simp

lemma with_span_length:
  assumes "with_span off n buf f = Some (buf', r)"
    and "\<And>b b' r. length b = n \<Longrightarrow> f b = Some (b', r) \<Longrightarrow> length b' = n"
  shows "length buf' = length buf"
proof -
  from assms(1) obtain part where le: "off + n \<le> length buf"
    and f: "f (take n (drop off buf)) = Some (part, r)"
    and buf': "buf' = take off buf @ part @ drop (off + n) buf"
    by (auto simp: with_span_def split: if_splits)
  have "length part = n"
    using assms(2) [OF _ f] le by simp
  with le buf' show ?thesis by simp
qed

section \<open>Lists\<close>

lemma list_all2_nthI:
  "length xs = length ys \<Longrightarrow> (\<And>i. i < length xs \<Longrightarrow> P (xs ! i) (ys ! i)) \<Longrightarrow> list_all2 P xs ys"
  by (simp add: list_all2_conv_all_nth)

lemma sum_list_replicate_nat [simp]: "sum_list (replicate n (x :: nat)) = n * x"
  by (induction n) auto

end
