(* ===== verification/Serializer.thy ===== *)
theory Serializer
  imports Prelude
begin

text \<open>
  \<open>src/include/emlabcpp/protocol/serializer.hpp\<close>: integers, enumerations, booleans and floats as
  fixed numbers of bytes in either order.  The two loops of the integer serializer are modelled at
  the width of the type, with the casts the code writes, and are shown to produce and to read the
  positional notation of the number.
\<close>

section \<open>Base types\<close>

text \<open>
  The types for which the concept \<open>base_type\<close> holds, with their size in bytes: unsigned and signed
  integers, \<open>bool\<close>, \<open>float\<close> (whose values are its 32-bit patterns) and enumerations over an
  underlying integer type.
\<close>

datatype base_type = BUInt nat | BSInt nat | BBool | BFloat | BEnum base_type

text \<open>\<open>sizeof\<close> of the type.\<close>

primrec base_size :: "base_type \<Rightarrow> nat" where
  "base_size (BUInt n) = n"
| "base_size (BSInt n) = n"
| "base_size BBool = 1"
| "base_size BFloat = 4"
| "base_size (BEnum b) = base_size b"

text \<open>Conversion to an integral type, \<open>static_cast< T >( x )\<close>: modulo the width of \<open>T\<close>.\<close>

primrec cast_to :: "base_type \<Rightarrow> int \<Rightarrow> int" where
  "cast_to (BUInt n) x = take_bit (8 * n) x"
| "cast_to (BSInt n) x = signed_take_bit (8 * n - 1) x"
| "cast_to BBool x = of_bool (x \<noteq> 0)"
| "cast_to BFloat x = take_bit 32 x"
| "cast_to (BEnum b) x = cast_to b x"

primrec int_base :: "base_type \<Rightarrow> bool" where
  "int_base (BUInt n) = (0 < n)"
| "int_base (BSInt n) = (0 < n)"
| "int_base BBool = False"
| "int_base BFloat = False"
| "int_base (BEnum b) = int_base b"

definition int_in :: "base_type \<Rightarrow> int \<Rightarrow> bool" where
  "int_in b x \<longleftrightarrow> cast_to b x = x"

section \<open>The serializer of integers\<close>

text \<open>\<open>bget\<close>: the position of the \<open>i\<close>-th most significant byte in the buffer.\<close>

definition bget :: "endian \<Rightarrow> nat \<Rightarrow> nat \<Rightarrow> nat" where
  "bget e max_sz i = (if e = Big then i else max_sz - 1 - i)"

definition serialize_int :: "endian \<Rightarrow> base_type \<Rightarrow> byte list \<Rightarrow> int \<Rightarrow> byte list" where
  "serialize_int e b buffer item =
     fst (fold (\<lambda>i (buf, x).
            (buf [bget e (base_size b) (base_size b - i - 1) := word_of_int (x AND 0xFF)],
             cast_to b (drop_bit 8 x)))
          [0..<base_size b] (buffer, item))"

definition deserialize_int :: "endian \<Rightarrow> base_type \<Rightarrow> byte list \<Rightarrow> int" where
  "deserialize_int e b buffer =
     fold (\<lambda>i res. cast_to b (cast_to b (push_bit 8 res)
                       OR cast_to b (uint (buffer ! bget e (base_size b) i))))
       [0..<base_size b] 0"

text \<open>The enumeration and the float serializers delegate to the one of their integer type.\<close>

definition serialize_enum :: "endian \<Rightarrow> base_type \<Rightarrow> byte list \<Rightarrow> int \<Rightarrow> byte list" where
  "serialize_enum e utype buffer item = serialize_int e utype buffer (cast_to utype item)"

definition deserialize_enum :: "endian \<Rightarrow> base_type \<Rightarrow> byte list \<Rightarrow> int" where
  "deserialize_enum e utype buffer = deserialize_int e utype buffer"

definition serialize_float :: "endian \<Rightarrow> byte list \<Rightarrow> 32 word \<Rightarrow> byte list" where
  "serialize_float e buffer item = serialize_int e (BUInt 4) buffer (uint item)"

definition deserialize_float :: "endian \<Rightarrow> byte list \<Rightarrow> 32 word" where
  "deserialize_float e buffer = word_of_int (deserialize_int e (BUInt 4) buffer)"

definition serialize_bool :: "byte list \<Rightarrow> bool \<Rightarrow> byte list" where
  "serialize_bool buffer v = buffer [0 := (if v then 1 else 0)]"

definition deserialize_bool :: "byte list \<Rightarrow> bool" where
  "deserialize_bool buffer \<longleftrightarrow> buffer ! 0 = 1"

section \<open>Reference: positional notation\<close>

text \<open>The big-endian bytes of the low \<open>8 * n\<close> bits of a number, and the value of such bytes.\<close>

primrec be_bytes :: "nat \<Rightarrow> int \<Rightarrow> byte list" where
  "be_bytes 0 x = []"
| "be_bytes (Suc n) x = be_bytes n (drop_bit 8 x) @ [word_of_int x]"

definition bytes_in :: "endian \<Rightarrow> nat \<Rightarrow> int \<Rightarrow> byte list" where
  "bytes_in e n x = (if e = Big then be_bytes n x else rev (be_bytes n x))"

definition be_value :: "byte list \<Rightarrow> int" where
  "be_value bs = fold (\<lambda>b acc. push_bit 8 acc OR uint b) bs 0"

lemma length_be_bytes [simp]: "length (be_bytes n x) = n"
  by (induction n arbitrary: x) auto

lemma length_bytes_in [simp]: "length (bytes_in e n x) = n"
  by (simp add: bytes_in_def)

lemma nth_be_bytes:
  "j < n \<Longrightarrow> be_bytes n x ! j = word_of_int (drop_bit (8 * (n - 1 - j)) x)"
proof (induction n arbitrary: x j)
  case 0
  then show ?case by simp
next
  case (Suc n)
  show ?case
  proof (cases "j < n")
    case True
    then have "8 * (n - 1 - j) + 8 = 8 * (n - j)" by simp
    with True Suc.IH [of j "drop_bit 8 x"] show ?thesis
      by (simp add: nth_append)
  next
    case False
    with Suc.prems have "j = n" by simp
    then show ?thesis by (simp add: nth_append)
  qed
qed

lemma be_value_snoc: "be_value (bs @ [b]) = push_bit 8 (be_value bs) OR uint b"
  by (simp add: be_value_def)

lemma be_value_be_bytes: "be_value (be_bytes n x) = take_bit (8 * n) x"
proof (induction n arbitrary: x)
  case 0
  then show ?case by (simp add: be_value_def)
next
  case (Suc n)
  have "push_bit 8 (take_bit (8 * n) (drop_bit 8 x)) OR take_bit 8 x = take_bit (8 + 8 * n) x"
    by (rule bit_eqI) (auto simp: bit_simps)
  with Suc show ?case
    by (simp add: be_value_snoc uint_word_of_int_eq)
qed

section \<open>The loops compute the positional notation\<close>

lemma cast_drop_bit: "int_base b \<Longrightarrow> int_in b x \<Longrightarrow> cast_to b (drop_bit m x) = drop_bit m x"
proof (induction b)
  case (BUInt n)
  then have x: "x = take_bit (8 * n) x" by (simp add: int_in_def)
  show ?case
    by (subst (1 2) x) (auto simp: bit_simps intro!: bit_eqI)
next
  case (BSInt n)
  let ?N = "8 * n - 1"
  from BSInt have x: "signed_take_bit ?N x = x" by (simp add: int_in_def)
  have bits: "bit x i = bit x (min ?N i)" for i
    using bit_signed_take_bit_iff [of ?N x i] by (simp only: x possible_bit_int simp_thms)
  have "bit x (m + min ?N i) = bit x (m + i)" for i
  proof (cases "i \<le> ?N")
    case False
    then have "min ?N (m + ?N) = ?N" "min ?N (m + i) = ?N" "min ?N i = ?N" by auto
    then show ?thesis
      using bits [of "m + ?N"] bits [of "m + i"] by (simp only:)
  qed (simp add: min_def)
  then show ?case
    by (auto simp: bit_simps intro!: bit_eqI)
qed (auto simp: int_in_def)

lemma cast_idem [simp]: "cast_to b (cast_to b x) = cast_to b x"
  by (induction b) auto

lemma cast_or: "int_base b \<Longrightarrow> cast_to b (x OR y) = cast_to b x OR cast_to b y"
  by (induction b) (auto simp: bit_simps intro!: bit_eqI)

lemma cast_push: "int_base b \<Longrightarrow> cast_to b (push_bit 8 (cast_to b x)) = cast_to b (push_bit 8 x)"
proof (induction b)
  case (BUInt n)
  then show ?case by (auto simp: bit_simps intro!: bit_eqI)
next
  case (BSInt n)
  have "min (8 * n - 1) (min (8 * n - 1) i - 8) = min (8 * n - 1) i - 8" for i
    by (simp add: min_def)
  then show ?case
    by (auto simp: bit_simps intro!: bit_eqI)
qed auto

lemma byte_of_low_bits [simp]: "(word_of_int (x AND 0xFF) :: byte) = word_of_int x"
proof -
  have "take_bit 8 (x AND 0xFF) = take_bit 8 x"
    using mask_eq_exp_minus_1 [of 8, where 'a = int] by (simp add: take_bit_eq_mask ac_simps)
  then show ?thesis
    by (simp add: word_of_int_eq_iff)
qed

lemma bget_less: "i < n \<Longrightarrow> bget e n i < n"
  by (simp add: bget_def)

lemma bget_eq_iff: "i < n \<Longrightarrow> j < n \<Longrightarrow> bget e n i = bget e n j \<longleftrightarrow> i = j"
  by (auto simp: bget_def)

lemma nth_bytes_in: "j < n \<Longrightarrow> bytes_in e n x ! bget e n j = be_bytes n x ! j"
  by (simp add: bytes_in_def bget_def rev_nth)

lemma list_eq_by_bget:
  assumes "length xs = n" "length ys = n" "\<And>j. j < n \<Longrightarrow> xs ! bget e n j = ys ! bget e n j"
  shows "xs = ys"
proof (rule nth_equalityI)
  show "length xs = length ys" using assms by simp
  fix i assume i: "i < length xs"
  then have "i = bget e n (bget e n i)" "bget e n i < n"
    using assms(1) by (auto simp: bget_def)
  then show "xs ! i = ys ! i" using assms(3) by metis
qed

lemma serialize_loop:
  fixes b e x and buffer :: "byte list"
  defines "n \<equiv> base_size b"
  assumes "int_base b" "int_in b x" "length buffer = n" "k \<le> n"
  shows "\<exists>buf. fold (\<lambda>i (buf, x). (buf [bget e n (n - i - 1) := word_of_int (x AND 0xFF)],
                                  cast_to b (drop_bit 8 x))) [0..<k] (buffer, x)
               = (buf, drop_bit (8 * k) x)
           \<and> length buf = n
           \<and> (\<forall>j < n. n - k \<le> j \<longrightarrow> buf ! bget e n j = word_of_int (drop_bit (8 * (n - 1 - j)) x))"
    (is "\<exists>buf. fold ?f _ _ = _ \<and> _")
  using assms(5)
proof (induction k)
  case 0
  then show ?case using assms by simp
next
  case (Suc k)
  then obtain buf where f: "fold ?f [0..<k] (buffer, x) = (buf, drop_bit (8 * k) x)"
    and len: "length buf = n"
    and nth: "\<And>j. j < n \<Longrightarrow> n - k \<le> j \<Longrightarrow> buf ! bget e n j = word_of_int (drop_bit (8 * (n - 1 - j)) x)"
    by auto
  have cast: "cast_to b (drop_bit 8 (drop_bit (8 * k) x)) = drop_bit (8 * Suc k) x"
    using cast_drop_bit [OF assms(2,3), of "8 * Suc k"] by (simp add: add.commute)
  let ?buf = "buf [bget e n (n - k - 1) := word_of_int (drop_bit (8 * k) x)]"
  have "\<forall>j < n. n - Suc k \<le> j \<longrightarrow> ?buf ! bget e n j = word_of_int (drop_bit (8 * (n - 1 - j)) x)"
  proof (intro allI impI)
    fix j assume j: "j < n" "n - Suc k \<le> j"
    show "?buf ! bget e n j = word_of_int (drop_bit (8 * (n - 1 - j)) x)"
    proof (cases "j = n - k - 1")
      case True
      with Suc.prems have "n - 1 - j = k" by simp
      with True j show ?thesis by (simp add: len bget_less)
    next
      case False
      with j Suc.prems have "n - k \<le> j" "bget e n (n - k - 1) \<noteq> bget e n j"
        by (auto simp: bget_eq_iff)
      with nth j show ?thesis by simp
    qed
  qed
  then show ?case
    using f cast by (intro exI [of _ ?buf]) (simp add: len)
qed

theorem serialize_int_eq:
  assumes "int_base b" "int_in b x" "length buffer = base_size b"
  shows "serialize_int e b buffer x = bytes_in e (base_size b) x"
proof -
  let ?n = "base_size b"
  obtain buf where f: "serialize_int e b buffer x = buf" "length buf = ?n"
    and nth: "\<And>j. j < ?n \<Longrightarrow> buf ! bget e ?n j = word_of_int (drop_bit (8 * (?n - 1 - j)) x)"
    using serialize_loop [OF assms order.refl, of e] by (auto simp: serialize_int_def)
  have "buf = bytes_in e ?n x"
    by (rule list_eq_by_bget [where e = e, OF f(2)]) (simp_all add: nth nth_bytes_in nth_be_bytes)
  with f show ?thesis by simp
qed


text \<open>Reading back: the accumulated result is the positional value, cast to the type.\<close>

lemma deserialize_loop:
  assumes b: "int_base b" and "\<And>i. i < k \<Longrightarrow> buffer ! bget e n i = bs ! i" and "k \<le> length bs"
  shows "fold (\<lambda>i res. cast_to b (cast_to b (push_bit 8 res) OR cast_to b (uint (buffer ! bget e n i))))
           [0..<k] 0 = cast_to b (be_value (take k bs))"
  using assms(2,3)
proof (induction k)
  case 0
  have "cast_to b 0 = 0" using b by (induction b) auto
  then show ?case by (simp add: be_value_def)
next
  case (Suc k)
  have "take (Suc k) bs = take k bs @ [bs ! k]"
    using Suc.prems(2) by (simp add: take_Suc_conv_app_nth)
  then show ?case
    using Suc by (simp add: be_value_snoc cast_or [OF b] cast_push [OF b])
qed

theorem deserialize_int_eq:
  assumes "int_base b" "length buffer = base_size b"
  shows "deserialize_int e b buffer = cast_to b (be_value (if e = Big then buffer else rev buffer))"
proof -
  have "buffer ! bget e (base_size b) i = (if e = Big then buffer else rev buffer) ! i"
    if "i < base_size b" for i
    using that assms(2) by (simp add: bget_def rev_nth)
  then show ?thesis
    using deserialize_loop [OF assms(1), of "base_size b" buffer e "base_size b"
        "if e = Big then buffer else rev buffer"] assms(2)
    by (simp add: deserialize_int_def)
qed

lemma cast_take_bit: "int_base b \<Longrightarrow> cast_to b (take_bit (8 * base_size b) x) = cast_to b x"
proof (induction b)
  case (BSInt n)
  then have "min (8 * n - 1) i < 8 * n" for i by (auto simp: min_def)
  then show ?case by (auto simp: bit_simps intro!: bit_eqI)
qed auto

lemma cast_in [simp]: "int_in b (cast_to b x)"
  by (simp add: int_in_def)

text \<open>Any bytes read as some value of the type; the bytes written for a value read as this value.\<close>

lemma deserialize_int_in:
  "int_base b \<Longrightarrow> length buffer = base_size b \<Longrightarrow> int_in b (deserialize_int e b buffer)"
  by (simp add: deserialize_int_eq)

lemma serializer_roundtrip:
  assumes "int_base b" "int_in b x"
  shows "deserialize_int e b (bytes_in e (base_size b) x) = x"
  using assms
  by (simp add: deserialize_int_eq bytes_in_def be_value_be_bytes cast_take_bit int_in_def)

text \<open>Writing what was read gives the same bytes back: every integer has one encoding.\<close>

lemma be_bytes_be_value: "be_bytes (length bs) (be_value bs) = bs"
proof (induction bs rule: rev_induct)
  case (snoc b bs)
  have "drop_bit 8 (push_bit 8 (be_value bs) OR uint b) = be_value bs"
    by (rule bit_eqI) (auto simp: bit_simps dest: bit_imp_le_length)
  moreover have "(word_of_int (push_bit 8 (be_value bs) OR uint b) :: byte) = b"
    by (rule bit_word_eqI) (auto simp: bit_simps)
  ultimately show ?case using snoc by (simp add: be_value_snoc)
qed simp

lemma le_value_bytes: "be_value (rev (bytes_in Little n x)) = take_bit (8 * n) x"
  by (simp add: bytes_in_def be_value_be_bytes)

lemma le_bytes_value: "bytes_in Little (length bs) (be_value (rev bs)) = bs"
  using be_bytes_be_value [of "rev bs"] by (simp add: bytes_in_def)

lemma be_value_less: "be_value bs < 2 ^ (8 * length bs)" and be_value_nonneg: "0 \<le> be_value bs"
  using be_value_be_bytes [of "length bs" "be_value bs"]
  by (metis be_bytes_be_value take_bit_int_less_exp, metis be_bytes_be_value take_bit_nonnegative)

lemma be_bytes_take_bit: "be_bytes n (take_bit (8 * n) x) = be_bytes n x"
  using be_bytes_be_value [of "be_bytes n x"] by (simp add: be_value_be_bytes)

lemma take_bit_cast: "int_base b \<Longrightarrow> take_bit (8 * base_size b) (cast_to b x) = take_bit (8 * base_size b) x"
proof (induction b)
  case (BSInt n)
  then have "min (8 * n - 1) i = i" if "i < 8 * n" for i using that by linarith
  then show ?case by (auto simp: bit_simps intro!: bit_eqI)
qed auto

lemma bytes_in_deserialize:
  assumes "int_base b" "length buffer = base_size b"
  shows "bytes_in e (base_size b) (deserialize_int e b buffer) = buffer"
proof -
  have "be_bytes (base_size b) (cast_to b (be_value bs)) = bs" if "length bs = base_size b" for bs
    using be_bytes_take_bit [of "base_size b" "cast_to b (be_value bs)"]
      be_bytes_take_bit [of "base_size b" "be_value bs"] be_bytes_be_value [of bs] that
    by (simp add: take_bit_cast [OF assms(1)])
  from this [of buffer] this [of "rev buffer"] show ?thesis
    using assms by (simp add: bytes_in_def deserialize_int_eq)
qed

lemma int_in_unsigned: "int_in (BUInt n) x \<longleftrightarrow> 0 \<le> x \<and> x < 2 ^ (8 * n)"
  by (auto simp: int_in_def take_bit_int_eq_self_iff)

lemma int_in_signed:
  "0 < n \<Longrightarrow> int_in (BSInt n) x \<longleftrightarrow> - (2 ^ (8 * n - 1)) \<le> x \<and> x < 2 ^ (8 * n - 1)"
  by (auto simp: int_in_def signed_take_bit_int_eq_self_iff)

text \<open>Floats and booleans.\<close>

lemma serialize_float_eq:
  "length buffer = 4 \<Longrightarrow> serialize_float e buffer x = bytes_in e 4 (uint x)"
  using serialize_int_eq [of "BUInt 4" "uint x" buffer e] uint_bounded [of x]
  by (simp add: serialize_float_def int_in_unsigned)

lemma float_roundtrip: "deserialize_float e (bytes_in e 4 (uint x)) = x"
  using serializer_roundtrip [of "BUInt 4" "uint x" e] uint_bounded [of x]
  by (simp add: deserialize_float_def int_in_unsigned)

lemma serialize_bool_eq:
  "length buffer = 1 \<Longrightarrow> serialize_bool buffer v = [if v then 1 else 0]"
  by (cases buffer) (auto simp: serialize_bool_def)

lemma bool_roundtrip: "deserialize_bool [if v then 1 else 0] = v"
  by (simp add: deserialize_bool_def)

end
