(* ===== verification/StringBuffer.thy ===== *)
theory StringBuffer
  imports Prelude
begin

text \<open>
  \<open>src/include/emlabcpp/experimental/string_buffer.hpp\<close> (a \<open>char\<close> array of fixed capacity used as a
  string, ended by the first zero) and the error marks of \<open>protocol/error.hpp\<close>, which are strings of
  this kind.
\<close>

section \<open>The buffer\<close>

text \<open>A \<open>string_buffer< N >\<close> is its array of \<open>N\<close> characters, each one byte.\<close>

type_synonym string_buffer = "byte list"

text \<open>
  \<open>std::copy_n( src, n, arr.begin() + off )\<close>: undefined when it reads or writes past an end.
\<close>

definition copy_n :: "'a list \<Rightarrow> nat \<Rightarrow> nat \<Rightarrow> 'a list \<Rightarrow> 'a list option" where
  "copy_n src n off arr =
     (if n \<le> length src \<and> off + n \<le> length arr
      then Some (take off arr @ take n src @ drop (off + n) arr) else None)"

definition sb_empty :: "nat \<Rightarrow> string_buffer" where
  "sb_empty N = replicate N 0"

text \<open>The unsigned difference \<open>a - b\<close> of two \<open>std::size_t\<close> values wraps around at 64 bits.\<close>

definition size_minus :: "nat \<Rightarrow> nat \<Rightarrow> nat" where
  "size_minus a b = nat ((int a - int b) mod 2 ^ 64)"

definition sb_of_view :: "nat \<Rightarrow> byte list \<Rightarrow> string_buffer option" where
  "sb_of_view N sv = copy_n sv (min (length sv) (size_minus N 1)) 0 (sb_empty N)"

text \<open>From a literal of \<open>M\<close> characters, its final zero included; \<open>M < N\<close> is a static assertion.\<close>

definition sb_of_literal :: "nat \<Rightarrow> string \<Rightarrow> string_buffer option" where
  "sb_of_literal N msg = copy_n (map of_char msg @ [0]) (length msg + 1) 0 (sb_empty N)"

text \<open>From a smaller buffer: all its \<open>M\<close> characters are copied.\<close>

definition sb_of_buffer :: "nat \<Rightarrow> string_buffer \<Rightarrow> string_buffer option" where
  "sb_of_buffer N msg = copy_n msg (length msg) 0 (sb_empty N)"

primrec sb_size :: "string_buffer \<Rightarrow> nat" where
  "sb_size [] = 0"
| "sb_size (c # data) = (if c = 0 then 0 else Suc (sb_size data))"

definition sb_sv :: "string_buffer \<Rightarrow> byte list" where
  "sb_sv data = take (sb_size data) data"

definition sb_eq :: "string_buffer \<Rightarrow> string_buffer \<Rightarrow> bool" where
  "sb_eq a b \<longleftrightarrow> sb_sv a = sb_sv b"

definition sb_extend :: "string_buffer \<Rightarrow> byte list \<Rightarrow> string_buffer option" where
  "sb_extend data sv =
     (let N = length data; curr_size = sb_size data
      in copy_n sv (min (length sv) (size_minus (size_minus N 1) curr_size)) curr_size data)"

section \<open>Facts\<close>

lemma sb_size_le [simp]: "sb_size data \<le> length data"
  by (induction data) auto

lemma sb_sv_takeWhile: "sb_sv data = takeWhile (\<lambda>c. c \<noteq> 0) data"
  by (induction data) (auto simp: sb_sv_def)

lemma length_sb_sv [simp]: "length (sb_sv data) = sb_size data"
  by (simp add: sb_sv_def)

lemma size_minus_le: "b \<le> a \<Longrightarrow> a < 2 ^ 64 \<Longrightarrow> size_minus a b = a - b"
  by (simp add: size_minus_def nat_mod_distrib flip: of_nat_diff)

text \<open>A canonical buffer is a text without zeros, followed by zeros, of which there is at least one.\<close>

definition sb_canonical :: "nat \<Rightarrow> string_buffer \<Rightarrow> bool" where
  "sb_canonical N data \<longleftrightarrow>
     length data = N \<and> sb_size data < N \<and> data = sb_sv data @ replicate (N - sb_size data) 0"

lemma sb_size_append_zero:
  "0 \<notin> set xs \<Longrightarrow> sb_size (xs @ replicate n 0) = length xs"
  by (induction xs) (auto, cases n, auto)

lemma sb_sv_append_zero: "0 \<notin> set xs \<Longrightarrow> sb_sv (xs @ replicate n 0) = xs"
  by (simp add: sb_sv_def sb_size_append_zero)

lemma sb_sv_nonzero: "0 \<notin> set (sb_sv data)"
  by (auto simp: sb_sv_takeWhile dest: set_takeWhileD)

lemma sb_canonicalI:
  "0 \<notin> set xs \<Longrightarrow> length xs < N \<Longrightarrow> sb_canonical N (xs @ replicate (N - length xs) 0)"
  by (simp add: sb_canonical_def sb_size_append_zero sb_sv_append_zero)

lemma sb_of_view_eq:
  assumes "0 < N" "N < 2 ^ 64"
  shows "sb_of_view N sv = Some (take (N - 1) sv @ replicate (N - min (length sv) (N - 1)) 0)"
  using assms by (auto simp: sb_of_view_def copy_n_def sb_empty_def size_minus_le min_def)

text \<open>The constructor from a text keeps what fits and always leaves room for the final zero.\<close>

lemma sb_of_view_canonical:
  assumes "0 < N" "N < 2 ^ 64" "0 \<notin> set sv"
  shows "\<exists>b. sb_of_view N sv = Some b \<and> sb_canonical N b \<and> sb_sv b = take (N - 1) sv"
proof -
  have nz: "0 \<notin> set (take (N - 1) sv)" using assms(3) by (auto dest: in_set_takeD)
  have len: "length (take (N - 1) sv) = min (length sv) (N - 1)" by simp
  have "sb_canonical N (take (N - 1) sv @ replicate (N - min (length sv) (N - 1)) 0)"
    using sb_canonicalI [OF nz, of N] assms(1) by (simp only: len)
  then show ?thesis
    using assms sb_sv_append_zero [OF nz] by (simp add: sb_of_view_eq)
qed

text \<open>\<open>extend\<close> appends what fits, and a canonical buffer stays canonical.\<close>

lemma sb_extend_canonical:
  assumes "sb_canonical N b" "0 \<notin> set sv" "N < 2 ^ 64"
  shows "\<exists>b'. sb_extend b sv = Some b' \<and> sb_canonical N b' \<and> sb_sv b' = take (N - 1) (sb_sv b @ sv)"
proof -
  let ?s = "sb_size b" and ?m = "min (length sv) (N - 1 - sb_size b)"
  from assms(1) have N: "length b = N" "?s < N" and b: "b = sb_sv b @ replicate (N - ?s) 0"
    by (auto simp: sb_canonical_def)
  have sub: "size_minus (size_minus N (Suc 0)) ?s = N - 1 - ?s"
    using N assms(3) by (simp add: size_minus_le)
  let ?t = "sb_sv b @ take ?m sv"
  have "drop (?s + ?m) b = replicate (N - ?s - ?m) 0"
    by (subst b) simp
  then have ext: "sb_extend b sv = Some (?t @ replicate (N - length ?t) 0)"
    using N by (auto simp: sb_extend_def copy_n_def sub Let_def sb_sv_def)
  have "0 \<notin> set ?t"
    using assms(2) sb_sv_nonzero [of b] by (auto dest: in_set_takeD)
  moreover have "length ?t < N" using N by simp
  moreover have "?t = take (N - 1) (sb_sv b @ sv)"
    using N by (cases "length sv \<le> N - 1 - ?s") (auto simp: min_def)
  ultimately show ?thesis
    using ext sb_canonicalI [of ?t N] sb_sv_append_zero [of ?t "N - length ?t"] by metis
qed

section \<open>Error marks\<close>

text \<open>
  The eight constants of \<open>error.hpp\<close>.  A conversion reports one by its address; a record sent to the
  other side carries its text.
\<close>

datatype mark = size_err | lowsize_err | bigsize_err | bounds_err | undefvar_err | badval_err
  | group_err | checksum_err

definition mark_size :: nat where
  "mark_size = 16"

fun mark_literal :: "mark \<Rightarrow> string" where
  "mark_literal size_err = ''EMCPPSIZE''"
| "mark_literal lowsize_err = ''EMCPPLOWSIZE''"
| "mark_literal bigsize_err = ''EMCPPBIGSIZE''"
| "mark_literal bounds_err = ''EMCPPBOUNDS''"
| "mark_literal undefvar_err = ''EMCPPUNDEFVAR''"
| "mark_literal badval_err = ''EMCPPBADVAL''"
| "mark_literal group_err = ''EMCPPGRPMTCH''"
| "mark_literal checksum_err = ''EMCPPCHECKSM''"

definition mark_text :: "mark \<Rightarrow> string_buffer" where
  "mark_text m = map of_char (mark_literal m) @ replicate (mark_size - length (mark_literal m)) 0"

lemma mark_text_literal: "sb_of_literal mark_size (mark_literal m) = Some (mark_text m)"
  by (cases m; hypsubst; code_simp)

lemma mark_text_canonical: "sb_canonical mark_size (mark_text m)"
  by (cases m; hypsubst; code_simp)

lemma mark_text_inject: "sb_eq (mark_text m) (mark_text m') \<longleftrightarrow> m = m'"
  by (cases m; cases m'; hypsubst; code_simp)

record error_record =
  error_mark :: string_buffer
  error_offset :: nat

end
