(* ===== verification/ProtoTraits.thy ===== *)
theory ProtoTraits
  imports Serializer StringBuffer
begin

text \<open>
  \<open>protocol/base.hpp\<close> and \<open>protocol/traits.hpp\<close>: the types from which a protocol is composed, the
  values they stand for, and the sizes a definition may take in a message.  A C++ type that is a
  protocol definition is an element of \<open>pdef\<close>; each specialisation of \<open>proto_traits\<close> is one
  definition below, and \<open>traits_for\<close> selects it.
\<close>

section \<open>Results of a conversion\<close>

record conversion_result =
  used :: nat
  error :: "mark option"

definition conv_ok :: "nat \<Rightarrow> conversion_result" where
  "conv_ok u = \<lparr>used = u, error = None\<rparr>"

definition conv_err :: "nat \<Rightarrow> mark \<Rightarrow> conversion_result" where
  "conv_err u m = \<lparr>used = u, error = Some m\<rparr>"

definition has_error :: "conversion_result \<Rightarrow> bool" where
  "has_error r \<longleftrightarrow> error r \<noteq> None"

definition add_used :: "nat \<Rightarrow> conversion_result \<Rightarrow> conversion_result" where
  "add_used k r = r\<lparr>used := used r + k\<rparr>"

lemma conv_result_simps [simp]:
  "used (conv_ok u) = u" "error (conv_ok u) = None" "\<not> has_error (conv_ok u)"
  "used (conv_err u m) = u" "error (conv_err u m) = Some m" "has_error (conv_err u m)"
  "used (add_used k r) = used r + k" "error (add_used k r) = error r"
  "has_error (add_used k r) = has_error r"
  "add_used k (conv_ok u) = conv_ok (u + k)" "add_used k (conv_err u m) = conv_err (u + k) m"
  by (simp_all add: conv_ok_def conv_err_def has_error_def add_used_def)

lemma conv_ok_inject [simp]: "conv_ok u = conv_ok u' \<longleftrightarrow> u = u'"
  by (simp add: conv_ok_def)

lemma no_error_conv_ok: "\<not> has_error r \<Longrightarrow> r = conv_ok (used r)"
  by (simp add: has_error_def conv_ok_def)

section \<open>Definitions and values\<close>

text \<open>
  \<^item> \<open>DTagGroup b ids ds\<close>: the alternatives \<open>Ds\<close> of a \<open>tag_group\<close> with the constant \<open>Ds::id\<close> of
    each, all of type \<open>b\<close>.
  \<^item> \<open>DDef d\<close>: a class derived from \<open>converter_def_type_base\<close> with \<open>def_type\<close> \<open>d\<close>.
  \<^item> \<open>DStruct ds\<close>: an aggregate that \<open>decompose\<close> turns into the tuple of its members.
\<close>

datatype pdef =
    DBase base_type
  | DArray pdef nat
  | DTuple "pdef list"
  | DVariant "pdef list"
  | DMonostate
  | DBitset nat
  | DSizeless nat
  | DMessage nat
  | DOffset base_type int
  | DQuantity pdef
  | DBounded base_type int int
  | DSized pdef pdef
  | DTag base_type int
  | DGroup "pdef list"
  | DTagGroup base_type "int list" "pdef list"
  | DEndian endian pdef
  | DDef pdef
  | DString nat
  | DDuration pdef
  | DErrorRecord
  | DVector pdef nat
  | DOptional pdef
  | DStruct "pdef list"

text \<open>
  The values of \<open>value_type\<close>.  An integer or enumeration is its numeric value; a message is the
  sequence \<open>begin()..end()\<close> of its bytes, which is what its equality compares.
\<close>

datatype pval =
    VInt int
  | VBool bool
  | VFloat "32 word"
  | VArray "pval list"
  | VTuple "pval list"
  | VVariant nat pval
  | VMonostate
  | VBitset "bool list"
  | VMessage "byte list"
  | VQuantity pval
  | VBounded int
  | VTag
  | VString string_buffer
  | VDuration pval
  | VErrorRecord string_buffer int
  | VVector "pval list"
  | VOptional "pval option"
  | VStruct "pval list"

section \<open>Sizes\<close>

record traits =
  tr_max :: nat
  tr_min :: nat

definition size_t_max :: nat where
  "size_t_max = 2 ^ 64 - 1"

definition base_traits :: "base_type \<Rightarrow> traits" where
  "base_traits b = \<lparr>tr_max = base_size b, tr_min = base_size b\<rparr>"

definition array_traits :: "traits \<Rightarrow> nat \<Rightarrow> traits" where
  "array_traits t N = \<lparr>tr_max = tr_max t * N, tr_min = tr_min t * N\<rparr>"

definition tuple_traits :: "traits list \<Rightarrow> traits" where
  "tuple_traits ts = \<lparr>tr_max = sum_list (map tr_max ts), tr_min = sum_list (map tr_min ts)\<rparr>"

definition max_of :: "nat list \<Rightarrow> nat" where
  "max_of xs = fold max xs 0"

definition min_of :: "nat list \<Rightarrow> nat" where
  "min_of xs = fold min xs size_t_max"

definition variant_traits :: "traits list \<Rightarrow> traits" where
  "variant_traits ts =
     \<lparr>tr_max = tr_max (base_traits (BUInt 1)) + max_of (map tr_max ts),
      tr_min = tr_min (base_traits (BUInt 1)) + min_of (map tr_min ts)\<rparr>"

definition monostate_traits :: traits where
  "monostate_traits = \<lparr>tr_max = 0, tr_min = 0\<rparr>"

definition bitset_traits :: "nat \<Rightarrow> traits" where
  "bitset_traits N = \<lparr>tr_max = (N + 7) div 8, tr_min = (N + 7) div 8\<rparr>"

definition sizeless_traits :: "nat \<Rightarrow> traits" where
  "sizeless_traits N = \<lparr>tr_max = N, tr_min = 0\<rparr>"

definition message_traits :: "nat \<Rightarrow> traits" where
  "message_traits N = \<lparr>tr_max = tr_max (base_traits (BUInt 2)) + N,
                       tr_min = tr_min (base_traits (BUInt 2)) + 0\<rparr>"

definition offset_traits :: "traits \<Rightarrow> traits" where
  "offset_traits t = \<lparr>tr_max = tr_max t, tr_min = tr_min t\<rparr>"

definition quantity_traits :: "traits \<Rightarrow> traits" where
  "quantity_traits t = \<lparr>tr_max = tr_max t, tr_min = tr_min t\<rparr>"

definition bounded_traits :: "traits \<Rightarrow> traits" where
  "bounded_traits t = \<lparr>tr_max = tr_max t, tr_min = tr_min t\<rparr>"

definition sized_traits :: "traits \<Rightarrow> traits \<Rightarrow> traits" where
  "sized_traits counter t = \<lparr>tr_max = tr_max counter + tr_max t, tr_min = tr_min counter + tr_min t\<rparr>"

definition tag_traits :: "traits \<Rightarrow> traits" where
  "tag_traits t = \<lparr>tr_max = tr_max t, tr_min = tr_min t\<rparr>"

definition group_traits :: "traits list \<Rightarrow> traits" where
  "group_traits ts =
     \<lparr>tr_max = max_of (map tr_max ts @ [0]),
      tr_min = min_of (map tr_min ts @ [if length ts = 0 then 0 else size_t_max])\<rparr>"

text \<open>\<open>sub_type = group< std::tuple< tag< Ds::id >, Ds >... >\<close>.\<close>

definition tag_group_traits :: "traits \<Rightarrow> traits list \<Rightarrow> traits" where
  "tag_group_traits tagt ts = group_traits (map (\<lambda>t. tuple_traits [tagt, t]) ts)"

definition string_traits :: "nat \<Rightarrow> traits" where
  "string_traits N = \<lparr>tr_max = N + tr_max (base_traits (BUInt 2)),
                      tr_min = 0 + tr_min (base_traits (BUInt 2))\<rparr>"

definition duration_traits :: "traits \<Rightarrow> traits" where
  "duration_traits t = \<lparr>tr_max = tr_max t, tr_min = tr_min t\<rparr>"

definition error_record_traits :: traits where
  "error_record_traits =
     \<lparr>tr_max = tr_max (string_traits mark_size) + tr_max (base_traits (BUInt 8)),
      tr_min = tr_min (string_traits mark_size) + tr_min (base_traits (BUInt 8))\<rparr>"

definition vector_traits :: "traits \<Rightarrow> nat \<Rightarrow> traits" where
  "vector_traits t N = \<lparr>tr_max = tr_max (base_traits (BUInt 2)) + tr_max t * N,
                        tr_min = tr_min (base_traits (BUInt 2))\<rparr>"

definition optional_traits :: "traits \<Rightarrow> traits" where
  "optional_traits t = \<lparr>tr_max = tr_max (bounded_traits (base_traits (BUInt 1))) + tr_max t,
                        tr_min = tr_min (bounded_traits (base_traits (BUInt 1)))\<rparr>"

definition struct_traits :: "traits \<Rightarrow> traits" where
  "struct_traits t = \<lparr>tr_max = tr_max t, tr_min = tr_min t\<rparr>"

text \<open>\<open>traits_for< D >\<close>: the specialisation that matches the definition.\<close>

fun traits_for :: "pdef \<Rightarrow> traits" where
  "traits_for (DBase b) = base_traits b"
| "traits_for (DArray d N) = array_traits (traits_for d) N"
| "traits_for (DTuple ds) = tuple_traits (map traits_for ds)"
| "traits_for (DVariant ds) = variant_traits (map traits_for ds)"
| "traits_for DMonostate = monostate_traits"
| "traits_for (DBitset N) = bitset_traits N"
| "traits_for (DSizeless N) = sizeless_traits N"
| "traits_for (DMessage N) = message_traits N"
| "traits_for (DOffset b off) = offset_traits (base_traits b)"
| "traits_for (DQuantity d) = quantity_traits (traits_for d)"
| "traits_for (DBounded b lo hi) = bounded_traits (base_traits b)"
| "traits_for (DSized c d) = sized_traits (traits_for c) (traits_for d)"
| "traits_for (DTag b v) = tag_traits (base_traits b)"
| "traits_for (DGroup ds) = group_traits (map traits_for ds)"
| "traits_for (DTagGroup b ids ds) = tag_group_traits (tag_traits (base_traits b)) (map traits_for ds)"
| "traits_for (DEndian e d) = traits_for d"
| "traits_for (DDef d) = traits_for d"
| "traits_for (DString N) = string_traits N"
| "traits_for (DDuration d) = duration_traits (traits_for d)"
| "traits_for DErrorRecord = error_record_traits"
| "traits_for (DVector d N) = vector_traits (traits_for d) N"
| "traits_for (DOptional d) = optional_traits (traits_for d)"
| "traits_for (DStruct ds) = struct_traits (tuple_traits (map traits_for ds))"

lemmas traits_defs = base_traits_def array_traits_def tuple_traits_def variant_traits_def
  monostate_traits_def bitset_traits_def sizeless_traits_def message_traits_def offset_traits_def
  quantity_traits_def bounded_traits_def sized_traits_def tag_traits_def group_traits_def
  tag_group_traits_def string_traits_def duration_traits_def error_record_traits_def
  vector_traits_def optional_traits_def struct_traits_def

lemma fold_max_ge: "(a :: nat) \<le> fold max xs a \<and> (\<forall>x \<in> set xs. x \<le> fold max xs a)"
proof (induction xs arbitrary: a)
  case (Cons x xs)
  from Cons [of "max x a"] show ?case by auto
qed simp

lemma fold_min_le: "fold min xs (a :: nat) \<le> a \<and> (\<forall>x \<in> set xs. fold min xs a \<le> x)"
proof (induction xs arbitrary: a)
  case (Cons x xs)
  from Cons [of "min x a"] show ?case by auto
qed simp

lemma max_of_ge: "x \<in> set xs \<Longrightarrow> x \<le> max_of xs"
  using fold_max_ge [of 0 xs] by (simp add: max_of_def)

lemma min_of_le: "x \<in> set xs \<Longrightarrow> min_of xs \<le> x"
  using fold_min_le [of xs] by (simp add: min_of_def)

section \<open>Default values\<close>

text \<open>
  The value an object of \<open>value_type\<close> has before a conversion writes to it: what \<open>value_type val;\<close>
  or \<open>emplace< I >()\<close> constructs.  Scalars count as zero; no conversion reads them before it has
  written them.
\<close>

fun base_default :: "base_type \<Rightarrow> pval" where
  "base_default BBool = VBool False"
| "base_default BFloat = VFloat 0"
| "base_default _ = VInt 0"

fun default_val :: "pdef \<Rightarrow> pval" where
  "default_val (DBase b) = base_default b"
| "default_val (DArray d N) = VArray (replicate N (default_val d))"
| "default_val (DTuple ds) = VTuple (map default_val ds)"
| "default_val (DVariant ds) = (case map default_val ds of [] \<Rightarrow> VMonostate | v # _ \<Rightarrow> VVariant 0 v)"
| "default_val DMonostate = VMonostate"
| "default_val (DBitset N) = VBitset (replicate N False)"
| "default_val (DSizeless N) = VMessage []"
| "default_val (DMessage N) = VMessage []"
| "default_val (DOffset b off) = VInt 0"
| "default_val (DQuantity d) = VQuantity (default_val d)"
| "default_val (DBounded b lo hi) = VBounded lo"
| "default_val (DSized c d) = default_val d"
| "default_val (DTag b v) = VTag"
| "default_val (DGroup ds) = (case map default_val ds of [] \<Rightarrow> VMonostate | v # _ \<Rightarrow> VVariant 0 v)"
| "default_val (DTagGroup b ids ds) =
     (case map default_val ds of [] \<Rightarrow> VMonostate | v # _ \<Rightarrow> VVariant 0 v)"
| "default_val (DEndian e d) = default_val d"
| "default_val (DDef d) = default_val d"
| "default_val (DString N) = VString (sb_empty N)"
| "default_val (DDuration d) = VDuration (default_val d)"
| "default_val DErrorRecord = VErrorRecord (sb_empty mark_size) 0"
| "default_val (DVector d N) = VVector []"
| "default_val (DOptional d) = VOptional None"
| "default_val (DStruct ds) = VStruct (map default_val ds)"

end
