(* ===== verification/Converter.thy ===== *)
theory Converter
  imports ProtoTraits
begin

text \<open>
  \<open>protocol/converter.hpp\<close>: how a definition is written to and read from bytes.  A C++
  specialisation \<open>converter< D, E >\<close> is a record of its static members; the specialisations that
  are built from other converters take these as arguments, the way the templates name them
  \<open>sub_converter\<close>, and \<open>converter_for\<close> selects the specialisation of a definition.

  \<^item> \<open>serialize_at buffer item\<close> writes into the span \<open>buffer\<close>, whose static extent is \<open>max_size\<close>,
    and gives the new contents of the span and the number of bytes used.
  \<^item> \<open>deserialize buffer value\<close> reads from a span of any length into the object \<open>value\<close>, and gives the
    \<open>conversion_result\<close> and the object afterwards, whether or not the result has an error.
  \<^item> \<^const>\<open>None\<close> is undefined behaviour: a span outside of its buffer, a dereferenced empty optional,
    or a value of another type than \<open>value_type\<close>, which the C++ types exclude.
\<close>

section \<open>The interface of a converter\<close>

record converter =
  max_size :: nat
  size_min :: nat \<comment> \<open>\<open>size_type::min_val\<close>\<close>
  size_max :: nat \<comment> \<open>\<open>size_type::max_val\<close>\<close>
  init_value :: pval \<comment> \<open>\<open>value_type{}\<close>\<close>
  serialize_at :: "byte list \<Rightarrow> pval \<Rightarrow> (byte list \<times> nat) option"
  deserialize :: "byte list \<Rightarrow> pval \<Rightarrow> (conversion_result \<times> pval) option"

text \<open>
  \<open>auto opt_bused = size_type::make( used ); EMLABCPP_ASSERT( opt_bused ); return *opt_bused;\<close>
\<close>

definition make_size :: "nat \<Rightarrow> nat \<Rightarrow> nat \<Rightarrow> nat option" where
  "make_size lo hi n = (if n < lo then None else if n > hi then None else Some n)"

section \<open>Base types\<close>

primrec base_serialize :: "endian \<Rightarrow> base_type \<Rightarrow> byte list \<Rightarrow> pval \<Rightarrow> byte list option" where
  "base_serialize e BBool buffer item =
     (case item of VBool v \<Rightarrow> Some (serialize_bool buffer v) | _ \<Rightarrow> None)"
| "base_serialize e BFloat buffer item =
     (case item of VFloat w \<Rightarrow> Some (serialize_float e buffer w) | _ \<Rightarrow> None)"
| "base_serialize e (BEnum u) buffer item =
     (case item of VInt x \<Rightarrow> Some (serialize_enum e u buffer x) | _ \<Rightarrow> None)"
| "base_serialize e (BUInt n) buffer item =
     (case item of VInt x \<Rightarrow> Some (serialize_int e (BUInt n) buffer x) | _ \<Rightarrow> None)"
| "base_serialize e (BSInt n) buffer item =
     (case item of VInt x \<Rightarrow> Some (serialize_int e (BSInt n) buffer x) | _ \<Rightarrow> None)"

primrec base_deserialize :: "endian \<Rightarrow> base_type \<Rightarrow> byte list \<Rightarrow> pval" where
  "base_deserialize e BBool buffer = VBool (deserialize_bool buffer)"
| "base_deserialize e BFloat buffer = VFloat (deserialize_float e buffer)"
| "base_deserialize e (BEnum u) buffer = VInt (deserialize_enum e u buffer)"
| "base_deserialize e (BUInt n) buffer = VInt (deserialize_int e (BUInt n) buffer)"
| "base_deserialize e (BSInt n) buffer = VInt (deserialize_int e (BSInt n) buffer)"

definition conv_base :: "endian \<Rightarrow> base_type \<Rightarrow> converter" where
  "conv_base e b =
     (let m = tr_max (base_traits b) in
     \<lparr>max_size = m, size_min = m, size_max = m, init_value = base_default b,
      serialize_at = (\<lambda>buffer item. do {
        buf \<leftarrow> base_serialize e b buffer item;
        Some (buf, m)
      }),
      deserialize = (\<lambda>buffer value.
        if length buffer < m then Some (conv_err 0 size_err, value)
        else Some (conv_ok m, base_deserialize e b (take m buffer)))\<rparr>)"

section \<open>Ranges, arrays and tuples\<close>

fun serialize_range ::
  "converter \<Rightarrow> byte list \<Rightarrow> nat \<Rightarrow> pval list \<Rightarrow> (byte list \<times> nat) option"
where
  "serialize_range sub buffer iter [] = Some (buffer, iter)"
| "serialize_range sub buffer iter (item # data) = do {
     (buffer, sub_bused) \<leftarrow> with_span iter (max_size sub) buffer (\<lambda>b. serialize_at sub b item);
     serialize_range sub buffer (iter + sub_bused) data
   }"

fun deserialize_range ::
  "converter \<Rightarrow> byte list \<Rightarrow> nat \<Rightarrow> pval list \<Rightarrow> (conversion_result \<times> pval list) option"
where
  "deserialize_range sub buffer offset [] = Some (conv_ok offset, [])"
| "deserialize_range sub buffer offset (d # data) =
     (if offset > length buffer then Some (conv_err offset size_err, d # data)
      else do {
        (sres, d') \<leftarrow> deserialize sub (drop offset buffer) d;
        (if has_error sres then Some (add_used offset sres, d' # data)
         else do {
           (res, data') \<leftarrow> deserialize_range sub buffer (offset + used sres) data;
           Some (res, d' # data')
         })
      })"

definition conv_array :: "converter \<Rightarrow> traits \<Rightarrow> nat \<Rightarrow> converter" where
  "conv_array sub tr N =
     \<lparr>max_size = tr_max tr, size_min = tr_min tr, size_max = tr_max tr,
      init_value = VArray (replicate N (init_value sub)),
      serialize_at = (\<lambda>buffer item. case item of
          VArray data \<Rightarrow> (if length data = N then do {
            (buf, total) \<leftarrow> serialize_range sub buffer 0 data;
            bused \<leftarrow> make_size (tr_min tr) (tr_max tr) total;
            Some (buf, bused)
          } else None)
        | _ \<Rightarrow> None),
      deserialize = (\<lambda>buffer value. case value of
          VArray data \<Rightarrow> (if length data = N then do {
            (res, data') \<leftarrow> deserialize_range sub buffer 0 data;
            Some (res, VArray data')
          } else None)
        | _ \<Rightarrow> None)\<rparr>"

fun serialize_tuple ::
  "converter list \<Rightarrow> byte list \<Rightarrow> nat \<Rightarrow> pval list \<Rightarrow> (byte list \<times> nat) option"
where
  "serialize_tuple [] buffer iter [] = Some (buffer, iter)"
| "serialize_tuple (sub # subs) buffer iter (item # items) = do {
     (buffer, bused) \<leftarrow> with_span iter (max_size sub) buffer (\<lambda>b. serialize_at sub b item);
     serialize_tuple subs buffer (iter + bused) items
   }"
| "serialize_tuple _ _ _ _ = None"

text \<open>\<open>until_index\<close> over the items: the first error stops the loop.\<close>

fun deserialize_tuple ::
  "converter list \<Rightarrow> byte list \<Rightarrow> nat \<Rightarrow> pval list \<Rightarrow> (conversion_result \<times> pval list) option"
where
  "deserialize_tuple [] buffer offset [] = Some (conv_ok offset, [])"
| "deserialize_tuple (sub # subs) buffer offset (v # vs) =
     (if offset > length buffer then Some (conv_err offset size_err, v # vs)
      else do {
        (sres, v') \<leftarrow> deserialize sub (drop offset buffer) v;
        (if has_error sres then Some (add_used offset sres, v' # vs)
         else do {
           (res, vs') \<leftarrow> deserialize_tuple subs buffer (offset + used sres) vs;
           Some (res, v' # vs')
         })
      })"
| "deserialize_tuple _ _ _ _ = None"

definition conv_tuple :: "converter list \<Rightarrow> traits \<Rightarrow> converter" where
  "conv_tuple subs tr =
     \<lparr>max_size = tr_max tr, size_min = tr_min tr, size_max = tr_max tr,
      init_value = VTuple (map init_value subs),
      serialize_at = (\<lambda>buffer item. case item of
          VTuple items \<Rightarrow> do {
            (buf, total) \<leftarrow> serialize_tuple subs buffer 0 items;
            bused \<leftarrow> make_size (tr_min tr) (tr_max tr) total;
            Some (buf, bused)
          }
        | _ \<Rightarrow> None),
      deserialize = (\<lambda>buffer value. case value of
          VTuple vs \<Rightarrow> do {
            (res, vs') \<leftarrow> deserialize_tuple subs buffer 0 vs;
            Some (res, VTuple vs')
          }
        | _ \<Rightarrow> None)\<rparr>"

section \<open>Variants\<close>

text \<open>The value of a variant before anything is assigned: its first alternative.\<close>

definition init_variant :: "converter list \<Rightarrow> pval" where
  "init_variant subs =
     (case subs of [] \<Rightarrow> VMonostate | sub # _ \<Rightarrow> VVariant 0 (init_value sub))"

definition conv_variant :: "endian \<Rightarrow> converter list \<Rightarrow> traits \<Rightarrow> converter" where
  "conv_variant e subs tr =
     (let idc = conv_base e (BUInt 1) in
     \<lparr>max_size = tr_max tr, size_min = tr_min tr, size_max = tr_max tr,
      init_value = init_variant subs,
      serialize_at = (\<lambda>buffer item. case item of
          VVariant I v \<Rightarrow> (if I < length subs then do {
            (buffer, _) \<leftarrow> with_span 0 (max_size idc) buffer
                 (\<lambda>b. serialize_at idc b (VInt (cast_to (BUInt 1) (int I))));
            (buffer, bused) \<leftarrow> with_span (max_size idc) (max_size (subs ! I)) buffer
                 (\<lambda>b. serialize_at (subs ! I) b v);
            Some (buffer, max_size idc + bused)
          } else None)
        | _ \<Rightarrow> None),
      deserialize = (\<lambda>buffer value. do {
          (subres, id) \<leftarrow> deserialize idc buffer (VInt 0);
          (if has_error subres then Some (subres, value)
           else do {
             sub_span \<leftarrow> subspan (max_size idc) buffer;
             (case id of VInt x \<Rightarrow>
                (if 0 \<le> x \<and> nat x < length subs then do {
                   (res, v) \<leftarrow> deserialize (subs ! nat x) sub_span (init_value (subs ! nat x));
                   Some (add_used (used subres) res, VVariant (nat x) v)
                 } else Some (conv_err 0 undefvar_err, value))
              | _ \<Rightarrow> None)
           })
        })\<rparr>)"

section \<open>Monostate, optional, bitset\<close>

definition conv_monostate :: converter where
  "conv_monostate =
     \<lparr>max_size = 0, size_min = 0, size_max = 0, init_value = VMonostate,
      serialize_at = (\<lambda>buffer item. Some (buffer, 0)),
      deserialize = (\<lambda>buffer value. Some (conv_ok 0, value))\<rparr>"

text \<open>\<open>bounded< D, Min, Max >\<close> over an integer type \<open>D\<close>.\<close>

definition conv_bounded :: "endian \<Rightarrow> base_type \<Rightarrow> int \<Rightarrow> int \<Rightarrow> traits \<Rightarrow> converter" where
  "conv_bounded e b lo hi tr =
     (let sub = conv_base e b in
     \<lparr>max_size = tr_max tr, size_min = size_min sub, size_max = size_max sub,
      init_value = VBounded lo,
      serialize_at = (\<lambda>buffer item. case item of
          VBounded x \<Rightarrow> serialize_at sub buffer (VInt x) | _ \<Rightarrow> None),
      deserialize = (\<lambda>buffer value. do {
          (subres, sub_val) \<leftarrow> deserialize sub buffer (VInt 0);
          (if has_error subres then Some (subres, value)
           else case sub_val of
               VInt x \<Rightarrow> (if x < lo \<or> x > hi then Some (conv_err 0 bounds_err, value)
                          else Some (subres, VBounded x))
             | _ \<Rightarrow> None)
        })\<rparr>)"

definition conv_optional :: "endian \<Rightarrow> converter \<Rightarrow> traits \<Rightarrow> converter" where
  "conv_optional e sub tr =
     (let pres = conv_bounded e (BUInt 1) 0 1 (bounded_traits (base_traits (BUInt 1))) in
     \<lparr>max_size = tr_max tr, size_min = tr_min tr, size_max = tr_max tr,
      init_value = VOptional None,
      serialize_at = (\<lambda>buffer item. case item of
          VOptional None \<Rightarrow>
            with_span 0 (max_size pres) buffer (\<lambda>b. serialize_at pres b (VBounded 0))
        | VOptional (Some v) \<Rightarrow> do {
            (buffer, psize) \<leftarrow>
              with_span 0 (max_size pres) buffer (\<lambda>b. serialize_at pres b (VBounded 1));
            (buffer, sused) \<leftarrow>
              with_span (max_size pres) (max_size sub) buffer (\<lambda>b. serialize_at sub b v);
            Some (buffer, psize + sused)
          }
        | _ \<Rightarrow> None),
      deserialize = (\<lambda>buffer value.
        (if length buffer < max_size pres then None
         else do {
           (subres, is_present_v) \<leftarrow> deserialize pres (take (max_size pres) buffer) (VBounded 0);
           (if has_error subres then Some (subres, value)
            else if is_present_v = VBounded 0 then Some (subres, value)
            else do {
              sub_span \<leftarrow> subspan (max_size pres) buffer;
              (res, v) \<leftarrow> deserialize sub sub_span (init_value sub);
              Some (add_used (used subres) res, VOptional (Some v))
            })
         }))\<rparr>)"

text \<open>The byte of up to eight flags, the first one in the lowest bit.\<close>

definition flags_byte :: "bool list \<Rightarrow> byte" where
  "flags_byte flags = horner_sum of_bool 2 flags"

definition bitset_serialize :: "endian \<Rightarrow> nat \<Rightarrow> nat \<Rightarrow> byte list \<Rightarrow> bool list \<Rightarrow> byte list" where
  "bitset_serialize e m N buffer item =
     fold (\<lambda>i buf. buf [bget e m i :=
             flags_byte (map (\<lambda>j. item ! (i * 8 + j)) [0..<min 8 (N - i * 8)])])
       [0..<m] buffer"

definition bitset_deserialize :: "endian \<Rightarrow> nat \<Rightarrow> nat \<Rightarrow> byte list \<Rightarrow> bool list \<Rightarrow> bool list" where
  "bitset_deserialize e m N buffer value =
     fold (\<lambda>i value.
            fold (\<lambda>j value. value [i * 8 + j := bit (buffer ! bget e m i) j])
              [0..<min 8 (N - i * 8)] value)
       [0..<m] value"

definition conv_bitset :: "endian \<Rightarrow> nat \<Rightarrow> traits \<Rightarrow> converter" where
  "conv_bitset e N tr =
     (let m = tr_max tr in
     \<lparr>max_size = m, size_min = m, size_max = m, init_value = VBitset (replicate N False),
      serialize_at = (\<lambda>buffer item. case item of
          VBitset flags \<Rightarrow> (if length flags = N then Some (bitset_serialize e m N buffer flags, m)
                             else None)
        | _ \<Rightarrow> None),
      deserialize = (\<lambda>buffer value. case value of
          VBitset flags \<Rightarrow>
            (if length buffer < m then Some (conv_err 0 size_err, value)
             else Some (conv_ok m, VBitset (bitset_deserialize e m N (take m buffer) flags)))
        | _ \<Rightarrow> None)\<rparr>)"

section \<open>Messages and strings\<close>

definition conv_message :: "endian \<Rightarrow> nat \<Rightarrow> traits \<Rightarrow> converter" where
  "conv_message e N tr =
     (let szc = conv_base e (BUInt 2) in
     \<lparr>max_size = tr_max tr, size_min = tr_min tr, size_max = tr_max tr, init_value = VMessage [],
      serialize_at = (\<lambda>buffer item. case item of
          VMessage data \<Rightarrow> do {
            (buffer, n) \<leftarrow> with_span 0 (max_size szc) buffer
                 (\<lambda>b. serialize_at szc b (VInt (cast_to (BUInt 2) (int (length data)))));
            buffer \<leftarrow> copy_n data (length data) (max_size szc) buffer;
            bused \<leftarrow> make_size (tr_min tr) (tr_max tr) (length data + n);
            Some (buffer, bused)
          }
        | _ \<Rightarrow> None),
      deserialize = (\<lambda>buffer value. do {
          (subres, sz) \<leftarrow> deserialize szc buffer (VInt 0);
          (if has_error subres then Some (subres, value)
           else case sz of
               VInt x \<Rightarrow>
                 (let size = nat x in
                  if length buffer < used subres + size then Some (conv_err (used subres) size_err, value)
                  else if size > N then Some (conv_err (used subres) bigsize_err, value)
                  else Some (conv_ok (used subres + size),
                             VMessage (take size (drop (used subres) buffer))))
             | _ \<Rightarrow> None)
        })\<rparr>)"

definition conv_sizeless :: "nat \<Rightarrow> traits \<Rightarrow> converter" where
  "conv_sizeless N tr =
     \<lparr>max_size = tr_max tr, size_min = 0, size_max = tr_max tr, init_value = VMessage [],
      serialize_at = (\<lambda>buffer item. case item of
          VMessage data \<Rightarrow> do {
            buffer \<leftarrow> copy_n data (length data) 0 buffer;
            bused \<leftarrow> make_size 0 (tr_max tr) (length data);
            Some (buffer, bused)
          }
        | _ \<Rightarrow> None),
      deserialize = (\<lambda>buffer value.
        if length buffer > N then Some (conv_err 0 bigsize_err, value)
        else Some (conv_ok (length buffer), VMessage buffer))\<rparr>"

definition conv_string :: "endian \<Rightarrow> nat \<Rightarrow> traits \<Rightarrow> converter" where
  "conv_string e N tr =
     (let ctc = conv_base e (BUInt 2) in
     \<lparr>max_size = tr_max tr, size_min = tr_min tr, size_max = tr_max tr, init_value = VString (sb_empty N),
      serialize_at = (\<lambda>buffer item. case item of
          VString data \<Rightarrow>
            (let size = sb_size data in do {
            (buffer, _) \<leftarrow> with_span 0 (max_size ctc) buffer
                 (\<lambda>b. serialize_at ctc b (VInt (cast_to (BUInt 2) (int size))));
            buffer \<leftarrow> copy_n data size (max_size ctc) buffer;
            bused \<leftarrow> make_size (tr_min tr) (tr_max tr) (size + max_size ctc);
            Some (buffer, bused)
          })
        | _ \<Rightarrow> None),
      deserialize = (\<lambda>buffer value. case value of
          VString data \<Rightarrow> do {
            (subres, sz) \<leftarrow> deserialize ctc buffer (VInt 0);
            (if has_error subres then Some (subres, value)
             else case sz of
                 VInt x \<Rightarrow>
                   (let size = nat x in
                    if length buffer < used subres + size then Some (conv_err (used subres) size_err, value)
                    else if size \<ge> N then Some (conv_err (used subres) bigsize_err, value)
                    else do {
                      data' \<leftarrow> copy_n (drop (used subres) buffer) size 0 data;
                      Some (conv_ok (used subres + size), VString data')
                    })
               | _ \<Rightarrow> None)
          }
        | _ \<Rightarrow> None)\<rparr>)"

section \<open>Wrappers of one value\<close>

text \<open>
  \<open>item + Offset\<close> and \<open>value -= Offset\<close>: types smaller than \<open>int\<close> are promoted and converted back;
  the signed types from \<open>int\<close> on must not overflow.
\<close>

definition base_add :: "base_type \<Rightarrow> int \<Rightarrow> int \<Rightarrow> int option" where
  "base_add b x y =
     (case b of
        BSInt n \<Rightarrow> (if 4 \<le> n \<and> \<not> int_in b (x + y) then None else Some (cast_to b (x + y)))
      | _ \<Rightarrow> Some (cast_to b (x + y)))"

definition conv_offset :: "endian \<Rightarrow> base_type \<Rightarrow> int \<Rightarrow> traits \<Rightarrow> converter" where
  "conv_offset e b off tr =
     (let sub = conv_base e b in
     \<lparr>max_size = tr_max tr, size_min = size_min sub, size_max = size_max sub, init_value = VInt 0,
      serialize_at = (\<lambda>buffer item. case item of
          VInt x \<Rightarrow> do { y \<leftarrow> base_add b x off; serialize_at sub buffer (VInt y) }
        | _ \<Rightarrow> None),
      deserialize = (\<lambda>buffer value. do {
          (subres, v) \<leftarrow> deserialize sub buffer value;
          (case v of VInt x \<Rightarrow> do { y \<leftarrow> base_add b x (- off); Some (subres, VInt y) } | _ \<Rightarrow> None)
        })\<rparr>)"

definition conv_quantity :: "converter \<Rightarrow> traits \<Rightarrow> converter" where
  "conv_quantity sub tr =
     \<lparr>max_size = tr_max tr, size_min = size_min sub, size_max = size_max sub,
      init_value = VQuantity (init_value sub),
      serialize_at = (\<lambda>buffer item. case item of
          VQuantity v \<Rightarrow> serialize_at sub buffer v | _ \<Rightarrow> None),
      deserialize = (\<lambda>buffer value. do {
          (sub_res, val) \<leftarrow> deserialize sub buffer (init_value sub);
          Some (sub_res, VQuantity val)
        })\<rparr>"

definition conv_duration :: "converter \<Rightarrow> traits \<Rightarrow> converter" where
  "conv_duration sub tr =
     \<lparr>max_size = tr_max tr, size_min = tr_min tr, size_max = tr_max tr,
      init_value = VDuration (init_value sub),
      serialize_at = (\<lambda>buffer item. case item of
          VDuration v \<Rightarrow> serialize_at sub buffer v | _ \<Rightarrow> None),
      deserialize = (\<lambda>buffer value. do {
          (res, rep) \<leftarrow> deserialize sub buffer (init_value sub);
          Some (res, VDuration rep)
        })\<rparr>"

section \<open>Sized buffers\<close>

text \<open>
  The counter is any definition with a number as its value; \<open>cbase\<close> is the type of that number, to
  which the size is cast.  The sum \<open>cres.used + size\<close> is one of \<open>std::size_t\<close>.
\<close>

definition conv_sized :: "base_type \<Rightarrow> converter \<Rightarrow> converter \<Rightarrow> traits \<Rightarrow> converter" where
  "conv_sized cbase cnt sub tr =
     \<lparr>max_size = tr_max tr, size_min = tr_min tr, size_max = tr_max tr,
      init_value = init_value sub,
      serialize_at = (\<lambda>buffer item. do {
          (buffer, vused) \<leftarrow> with_span (length buffer - max_size sub) (max_size sub) buffer
               (\<lambda>b. serialize_at sub b item);
          (buffer, cused) \<leftarrow> with_span 0 (max_size cnt) buffer
               (\<lambda>b. serialize_at cnt b (VInt (cast_to cbase (int vused))));
          Some (buffer, vused + cused)
        }),
      deserialize = (\<lambda>buffer value. do {
          (cres, cval) \<leftarrow> deserialize cnt buffer (VInt 0);
          (if has_error cres then Some (cres, value)
           else case cval of
               VInt x \<Rightarrow>
                 (let size = nat (x mod 2 ^ 64) in
                  if length buffer < (used cres + size) mod 2 ^ 64
                  then Some (conv_err (used cres) size_err, value)
                  else if max_size cnt + size \<le> length buffer
                  then do {
                    (subres, v) \<leftarrow> deserialize sub (take size (drop (max_size cnt) buffer)) value;
                    Some (add_used (used cres) subres, v)
                  }
                  else None)
             | _ \<Rightarrow> None)
        })\<rparr>"

section \<open>Tags and groups\<close>

definition conv_tag :: "endian \<Rightarrow> base_type \<Rightarrow> int \<Rightarrow> traits \<Rightarrow> converter" where
  "conv_tag e b V tr =
     (let sub = conv_base e b in
     \<lparr>max_size = tr_max tr, size_min = size_min sub, size_max = size_max sub, init_value = VTag,
      serialize_at = (\<lambda>buffer item. case item of
          VTag \<Rightarrow> serialize_at sub buffer (VInt V) | _ \<Rightarrow> None),
      deserialize = (\<lambda>buffer value. do {
          (subres, val) \<leftarrow> deserialize sub buffer (VInt 0);
          (if has_error subres then Some (subres, value)
           else if val \<noteq> VInt V then Some (conv_err 0 badval_err, value)
           else Some (conv_ok (used subres), value))
        })\<rparr>)"

text \<open>
  The loops of the groups, from the alternative \<open>I\<close> on.  A group takes the first alternative that
  used at least one byte; a tag group the first whose tag is read.
\<close>

fun group_loop ::
  "converter list \<Rightarrow> nat \<Rightarrow> byte list \<Rightarrow> pval \<Rightarrow> (conversion_result option \<times> pval) option"
where
  "group_loop [] I buffer value = Some (None, value)"
| "group_loop (sub # subs) I buffer value = do {
     (res, v) \<leftarrow> deserialize sub buffer (init_value sub);
     (if used res \<noteq> 0 then Some (Some res, VVariant I v)
      else group_loop subs (Suc I) buffer (VVariant I v))
   }"

definition conv_group :: "converter list \<Rightarrow> traits \<Rightarrow> converter" where
  "conv_group subs tr =
     \<lparr>max_size = tr_max tr, size_min = tr_min tr, size_max = tr_max tr,
      init_value = init_variant subs,
      serialize_at = (\<lambda>buffer item. case item of
          VVariant I v \<Rightarrow>
            (if I < length subs
             then with_span 0 (max_size (subs ! I)) buffer (\<lambda>b. serialize_at (subs ! I) b v)
             else None)
        | _ \<Rightarrow> None),
      deserialize = (\<lambda>buffer value. do {
          (match, v) \<leftarrow> group_loop subs 0 buffer value;
          (case match of Some res \<Rightarrow> Some (res, v) | None \<Rightarrow> Some (conv_err 0 group_err, v))
        })\<rparr>"

fun tag_group_loop ::
  "(converter \<times> converter) list \<Rightarrow> nat \<Rightarrow> byte list \<Rightarrow> conversion_result \<Rightarrow> pval
   \<Rightarrow> (conversion_result \<times> pval) option"
where
  "tag_group_loop [] I buffer res value = Some (res, value)"
| "tag_group_loop ((tagc, sub) # alts) I buffer res value = do {
     (tag_res, _) \<leftarrow> deserialize tagc buffer VTag;
     (if has_error tag_res then tag_group_loop alts (Suc I) buffer res value
      else do {
        sub_span \<leftarrow> subspan (used tag_res) buffer;
        (r, v) \<leftarrow> deserialize sub sub_span (init_value sub);
        Some (add_used (used tag_res) r, VVariant I v)
      })
   }"

definition conv_tag_group :: "(converter \<times> converter) list \<Rightarrow> traits \<Rightarrow> converter" where
  "conv_tag_group alts tr =
     \<lparr>max_size = tr_max tr, size_min = tr_min tr, size_max = tr_max tr,
      init_value = init_variant (map snd alts),
      serialize_at = (\<lambda>buffer item. case item of
          VVariant I v \<Rightarrow>
            (if I < length alts then (case alts ! I of (tagc, sub) \<Rightarrow> do {
               (buffer, tag_used) \<leftarrow> with_span 0 (max_size tagc) buffer
                    (\<lambda>b. serialize_at tagc b VTag);
               (buffer, sused) \<leftarrow> with_span (max_size tagc) (max_size sub) buffer
                    (\<lambda>b. serialize_at sub b v);
               Some (buffer, tag_used + sused)
             }) else None)
        | _ \<Rightarrow> None),
      deserialize = (\<lambda>buffer value. tag_group_loop alts 0 buffer \<lparr>used = 0, error = None\<rparr> value)\<rparr>"

section \<open>Error records, vectors, aggregates\<close>

definition conv_error_record :: "endian \<Rightarrow> traits \<Rightarrow> converter" where
  "conv_error_record e tr =
     (let markc = conv_string e mark_size (string_traits mark_size); offc = conv_base e (BUInt 8) in
     \<lparr>max_size = tr_max tr, size_min = tr_max tr, size_max = tr_max tr,
      init_value = VErrorRecord (sb_empty mark_size) 0,
      serialize_at = (\<lambda>buffer item. case item of
          VErrorRecord m off \<Rightarrow> do {
            (buffer, _) \<leftarrow> with_span 0 (max_size markc) buffer (\<lambda>b. serialize_at markc b (VString m));
            (buffer, _) \<leftarrow> with_span (length buffer - max_size offc) (max_size offc) buffer
                 (\<lambda>b. serialize_at offc b (VInt off));
            Some (buffer, tr_max tr)
          }
        | _ \<Rightarrow> None),
      deserialize = (\<lambda>buffer value. case value of
          VErrorRecord m off \<Rightarrow> do {
            (subres, m') \<leftarrow> deserialize markc buffer (VString m);
            (case m' of VString m' \<Rightarrow>
              (if has_error subres then Some (subres, VErrorRecord m' off)
               else do {
                 sub_span \<leftarrow> subspan (max_size markc) buffer;
                 (res, off') \<leftarrow> deserialize offc sub_span (VInt off);
                 (case off' of VInt off' \<Rightarrow> Some (res, VErrorRecord m' off') | _ \<Rightarrow> None)
               })
             | _ \<Rightarrow> None)
          }
        | _ \<Rightarrow> None)\<rparr>)"

text \<open>\<open>while ( value.size() != count && value.size() < value.max_size() ) value.emplace_back();\<close>\<close>

function vector_grow :: "nat \<Rightarrow> nat \<Rightarrow> pval \<Rightarrow> pval list \<Rightarrow> pval list" where
  "vector_grow N count d value =
     (if length value \<noteq> count \<and> length value < N then vector_grow N count d (value @ [d]) else value)"
  by pat_completeness auto
termination
  by (relation "measure (\<lambda>(N, count, d, value). N - length value)") auto

definition conv_vector :: "endian \<Rightarrow> converter \<Rightarrow> traits \<Rightarrow> nat \<Rightarrow> converter" where
  "conv_vector e sub tr N =
     (let ctc = conv_base e (BUInt 2) in
     \<lparr>max_size = tr_max tr, size_min = tr_min tr, size_max = tr_max tr, init_value = VVector [],
      serialize_at = (\<lambda>buffer item. case item of
          VVector data \<Rightarrow> do {
            (buffer, _) \<leftarrow> with_span 0 (max_size ctc) buffer
                 (\<lambda>b. serialize_at ctc b (VInt (cast_to (BUInt 2) (int (length data)))));
            (buffer, n) \<leftarrow> with_span (max_size ctc) (length buffer - max_size ctc) buffer
                 (\<lambda>b. serialize_range sub b 0 data);
            bused \<leftarrow> make_size (tr_min tr) (tr_max tr) (n + max_size ctc);
            Some (buffer, bused)
          }
        | _ \<Rightarrow> None),
      deserialize = (\<lambda>buffer value. case value of
          VVector data \<Rightarrow> do {
            (subres, cnt) \<leftarrow> deserialize ctc buffer (VInt 0);
            (if has_error subres then Some (subres, value)
             else case cnt of
                 VInt x \<Rightarrow> do {
                   sub_span \<leftarrow> subspan (max_size ctc) buffer;
                   (res, data') \<leftarrow> deserialize_range sub sub_span 0
                                     (vector_grow N (nat x) (init_value sub) data);
                   Some (add_used (max_size ctc) res, VVector data')
                 }
               | _ \<Rightarrow> None)
          }
        | _ \<Rightarrow> None)\<rparr>)"

text \<open>The backup converter: an aggregate goes through the tuple of its members.\<close>

definition conv_struct :: "converter \<Rightarrow> traits \<Rightarrow> converter" where
  "conv_struct sub tr =
     \<lparr>max_size = tr_max tr, size_min = tr_min tr, size_max = tr_max tr,
      init_value = (case init_value sub of VTuple vs \<Rightarrow> VStruct vs | v \<Rightarrow> v),
      serialize_at = (\<lambda>buffer item. case item of
          VStruct vs \<Rightarrow> serialize_at sub buffer (VTuple vs) | _ \<Rightarrow> None),
      deserialize = (\<lambda>buffer value. do {
          (subres, val) \<leftarrow> deserialize sub buffer (init_value sub);
          (if has_error subres then Some (subres, value)
           else case val of VTuple vs \<Rightarrow> Some (subres, VStruct vs) | _ \<Rightarrow> None)
        })\<rparr>"

section \<open>Selecting the converter of a definition\<close>

text \<open>The number type of a counter definition, to which \<open>sized_buffer\<close> casts the size.\<close>

fun counter_base :: "pdef \<Rightarrow> base_type" where
  "counter_base (DBase b) = b"
| "counter_base (DOffset b off) = b"
| "counter_base (DEndian e d) = counter_base d"
| "counter_base (DDef d) = counter_base d"
| "counter_base _ = BUInt 0"

fun converter_for :: "pdef \<Rightarrow> endian \<Rightarrow> converter" where
  "converter_for (DBase b) e = conv_base e b"
| "converter_for (DArray d N) e = conv_array (converter_for d e) (traits_for (DArray d N)) N"
| "converter_for (DTuple ds) e = conv_tuple (map (\<lambda>d. converter_for d e) ds) (traits_for (DTuple ds))"
| "converter_for (DVariant ds) e =
     conv_variant e (map (\<lambda>d. converter_for d e) ds) (traits_for (DVariant ds))"
| "converter_for DMonostate e = conv_monostate"
| "converter_for (DBitset N) e = conv_bitset e N (traits_for (DBitset N))"
| "converter_for (DSizeless N) e = conv_sizeless N (traits_for (DSizeless N))"
| "converter_for (DMessage N) e = conv_message e N (traits_for (DMessage N))"
| "converter_for (DOffset b off) e = conv_offset e b off (traits_for (DOffset b off))"
| "converter_for (DQuantity d) e = conv_quantity (converter_for d e) (traits_for (DQuantity d))"
| "converter_for (DBounded b lo hi) e = conv_bounded e b lo hi (traits_for (DBounded b lo hi))"
| "converter_for (DSized c d) e =
     conv_sized (counter_base c) (converter_for c e) (converter_for d e) (traits_for (DSized c d))"
| "converter_for (DTag b v) e = conv_tag e b v (traits_for (DTag b v))"
| "converter_for (DGroup ds) e = conv_group (map (\<lambda>d. converter_for d e) ds) (traits_for (DGroup ds))"
| "converter_for (DTagGroup b ids ds) e =
     conv_tag_group
       (zip (map (\<lambda>v. conv_tag e b v (tag_traits (base_traits b))) ids) (map (\<lambda>d. converter_for d e) ds))
       (traits_for (DTagGroup b ids ds))"
| "converter_for (DEndian e' d) e = converter_for d e'"
| "converter_for (DDef d) e = converter_for d e"
| "converter_for (DString N) e = conv_string e N (traits_for (DString N))"
| "converter_for (DDuration d) e = conv_duration (converter_for d e) (traits_for (DDuration d))"
| "converter_for DErrorRecord e = conv_error_record e (traits_for DErrorRecord)"
| "converter_for (DVector d N) e = conv_vector e (converter_for d e) (traits_for (DVector d N)) N"
| "converter_for (DOptional d) e = conv_optional e (converter_for d e) (traits_for (DOptional d))"
| "converter_for (DStruct ds) e =
     conv_struct (conv_tuple (map (\<lambda>d. converter_for d e) ds) (traits_for (DTuple ds)))
       (traits_for (DStruct ds))"

end
