(* ===== verification/Codec.thy ===== *)
theory Codec
  imports Converter
begin

text \<open>
  The contract between a converter and its users, and the proof that each specialisation keeps it
  when the converters it is built from do.  The contract is a locale: on the values \<open>T\<close>, the
  serialiser overwrites a prefix of its span with bytes that depend on the value alone, at most
  \<open>max_size\<close> and within the bounds of \<open>size_type\<close>, and the deserialiser reads the value back from
  these bytes and reports exactly their number.  A \<open>greedy\<close> converter (\<open>sizeless_message\<close>, and what
  ends with one) takes all the bytes it is given, so for it nothing may follow.
\<close>

declare One_nat_def [simp del]

lemma bytes_in_Nil [simp]: "bytes_in e n x = [] \<longleftrightarrow> n = 0"
  by (metis length_0_conv length_bytes_in)

section \<open>The contract\<close>

definition encodes :: "converter \<Rightarrow> pval \<Rightarrow> byte list \<Rightarrow> bool" where
  "encodes c v bs \<longleftrightarrow>
     length bs \<le> max_size c \<and> size_min c \<le> length bs \<and> length bs \<le> size_max c \<and>
     (\<forall>buf. length buf = max_size c \<longrightarrow>
        serialize_at c buf v = Some (bs @ drop (length bs) buf, length bs))"

definition decodes :: "converter \<Rightarrow> bool \<Rightarrow> pval \<Rightarrow> byte list \<Rightarrow> bool" where
  "decodes c greedy v bs \<longleftrightarrow>
     (\<forall>rest. (greedy \<longrightarrow> rest = []) \<longrightarrow>
        deserialize c (bs @ rest) (init_value c) = Some (conv_ok (length bs), v))"

text \<open>The bytes of a value: what the serialiser leaves in a zeroed span.\<close>

definition encoding :: "converter \<Rightarrow> pval \<Rightarrow> byte list" where
  "encoding c v =
     (case serialize_at c (replicate (max_size c) 0) v of
        Some (buf, n) \<Rightarrow> take n buf | None \<Rightarrow> [])"

lemma encodesD:
  assumes "encodes c v bs"
  shows "length bs \<le> max_size c" "size_min c \<le> length bs" "length bs \<le> size_max c"
    and "length buf = max_size c \<Longrightarrow> serialize_at c buf v = Some (bs @ drop (length bs) buf, length bs)"
  using assms by (auto simp: encodes_def)

lemma decodesD:
  "decodes c g v bs \<Longrightarrow> (g \<Longrightarrow> rest = []) \<Longrightarrow>
   deserialize c (bs @ rest) (init_value c) = Some (conv_ok (length bs), v)"
  by (auto simp: decodes_def)

lemma decodes_all: "decodes c g v bs \<Longrightarrow> deserialize c bs (init_value c) = Some (conv_ok (length bs), v)"
  using decodesD [of c g v bs "[]"] by simp

lemma decodes_weaken: "decodes c g v bs \<Longrightarrow> (g \<Longrightarrow> g') \<Longrightarrow> decodes c g' v bs"
  by (auto simp: decodes_def)

lemma encodes_encoding: "encodes c v bs \<Longrightarrow> encoding c v = bs"
  using encodesD(4) [of c v bs "replicate (max_size c) 0"] by (simp add: encoding_def)

lemma with_span_encodes:
  assumes "encodes c v bs" "max_size c \<le> length rest"
  shows "with_span (length pre) (max_size c) (pre @ rest) (\<lambda>b. serialize_at c b v)
           = Some (pre @ bs @ drop (length bs) rest, length bs)"
  using with_span_prefix [of "max_size c" rest bs "\<lambda>b. serialize_at c b v" "length bs" pre]
    assms encodesD [OF assms(1)] by blast

lemma with_span_encodes_first:
  assumes "encodes c v bs" "max_size c \<le> length buf"
  shows "with_span 0 (max_size c) buf (\<lambda>b. serialize_at c b v)
           = Some (bs @ drop (length bs) buf, length bs)"
  using with_span_encodes [OF assms, of "[]"] by simp

locale codec =
  fixes c :: converter and T :: "pval \<Rightarrow> bool" and greedy :: bool
  assumes codes: "T v \<Longrightarrow> \<exists>bs. encodes c v bs \<and> decodes c greedy v bs"
begin

lemma encoding_encodes: "T v \<Longrightarrow> encodes c v (encoding c v)"
  using codes encodes_encoding by blast

lemma encoding_decodes: "T v \<Longrightarrow> decodes c greedy v (encoding c v)"
  using codes encodes_encoding by blast

lemma encoding_size: "T v \<Longrightarrow> size_min c \<le> length (encoding c v) \<and> length (encoding c v) \<le> max_size c"
  using encodesD [OF encoding_encodes] by blast

text \<open>No encoding is a prefix of the encoding of another value.\<close>

lemma encoding_prefix_free:
  assumes "T v" "T w" "encoding c w = encoding c v @ rest" "greedy \<Longrightarrow> rest = []"
  shows "v = w \<and> rest = []"
proof -
  have "deserialize c (encoding c v @ rest) (init_value c) = Some (conv_ok (length (encoding c v)), v)"
    using encoding_decodes [OF assms(1)] assms(4) by (rule decodesD)
  moreover have "deserialize c (encoding c w) (init_value c) = Some (conv_ok (length (encoding c w)), w)"
    using encoding_decodes [OF assms(2)] by (rule decodes_all)
  ultimately show ?thesis using assms(3) by simp
qed

lemma encoding_inject: "T v \<Longrightarrow> T w \<Longrightarrow> encoding c v = encoding c w \<Longrightarrow> v = w"
  using encoding_prefix_free [of v w "[]"] by simp

end

lemma codecI:
  "(\<And>v. T v \<Longrightarrow> \<exists>bs. encodes c v bs \<and> decodes c g v bs) \<Longrightarrow> codec c T g"
  by unfold_locales

lemma codec_weaken:
  "codec c T g \<Longrightarrow> (\<And>v. T' v \<Longrightarrow> T v) \<Longrightarrow> (g \<Longrightarrow> g') \<Longrightarrow> codec c T' g'"
  unfolding codec_def using decodes_weaken by meson

section \<open>Base types\<close>

primrec base_typed :: "base_type \<Rightarrow> pval \<Rightarrow> bool" where
  "base_typed (BUInt n) v = (case v of VInt x \<Rightarrow> int_in (BUInt n) x | _ \<Rightarrow> False)"
| "base_typed (BSInt n) v = (case v of VInt x \<Rightarrow> int_in (BSInt n) x | _ \<Rightarrow> False)"
| "base_typed BBool v = (case v of VBool _ \<Rightarrow> True | _ \<Rightarrow> False)"
| "base_typed BFloat v = (case v of VFloat _ \<Rightarrow> True | _ \<Rightarrow> False)"
| "base_typed (BEnum u) v = (case v of VInt x \<Rightarrow> int_in u x | _ \<Rightarrow> False)"

primrec base_ok :: "base_type \<Rightarrow> bool" where
  "base_ok (BUInt n) = (0 < n)"
| "base_ok (BSInt n) = (0 < n)"
| "base_ok BBool = True"
| "base_ok BFloat = True"
| "base_ok (BEnum u) = int_base u"

primrec base_bytes :: "endian \<Rightarrow> base_type \<Rightarrow> pval \<Rightarrow> byte list" where
  "base_bytes e (BUInt n) v = (case v of VInt x \<Rightarrow> bytes_in e n x | _ \<Rightarrow> [])"
| "base_bytes e (BSInt n) v = (case v of VInt x \<Rightarrow> bytes_in e n x | _ \<Rightarrow> [])"
| "base_bytes e BBool v = (case v of VBool b \<Rightarrow> [if b then 1 else 0] | _ \<Rightarrow> [])"
| "base_bytes e BFloat v = (case v of VFloat w \<Rightarrow> bytes_in e 4 (uint w) | _ \<Rightarrow> [])"
| "base_bytes e (BEnum u) v = (case v of VInt x \<Rightarrow> bytes_in e (base_size u) x | _ \<Rightarrow> [])"

lemma int_base_ok: "int_base b \<Longrightarrow> base_ok b"
  by (cases b) auto

lemma int_base_typed: "int_base b \<Longrightarrow> base_typed b (VInt x) = int_in b x"
  by (cases b) (auto simp: int_in_def)

lemma length_base_bytes [simp]: "base_typed b v \<Longrightarrow> length (base_bytes e b v) = base_size b"
  by (cases b) (auto split: pval.splits)

lemma base_serialize_eq:
  "base_ok b \<Longrightarrow> base_typed b v \<Longrightarrow> length buf = base_size b \<Longrightarrow>
   base_serialize e b buf v = Some (base_bytes e b v)"
  by (cases b; cases v)
    (auto simp: serialize_int_eq serialize_enum_def serialize_float_eq serialize_bool_eq int_in_def
      intro: serialize_int_eq [unfolded int_in_def])

lemma base_deserialize_eq:
  "base_ok b \<Longrightarrow> base_typed b v \<Longrightarrow> base_deserialize e b (base_bytes e b v) = v"
  using serializer_roundtrip [of b] serializer_roundtrip [of "BUInt _"]
  by (cases b; cases v)
    (auto simp: deserialize_enum_def float_roundtrip bool_roundtrip
      intro: serializer_roundtrip [where b = "BUInt _", simplified]
             serializer_roundtrip [where b = "BSInt _", simplified] serializer_roundtrip)

lemma conv_base_simps [converter_simps]:
  "max_size (conv_base e b) = base_size b" "size_min (conv_base e b) = base_size b"
  "size_max (conv_base e b) = base_size b" "init_value (conv_base e b) = base_default b"
  by (simp_all add: conv_base_def base_traits_def Let_def)

lemma conv_base_encodes:
  "base_ok b \<Longrightarrow> base_typed b v \<Longrightarrow> encodes (conv_base e b) v (base_bytes e b v)"
  by (simp add: encodes_def conv_base_def base_traits_def Let_def base_serialize_eq)

lemma conv_base_deserialize:
  "base_ok b \<Longrightarrow> base_typed b v \<Longrightarrow>
   deserialize (conv_base e b) (base_bytes e b v @ rest) w = Some (conv_ok (base_size b), v)"
  by (simp add: conv_base_def base_traits_def Let_def base_deserialize_eq)

lemma conv_base_deserialize_short:
  "length buf < base_size b \<Longrightarrow> deserialize (conv_base e b) buf w = Some (conv_err 0 size_err, w)"
  by (simp add: conv_base_def base_traits_def Let_def)

lemma codec_base [codec_intros]: "base_ok b \<Longrightarrow> codec (conv_base e b) (base_typed b) False"
  by (rule codecI) (use conv_base_encodes conv_base_deserialize in \<open>fastforce simp: decodes_def\<close>)

section \<open>Arrays and tuples\<close>

text \<open>One value: its bytes are written and read back.\<close>

definition codes_val :: "converter \<Rightarrow> bool \<Rightarrow> pval \<Rightarrow> bool" where
  "codes_val c g v \<longleftrightarrow> encodes c v (encoding c v) \<and> decodes c g v (encoding c v)"

lemma codec_codes_val: "codec c T g \<Longrightarrow> T v \<Longrightarrow> codes_val c g v"
  by (simp add: codes_val_def codec.encoding_encodes codec.encoding_decodes)

lemma codecI_val: "(\<And>v. T v \<Longrightarrow> codes_val c g v) \<Longrightarrow> codec c T g"
  by (rule codecI) (auto simp: codes_val_def)

lemma codes_valI: "encodes c v bs \<Longrightarrow> decodes c g v bs \<Longrightarrow> codes_val c g v"
  by (simp add: codes_val_def encodes_encoding)

lemma codes_val_encodes: "codes_val c g v \<Longrightarrow> encodes c v (encoding c v)"
  and codes_val_decodes: "codes_val c g v \<Longrightarrow> decodes c g v (encoding c v)"
  by (simp_all add: codes_val_def)

definition tuple_bytes :: "converter list \<Rightarrow> pval list \<Rightarrow> byte list" where
  "tuple_bytes subs vs = concat (map2 encoding subs vs)"

lemma tuple_bytes_simps [simp]:
  "tuple_bytes [] vs = []" "tuple_bytes (c # subs) (v # vs) = encoding c v @ tuple_bytes subs vs"
  by (simp_all add: tuple_bytes_def)

lemma serialize_tuple_encodes:
  assumes "list_all2 (\<lambda>c v. encodes c v (encoding c v)) subs vs"
    and "sum_list (map max_size subs) \<le> length rest"
  shows "serialize_tuple subs (pre @ rest) (length pre) vs
    = Some (pre @ tuple_bytes subs vs @ drop (length (tuple_bytes subs vs)) rest,
            length pre + length (tuple_bytes subs vs))"
  using assms
proof (induction subs vs arbitrary: pre rest rule: list_all2_induct)
  case (Cons c subs v vs)
  let ?bs = "encoding c v"
  have "length ?bs \<le> max_size c" using Cons.hyps(1) by (rule encodesD)
  then have "sum_list (map max_size subs) \<le> length (drop (length ?bs) rest)"
    using Cons.prems by simp
  from Cons.IH [OF this, of "pre @ ?bs"]
  show ?case
    using with_span_encodes [OF Cons.hyps(1), of rest pre] Cons.prems
    by (simp add: add.commute add.left_commute)
qed simp

lemma tuple_bytes_length:
  assumes "list_all2 (\<lambda>c v. encodes c v (encoding c v)) subs vs"
  shows "sum_list (map size_min subs) \<le> length (tuple_bytes subs vs)"
    and "length (tuple_bytes subs vs) \<le> sum_list (map max_size subs)"
  using assms
proof (induction rule: list_all2_induct)
  case (Cons c subs v vs)
  note l = encodesD(1,2) [OF Cons.hyps(1)]
  case 1 show ?case using l Cons.IH by simp
  case 2 show ?case using l Cons.IH by simp
qed auto

lemma deserialize_tuple_decodes:
  assumes "list_all2 (\<lambda>(c, g) v. decodes c g v (encoding c v)) cgs vs"
    and "True \<notin> set (butlast (map snd cgs))"
    and "cgs \<noteq> [] \<Longrightarrow> snd (last cgs) \<Longrightarrow> rest = []"
  shows "deserialize_tuple (map fst cgs) (pre @ tuple_bytes (map fst cgs) vs @ rest) (length pre)
      (map (init_value \<circ> fst) cgs)
    = Some (conv_ok (length pre + length (tuple_bytes (map fst cgs) vs)), vs)"
  using assms
proof (induction cgs vs arbitrary: pre rule: list_all2_induct)
  case (Cons cg cgs v vs)
  obtain c g where cg: "cg = (c, g)" by (cases cg)
  let ?bs = "encoding c v"
  have g: "tuple_bytes (map fst cgs) vs @ rest = []" if "g"
  proof -
    have "cgs = []"
      using Cons.prems(1) that cg by (cases cgs) auto
    then show ?thesis using Cons.prems(2) that cg by simp
  qed
  have "deserialize c (?bs @ tuple_bytes (map fst cgs) vs @ rest) (init_value c)
      = Some (conv_ok (length ?bs), v)"
    using Cons.hyps(1) cg g by (auto intro: decodesD)
  moreover have "deserialize_tuple (map fst cgs) ((pre @ ?bs) @ tuple_bytes (map fst cgs) vs @ rest)
      (length (pre @ ?bs)) (map (init_value \<circ> fst) cgs)
    = Some (conv_ok (length (pre @ ?bs) + length (tuple_bytes (map fst cgs) vs)), vs)"
  proof (rule Cons.IH)
    show "True \<notin> set (butlast (map snd cgs))"
      using Cons.prems(1) by (cases cgs) auto
    show "cgs \<noteq> [] \<Longrightarrow> snd (last cgs) \<Longrightarrow> rest = []"
      using Cons.prems(2) by simp
  qed
  ultimately show ?case by (simp add: cg add.assoc comp_def)
qed simp

lemma make_size_Some [simp]: "lo \<le> n \<Longrightarrow> n \<le> hi \<Longrightarrow> make_size lo hi n = Some n"
  by (simp add: make_size_def)

lemma conv_tuple_simps [converter_simps]:
  "max_size (conv_tuple subs tr) = tr_max tr" "size_min (conv_tuple subs tr) = tr_min tr"
  "size_max (conv_tuple subs tr) = tr_max tr" "init_value (conv_tuple subs tr) = VTuple (map init_value subs)"
  by (simp_all add: conv_tuple_def)

definition tuple_greedy :: "bool list \<Rightarrow> bool" where
  "tuple_greedy gs \<longleftrightarrow> gs \<noteq> [] \<and> last gs"

lemma conv_tuple_codes:
  assumes vals: "list_all2 (\<lambda>(c, g) v. codes_val c g v) cgs vs"
    and "True \<notin> set (butlast (map snd cgs))"
    and tr: "tr_max tr = sum_list (map (max_size \<circ> fst) cgs)"
      "tr_min tr \<le> sum_list (map (size_min \<circ> fst) cgs)"
  shows "encodes (conv_tuple (map fst cgs) tr) (VTuple vs) (tuple_bytes (map fst cgs) vs)"
    and "decodes (conv_tuple (map fst cgs) tr) (tuple_greedy (map snd cgs)) (VTuple vs)
           (tuple_bytes (map fst cgs) vs)"
proof -
  let ?subs = "map fst cgs"
  have enc: "list_all2 (\<lambda>c v. encodes c v (encoding c v)) ?subs vs"
    and dec: "list_all2 (\<lambda>(c, g) v. decodes c g v (encoding c v)) cgs vs"
    using vals by (auto simp: list_all2_conv_all_nth codes_val_def split_beta)
  note len = tuple_bytes_length [OF enc]
  have *: "serialize_tuple ?subs buf 0 vs
      = Some (tuple_bytes ?subs vs @ drop (length (tuple_bytes ?subs vs)) buf,
              length (tuple_bytes ?subs vs))"
    if "length buf = tr_max tr" for buf
    using serialize_tuple_encodes [OF enc, of buf "[]"] that tr by (simp add: comp_def)
  have size: "make_size (tr_min tr) (tr_max tr) (length (tuple_bytes ?subs vs))
      = Some (length (tuple_bytes ?subs vs))"
    using len tr by (intro make_size_Some) (simp_all add: comp_def)
  have "tr_min tr \<le> length (tuple_bytes ?subs vs)" "length (tuple_bytes ?subs vs) \<le> tr_max tr"
    using len tr by (simp_all add: comp_def)
  then show "encodes (conv_tuple ?subs tr) (VTuple vs) (tuple_bytes ?subs vs)"
    by (simp add: encodes_def conv_tuple_def * size)
  have "deserialize_tuple ?subs (tuple_bytes ?subs vs @ rest) 0 (map init_value ?subs)
      = Some (conv_ok (length (tuple_bytes ?subs vs)), vs)"
    if "tuple_greedy (map snd cgs) \<longrightarrow> rest = []" for rest
    using deserialize_tuple_decodes [OF dec assms(2), of rest "[]"] that
    by (auto simp: tuple_greedy_def last_map comp_def)
  then show "decodes (conv_tuple ?subs tr) (tuple_greedy (map snd cgs)) (VTuple vs) (tuple_bytes ?subs vs)"
    by (simp add: decodes_def conv_tuple_def comp_def)
qed

definition tuple_typed :: "(pval \<Rightarrow> bool) list \<Rightarrow> pval list \<Rightarrow> bool" where
  "tuple_typed Ts vs \<longleftrightarrow> list_all2 (\<lambda>T v. T v) Ts vs"

lemma tuple_typed_codes:
  assumes "tuple_typed Ts vs" "length Ts = length subs" "length gs = length subs"
    and "\<And>i. i < length subs \<Longrightarrow> codec (subs ! i) (Ts ! i) (gs ! i)"
  shows "list_all2 (\<lambda>(c, g) v. codes_val c g v) (zip subs gs) vs"
  using assms codec_codes_val
  by (fastforce simp: list_all2_conv_all_nth tuple_typed_def)

lemma codec_tuple [codec_intros]:
  assumes "length Ts = length subs" "length gs = length subs"
    and "\<And>i. i < length subs \<Longrightarrow> codec (subs ! i) (Ts ! i) (gs ! i)"
    and "True \<notin> set (butlast gs)"
    and "tr_max tr = sum_list (map max_size subs)" "tr_min tr \<le> sum_list (map size_min subs)"
  shows "codec (conv_tuple subs tr) (\<lambda>v. case v of VTuple vs \<Rightarrow> tuple_typed Ts vs | _ \<Rightarrow> False)
           (tuple_greedy gs)"
proof (rule codecI)
  fix v assume "case v of VTuple vs \<Rightarrow> tuple_typed Ts vs | _ \<Rightarrow> False"
  then obtain vs where v: "v = VTuple vs" and T: "tuple_typed Ts vs"
    by (auto split: pval.splits)
  have maps: "map fst (zip subs gs) = subs" "map snd (zip subs gs) = gs"
    using assms(2) by simp_all
  then have maps': "map (f \<circ> fst) (zip subs gs) = map f subs" for f :: "converter \<Rightarrow> nat"
    by (metis map_map)
  show "\<exists>bs. encodes (conv_tuple subs tr) v bs \<and> decodes (conv_tuple subs tr) (tuple_greedy gs) v bs"
    using conv_tuple_codes [OF tuple_typed_codes [OF T assms(1-3)], of tr] assms(4-6)
    by (auto simp: maps maps' v simp del: map_map)
qed

lemma serialize_range_tuple:
  "serialize_range sub buf iter data = serialize_tuple (replicate (length data) sub) buf iter data"
  by (induction data arbitrary: buf iter) simp_all

lemma deserialize_range_tuple:
  "deserialize_range sub buf off data = deserialize_tuple (replicate (length data) sub) buf off data"
  by (induction data arbitrary: off) (simp_all cong: if_cong)

lemma conv_array_simps [converter_simps]:
  "max_size (conv_array sub tr N) = tr_max tr" "size_min (conv_array sub tr N) = tr_min tr"
  "size_max (conv_array sub tr N) = tr_max tr"
  "init_value (conv_array sub tr N) = VArray (replicate N (init_value sub))"
  by (simp_all add: conv_array_def)

text \<open>What the tuple lemmas say of \<open>n\<close> equal converters.\<close>

lemma replicate_codes:
  assumes "codec sub T False" "\<forall>v \<in> set data. T v"
  shows "list_all2 (\<lambda>c v. encodes c v (encoding c v)) (replicate (length data) sub) data"
    and "list_all2 (\<lambda>(c, g) v. decodes c g v (encoding c v)) (replicate (length data) (sub, False)) data"
  using assms by (auto simp: list_all2_conv_all_nth codec.encoding_encodes codec.encoding_decodes)

lemma serialize_range_encodes:
  assumes "codec sub T False" "\<forall>v \<in> set data. T v" "length data * max_size sub \<le> length rest"
  shows "serialize_range sub rest 0 data
    = Some (tuple_bytes (replicate (length data) sub) data
              @ drop (length (tuple_bytes (replicate (length data) sub) data)) rest,
            length (tuple_bytes (replicate (length data) sub) data))"
  using serialize_tuple_encodes [OF replicate_codes(1) [OF assms(1,2)], of rest "[]"] assms(3)
  by (simp add: serialize_range_tuple)

lemma deserialize_range_decodes:
  assumes "codec sub T False" "\<forall>v \<in> set data. T v"
  shows "deserialize_range sub (tuple_bytes (replicate (length data) sub) data @ rest) 0
           (replicate (length data) (init_value sub))
    = Some (conv_ok (length (tuple_bytes (replicate (length data) sub) data)), data)"
  using deserialize_tuple_decodes [OF replicate_codes(2) [OF assms], of rest "[]"]
  by (simp add: deserialize_range_tuple map_replicate_const comp_def butlast_conv_take)

lemma range_bytes_length:
  assumes "codec sub T False" "\<forall>v \<in> set data. T v"
  shows "length data * size_min sub \<le> length (tuple_bytes (replicate (length data) sub) data)"
    and "length (tuple_bytes (replicate (length data) sub) data) \<le> length data * max_size sub"
  using tuple_bytes_length [OF replicate_codes(1) [OF assms]] by simp_all

lemma conv_array_encodes:
  assumes sub: "codec sub T False" and T: "length vs = N" "\<forall>x \<in> set vs. T x"
    and tr: "tr_max tr = max_size sub * N" "tr_min tr \<le> size_min sub * N"
  shows "encodes (conv_array sub tr N) (VArray vs) (tuple_bytes (replicate N sub) vs)"
proof -
  let ?bs = "tuple_bytes (replicate N sub) vs"
  have len: "tr_min tr \<le> length ?bs" "length ?bs \<le> tr_max tr"
    using range_bytes_length [OF sub T(2)] tr T(1) by (simp_all add: mult.commute)
  then show ?thesis
    using serialize_range_encodes [OF sub T(2)] T(1) tr
    by (simp add: encodes_def conv_array_def mult.commute)
qed

lemma codec_array [codec_intros]:
  assumes sub: "codec sub T False"
    and tr: "tr_max tr = max_size sub * N" "tr_min tr \<le> size_min sub * N"
  shows "codec (conv_array sub tr N)
           (\<lambda>v. case v of VArray vs \<Rightarrow> length vs = N \<and> (\<forall>x \<in> set vs. T x) | _ \<Rightarrow> False) False"
proof (rule codecI)
  fix v assume "case v of VArray vs \<Rightarrow> length vs = N \<and> (\<forall>x \<in> set vs. T x) | _ \<Rightarrow> False"
  then obtain vs where v: "v = VArray vs" and N: "length vs = N" and T: "\<forall>x \<in> set vs. T x"
    by (auto split: pval.splits)
  have "decodes (conv_array sub tr N) False v (tuple_bytes (replicate N sub) vs)"
    using deserialize_range_decodes [OF sub T] N
    by (simp add: decodes_def conv_array_def v)
  then show "\<exists>bs. encodes (conv_array sub tr N) v bs \<and> decodes (conv_array sub tr N) False v bs"
    using conv_array_encodes [OF sub N T tr] v by blast
qed

section \<open>Two parts, one after the other\<close>

lemma with_span_second:
  assumes "encodes c v bs" "length pre = off" "off + max_size c \<le> length buf"
  shows "with_span off (max_size c) (pre @ drop off buf) (\<lambda>b. serialize_at c b v)
    = Some ((pre @ bs) @ drop (off + length bs) buf, length bs)"
  using with_span_encodes [OF assms(1), of "drop off buf" pre] assms(2,3) by (simp add: add.commute)

lemma conv_base_encodes_int:
  "int_base b \<Longrightarrow> int_in b x \<Longrightarrow> encodes (conv_base e b) (VInt x) (bytes_in e (base_size b) x)"
  using conv_base_encodes [of b "VInt x" e] int_base_ok [of b] int_base_typed [of b x]
  by (cases b) auto

lemma conv_base_deserialize_int:
  "int_base b \<Longrightarrow> int_in b x \<Longrightarrow>
   deserialize (conv_base e b) (bytes_in e (base_size b) x @ rest) w = Some (conv_ok (base_size b), VInt x)"
  using conv_base_deserialize [of b "VInt x" e rest w] int_base_ok [of b] int_base_typed [of b x]
  by (cases b) auto

lemma int_in_nat: "int k < 2 ^ (8 * n) \<Longrightarrow> int_in (BUInt n) (int k)"
  by (simp add: int_in_unsigned)

lemma cast_int_in: "int_in b x \<Longrightarrow> cast_to b x = x"
  by (simp add: int_in_def)

section \<open>Variants\<close>

lemma conv_variant_simps [converter_simps]:
  "max_size (conv_variant e subs tr) = tr_max tr" "size_min (conv_variant e subs tr) = tr_min tr"
  "size_max (conv_variant e subs tr) = tr_max tr" "init_value (conv_variant e subs tr) = init_variant subs"
  by (simp_all add: conv_variant_def Let_def)

definition variant_typed :: "(pval \<Rightarrow> bool) list \<Rightarrow> pval \<Rightarrow> bool" where
  "variant_typed Ts v = (case v of VVariant I x \<Rightarrow> I < length Ts \<and> (Ts ! I) x | _ \<Rightarrow> False)"

lemma codec_variant [codec_intros]:
  assumes "length Ts = length subs" "length subs < 255"
    and "\<And>i. i < length subs \<Longrightarrow> codec (subs ! i) (Ts ! i) g"
    and tr: "\<And>i. i < length subs \<Longrightarrow> 1 + max_size (subs ! i) \<le> tr_max tr"
      "\<And>i. i < length subs \<Longrightarrow> tr_min tr \<le> 1 + size_min (subs ! i)"
  shows "codec (conv_variant e subs tr) (variant_typed Ts) g"
proof (rule codecI)
  fix v assume "variant_typed Ts v"
  then obtain I x where v: "v = VVariant I x" and I: "I < length subs" and T: "(Ts ! I) x"
    using assms(1) by (auto simp: variant_typed_def split: pval.splits)
  let ?c = "subs ! I" and ?id = "bytes_in e 1 (int I)" and ?idc = "conv_base e (BUInt 1)"
  let ?bs = "encoding ?c x"
  note sub = codec.encoding_encodes [OF assms(3) [OF I] T] codec.encoding_decodes [OF assms(3) [OF I] T]
  have idx: "int_in (BUInt 1) (int I)" using I assms(2) by (intro int_in_nat) simp
  have idc: "take_bit 8 (int I) = int I" using idx by (simp add: int_in_def)
  have id: "encodes ?idc (VInt (int I)) ?id"
    using conv_base_encodes_int [of "BUInt 1" "int I" e] idx by simp
  have id_dec: "deserialize ?idc (?id @ rest) w = Some (conv_ok 1, VInt (int I))" for rest w
    using conv_base_deserialize_int [of "BUInt 1" "int I" e] idx by simp
  note sz = tr(1) [OF I] tr(2) [OF I] encodesD(1,2) [OF sub(1)]
  have "serialize_at (conv_variant e subs tr) buf v
      = Some ((?id @ ?bs) @ drop (length (?id @ ?bs)) buf, length (?id @ ?bs))"
    if "length buf = tr_max tr" for buf
    using with_span_encodes_first [OF id, of buf] with_span_second [OF sub(1), of ?id 1 buf] that sz I
    by (simp add: conv_variant_def v converter_simps idc Let_def)
  then have "encodes (conv_variant e subs tr) v (?id @ ?bs)"
    using sz by (simp add: encodes_def converter_simps)
  moreover have "decodes (conv_variant e subs tr) g v (?id @ ?bs)"
    using id_dec decodesD [OF sub(2)] I
    by (simp add: decodes_def conv_variant_def v converter_simps subspan_def Let_def)
  ultimately show "\<exists>bs. encodes (conv_variant e subs tr) v bs \<and> decodes (conv_variant e subs tr) g v bs"
    by blast
qed

section \<open>Monostate, bounded, optional\<close>

lemma codec_monostate [codec_intros]:
  "codec conv_monostate (\<lambda>v. v = VMonostate) False"
  by (rule codecI) (auto simp: encodes_def decodes_def conv_monostate_def)

lemma conv_monostate_simps [converter_simps]:
  "max_size conv_monostate = 0" "size_min conv_monostate = 0" "size_max conv_monostate = 0"
  "init_value conv_monostate = VMonostate"
  by (simp_all add: conv_monostate_def)

lemma conv_bounded_simps [converter_simps]:
  "max_size (conv_bounded e b lo hi tr) = tr_max tr" "size_min (conv_bounded e b lo hi tr) = base_size b"
  "size_max (conv_bounded e b lo hi tr) = base_size b"
  "init_value (conv_bounded e b lo hi tr) = VBounded lo"
  by (simp_all add: conv_bounded_def Let_def converter_simps)

definition bounded_typed :: "base_type \<Rightarrow> int \<Rightarrow> int \<Rightarrow> pval \<Rightarrow> bool" where
  "bounded_typed b lo hi v = (case v of VBounded x \<Rightarrow> lo \<le> x \<and> x \<le> hi \<and> int_in b x | _ \<Rightarrow> False)"

lemma conv_bounded_codes:
  assumes "int_base b" "int_in b x" "lo \<le> x" "x \<le> hi" "tr_max tr = base_size b"
  shows "encodes (conv_bounded e b lo hi tr) (VBounded x) (bytes_in e (base_size b) x)"
    and "deserialize (conv_bounded e b lo hi tr) (bytes_in e (base_size b) x @ rest) w
           = Some (conv_ok (base_size b), VBounded x)"
  using conv_base_encodes_int [OF assms(1,2), of e] conv_base_deserialize_int [OF assms(1,2), of e] assms
  by (auto simp: encodes_def conv_bounded_def Let_def converter_simps)

lemma codec_bounded [codec_intros]:
  assumes "int_base b" "tr_max tr = base_size b"
  shows "codec (conv_bounded e b lo hi tr) (bounded_typed b lo hi) False"
proof (rule codecI)
  fix v assume "bounded_typed b lo hi v"
  then obtain x where "v = VBounded x" "lo \<le> x" "x \<le> hi" "int_in b x"
    by (auto simp: bounded_typed_def split: pval.splits)
  with conv_bounded_codes [OF assms(1) _ _ _ assms(2), of x lo hi e]
  show "\<exists>bs. encodes (conv_bounded e b lo hi tr) v bs \<and> decodes (conv_bounded e b lo hi tr) False v bs"
    by (intro exI [of _ "bytes_in e (base_size b) x"]) (auto simp: decodes_def)
qed

lemma conv_optional_simps [converter_simps]:
  "max_size (conv_optional e sub tr) = tr_max tr" "size_min (conv_optional e sub tr) = tr_min tr"
  "size_max (conv_optional e sub tr) = tr_max tr" "init_value (conv_optional e sub tr) = VOptional None"
  by (simp_all add: conv_optional_def Let_def)

definition optional_typed :: "(pval \<Rightarrow> bool) \<Rightarrow> pval \<Rightarrow> bool" where
  "optional_typed T v =
     (case v of VOptional None \<Rightarrow> True | VOptional (Some x) \<Rightarrow> T x | _ \<Rightarrow> False)"

lemma take_first_byte: "length bs = 1 \<Longrightarrow> take 1 (bs @ rest) = bs"
  by simp

lemma codec_optional [codec_intros]:
  assumes sub: "codec sub T g" and tr: "tr_max tr = 1 + max_size sub" "tr_min tr \<le> 1"
  shows "codec (conv_optional e sub tr) (optional_typed T) g"
proof (rule codecI)
  fix v assume typed: "optional_typed T v"
  let ?ptr = "bounded_traits (base_traits (BUInt 1))"
  let ?pres = "conv_bounded e (BUInt 1) 0 1 ?ptr"
  have ptr: "tr_max ?ptr = 1" by (simp add: bounded_traits_def base_traits_def)
  have pres: "encodes ?pres (VBounded x) (bytes_in e 1 x)"
    "deserialize ?pres (bytes_in e 1 x @ rest) w = Some (conv_ok 1, VBounded x)"
    if "x = 0 \<or> x = 1" for x rest w
    using conv_bounded_codes [of "BUInt 1" x 0 1 ?ptr e] that ptr by (auto simp: int_in_unsigned)
  have pres': "deserialize ?pres (bytes_in e 1 x) w = Some (conv_ok 1, VBounded x)"
    if "x = 0 \<or> x = 1" for x w
    using pres(2) [OF that, of "[]"] by simp
  consider "v = VOptional None" | x where "v = VOptional (Some x)" "T x"
    using typed by (auto simp: optional_typed_def split: pval.splits option.splits)
  then show "\<exists>bs. encodes (conv_optional e sub tr) v bs \<and> decodes (conv_optional e sub tr) g v bs"
  proof cases
    case 1
    have "encodes (conv_optional e sub tr) v (bytes_in e 1 0)"
      using with_span_encodes_first [OF pres(1) [of 0]] tr
      by (simp add: encodes_def conv_optional_def converter_simps ptr 1 Let_def)
    moreover have "decodes (conv_optional e sub tr) g v (bytes_in e 1 0)"
      using pres' [of 0] by (simp add: decodes_def conv_optional_def converter_simps ptr 1 Let_def)
    ultimately show ?thesis by blast
  next
    case (2 x)
    let ?bs = "encoding sub x"
    note code = codec.encoding_encodes [OF sub 2(2)] codec.encoding_decodes [OF sub 2(2)]
    note sz = encodesD(1) [OF code(1)]
    have "serialize_at (conv_optional e sub tr) buf v
        = Some ((bytes_in e 1 1 @ ?bs) @ drop (length (bytes_in e 1 1 @ ?bs)) buf,
                length (bytes_in e 1 1 @ ?bs))"
      if "length buf = tr_max tr" for buf
      using with_span_encodes_first [OF pres(1) [of 1], of buf] that tr sz
        with_span_second [OF code(1), of "bytes_in e 1 1" 1 buf]
      by (simp add: conv_optional_def 2(1) converter_simps ptr Let_def)
    then have "encodes (conv_optional e sub tr) v (bytes_in e 1 1 @ ?bs)"
      using sz tr by (simp add: encodes_def converter_simps)
    moreover have "decodes (conv_optional e sub tr) g v (bytes_in e 1 1 @ ?bs)"
      using pres' [of 1] decodesD [OF code(2)]
      by (simp add: decodes_def conv_optional_def converter_simps ptr 2(1) subspan_def Let_def)
    ultimately show ?thesis by blast
  qed
qed

section \<open>Bitsets\<close>

lemma div8_iff: "(k * 8 \<le> idx \<and> idx < k * 8 + 8) \<longleftrightarrow> idx div 8 = (k :: nat)"
  by auto
lemma min_add_less: "a < b + min c (d :: nat) \<longleftrightarrow> a < b + c \<and> a < b + d"
  by (auto simp: min_def)
lemma chunk_iff:
  "idx < N \<Longrightarrow> (k * 8 \<le> idx \<and> idx < k * 8 + min 8 (N - k * 8)) \<longleftrightarrow> idx div 8 = (k :: nat)"
  unfolding min_add_less div8_iff [symmetric] by auto
lemma chunk_index:
  assumes "idx < N"
  shows "idx div 8 < (N + 7) div 8" and "idx mod 8 < min 8 (N - idx div 8 * (8 :: nat))"
proof -
  show "idx div 8 < (N + 7) div 8" using assms by linarith
  have "idx = idx div 8 * 8 + idx mod 8" by simp
  then have "idx mod 8 < N - idx div 8 * 8" using assms by linarith
  then show "idx mod 8 < min 8 (N - idx div 8 * 8)" by simp
qed

lemma fold_bget_update:
  fixes f :: "nat \<Rightarrow> byte"
  assumes "k \<le> m" "length buf = m"
  shows "length (fold (\<lambda>i b. b [bget e m i := f i]) [0..<k] buf) = m"
    and "\<forall>i < k. fold (\<lambda>i b. b [bget e m i := f i]) [0..<k] buf ! bget e m i = f i"
  using assms
proof (induction k)
  case (Suc k)
  case 1 then show ?case using Suc by simp
  case 2 then show ?case
    using Suc by (auto simp: nth_list_update less_Suc_eq bget_less bget_eq_iff)
qed simp_all

lemma fold_bget_update_eq:
  fixes f :: "nat \<Rightarrow> byte"
  assumes "length buf = m"
  shows "fold (\<lambda>i b. b [bget e m i := f i]) [0..<m] buf
    = (if e = Big then map f [0..<m] else rev (map f [0..<m]))"
  by (rule list_eq_by_bget [where e = e and n = m])
    (use fold_bget_update [OF order.refl assms] in \<open>auto simp: bget_def rev_nth\<close>)

lemma fold_update_range:
  assumes "off + k \<le> length v"
  shows "length (fold (\<lambda>j v. v [off + j := g j]) [0..<k] v) = length v"
    and "idx < length v \<Longrightarrow> fold (\<lambda>j v. v [off + j := g j]) [0..<k] v ! idx
      = (if off \<le> idx \<and> idx < off + k then g (idx - off) else v ! idx)"
  using assms by (induction k) (auto simp: nth_list_update)

text \<open>The flag \<open>idx\<close> is the bit \<open>idx mod 8\<close> of the byte \<open>idx div 8\<close>.\<close>

lemma bitset_deserialize_loop:
  assumes "length value = N"
  shows "length (fold (\<lambda>i value. fold (\<lambda>j value. value [i * 8 + j := bit (buffer ! bget e m i) j])
            [0..<min 8 (N - i * 8)] value) [0..<k] value) = N"
    and "idx < N \<Longrightarrow> fold (\<lambda>i value. fold (\<lambda>j value. value [i * 8 + j := bit (buffer ! bget e m i) j])
            [0..<min 8 (N - i * 8)] value) [0..<k] value ! idx
      = (if idx div 8 < k then bit (buffer ! bget e m (idx div 8)) (idx mod 8) else value ! idx)"
proof (induction k)
  case 0
  case 1 show ?case using assms by simp
  case 2 show ?case by simp
next
  case (Suc k)
  let ?v = "fold (\<lambda>i value. fold (\<lambda>j value. value [i * 8 + j := bit (buffer ! bget e m i) j])
            [0..<min 8 (N - i * 8)] value) [0..<k] value"
  let ?w = "fold (\<lambda>j value. value [k * 8 + j := bit (buffer ! bget e m k) j]) [0..<min 8 (N - k * 8)] ?v"
  have le: "k * 8 + min 8 (N - k * 8) \<le> length ?v \<or> min 8 (N - k * 8) = 0"
    using Suc.IH(1) by auto
  have len: "length ?w = N"
    using le
  proof
    assume "k * 8 + min 8 (N - k * 8) \<le> length ?v"
    then show ?thesis using Suc.IH(1) by (simp add: fold_update_range(1))
  qed (use Suc.IH(1) in simp)
  case 1 show ?case using len by simp
  case 2
  have "?w ! idx = (if k * 8 \<le> idx \<and> idx < k * 8 + min 8 (N - k * 8)
      then bit (buffer ! bget e m k) (idx - k * 8) else ?v ! idx)"
  proof (cases "min 8 (N - k * 8) = 0")
    case False
    then show ?thesis
      using le fold_update_range(2) [of "k * 8" "min 8 (N - k * 8)" ?v idx "bit (buffer ! bget e m k)"]
        Suc.IH(1) 2 by simp
  qed (auto simp: min_def)
  moreover note chunk_iff [OF 2, of k]
  moreover have "idx div 8 = k \<Longrightarrow> idx - k * 8 = idx mod 8"
    by (simp add: modulo_nat_def)
  ultimately have w: "?w ! idx = (if idx div 8 = k then bit (buffer ! bget e m k) (idx mod 8) else ?v ! idx)"
    by (cases "idx div 8 = k") (simp_all only: if_True if_False simp_thms)
  have fold_Suc: "fold (\<lambda>i value. fold (\<lambda>j value. value [i * 8 + j := bit (buffer ! bget e m i) j])
            [0..<min 8 (N - i * 8)] value) [0..<Suc k] value = ?w"
    by simp
  show ?case
  proof (cases "idx div 8 = k")
    case True
    then have "idx div 8 < Suc k" by simp
    with True w show ?thesis unfolding fold_Suc by (simp only: refl if_True)
  next
    case False
    then have "(idx div 8 < Suc k) = (idx div 8 < k)" by auto
    with False w Suc.IH(2) [OF 2] show ?thesis unfolding fold_Suc by (simp only: if_False)
  qed
qed

definition bitset_bytes :: "endian \<Rightarrow> nat \<Rightarrow> bool list \<Rightarrow> byte list" where
  "bitset_bytes e m flags =
     (let bs = map (\<lambda>i. flags_byte (map (\<lambda>j. flags ! (i * 8 + j)) [0..<min 8 (length flags - i * 8)])) [0..<m]
      in if e = Big then bs else rev bs)"

lemma length_bitset_bytes [simp]: "length (bitset_bytes e m flags) = m"
  by (simp add: bitset_bytes_def Let_def)

lemma bitset_serialize_eq:
  "length buf = m \<Longrightarrow> bitset_serialize e m (length flags) buf flags = bitset_bytes e m flags"
  by (simp add: bitset_serialize_def fold_bget_update_eq bitset_bytes_def Let_def)

lemma bitset_roundtrip:
  assumes "length flags = N" "m = (N + 7) div 8" "length value = N"
  shows "bitset_deserialize e m N (bitset_bytes e m flags) value = flags"
proof (rule nth_equalityI)
  note loop = bitset_deserialize_loop [OF assms(3),
      where buffer = "bitset_bytes e m flags" and e = e and m = m and k = m]
  show "length (bitset_deserialize e m N (bitset_bytes e m flags) value) = length flags"
    using loop(1) assms(1) by (simp add: bitset_deserialize_def)
  fix idx assume "idx < length (bitset_deserialize e m N (bitset_bytes e m flags) value)"
  then have idx: "idx < N" using loop(1) by (simp add: bitset_deserialize_def)
  then have i: "idx div 8 < m" and j: "idx mod 8 < min 8 (N - idx div 8 * 8)"
    using chunk_index [OF idx] assms(2) by simp_all
  have "bitset_bytes e m flags ! bget e m (idx div 8)
      = flags_byte (map (\<lambda>j. flags ! (idx div 8 * 8 + j)) [0..<min 8 (N - idx div 8 * 8)])"
    using i assms(1) by (auto simp: bitset_bytes_def bget_def Let_def rev_nth)
  then have "bit (bitset_bytes e m flags ! bget e m (idx div 8)) (idx mod 8) = flags ! idx"
    using j by (simp add: flags_byte_def bit_horner_sum_bit_iff)
  then show "bitset_deserialize e m N (bitset_bytes e m flags) value ! idx = flags ! idx"
    using loop(2) [OF idx] i by (simp add: bitset_deserialize_def)
qed

lemma conv_bitset_simps [converter_simps]:
  "max_size (conv_bitset e N tr) = tr_max tr" "size_min (conv_bitset e N tr) = tr_max tr"
  "size_max (conv_bitset e N tr) = tr_max tr" "init_value (conv_bitset e N tr) = VBitset (replicate N False)"
  by (simp_all add: conv_bitset_def Let_def)

lemma codec_bitset [codec_intros]:
  assumes "tr_max tr = (N + 7) div 8"
  shows "codec (conv_bitset e N tr) (\<lambda>v. case v of VBitset fs \<Rightarrow> length fs = N | _ \<Rightarrow> False) False"
proof (rule codecI)
  fix v assume "case v of VBitset fs \<Rightarrow> length fs = N | _ \<Rightarrow> False"
  then obtain fs where v: "v = VBitset fs" and N: "length fs = N" by (auto split: pval.splits)
  let ?m = "(N + 7) div 8"
  have "encodes (conv_bitset e N tr) v (bitset_bytes e ?m fs)"
    using bitset_serialize_eq [of _ ?m e fs] N assms
    by (simp add: encodes_def conv_bitset_def v Let_def)
  moreover have "decodes (conv_bitset e N tr) False v (bitset_bytes e ?m fs)"
    using bitset_roundtrip [OF N refl, of "replicate N False" e] assms
    by (simp add: decodes_def conv_bitset_def v Let_def)
  ultimately show "\<exists>bs. encodes (conv_bitset e N tr) v bs \<and> decodes (conv_bitset e N tr) False v bs"
    by blast
qed

section \<open>Messages and strings\<close>

lemma copy_n_second:
  assumes "length pre = off" "n \<le> length data" "off + n \<le> length buf"
  shows "copy_n data n off (pre @ drop off buf) = Some ((pre @ take n data) @ drop (off + n) buf)"
  using assms by (simp add: copy_n_def add.commute)

text \<open>The 16-bit counters.\<close>

lemma u16_counter:
  assumes "k < 2 ^ 16"
  shows "encodes (conv_base e (BUInt 2)) (VInt (int k)) (bytes_in e 2 (int k))"
    and "deserialize (conv_base e (BUInt 2)) (bytes_in e 2 (int k) @ rest) w = Some (conv_ok 2, VInt (int k))"
    and "take_bit 16 (int k) = int k"
proof -
  have k: "int_in (BUInt 2) (int k)" using assms by (intro int_in_nat) simp
  then show "take_bit 16 (int k) = int k" by (simp add: int_in_def)
  show "encodes (conv_base e (BUInt 2)) (VInt (int k)) (bytes_in e 2 (int k))"
    and "deserialize (conv_base e (BUInt 2)) (bytes_in e 2 (int k) @ rest) w = Some (conv_ok 2, VInt (int k))"
    using conv_base_encodes_int [OF _ k, of e] conv_base_deserialize_int [OF _ k, of e] by simp_all
qed

lemma conv_message_simps [converter_simps]:
  "max_size (conv_message e N tr) = tr_max tr" "size_min (conv_message e N tr) = tr_min tr"
  "size_max (conv_message e N tr) = tr_max tr" "init_value (conv_message e N tr) = VMessage []"
  by (simp_all add: conv_message_def Let_def)

definition message_typed :: "nat \<Rightarrow> pval \<Rightarrow> bool" where
  "message_typed N v = (case v of VMessage data \<Rightarrow> length data \<le> N | _ \<Rightarrow> False)"

lemma codec_message [codec_intros]:
  assumes "N < 2 ^ 16" and tr: "tr_max tr = 2 + N" "tr_min tr \<le> 2"
  shows "codec (conv_message e N tr) (message_typed N) False"
proof (rule codecI)
  fix v assume "message_typed N v"
  then obtain data where v: "v = VMessage data" and N: "length data \<le> N"
    by (auto simp: message_typed_def split: pval.splits)
  then have "length data < 2 ^ 16" using assms(1) by simp
  note ctr = u16_counter [OF this]
  let ?n = "bytes_in e 2 (int (length data))"
  have "serialize_at (conv_message e N tr) buf v
      = Some ((?n @ data) @ drop (length (?n @ data)) buf, length (?n @ data))"
    if "length buf = tr_max tr" for buf
    using with_span_encodes_first [OF ctr(1) [of e], of buf] copy_n_second [of ?n 2 "length data" data buf] that tr N
    by (simp add: conv_message_def v converter_simps ctr(3) Let_def)
  then have "encodes (conv_message e N tr) v (?n @ data)"
    using tr N by (simp add: encodes_def converter_simps)
  moreover have "decodes (conv_message e N tr) False v (?n @ data)"
    using ctr(2) N by (simp add: decodes_def conv_message_def v converter_simps Let_def)
  ultimately show "\<exists>bs. encodes (conv_message e N tr) v bs \<and> decodes (conv_message e N tr) False v bs"
    by blast
qed

lemma conv_sizeless_simps [converter_simps]:
  "max_size (conv_sizeless N tr) = tr_max tr" "size_min (conv_sizeless N tr) = 0"
  "size_max (conv_sizeless N tr) = tr_max tr" "init_value (conv_sizeless N tr) = VMessage []"
  by (simp_all add: conv_sizeless_def)

lemma codec_sizeless [codec_intros]:
  assumes "tr_max tr = N"
  shows "codec (conv_sizeless N tr) (message_typed N) True"
proof (rule codecI)
  fix v assume "message_typed N v"
  then obtain data where v: "v = VMessage data" and N: "length data \<le> N"
    by (auto simp: message_typed_def split: pval.splits)
  have "encodes (conv_sizeless N tr) v data"
    using N assms by (simp add: encodes_def conv_sizeless_def v copy_n_def)
  moreover have "decodes (conv_sizeless N tr) True v data"
    using N by (simp add: decodes_def conv_sizeless_def v)
  ultimately show "\<exists>bs. encodes (conv_sizeless N tr) v bs \<and> decodes (conv_sizeless N tr) True v bs"
    by blast
qed

lemma conv_string_simps [converter_simps]:
  "max_size (conv_string e N tr) = tr_max tr" "size_min (conv_string e N tr) = tr_min tr"
  "size_max (conv_string e N tr) = tr_max tr" "init_value (conv_string e N tr) = VString (sb_empty N)"
  by (simp_all add: conv_string_def Let_def)

definition string_typed :: "nat \<Rightarrow> pval \<Rightarrow> bool" where
  "string_typed N v = (case v of VString data \<Rightarrow> sb_canonical N data | _ \<Rightarrow> False)"

lemma codec_string [codec_intros]:
  assumes "N < 2 ^ 16" and tr: "tr_max tr = N + 2" "tr_min tr \<le> 2"
  shows "codec (conv_string e N tr) (string_typed N) False"
proof (rule codecI)
  fix v assume "string_typed N v"
  then obtain data where v: "v = VString data" and can: "sb_canonical N data"
    by (auto simp: string_typed_def split: pval.splits)
  let ?s = "sb_size data"
  from can have len: "length data = N" "?s < N" and data: "sb_sv data @ replicate (N - ?s) 0 = data"
    by (auto simp: sb_canonical_def)
  then have "?s < 2 ^ 16" using assms(1) by simp
  note ctr = u16_counter [OF this]
  let ?n = "bytes_in e 2 (int ?s)"
  have "serialize_at (conv_string e N tr) buf v
      = Some ((?n @ sb_sv data) @ drop (length (?n @ sb_sv data)) buf, length (?n @ sb_sv data))"
    if "length buf = tr_max tr" for buf
    using with_span_encodes_first [OF ctr(1) [of e], of buf] copy_n_second [of ?n 2 ?s data buf] that tr len
    by (simp add: conv_string_def v converter_simps ctr(3) sb_sv_def Let_def)
  then have "encodes (conv_string e N tr) v (?n @ sb_sv data)"
    using tr len by (simp add: encodes_def converter_simps)
  moreover have "copy_n (sb_sv data @ rest) ?s 0 (sb_empty N) = Some data" for rest
    using len data by (simp add: copy_n_def sb_empty_def)
  then have "decodes (conv_string e N tr) False v (?n @ sb_sv data)"
    using ctr(2) len by (simp add: decodes_def conv_string_def v converter_simps Let_def)
  ultimately show "\<exists>bs. encodes (conv_string e N tr) v bs \<and> decodes (conv_string e N tr) False v bs"
    by blast
qed

section \<open>Wrappers\<close>

lemma cast_add: "int_base b \<Longrightarrow> cast_to b (cast_to b x + y) = cast_to b (x + y)"
proof (induction b)
  case (BUInt n)
  have "take_bit (8 * n) (take_bit (8 * n) x + y) = take_bit (8 * n) (x + y)"
    by (metis take_bit_add take_bit_take_bit min.idem)
  then show ?case by simp
next
  case (BSInt n)
  have "signed_take_bit (8 * n - 1) (signed_take_bit (8 * n - 1) x + y) = signed_take_bit (8 * n - 1) (x + y)"
    by (metis signed_take_bit_add signed_take_bit_signed_take_bit min.idem)
  then show ?case by simp
qed auto

lemma base_add_cast: "base_add b x y = Some z \<Longrightarrow> z = cast_to b (x + y)"
  by (auto simp: base_add_def split: base_type.splits if_splits)

lemma base_add_back:
  assumes "int_base b" "int_in b x" "base_add b x y = Some z"
  shows "base_add b z (- y) = Some x"
proof -
  have z: "z = cast_to b (x + y)" using assms(3) by (rule base_add_cast)
  have again: "cast_to b (z + - y) = x"
    using cast_add [OF assms(1), of "x + y" "- y"] assms(2) by (simp add: z int_in_def)
  moreover have "int_in b (z + - y)" if "b = BSInt n" "4 \<le> n" for n
    using assms z that by (simp add: base_add_def int_in_def split: if_splits)
  ultimately show ?thesis by (auto simp: base_add_def split: base_type.splits)
qed

definition offset_typed :: "base_type \<Rightarrow> int \<Rightarrow> pval \<Rightarrow> bool" where
  "offset_typed b off v = (case v of VInt x \<Rightarrow> int_in b x \<and> base_add b x off \<noteq> None | _ \<Rightarrow> False)"

lemma conv_offset_simps [converter_simps]:
  "max_size (conv_offset e b off tr) = tr_max tr" "size_min (conv_offset e b off tr) = base_size b"
  "size_max (conv_offset e b off tr) = base_size b" "init_value (conv_offset e b off tr) = VInt 0"
  by (simp_all add: conv_offset_def Let_def converter_simps)

lemma codec_offset [codec_intros]:
  assumes b: "int_base b" and tr: "tr_max tr = base_size b"
  shows "codec (conv_offset e b off tr) (offset_typed b off) False"
proof (rule codecI)
  fix v assume "offset_typed b off v"
  then obtain x y where v: "v = VInt x" and x: "int_in b x" and y: "base_add b x off = Some y"
    by (auto simp: offset_typed_def split: pval.splits)
  have iny: "int_in b y" using base_add_cast [OF y] by simp
  have "encodes (conv_offset e b off tr) v (bytes_in e (base_size b) y)"
    using conv_base_encodes_int [OF b iny, of e] y tr
    by (simp add: encodes_def conv_offset_def v converter_simps Let_def)
  moreover have "decodes (conv_offset e b off tr) False v (bytes_in e (base_size b) y)"
    using conv_base_deserialize_int [OF b iny, of e] base_add_back [OF b x y]
    by (simp add: decodes_def conv_offset_def v Let_def)
  ultimately show "\<exists>bs. encodes (conv_offset e b off tr) v bs \<and> decodes (conv_offset e b off tr) False v bs"
    by blast
qed

lemma conv_quantity_simps [converter_simps]:
  "max_size (conv_quantity sub tr) = tr_max tr" "size_min (conv_quantity sub tr) = size_min sub"
  "size_max (conv_quantity sub tr) = size_max sub"
  "init_value (conv_quantity sub tr) = VQuantity (init_value sub)"
  by (simp_all add: conv_quantity_def)

lemma codec_quantity [codec_intros]:
  assumes "codec sub T g" "tr_max tr = max_size sub"
  shows "codec (conv_quantity sub tr) (\<lambda>v. case v of VQuantity x \<Rightarrow> T x | _ \<Rightarrow> False) g"
proof (rule codecI)
  fix v assume "case v of VQuantity x \<Rightarrow> T x | _ \<Rightarrow> False"
  then obtain x where v: "v = VQuantity x" and "T x" by (auto split: pval.splits)
  then obtain bs where "encodes sub x bs" "decodes sub g x bs"
    using codec.codes [OF assms(1)] by blast
  then have "encodes (conv_quantity sub tr) v bs \<and> decodes (conv_quantity sub tr) g v bs"
    using assms(2) by (simp add: encodes_def decodes_def conv_quantity_def v)
  then show "\<exists>bs. encodes (conv_quantity sub tr) v bs \<and> decodes (conv_quantity sub tr) g v bs" ..
qed

lemma conv_duration_simps [converter_simps]:
  "max_size (conv_duration sub tr) = tr_max tr" "size_min (conv_duration sub tr) = tr_min tr"
  "size_max (conv_duration sub tr) = tr_max tr"
  "init_value (conv_duration sub tr) = VDuration (init_value sub)"
  by (simp_all add: conv_duration_def)

lemma codec_duration [codec_intros]:
  assumes "codec sub T g" "tr_max tr = max_size sub" "tr_min tr \<le> size_min sub"
  shows "codec (conv_duration sub tr) (\<lambda>v. case v of VDuration x \<Rightarrow> T x | _ \<Rightarrow> False) g"
proof (rule codecI)
  fix v assume "case v of VDuration x \<Rightarrow> T x | _ \<Rightarrow> False"
  then obtain x where v: "v = VDuration x" and "T x" by (auto split: pval.splits)
  then obtain bs where "encodes sub x bs" "decodes sub g x bs"
    using codec.codes [OF assms(1)] by blast
  then have "encodes (conv_duration sub tr) v bs \<and> decodes (conv_duration sub tr) g v bs"
    using assms(2,3) by (auto simp: encodes_def decodes_def conv_duration_def v)
  then show "\<exists>bs. encodes (conv_duration sub tr) v bs \<and> decodes (conv_duration sub tr) g v bs" ..
qed

lemma conv_struct_simps [converter_simps]:
  "max_size (conv_struct sub tr) = tr_max tr" "size_min (conv_struct sub tr) = tr_min tr"
  "size_max (conv_struct sub tr) = tr_max tr"
  by (simp_all add: conv_struct_def)

lemma codec_struct [codec_intros]:
  assumes "codec sub (\<lambda>v. case v of VTuple vs \<Rightarrow> T vs | _ \<Rightarrow> False) g"
    and "tr_max tr = max_size sub" "tr_min tr \<le> size_min sub"
  shows "codec (conv_struct sub tr) (\<lambda>v. case v of VStruct vs \<Rightarrow> T vs | _ \<Rightarrow> False) g"
proof (rule codecI)
  fix v assume "case v of VStruct vs \<Rightarrow> T vs | _ \<Rightarrow> False"
  then obtain vs where v: "v = VStruct vs" and "T vs" by (auto split: pval.splits)
  then obtain bs where "encodes sub (VTuple vs) bs" "decodes sub g (VTuple vs) bs"
    using codec.codes [OF assms(1), of "VTuple vs"] by auto
  then have "encodes (conv_struct sub tr) v bs \<and> decodes (conv_struct sub tr) g v bs"
    using assms(2,3) by (auto simp: encodes_def decodes_def conv_struct_def v)
  then show "\<exists>bs. encodes (conv_struct sub tr) v bs \<and> decodes (conv_struct sub tr) g v bs" ..
qed

end
