(* ===== verification/CodecGroups.thy ===== *)
theory CodecGroups
  imports Codec
begin

text \<open>
  The contract of the specialisations that decide from the bytes what follows: buffers with a size
  in front, tags, groups, tag groups and vectors.
\<close>

section \<open>Sized buffers\<close>

lemma conv_sized_simps [converter_simps]:
  "max_size (conv_sized b cnt sub tr) = tr_max tr" "size_min (conv_sized b cnt sub tr) = tr_min tr"
  "size_max (conv_sized b cnt sub tr) = tr_max tr" "init_value (conv_sized b cnt sub tr) = init_value sub"
  by (simp_all add: conv_sized_def)

text \<open>
  A counter for the sizes up to \<open>m\<close>: it has the same number of bytes for all of them and its
  number type can hold them.
\<close>

definition counts :: "base_type \<Rightarrow> converter \<Rightarrow> nat \<Rightarrow> bool" where
  "counts b cnt m \<longleftrightarrow> init_value cnt = VInt 0 \<and>
     (\<forall>k \<le> m. cast_to b (int k) = int k \<and> codes_val cnt False (VInt (int k)) \<and>
        length (encoding cnt (VInt (int k))) = max_size cnt)"

lemma countsD:
  assumes "counts b cnt m" "k \<le> m"
  shows "init_value cnt = VInt 0" "cast_to b (int k) = int k"
    and "encodes cnt (VInt (int k)) (encoding cnt (VInt (int k)))"
    and "decodes cnt False (VInt (int k)) (encoding cnt (VInt (int k)))"
    and "length (encoding cnt (VInt (int k))) = max_size cnt"
  using assms by (auto simp: counts_def codes_val_def)

lemma conv_sized_encodes:
  assumes sub: "codec sub T g" and T: "T v" and cnt: "counts b cnt (max_size sub)"
    and tr: "tr_max tr = max_size cnt + max_size sub" "tr_min tr \<le> max_size cnt + size_min sub"
  shows "encodes (conv_sized b cnt sub tr) v
    (encoding cnt (VInt (int (length (encoding sub v)))) @ encoding sub v)"
proof -
  let ?bs = "encoding sub v" and ?m = "max_size cnt"
  let ?cs = "encoding cnt (VInt (int (length ?bs)))"
  note enc = codec.encoding_encodes [OF sub T]
  note len = encodesD(1,2) [OF enc]
  note c = countsD [OF cnt len(1)]
  have "serialize_at (conv_sized b cnt sub tr) buf v
      = Some ((?cs @ ?bs) @ drop (length (?cs @ ?bs)) buf, length (?cs @ ?bs))"
    if "length buf = tr_max tr" for buf
  proof -
    have "with_span (length buf - max_size sub) (max_size sub) buf (\<lambda>b. serialize_at sub b v)
        = Some ((take ?m buf @ ?bs) @ drop (?m + length ?bs) buf, length ?bs)"
      using with_span_second [OF enc, of "take ?m buf" ?m buf] that tr by simp
    then show ?thesis
      using with_span_encodes_first [OF c(3), of "(take ?m buf @ ?bs) @ drop (?m + length ?bs) buf"]
        that tr len c(2,5) by (simp add: conv_sized_def)
  qed
  then show ?thesis using len tr c(5) by (simp add: encodes_def converter_simps)
qed

text \<open>The size in front makes every definition one that something may follow.\<close>

lemma codec_sized [codec_intros]:
  assumes sub: "codec sub T g" and cnt: "counts b cnt (max_size sub)"
    and tr: "tr_max tr = max_size cnt + max_size sub" "tr_min tr \<le> max_size cnt + size_min sub"
    and small: "max_size cnt + max_size sub < 2 ^ 64"
  shows "codec (conv_sized b cnt sub tr) T False"
proof (rule codecI)
  fix v assume T: "T v"
  let ?bs = "encoding sub v" and ?m = "max_size cnt"
  let ?cs = "encoding cnt (VInt (int (length ?bs)))"
  note dec = codec.encoding_decodes [OF sub T]
  note len = encodesD(1) [OF codec.encoding_encodes [OF sub T]]
  note c = countsD [OF cnt len]
  have small': "int (length ?bs) mod 2 ^ 64 = int (length ?bs)" "(?m + length ?bs) mod 2 ^ 64 = ?m + length ?bs"
    using len small by (simp_all add: mod_less)
  have "deserialize cnt (?cs @ rest) (VInt 0) = Some (conv_ok ?m, VInt (int (length ?bs)))" for rest
    using decodesD [OF c(4), of rest] c(1,5) by simp
  then have "decodes (conv_sized b cnt sub tr) False v (?cs @ ?bs)"
    using decodes_all [OF dec] c(5) small' by (simp add: decodes_def conv_sized_def Let_def add.commute)
  then show "\<exists>bs. encodes (conv_sized b cnt sub tr) v bs \<and> decodes (conv_sized b cnt sub tr) False v bs"
    using conv_sized_encodes [OF sub T cnt tr] by blast
qed

section \<open>Tags\<close>

lemma conv_tag_simps [converter_simps]:
  "max_size (conv_tag e b V tr) = tr_max tr" "size_min (conv_tag e b V tr) = base_size b"
  "size_max (conv_tag e b V tr) = base_size b" "init_value (conv_tag e b V tr) = VTag"
  by (simp_all add: conv_tag_def Let_def converter_simps)

lemma conv_tag_encodes:
  assumes "base_ok b" "base_typed b (VInt V)" "tr_max tr = base_size b"
  shows "encodes (conv_tag e b V tr) VTag (base_bytes e b (VInt V))"
  using conv_base_encodes [OF assms(1,2), of e] assms(3)
  by (simp add: encodes_def conv_tag_def Let_def converter_simps)

lemma conv_tag_deserialize:
  assumes "base_ok b" "base_typed b (VInt x)"
  shows "deserialize (conv_tag e b V tr) (base_bytes e b (VInt x) @ rest) w
    = Some (if x = V then conv_ok (base_size b) else conv_err 0 badval_err, w)"
  using conv_base_deserialize [OF assms, of e rest "VInt 0"]
  by (simp add: conv_tag_def Let_def)

lemma codec_tag [codec_intros]:
  assumes "base_ok b" "base_typed b (VInt V)" "tr_max tr = base_size b"
  shows "codec (conv_tag e b V tr) (\<lambda>v. v = VTag) False"
proof (rule codecI)
  fix v assume "v = VTag"
  then show "\<exists>bs. encodes (conv_tag e b V tr) v bs \<and> decodes (conv_tag e b V tr) False v bs"
    using conv_tag_encodes [OF assms, of e] conv_tag_deserialize [OF assms(1,2), of e V tr] assms(2)
    by (intro exI [of _ "base_bytes e b (VInt V)"]) (simp add: decodes_def converter_simps)
qed

section \<open>Groups\<close>

text \<open>A converter rejects all messages that begin with \<open>bs\<close>: it reports no byte as used.\<close>

definition rejects :: "converter \<Rightarrow> byte list \<Rightarrow> bool" where
  "rejects c bs \<longleftrightarrow>
     (\<forall>rest. \<exists>r v. deserialize c (bs @ rest) (init_value c) = Some (r, v) \<and> has_error r \<and> used r = 0)"

lemma rejectsD:
  "rejects c bs \<Longrightarrow>
   \<exists>r v. deserialize c (bs @ rest) (init_value c) = Some (r, v) \<and> has_error r \<and> used r = 0"
  by (simp add: rejects_def)

lemma rejects_append: "rejects c bs \<Longrightarrow> rejects c (bs @ bs')"
  by (simp add: rejects_def)

lemma conv_tag_rejects:
  "base_ok b \<Longrightarrow> base_typed b (VInt x) \<Longrightarrow> x \<noteq> V \<Longrightarrow> rejects (conv_tag e b V tr) (base_bytes e b (VInt x))"
  using conv_tag_deserialize [of b x e V tr] by (simp add: rejects_def)

lemma conv_tuple_rejects:
  assumes "rejects c bs"
  shows "rejects (conv_tuple (c # cs) tr) bs"
  unfolding rejects_def
proof
  fix rest
  from rejectsD [OF assms, of rest] obtain r v
    where "deserialize c (bs @ rest) (init_value c) = Some (r, v)" "has_error r" "used r = 0" by blast
  then show "\<exists>r v. deserialize (conv_tuple (c # cs) tr) (bs @ rest) (init_value (conv_tuple (c # cs) tr))
      = Some (r, v) \<and> has_error r \<and> used r = 0"
    by (simp add: conv_tuple_def)
qed

lemma conv_struct_rejects:
  assumes "rejects sub bs"
  shows "rejects (conv_struct sub tr) bs"
  unfolding rejects_def
proof
  fix rest
  from rejectsD [OF assms, of rest] obtain r v
    where "deserialize sub (bs @ rest) (init_value sub) = Some (r, v)" "has_error r" "used r = 0" by blast
  then show "\<exists>r v. deserialize (conv_struct sub tr) (bs @ rest) (init_value (conv_struct sub tr))
      = Some (r, v) \<and> has_error r \<and> used r = 0"
    by (simp add: conv_struct_def)
qed

lemma conv_group_simps [converter_simps]:
  "max_size (conv_group subs tr) = tr_max tr" "size_min (conv_group subs tr) = tr_min tr"
  "size_max (conv_group subs tr) = tr_max tr" "init_value (conv_group subs tr) = init_variant subs"
  by (simp_all add: conv_group_def)

lemma group_loop_skips:
  assumes "\<forall>c \<in> set pre. rejects c bs"
    and "deserialize c (bs @ rest) (init_value c) = Some (r, v)" "used r \<noteq> 0"
  shows "group_loop (pre @ c # post) I (bs @ rest) w = Some (Some r, VVariant (I + length pre) v)"
  using assms(1)
proof (induction pre arbitrary: I w)
  case Nil
  then show ?case using assms(2,3) by simp
next
  case (Cons a pre)
  from Cons.prems have "rejects a bs" by simp
  from rejectsD [OF this, of rest] obtain r' v'
    where "deserialize a (bs @ rest) (init_value a) = Some (r', v')" "used r' = 0" by blast
  then show ?case using Cons by simp
qed

lemma codec_group [codec_intros]:
  assumes len: "length Ts = length subs"
    and sub: "\<And>i. i < length subs \<Longrightarrow> codec (subs ! i) (Ts ! i) g"
    and first: "\<And>i j v. i < length subs \<Longrightarrow> j < i \<Longrightarrow> (Ts ! i) v \<Longrightarrow>
        encoding (subs ! i) v \<noteq> [] \<and> rejects (subs ! j) (encoding (subs ! i) v)"
    and nonempty: "\<And>i v. i < length subs \<Longrightarrow> (Ts ! i) v \<Longrightarrow> encoding (subs ! i) v \<noteq> []"
    and tr: "\<And>i. i < length subs \<Longrightarrow> max_size (subs ! i) \<le> tr_max tr \<and> tr_min tr \<le> size_min (subs ! i)"
  shows "codec (conv_group subs tr) (variant_typed Ts) g"
proof (rule codecI)
  fix v assume "variant_typed Ts v"
  then obtain I x where v: "v = VVariant I x" and I: "I < length subs" and T: "(Ts ! I) x"
    using len by (auto simp: variant_typed_def split: pval.splits)
  let ?c = "subs ! I" and ?bs = "encoding (subs ! I) x"
  note enc = codec.encoding_encodes [OF sub [OF I] T] and dec = codec.encoding_decodes [OF sub [OF I] T]
  note sz = encodesD(1,2) [OF enc] tr [OF I]
  have "serialize_at (conv_group subs tr) buf v = Some (?bs @ drop (length ?bs) buf, length ?bs)"
    if "length buf = tr_max tr" for buf
    using with_span_encodes_first [OF enc, of buf] that sz I by (simp add: conv_group_def v)
  then have "encodes (conv_group subs tr) v ?bs"
    using sz by (simp add: encodes_def converter_simps)
  moreover have "decodes (conv_group subs tr) g v ?bs"
  proof -
    have "\<forall>c \<in> set (take I subs). rejects c ?bs"
      using first [OF I _ T] I by (auto simp: in_set_conv_nth)
    moreover have "take I subs @ ?c # drop (Suc I) subs = subs"
      using I by (simp add: id_take_nth_drop [symmetric])
    ultimately have "group_loop subs 0 (?bs @ rest) w = Some (Some (conv_ok (length ?bs)), VVariant I x)"
      if "g \<longrightarrow> rest = []" for rest w
      using group_loop_skips [of "take I subs" ?bs ?c rest "conv_ok (length ?bs)" x "drop (Suc I) subs" 0 w]
        decodesD [OF dec, of rest] that nonempty [OF I T] I by simp
    then show ?thesis by (simp add: decodes_def conv_group_def v)
  qed
  ultimately show "\<exists>bs. encodes (conv_group subs tr) v bs \<and> decodes (conv_group subs tr) g v bs"
    by blast
qed

section \<open>Tag groups\<close>

lemma conv_tag_group_simps [converter_simps]:
  "max_size (conv_tag_group alts tr) = tr_max tr" "size_min (conv_tag_group alts tr) = tr_min tr"
  "size_max (conv_tag_group alts tr) = tr_max tr"
  "init_value (conv_tag_group alts tr) = init_variant (map snd alts)"
  by (simp_all add: conv_tag_group_def)

lemma tag_group_loop_skips:
  assumes "base_ok b" "base_typed b (VInt x)" "x \<notin> set ids" "length ids = length subs"
    and "deserialize sub rest (init_value sub) = Some (r, v)"
  shows "tag_group_loop
      (zip (map (\<lambda>y. conv_tag e b y ttr) ids) subs @ (conv_tag e b x ttr, sub) # post) I
      (base_bytes e b (VInt x) @ rest) r0 w
    = Some (add_used (base_size b) r, VVariant (I + length ids) v)"
  using assms(3,4)
proof (induction ids arbitrary: subs I)
  case Nil
  then show ?case
    using conv_tag_deserialize [OF assms(1,2), of e x ttr rest VTag] assms(2,5)
    by (simp add: subspan_def)
next
  case (Cons y ids)
  then obtain c cs where "subs = c # cs" by (cases subs) auto
  then show ?case
    using Cons conv_tag_deserialize [OF assms(1,2), of e y ttr rest VTag] by simp
qed

lemma codec_tag_group [codec_intros]:
  assumes len: "length Ts = length subs" "length ids = length subs"
    and sub: "\<And>i. i < length subs \<Longrightarrow> codec (subs ! i) (Ts ! i) g"
    and b: "base_ok b" "\<forall>x \<in> set ids. base_typed b (VInt x)" "distinct ids"
    and ttr: "tr_max ttr = base_size b"
    and tr: "\<And>i. i < length subs \<Longrightarrow> base_size b + max_size (subs ! i) \<le> tr_max tr \<and>
               tr_min tr \<le> base_size b + size_min (subs ! i)"
  shows "codec (conv_tag_group (zip (map (\<lambda>x. conv_tag e b x ttr) ids) subs) tr) (variant_typed Ts) g"
    (is "codec ?c _ _")
proof (rule codecI)
  fix v assume "variant_typed Ts v"
  then obtain I y where v: "v = VVariant I y" and I: "I < length subs" and T: "(Ts ! I) y"
    using len by (auto simp: variant_typed_def split: pval.splits)
  let ?s = "subs ! I" and ?bs = "encoding (subs ! I) y" and ?x = "ids ! I"
  let ?tagc = "\<lambda>x. conv_tag e b x ttr" and ?t = "base_bytes e b (VInt (ids ! I))"
  note enc = codec.encoding_encodes [OF sub [OF I] T] and dec = codec.encoding_decodes [OF sub [OF I] T]
  note sz = encodesD(1,2) [OF enc] tr [OF I]
  have x: "base_typed b (VInt ?x)" using b(2) I len by simp
  note tag = conv_tag_encodes [OF b(1) x ttr, of e]
  have len_t: "length ?t = base_size b" using x by simp
  have "serialize_at ?c buf v = Some ((?t @ ?bs) @ drop (length (?t @ ?bs)) buf, length (?t @ ?bs))"
    if "length buf = tr_max tr" for buf
    using with_span_encodes_first [OF tag, of buf] with_span_second [OF enc, of ?t "base_size b" buf]
      that sz I len len_t ttr
    by (simp add: conv_tag_group_def v converter_simps)
  then have "encodes ?c v (?t @ ?bs)"
    using sz len_t by (simp add: encodes_def converter_simps)
  moreover have "decodes ?c g v (?t @ ?bs)"
  proof -
    have split: "zip (map ?tagc ids) subs
        = zip (map ?tagc (take I ids)) (take I subs) @ (?tagc ?x, ?s) # drop (Suc I) (zip (map ?tagc ids) subs)"
      using id_take_nth_drop [of I "zip (map ?tagc ids) subs"] I len by (simp add: take_zip take_map)
    have "ids ! I \<notin> set (take I ids)"
      using b(3) I len by (metis distinct_conv_nth in_set_conv_nth length_take less_imp_neq min_less_iff_conj nth_take order.strict_trans)
    from tag_group_loop_skips [OF b(1) x this, of "take I subs" ?s _ "conv_ok (length ?bs)" y]
    have "tag_group_loop (zip (map ?tagc ids) subs) 0 (?t @ ?bs @ rest) r0 w
        = Some (conv_ok (length ?bs + base_size b), VVariant I y)" if "g \<longrightarrow> rest = []" for rest r0 w
      using decodesD [OF dec, of rest] that I len by (subst split) simp
    then show ?thesis using len_t by (simp add: decodes_def conv_tag_group_def v add.commute)
  qed
  ultimately show "\<exists>bs. encodes ?c v bs \<and> decodes ?c g v bs" by blast
qed

section \<open>Vectors\<close>

declare vector_grow.simps [simp del]

lemma conv_vector_simps [converter_simps]:
  "max_size (conv_vector e sub tr N) = tr_max tr" "size_min (conv_vector e sub tr N) = tr_min tr"
  "size_max (conv_vector e sub tr N) = tr_max tr" "init_value (conv_vector e sub tr N) = VVector []"
  by (simp_all add: conv_vector_def Let_def)

text \<open>The vector grows to the count it has read, or stops, without an error, at its capacity.\<close>

lemma vector_grow_eq:
  "length value \<le> count \<Longrightarrow> length value \<le> N \<Longrightarrow>
   vector_grow N count d value = value @ replicate (min count N - length value) d"
proof (induction N count d "value" rule: vector_grow.induct)
  case (1 N count d vs)
  show ?case
  proof (cases "length vs \<noteq> count \<and> length vs < N")
    case True
    then have "min count N - length vs = Suc (min count N - Suc (length vs))"
      using 1(2) by (auto simp: min_def)
    then have "replicate (min count N - length vs) d = d # replicate (min count N - Suc (length vs)) d"
      by simp
    then show ?thesis using True 1 by (subst vector_grow.simps) auto
  next
    case False
    then have "min count N - length vs = 0" using 1(2,3) by auto
    with False show ?thesis by (subst vector_grow.simps) auto
  qed
qed

definition vector_typed :: "(pval \<Rightarrow> bool) \<Rightarrow> nat \<Rightarrow> pval \<Rightarrow> bool" where
  "vector_typed T N v = (case v of VVector vs \<Rightarrow> length vs \<le> N \<and> (\<forall>x \<in> set vs. T x) | _ \<Rightarrow> False)"

lemma codec_vector [codec_intros]:
  assumes sub: "codec sub T False" and N: "N < 2 ^ 16"
    and tr: "tr_max tr = 2 + max_size sub * N" "tr_min tr \<le> 2"
  shows "codec (conv_vector e sub tr N) (vector_typed T N) False"
proof (rule codecI)
  fix v assume "vector_typed T N v"
  then obtain vs where v: "v = VVector vs" and len: "length vs \<le> N" and T: "\<forall>x \<in> set vs. T x"
    by (auto simp: vector_typed_def split: pval.splits)
  let ?n = "bytes_in e 2 (int (length vs))" and ?bs = "tuple_bytes (replicate (length vs) sub) vs"
  have "length vs < 2 ^ 16" using len N by simp
  note ctr = u16_counter [OF this]
  have room: "length vs * max_size sub \<le> max_size sub * N" using len by (simp add: mult.commute)
  note size = order.trans [OF range_bytes_length(2) [OF sub T] room]
  have "serialize_at (conv_vector e sub tr N) buf v
      = Some ((?n @ ?bs) @ drop (length (?n @ ?bs)) buf, length (?n @ ?bs))"
    if buf: "length buf = tr_max tr" for buf
  proof -
    have "with_span (length ?n) (length (drop 2 buf)) (?n @ drop 2 buf) (\<lambda>b. serialize_range sub b 0 vs)
        = Some (?n @ ?bs @ drop (length ?bs) (drop 2 buf), length ?bs)"
      by (rule with_span_prefix)
        (use size room serialize_range_encodes [OF sub T] buf tr in auto)
    then have "with_span 2 (tr_max tr - 2) (?n @ drop 2 buf) (\<lambda>b. serialize_range sub b 0 vs)
        = Some (?n @ ?bs @ drop (length ?bs + 2) buf, length ?bs)"
      using buf by simp
    moreover have "make_size (tr_min tr) (tr_max tr) (length ?bs + 2) = Some (length ?bs + 2)"
      using size room tr by (intro make_size_Some) simp_all
    ultimately show ?thesis
      using with_span_encodes_first [OF ctr(1) [of e], of buf] buf tr
      by (simp add: conv_vector_def v converter_simps ctr(3) Let_def)
  qed
  then have "encodes (conv_vector e sub tr N) v (?n @ ?bs)"
    using size room tr by (simp add: encodes_def converter_simps)
  moreover have "decodes (conv_vector e sub tr N) False v (?n @ ?bs)"
    using ctr(2) deserialize_range_decodes [OF sub T] len
    by (simp add: decodes_def conv_vector_def v converter_simps subspan_def vector_grow_eq Let_def)
  ultimately show "\<exists>bs. encodes (conv_vector e sub tr N) v bs \<and> decodes (conv_vector e sub tr N) False v bs"
    by blast
qed

end
