(* ===== verification/ProtoCodec.thy ===== *)
theory ProtoCodec
  imports CodecGroups
begin

text \<open>
  The contract of all definitions of a protocol: the values a definition can carry (\<open>typed\<close>), the
  definitions that something may not follow (\<open>greedy\<close>), the conditions under which the alternatives
  of a definition can be told apart and its counters hold its sizes (\<open>well_formed\<close>), and the proof,
  over the structure of the definition, that \<open>converter_for\<close> keeps the contract of \<open>codec\<close>.
\<close>

section \<open>The values of a definition\<close>

fun typed :: "pdef \<Rightarrow> pval \<Rightarrow> bool" where
  "typed (DBase b) v = base_typed b v"
| "typed (DArray d N) v =
     (case v of VArray vs \<Rightarrow> length vs = N \<and> (\<forall>x \<in> set vs. typed d x) | _ \<Rightarrow> False)"
| "typed (DTuple ds) v = (case v of VTuple vs \<Rightarrow> tuple_typed (map typed ds) vs | _ \<Rightarrow> False)"
| "typed (DVariant ds) v = variant_typed (map typed ds) v"
| "typed DMonostate v = (v = VMonostate)"
| "typed (DBitset N) v = (case v of VBitset fs \<Rightarrow> length fs = N | _ \<Rightarrow> False)"
| "typed (DSizeless N) v = message_typed N v"
| "typed (DMessage N) v = message_typed N v"
| "typed (DOffset b off) v = offset_typed b off v"
| "typed (DQuantity d) v = (case v of VQuantity x \<Rightarrow> typed d x | _ \<Rightarrow> False)"
| "typed (DBounded b lo hi) v = bounded_typed b lo hi v"
| "typed (DSized c d) v = typed d v"
| "typed (DTag b x) v = (v = VTag)"
| "typed (DGroup ds) v = variant_typed (map typed ds) v"
| "typed (DTagGroup b ids ds) v = variant_typed (map typed ds) v"
| "typed (DEndian e d) v = typed d v"
| "typed (DDef d) v = typed d v"
| "typed (DString N) v = string_typed N v"
| "typed (DDuration d) v = (case v of VDuration x \<Rightarrow> typed d x | _ \<Rightarrow> False)"
| "typed DErrorRecord v =
     (case v of VErrorRecord m off \<Rightarrow> sb_canonical mark_size m \<and> int_in (BUInt 8) off | _ \<Rightarrow> False)"
| "typed (DVector d N) v = vector_typed (typed d) N v"
| "typed (DOptional d) v = optional_typed (typed d) v"
| "typed (DStruct ds) v = (case v of VStruct vs \<Rightarrow> tuple_typed (map typed ds) vs | _ \<Rightarrow> False)"

fun greedy :: "pdef \<Rightarrow> bool" where
  "greedy (DTuple ds) = tuple_greedy (map greedy ds)"
| "greedy (DVariant ds) = (True \<in> set (map greedy ds))"
| "greedy (DSizeless N) = True"
| "greedy (DQuantity d) = greedy d"
| "greedy (DGroup ds) = (True \<in> set (map greedy ds))"
| "greedy (DTagGroup b ids ds) = (True \<in> set (map greedy ds))"
| "greedy (DEndian e d) = greedy d"
| "greedy (DDef d) = greedy d"
| "greedy (DDuration d) = greedy d"
| "greedy (DOptional d) = greedy d"
| "greedy (DStruct ds) = tuple_greedy (map greedy ds)"
| "greedy _ = False"

text \<open>The tag a message of the definition begins with.\<close>

fun leading_tag :: "pdef \<Rightarrow> (base_type \<times> int) option" where
  "leading_tag (DTag b v) = Some (b, v)"
| "leading_tag (DTuple ds) = (case ds of [] \<Rightarrow> None | d # _ \<Rightarrow> leading_tag d)"
| "leading_tag (DStruct ds) = (case ds of [] \<Rightarrow> None | d # _ \<Rightarrow> leading_tag d)"
| "leading_tag (DDef d) = leading_tag d"
| "leading_tag _ = None"

definition tags_distinct :: "(base_type \<times> int) option list \<Rightarrow> bool" where
  "tags_distinct ls \<longleftrightarrow> None \<notin> set ls \<and> distinct ls \<and> (\<forall>l \<in> set ls. fst (the l) = fst (the (hd ls)))"

text \<open>A counter that can hold the sizes up to \<open>m\<close>.\<close>

fun counter_ok :: "pdef \<Rightarrow> nat \<Rightarrow> bool" where
  "counter_ok (DBase b) m = (int_base b \<and> int_in b 0 \<and> int_in b (int m))"
| "counter_ok (DOffset b off) m =
     (int_base b \<and> int_in b 0 \<and> int_in b (int m) \<and> base_add b 0 off \<noteq> None \<and> base_add b (int m) off \<noteq> None)"
| "counter_ok (DEndian e d) m = counter_ok d m"
| "counter_ok (DDef d) m = counter_ok d m"
| "counter_ok _ m = False"

text \<open>
  \<^item> Nothing but the last member may be greedy, and not the elements of an array or vector.
  \<^item> The 8 and 16 bit counters of variants, messages, strings and vectors can hold what they count.
  \<^item> The alternatives of a group begin with different tags of one type, those of a tag group have
    different ids.
  \<^item> An error record is never read back with its size, see \<open>error_record_read\<close>.
\<close>

fun well_formed :: "pdef \<Rightarrow> bool" where
  "well_formed (DBase b) = base_ok b"
| "well_formed (DArray d N) = (well_formed d \<and> \<not> greedy d)"
| "well_formed (DTuple ds) = (list_all well_formed ds \<and> True \<notin> set (butlast (map greedy ds)))"
| "well_formed (DVariant ds) = (list_all well_formed ds \<and> length ds < 255)"
| "well_formed DMonostate = True"
| "well_formed (DBitset N) = True"
| "well_formed (DSizeless N) = True"
| "well_formed (DMessage N) = (N < 2 ^ 16)"
| "well_formed (DOffset b off) = int_base b"
| "well_formed (DQuantity d) = well_formed d"
| "well_formed (DBounded b lo hi) = int_base b"
| "well_formed (DSized c d) =
     (well_formed d \<and> counter_ok c (tr_max (traits_for d)) \<and>
      tr_max (traits_for c) + tr_max (traits_for d) < 2 ^ 64)"
| "well_formed (DTag b v) = (base_ok b \<and> base_typed b (VInt v))"
| "well_formed (DGroup ds) = (list_all well_formed ds \<and> tags_distinct (map leading_tag ds))"
| "well_formed (DTagGroup b ids ds) =
     (list_all well_formed ds \<and> base_ok b \<and> (\<forall>x \<in> set ids. base_typed b (VInt x)) \<and>
      distinct ids \<and> length ids = length ds)"
| "well_formed (DEndian e d) = well_formed d"
| "well_formed (DDef d) = well_formed d"
| "well_formed (DString N) = (N < 2 ^ 16)"
| "well_formed (DDuration d) = well_formed d"
| "well_formed DErrorRecord = False"
| "well_formed (DVector d N) = (well_formed d \<and> \<not> greedy d \<and> N < 2 ^ 16)"
| "well_formed (DOptional d) = well_formed d"
| "well_formed (DStruct ds) = (list_all well_formed ds \<and> True \<notin> set (butlast (map greedy ds)))"

section \<open>Sizes and default values\<close>

lemma conv_error_record_simps [converter_simps]:
  "max_size (conv_error_record e tr) = tr_max tr" "size_min (conv_error_record e tr) = tr_max tr"
  "size_max (conv_error_record e tr) = tr_max tr"
  "init_value (conv_error_record e tr) = VErrorRecord (sb_empty mark_size) 0"
  by (simp_all add: conv_error_record_def Let_def)

lemma conv_struct_init [converter_simps]:
  "init_value (conv_struct (conv_tuple subs tr) tr') = VStruct (map init_value subs)"
  by (simp add: conv_struct_def converter_simps)

lemma max_size_converter_for: "max_size (converter_for d e) = tr_max (traits_for d)"
  by (induction d e rule: converter_for.induct) (simp_all add: converter_simps traits_defs)

lemma size_min_converter_for: "tr_min (traits_for d) \<le> size_min (converter_for d e)"
  by (induction d e rule: converter_for.induct) (simp_all add: converter_simps traits_defs)

lemma init_variant_map: "init_variant (map f ds) = (case map (\<lambda>d. init_value (f d)) ds of [] \<Rightarrow> VMonostate | v # _ \<Rightarrow> VVariant 0 v)"
  by (cases ds) (simp_all add: init_variant_def)

text \<open>Holds for every definition whose tag groups have one id for each alternative.\<close>

lemma init_value_converter_for: "well_formed d \<Longrightarrow> init_value (converter_for d e) = default_val d"
  by (induction d e rule: converter_for.induct)
    (auto simp: converter_simps init_variant_map list_all_iff comp_def split: list.splits)

section \<open>Counters\<close>

lemma int_in_convex:
  assumes "int_in b x" "int_in b z" "int_base b" "x \<le> y" "y \<le> z"
  shows "int_in b y"
  using assms(3,1,2,4,5)
proof (induction b)
  case (BEnum u)
  then show ?case by (simp add: int_in_def)
qed (auto simp: int_in_unsigned int_in_signed)

lemma base_add_convex:
  assumes "base_add b x off \<noteq> None" "base_add b z off \<noteq> None" "int_base b" "x \<le> y" "y \<le> z"
  shows "base_add b y off \<noteq> None"
  using assms int_in_convex [of b "x + off" "z + off" "y + off"]
  by (auto simp: base_add_def split: base_type.splits if_splits)

lemma codes_val_base_int:
  "int_base b \<Longrightarrow> int_in b x \<Longrightarrow> codes_val (conv_base e b) False (VInt x)"
  "int_base b \<Longrightarrow> int_in b x \<Longrightarrow> length (encoding (conv_base e b) (VInt x)) = base_size b"
  using conv_base_encodes_int [of b x e] conv_base_deserialize_int [of b x e] encodes_encoding
  by (auto intro!: codes_valI simp: decodes_def)

lemma encodes_fixed_size: "encodes c v bs \<Longrightarrow> size_min c = max_size c \<Longrightarrow> length bs = max_size c"
  using encodesD(1,2) [of c v bs] by simp

lemma counts_fixed:
  assumes "codec c T False" "size_min c = max_size c" "init_value c = VInt 0"
    and "\<And>k. k \<le> m \<Longrightarrow> T (VInt (int k)) \<and> int_in b (int k)"
  shows "counts b c m"
  unfolding counts_def
proof (intro conjI allI impI)
  fix k assume "k \<le> m"
  note k = assms(4) [OF this]
  show "cast_to b (int k) = int k" using k by (simp add: int_in_def)
  show "codes_val c False (VInt (int k))" using codec_codes_val [OF assms(1)] k by blast
  then show "length (encoding c (VInt (int k))) = max_size c"
    using assms(2) encodes_fixed_size by (auto simp: codes_val_def)
qed (use assms(3) in simp)

lemma counter_counts: "counter_ok c m \<Longrightarrow> counts (counter_base c) (converter_for c e) m"
proof (induction c m arbitrary: e rule: counter_ok.induct)
  case (1 b m)
  then have "base_default b = VInt 0" by (cases b) auto
  then show ?case
    using 1 codec_base [OF int_base_ok, of b e] int_base_typed [of b] int_in_convex [of b 0 "int m"]
    by (auto intro!: counts_fixed simp: converter_simps)
next
  case (2 b off m)
  then show ?case
    using codec_offset [of b "traits_for (DOffset b off)" e off]
      int_in_convex [of b 0 "int m"] base_add_convex [of b 0 off "int m"]
    by (auto intro!: counts_fixed simp: converter_simps traits_defs offset_typed_def)
qed simp_all

lemma counter_size: "counter_ok c m \<Longrightarrow> tr_min (traits_for c) = tr_max (traits_for c)"
  by (induction c m rule: counter_ok.induct) (simp_all add: traits_defs)

section \<open>Leading tags\<close>

lemma leading_tag_rejects:
  assumes "leading_tag d = Some (b, v)" "base_ok b" "base_typed b (VInt x)" "x \<noteq> v"
  shows "rejects (converter_for d e) (base_bytes e b (VInt x))"
  using assms(1)
proof (induction d rule: leading_tag.induct)
  case (1 b' v')
  then show ?case using conv_tag_rejects [OF assms(2,3,4)] by simp
next
  case (2 ds)
  then show ?case by (auto split: list.splits intro: conv_tuple_rejects)
next
  case (3 ds)
  then show ?case by (auto split: list.splits intro: conv_struct_rejects conv_tuple_rejects)
qed auto

lemma codec_tuple_encoding:
  assumes "length Ts = length subs" "length gs = length subs"
    and "\<And>i. i < length subs \<Longrightarrow> codec (subs ! i) (Ts ! i) (gs ! i)"
    and "True \<notin> set (butlast gs)"
    and "tr_max tr = sum_list (map max_size subs)" "tr_min tr \<le> sum_list (map size_min subs)"
    and "tuple_typed Ts vs"
  shows "encoding (conv_tuple subs tr) (VTuple vs) = tuple_bytes subs vs"
proof -
  have maps: "map fst (zip subs gs) = subs" "map snd (zip subs gs) = gs"
    using assms(2) by simp_all
  then have maps': "map (f \<circ> fst) (zip subs gs) = map f subs" for f :: "converter \<Rightarrow> nat"
    by (metis map_map)
  show ?thesis
    using conv_tuple_codes(1) [OF tuple_typed_codes [OF assms(7,1-3)], of tr] assms(4-6)
    by (auto simp: maps maps' simp del: map_map intro: encodes_encoding)
qed

lemma conv_struct_encoding:
  "tr_max tr = max_size sub \<Longrightarrow> encoding (conv_struct sub tr) (VStruct vs) = encoding sub (VTuple vs)"
  by (simp add: encoding_def conv_struct_def)

text \<open>The contract of one definition, and what its messages begin with.\<close>

definition leads :: "endian \<Rightarrow> pdef \<Rightarrow> bool" where
  "leads e d \<longleftrightarrow>
     (\<forall>b x v. leading_tag d = Some (b, x) \<longrightarrow> typed d v \<longrightarrow>
        (\<exists>rest. encoding (converter_for d e) v = base_bytes e b (VInt x) @ rest))"

definition keeps_contract :: "endian \<Rightarrow> pdef \<Rightarrow> bool" where
  "keeps_contract e d \<longleftrightarrow> codec (converter_for d e) (typed d) (greedy d) \<and> leads e d"

lemma keeps_contractI:
  "codec (converter_for d e) (typed d) (greedy d) \<Longrightarrow> leading_tag d = None \<Longrightarrow> keeps_contract e d"
  by (simp add: keeps_contract_def leads_def)

lemma keeps_contract_codec: "keeps_contract e d \<Longrightarrow> codec (converter_for d e) (typed d) (greedy d)"
  by (simp add: keeps_contract_def)

lemma keeps_contract_nth:
  "\<forall>d \<in> set ds. keeps_contract e d \<Longrightarrow> i < length ds \<Longrightarrow>
   codec (map (\<lambda>d. converter_for d e) ds ! i) (map typed ds ! i) (map greedy ds ! i)"
  by (simp add: keeps_contract_codec)

lemma keeps_contract_nth_any:
  "\<forall>d \<in> set ds. keeps_contract e d \<Longrightarrow> i < length ds \<Longrightarrow>
   codec (map (\<lambda>d. converter_for d e) ds ! i) (map typed ds ! i) (True \<in> set (map greedy ds))"
  by (rule codec_weaken, rule keeps_contract_nth) (simp_all, metis image_eqI nth_mem)

lemma tuple_sizes:
  "tr_max (tuple_traits (map traits_for ds)) = sum_list (map max_size (map (\<lambda>d. converter_for d e) ds))"
  "tr_min (tuple_traits (map traits_for ds)) \<le> sum_list (map size_min (map (\<lambda>d. converter_for d e) ds))"
  using sum_list_mono [of ds "\<lambda>d. tr_min (traits_for d)" "\<lambda>d. size_min (converter_for d e)"]
  by (simp_all add: tuple_traits_def max_size_converter_for size_min_converter_for comp_def)

lemma keeps_contract_tuple_leads:
  assumes sub: "\<forall>d \<in> set ds. keeps_contract e d" and g: "True \<notin> set (butlast (map greedy ds))"
    and vs: "tuple_typed (map typed ds) vs" and lead: "leading_tag (DTuple ds) = Some (b, x)"
  shows "\<exists>rest. encoding (converter_for (DTuple ds) e) (VTuple vs) = base_bytes e b (VInt x) @ rest"
proof -
  obtain d ds' v vs' where ds: "ds = d # ds'" and v: "vs = v # vs'" and d: "leading_tag d = Some (b, x)" "typed d v"
    using lead vs by (cases ds; cases vs) (auto simp: tuple_typed_def)
  have "encoding (converter_for (DTuple ds) e) (VTuple vs)
      = tuple_bytes (map (\<lambda>d. converter_for d e) ds) vs"
    using codec_tuple_encoding [OF _ _ _ g tuple_sizes vs, of e] keeps_contract_nth [OF sub] by simp
  moreover have "leads e d" using sub ds by (simp add: keeps_contract_def)
  ultimately show ?thesis using d by (auto simp: ds v leads_def)
qed

lemma leading_tag_base:
  "leading_tag d = Some (b, x) \<Longrightarrow> well_formed d \<Longrightarrow> base_ok b \<and> base_typed b (VInt x)"
  by (induction d rule: leading_tag.induct) (auto split: list.splits)

lemma tags_distinctD:
  assumes "tags_distinct ls" "i < length ls" "j < i"
  obtains b x y where "ls ! i = Some (b, x)" "ls ! j = Some (b, y)" "x \<noteq> y"
proof -
  have mem: "ls ! i \<in> set ls" "ls ! j \<in> set ls" using assms by simp_all
  then obtain p q where p: "ls ! i = Some p" and q: "ls ! j = Some q"
    using assms(1) by (metis option.exhaust tags_distinct_def)
  moreover have "fst p = fst q" using mem p q assms(1) by (metis option.sel tags_distinct_def)
  moreover have "ls ! i \<noteq> ls ! j"
    using assms by (metis tags_distinct_def nth_eq_iff_index_eq order.strict_trans order.strict_implies_not_eq)
  then have "p \<noteq> q" using p q by simp
  ultimately show thesis using that by (metis prod.collapse)
qed

lemma base_size_pos: "base_ok b \<Longrightarrow> 0 < base_size b"
proof (induction b)
  case (BEnum u)
  then show ?case using int_base_ok [of u] by simp
qed auto

lemma base_bytes_nonempty: "base_ok b \<Longrightarrow> base_typed b v \<Longrightarrow> base_bytes e b v \<noteq> []"
  by (metis base_size_pos length_base_bytes list.size(3) less_numeral_extra(3))

lemma group_sizes:
  assumes "d \<in> set ds"
  shows "max_size (converter_for d e) \<le> tr_max (group_traits (map traits_for ds)) \<and>
    tr_min (group_traits (map traits_for ds)) \<le> size_min (converter_for d e)"
proof
  show "max_size (converter_for d e) \<le> tr_max (group_traits (map traits_for ds))"
    using assms by (auto simp: group_traits_def max_size_converter_for intro!: max_of_ge)
  have "tr_min (group_traits (map traits_for ds)) \<le> tr_min (traits_for d)"
    using assms by (auto simp: group_traits_def intro!: min_of_le)
  then show "tr_min (group_traits (map traits_for ds)) \<le> size_min (converter_for d e)"
    using size_min_converter_for [of d e] by simp
qed

lemma keeps_contract_group:
  assumes sub: "\<forall>d \<in> set ds. keeps_contract e d" and wf: "\<forall>d \<in> set ds. well_formed d"
    and tags: "tags_distinct (map leading_tag ds)"
  shows "keeps_contract e (DGroup ds)"
proof (rule keeps_contractI)
  let ?cs = "map (\<lambda>d. converter_for d e) ds" and ?Ts = "map typed ds"
  have lead: "\<exists>rest. encoding (?cs ! i) v = base_bytes e b (VInt x) @ rest"
    if "i < length ds" "leading_tag (ds ! i) = Some (b, x)" "(?Ts ! i) v" for i b x v
    using sub that by (auto simp: keeps_contract_def leads_def)
  show "codec (converter_for (DGroup ds) e) (typed (DGroup ds)) (greedy (DGroup ds))"
    unfolding converter_for.simps typed.simps greedy.simps traits_for.simps
  proof (rule codec_group)
    fix i j v assume i: "i < length ?cs" and j: "j < i" and v: "(?Ts ! i) v"
    obtain b x y where x: "leading_tag (ds ! i) = Some (b, x)" and y: "leading_tag (ds ! j) = Some (b, y)"
      and ne: "x \<noteq> y" using tags_distinctD [OF tags, of i j] i j by auto
    have b: "base_ok b \<and> base_typed b (VInt x)"
      using leading_tag_base [OF x] wf i by simp
    then show "encoding (?cs ! i) v \<noteq> [] \<and> rejects (?cs ! j) (encoding (?cs ! i) v)"
      using lead [OF _ x v] leading_tag_rejects [OF y _ _ ne, of e] base_bytes_nonempty [of b "VInt x" e] i j
      by (auto intro: rejects_append)
  next
    fix i v assume i: "i < length ?cs" and v: "(?Ts ! i) v"
    then have "leading_tag (ds ! i) \<noteq> None"
      using tags by (metis length_map nth_map nth_mem tags_distinct_def)
    then obtain b x where x: "leading_tag (ds ! i) = Some (b, x)" by force
    have "base_ok b \<and> base_typed b (VInt x)"
      using leading_tag_base [OF x] wf i by simp
    then show "encoding (?cs ! i) v \<noteq> []"
      using lead [OF _ x v] base_bytes_nonempty [of b "VInt x" e] i by auto
  qed (use keeps_contract_nth_any [OF sub] group_sizes [of _ ds e] in auto)
qed simp

lemma tag_group_traits_eq:
  "tag_group_traits t ts = group_traits (map (\<lambda>s. \<lparr>tr_max = tr_max t + tr_max s, tr_min = tr_min t + tr_min s\<rparr>) ts)"
  by (simp add: tag_group_traits_def tuple_traits_def)

lemma tag_group_sizes:
  assumes "d \<in> set ds"
  shows "base_size b + max_size (converter_for d e) \<le> tr_max (traits_for (DTagGroup b ids ds)) \<and>
    tr_min (traits_for (DTagGroup b ids ds)) \<le> base_size b + size_min (converter_for d e)"
proof
  show "base_size b + max_size (converter_for d e) \<le> tr_max (traits_for (DTagGroup b ids ds))"
    using assms
    by (auto simp: tag_group_traits_eq group_traits_def tag_traits_def base_traits_def max_size_converter_for intro!: max_of_ge)
  have "tr_min (traits_for (DTagGroup b ids ds)) \<le> base_size b + tr_min (traits_for d)"
    using assms by (auto simp: tag_group_traits_eq group_traits_def tag_traits_def base_traits_def intro!: min_of_le)
  then show "tr_min (traits_for (DTagGroup b ids ds)) \<le> base_size b + size_min (converter_for d e)"
    using size_min_converter_for [of d e] by simp
qed

lemma variant_sizes:
  assumes "d \<in> set ds"
  shows "1 + max_size (converter_for d e) \<le> tr_max (variant_traits (map traits_for ds))"
    and "tr_min (variant_traits (map traits_for ds)) \<le> 1 + size_min (converter_for d e)"
proof -
  have "tr_max (traits_for d) \<le> max_of (map tr_max (map traits_for ds))"
    using assms by (intro max_of_ge) auto
  then show "1 + max_size (converter_for d e) \<le> tr_max (variant_traits (map traits_for ds))"
    by (simp add: variant_traits_def base_traits_def max_size_converter_for)
  have "min_of (map tr_min (map traits_for ds)) \<le> tr_min (traits_for d)"
    using assms by (intro min_of_le) auto
  then show "tr_min (variant_traits (map traits_for ds)) \<le> 1 + size_min (converter_for d e)"
    using size_min_converter_for [of d e] by (simp add: variant_traits_def base_traits_def)
qed

lemma keeps_contract_tuple:
  assumes sub: "\<forall>d \<in> set ds. keeps_contract e d" and g: "True \<notin> set (butlast (map greedy ds))"
  shows "keeps_contract e (DTuple ds)"
proof -
  have "codec (converter_for (DTuple ds) e) (typed (DTuple ds)) (greedy (DTuple ds))"
    unfolding converter_for.simps typed.simps greedy.simps traits_for.simps
    by (rule codec_tuple) (use keeps_contract_nth [OF sub] g tuple_sizes [of ds e] in auto)
  moreover have "leads e (DTuple ds)"
    using keeps_contract_tuple_leads [OF sub g] unfolding leads_def
    by (fastforce split: pval.splits)
  ultimately show ?thesis by (simp add: keeps_contract_def)
qed

lemma keeps_contract_struct:
  assumes "keeps_contract e (DTuple ds)"
  shows "keeps_contract e (DStruct ds)"
proof -
  let ?c = "converter_for (DTuple ds) e"
  have sz: "tr_max (traits_for (DStruct ds)) = max_size ?c" "tr_min (traits_for (DStruct ds)) = size_min ?c"
    by (simp_all add: struct_traits_def converter_simps)
  have "codec ?c (\<lambda>v. case v of VTuple vs \<Rightarrow> tuple_typed (map typed ds) vs | _ \<Rightarrow> False) (greedy (DStruct ds))"
    using keeps_contract_codec [OF assms] by (simp add: typed.simps(3) [abs_def])
  from codec_struct [OF this sz(1) eq_refl [OF sz(2)]]
  have "codec (converter_for (DStruct ds) e) (typed (DStruct ds)) (greedy (DStruct ds))"
    by (simp add: typed.simps(23) [abs_def])
  moreover have "encoding (converter_for (DStruct ds) e) (VStruct vs) = encoding ?c (VTuple vs)" for vs
    using conv_struct_encoding [OF sz(1)] by simp
  then have "leads e (DStruct ds)"
    using assms unfolding keeps_contract_def leads_def
    by (auto split: pval.splits)
  ultimately show ?thesis by (simp add: keeps_contract_def)
qed

section \<open>Every well-formed definition keeps the contract\<close>

lemma codec_cong: "codec c T g \<Longrightarrow> (\<And>v. T' v = T v) \<Longrightarrow> g' = g \<Longrightarrow> codec c T' g'"
  by (erule codec_weaken) simp_all

theorem well_formed_keeps_contract: "well_formed d \<Longrightarrow> keeps_contract e d"
proof (induction d e rule: converter_for.induct)
  case (1 b e)
  then show ?case by (intro keeps_contractI) (auto intro: codec_cong [OF codec_base])
next
  case (2 d N e)
  then have sub: "codec (converter_for d e) (typed d) False" by (auto dest: keeps_contract_codec)
  show ?case
    by (rule keeps_contractI)
      (auto simp: array_traits_def max_size_converter_for size_min_converter_for
        intro!: codec_cong [OF codec_array [OF sub]])
next
  case (3 ds e)
  then show ?case by (intro keeps_contract_tuple) (auto simp: list_all_iff)
next
  case (4 ds e)
  then have sub: "\<forall>d \<in> set ds. keeps_contract e d" by (auto simp: list_all_iff)
  show ?case
    using 4(2) keeps_contract_nth_any [OF sub] variant_sizes [of _ ds e]
    by (intro keeps_contractI) (auto intro!: codec_cong [OF codec_variant [where g = "True \<in> set (map greedy ds)"]])
next
  case (5 e)
  show ?case by (intro keeps_contractI) (auto intro: codec_cong [OF codec_monostate])
next
  case (6 N e)
  show ?case
    by (intro keeps_contractI) (auto simp: bitset_traits_def intro!: codec_cong [OF codec_bitset])
next
  case (7 N e)
  show ?case
    by (intro keeps_contractI) (auto simp: sizeless_traits_def intro!: codec_cong [OF codec_sizeless])
next
  case (8 N e)
  then show ?case
    by (intro keeps_contractI)
      (auto simp: message_traits_def base_traits_def intro!: codec_cong [OF codec_message])
next
  case (9 b off e)
  then show ?case
    by (intro keeps_contractI)
      (auto simp: offset_traits_def base_traits_def intro!: codec_cong [OF codec_offset])
next
  case (10 d e)
  then have sub: "codec (converter_for d e) (typed d) (greedy d)" by (auto dest: keeps_contract_codec)
  show ?case
    by (rule keeps_contractI)
      (auto simp: quantity_traits_def max_size_converter_for intro!: codec_cong [OF codec_quantity [OF sub]])
next
  case (11 b lo hi e)
  then show ?case
    by (intro keeps_contractI)
      (auto simp: bounded_traits_def base_traits_def intro!: codec_cong [OF codec_bounded])
next
  case (12 c d e)
  then have sub: "codec (converter_for d e) (typed d) (greedy d)"
    and cnt: "counts (counter_base c) (converter_for c e) (max_size (converter_for d e))"
    by (auto dest: keeps_contract_codec simp: max_size_converter_for intro: counter_counts)
  show ?case
    using 12(3) size_min_converter_for [of d e] counter_size [of c]
    by (intro keeps_contractI)
      (auto simp: sized_traits_def max_size_converter_for intro!: codec_cong [OF codec_sized [OF sub cnt]])
next
  case (13 b v e)
  then have "codec (converter_for (DTag b v) e) (typed (DTag b v)) (greedy (DTag b v))"
    by (auto simp: tag_traits_def base_traits_def intro!: codec_cong [OF codec_tag])
  moreover have "leads e (DTag b v)"
    unfolding leads_def using 13 conv_tag_encodes [of b v "traits_for (DTag b v)" e] encodes_encoding
    by (auto simp: tag_traits_def base_traits_def)
  ultimately show ?case by (simp add: keeps_contract_def)
next
  case (14 ds e)
  then show ?case by (intro keeps_contract_group) (auto simp: list_all_iff)
next
  case (15 b ids ds e)
  then have sub: "\<forall>d \<in> set ds. keeps_contract e d" by (auto simp: list_all_iff)
  show ?case
    using 15(2) keeps_contract_nth_any [OF sub] tag_group_sizes [of _ ds b e ids]
    by (intro keeps_contractI)
      (auto simp: tag_traits_def base_traits_def intro!: codec_cong [OF codec_tag_group [where g = "True \<in> set (map greedy ds)"]])
next
  case (16 e' d e)
  then show ?case
    by (intro keeps_contractI) (auto dest: keeps_contract_codec intro: codec_cong)
next
  case (17 d e)
  then show ?case by (auto simp: keeps_contract_def leads_def intro: codec_cong)
next
  case (18 N e)
  then show ?case
    by (intro keeps_contractI)
      (auto simp: string_traits_def base_traits_def intro!: codec_cong [OF codec_string])
next
  case (19 d e)
  then have sub: "codec (converter_for d e) (typed d) (greedy d)" by (auto dest: keeps_contract_codec)
  show ?case
    by (rule keeps_contractI)
      (auto simp: duration_traits_def max_size_converter_for size_min_converter_for
        intro!: codec_cong [OF codec_duration [OF sub]])
next
  case (20 e)
  then show ?case by simp
next
  case (21 d N e)
  then have sub: "codec (converter_for d e) (typed d) False" by (auto dest: keeps_contract_codec)
  show ?case
    using 21(2)
    by (intro keeps_contractI)
      (auto simp: vector_traits_def base_traits_def max_size_converter_for
        intro!: codec_cong [OF codec_vector [OF sub]])
next
  case (22 d e)
  then have sub: "codec (converter_for d e) (typed d) (greedy d)" by (auto dest: keeps_contract_codec)
  show ?case
    by (intro keeps_contractI)
      (auto simp: optional_traits_def bounded_traits_def base_traits_def max_size_converter_for
        intro!: codec_cong [OF codec_optional [OF sub]])
next
  case (23 ds e)
  then show ?case by (intro keeps_contract_struct keeps_contract_tuple) (auto simp: list_all_iff)
qed

lemma well_formed_codec: "well_formed d \<Longrightarrow> codec (converter_for d e) (typed d) (greedy d)"
  by (rule keeps_contract_codec [OF well_formed_keeps_contract])

interpretation proto: codec "converter_for d e" "\<lambda>v. well_formed d \<and> typed d v" "greedy d" for d e
proof (unfold_locales, elim conjE)
  fix v assume "well_formed d" "typed d v"
  then show "\<exists>bs. encodes (converter_for d e) v bs \<and> decodes (converter_for d e) (greedy d) v bs"
    using codec.codes [OF well_formed_codec] by blast
qed

section \<open>The bytes of composed definitions\<close>

lemma encoding_base:
  assumes "base_ok b" "base_typed b v"
  shows "encoding (converter_for (DBase b) e) v = base_bytes e b v"
  using encodes_encoding [OF conv_base_encodes [OF assms, of e]] by simp

lemma encoding_tuple:
  assumes "well_formed (DTuple ds)" "typed (DTuple ds) (VTuple vs)"
  shows "encoding (converter_for (DTuple ds) e) (VTuple vs) = tuple_bytes (map (\<lambda>d. converter_for d e) ds) vs"
proof -
  have sub: "\<forall>d \<in> set ds. keeps_contract e d"
    using assms(1) well_formed_keeps_contract by (auto simp: list_all_iff)
  have g: "True \<notin> set (butlast (map greedy ds))" and vs: "tuple_typed (map typed ds) vs"
    using assms by simp_all
  show ?thesis
    using codec_tuple_encoding [OF _ _ _ g tuple_sizes vs, of e] keeps_contract_nth [OF sub] by simp
qed

lemma encoding_array:
  assumes "well_formed (DArray d N)" "length vs = N" "\<forall>x \<in> set vs. typed d x"
  shows "encoding (converter_for (DArray d N) e) (VArray vs) = tuple_bytes (replicate N (converter_for d e)) vs"
proof -
  have "codec (converter_for d e) (typed d) False" using well_formed_codec [of d e] assms(1) by simp
  from conv_array_encodes [OF this assms(2,3)] show ?thesis
    by (auto simp: array_traits_def max_size_converter_for size_min_converter_for intro!: encodes_encoding)
qed

lemma encoding_sized:
  assumes "well_formed (DSized c d)" "typed d v"
  shows "encoding (converter_for (DSized c d) e) v
    = encoding (converter_for c e) (VInt (int (length (encoding (converter_for d e) v)))) @ encoding (converter_for d e) v"
proof -
  have wf: "well_formed d" and c: "counter_ok c (max_size (converter_for d e))"
    using assms(1) by (simp_all add: max_size_converter_for)
  from conv_sized_encodes [OF well_formed_codec [OF wf] assms(2) counter_counts [OF c]]
  show ?thesis
    using counter_size [of c] size_min_converter_for [of d e] assms(1)
    by (auto simp: sized_traits_def max_size_converter_for intro!: encodes_encoding)
qed

end
