(* ===== verification/ProtoParser.thy ===== *)
theory ProtoParser
  imports ProtoCodec
begin

text \<open>
  Reading arbitrary bytes.  A message comes from the outside, so a deserialiser meets bytes that no
  serialiser has written.  The contract \<open>parser\<close> says that it then has a defined result, that a
  success used no more bytes than there were, and that the object it has written to is still one of
  its C++ type, with or without an error.  \<open>read_safe\<close> are the definitions for which this holds;
  the ones that are left out read past the end of some inputs.
\<close>

section \<open>The contract\<close>

text \<open>The result of a read into an object, with the object afterwards in \<open>S\<close>.\<close>

definition reads_into :: "(pval \<Rightarrow> bool) \<Rightarrow> byte list \<Rightarrow> (conversion_result \<times> pval) option \<Rightarrow> bool" where
  "reads_into S buf res \<longleftrightarrow>
     (\<exists>r v. res = Some (r, v) \<and> S v \<and> (\<not> has_error r \<longrightarrow> used r \<le> length buf))"

locale parser =
  fixes c :: converter and S :: "pval \<Rightarrow> bool"
  assumes init: "S (init_value c)"
    and reads: "S v \<Longrightarrow> reads_into S buf (deserialize c buf v)"
begin

lemma reads_init: "reads_into S buf (deserialize c buf (init_value c))"
  using reads [OF init] .

lemma readsE:
  assumes "S v"
  obtains r v' where "deserialize c buf v = Some (r, v')" "S v'" "\<not> has_error r \<Longrightarrow> used r \<le> length buf"
  using reads [OF assms, of buf] unfolding reads_into_def by blast

lemma reads_initE:
  obtains r v' where "deserialize c buf (init_value c) = Some (r, v')" "S v'"
    "\<not> has_error r \<Longrightarrow> used r \<le> length buf"
  using readsE [OF init] by blast

end

lemma parserI:
  "S (init_value c) \<Longrightarrow> (\<And>v buf. S v \<Longrightarrow> reads_into S buf (deserialize c buf v)) \<Longrightarrow> parser c S"
  by unfold_locales

lemma reads_into_Some [simp]:
  "reads_into S buf (Some (r, v)) \<longleftrightarrow> S v \<and> (\<not> has_error r \<longrightarrow> used r \<le> length buf)"
  by (simp add: reads_into_def)

named_theorems parser_intros \<comment> \<open>one rule per converter\<close>

section \<open>Base types and what wraps one of them\<close>

lemma base_deserialize_typed:
  "base_ok b \<Longrightarrow> length buf = base_size b \<Longrightarrow> base_typed b (base_deserialize e b buf)"
proof (induction b)
  case (BUInt n)
  then show ?case using deserialize_int_in [of "BUInt n" buf e] by simp
next
  case (BSInt n)
  then show ?case using deserialize_int_in [of "BSInt n" buf e] by simp
next
  case (BEnum u)
  then show ?case using deserialize_int_in [of u buf e] by (simp add: deserialize_enum_def)
qed simp_all

lemma int_in_zero: "int_base b \<Longrightarrow> int_in b 0"
  by (induction b) (auto simp: int_in_def)

lemma base_default_typed: "base_ok b \<Longrightarrow> base_typed b (base_default b)"
proof (induction b)
  case (BEnum u)
  then show ?case using int_in_zero [of u] by simp
qed (auto simp: int_in_def)

lemma conv_base_reads:
  assumes "base_ok b"
  shows "deserialize (conv_base e b) buf w
    = (if length buf < base_size b then Some (conv_err 0 size_err, w)
       else Some (conv_ok (base_size b), base_deserialize e b (take (base_size b) buf)))"
    and "\<not> length buf < base_size b \<Longrightarrow> base_typed b (base_deserialize e b (take (base_size b) buf))"
  using base_deserialize_typed [OF assms]
  by (simp_all add: conv_base_def base_traits_def Let_def)

lemma conv_base_reads_int:
  assumes "int_base b"
  shows "(length buf < base_size b \<and> deserialize (conv_base e b) buf w = Some (conv_err 0 size_err, w)) \<or>
    (base_size b \<le> length buf \<and>
     (\<exists>x. int_in b x \<and> deserialize (conv_base e b) buf w = Some (conv_ok (base_size b), VInt x)))"
  using conv_base_reads(1) [OF int_base_ok [OF assms], of e buf w]
    conv_base_reads(2) [OF int_base_ok [OF assms], of buf e] assms
  by (cases b) (auto simp: int_in_def split: pval.splits)

lemma parser_base [parser_intros]: "base_ok b \<Longrightarrow> parser (conv_base e b) (base_typed b)"
  using conv_base_reads(1) [of b e] conv_base_reads(2) [of b _ e] base_default_typed [of b]
  by (intro parserI) (auto simp: converter_simps)

definition bounded_shaped :: "int \<Rightarrow> int \<Rightarrow> pval \<Rightarrow> bool" where
  "bounded_shaped lo hi v = (case v of VBounded x \<Rightarrow> lo \<le> x \<and> x \<le> hi | _ \<Rightarrow> False)"

text \<open>No message makes a bounded value leave its bounds.\<close>

lemma parser_bounded [parser_intros]:
  assumes "int_base b" "lo \<le> hi"
  shows "parser (conv_bounded e b lo hi tr) (bounded_shaped lo hi)"
proof (rule parserI)
  show "bounded_shaped lo hi (init_value (conv_bounded e b lo hi tr))"
    using assms by (simp add: bounded_shaped_def converter_simps)
  fix v buf assume "bounded_shaped lo hi v"
  then show "reads_into (bounded_shaped lo hi) buf (deserialize (conv_bounded e b lo hi tr) buf v)"
    using conv_base_reads_int [OF assms(1), of buf e "VInt 0"]
    by (auto simp: conv_bounded_def bounded_shaped_def Let_def)
qed

text \<open>The arithmetic of an offset is defined when the type is promoted to \<open>int\<close> or unsigned.\<close>

definition adds_safely :: "base_type \<Rightarrow> bool" where
  "adds_safely b \<longleftrightarrow> int_base b \<and> (case b of BSInt n \<Rightarrow> n < 4 | _ \<Rightarrow> True)"

lemma base_add_safe: "adds_safely b \<Longrightarrow> base_add b x y = Some (cast_to b (x + y))"
  by (auto simp: base_add_def adds_safely_def split: base_type.splits)

definition int_shaped :: "base_type \<Rightarrow> pval \<Rightarrow> bool" where
  "int_shaped b v = (case v of VInt x \<Rightarrow> int_in b x | _ \<Rightarrow> False)"

lemma parser_offset [parser_intros]:
  assumes "adds_safely b"
  shows "parser (conv_offset e b off tr) (int_shaped b)"
proof (rule parserI)
  have b: "int_base b" using assms by (simp add: adds_safely_def)
  show "int_shaped b (init_value (conv_offset e b off tr))"
    using int_in_zero [OF b] by (simp add: int_shaped_def converter_simps)
  fix v buf assume "int_shaped b v"
  then obtain x where "v = VInt x" by (auto simp: int_shaped_def split: pval.splits)
  then show "reads_into (int_shaped b) buf (deserialize (conv_offset e b off tr) buf v)"
    using conv_base_reads_int [OF b, of buf e v]
    by (auto simp: conv_offset_def base_add_safe [OF assms] int_shaped_def Let_def)
qed

lemma parser_tag [parser_intros]:
  assumes "base_ok b"
  shows "parser (conv_tag e b V tr) (\<lambda>v. v = VTag)"
  using conv_base_reads(1) [OF assms, of e]
  by (intro parserI) (auto simp: conv_tag_def Let_def)

lemma parser_monostate [parser_intros]: "parser conv_monostate (\<lambda>v. v = VMonostate)"
  by (rule parserI) (simp_all add: conv_monostate_def)

lemma parser_quantity [parser_intros]:
  assumes "parser sub S"
  shows "parser (conv_quantity sub tr) (\<lambda>v. case v of VQuantity x \<Rightarrow> S x | _ \<Rightarrow> False)"
  by (rule parserI)
    (use parser.init [OF assms] parser.reads_init [OF assms] in
      \<open>force simp: conv_quantity_def reads_into_def split: pval.splits\<close>)+

lemma parser_duration [parser_intros]:
  assumes "parser sub S"
  shows "parser (conv_duration sub tr) (\<lambda>v. case v of VDuration x \<Rightarrow> S x | _ \<Rightarrow> False)"
  by (rule parserI)
    (use parser.init [OF assms] parser.reads_init [OF assms] in
      \<open>force simp: conv_duration_def reads_into_def split: pval.splits\<close>)+

section \<open>Byte sequences\<close>

lemma conv_bitset_length:
  "length (bitset_deserialize e m N buf fs) = length fs"
proof -
  have inner: "length (fold (\<lambda>j value. value [i * 8 + j := g j]) js value) = length value"
    for i js and g :: "nat \<Rightarrow> bool" and "value" :: "bool list"
    by (induction js arbitrary: "value") simp_all
  have "length (fold (\<lambda>i value. fold (\<lambda>j value. value [i * 8 + j := bit (buf ! bget e m i) j])
      [0..<min 8 (N - i * 8)] value) is fs) = length fs" for "is"
    by (induction "is" arbitrary: fs) (simp_all add: inner)
  then show ?thesis by (simp add: bitset_deserialize_def)
qed

lemma parser_bitset [parser_intros]:
  "parser (conv_bitset e N tr) (\<lambda>v. case v of VBitset fs \<Rightarrow> length fs = N | _ \<Rightarrow> False)"
  by (rule parserI) (auto simp: conv_bitset_def Let_def conv_bitset_length split: pval.splits)

lemma parser_message [parser_intros]: "parser (conv_message e N tr) (message_typed N)"
proof (rule parserI)
  fix v buf assume v: "message_typed N v"
  show "reads_into (message_typed N) buf (deserialize (conv_message e N tr) buf v)"
    using conv_base_reads_int [of "BUInt 2" buf e "VInt 0"] v
    by (auto simp: conv_message_def message_typed_def Let_def)
qed (simp add: converter_simps message_typed_def)

lemma parser_sizeless [parser_intros]: "parser (conv_sizeless N tr) (message_typed N)"
  by (rule parserI) (auto simp: conv_sizeless_def message_typed_def)

text \<open>The readers that take any bytes whatever, as instances of the contract.\<close>

interpretation message_reader: parser "conv_message e N tr" "message_typed N" for e N tr
  by (rule parser_message)

interpretation sizeless_reader: parser "conv_sizeless N tr" "message_typed N" for N tr
  by (rule parser_sizeless)

interpretation bitset_reader: parser "conv_bitset e N tr" "\<lambda>v. case v of VBitset fs \<Rightarrow> length fs = N | _ \<Rightarrow> False"
  for e N tr
  by (rule parser_bitset)

text \<open>A string that ends inside its array: the last character is the zero it was constructed with.\<close>

definition string_shaped :: "nat \<Rightarrow> pval \<Rightarrow> bool" where
  "string_shaped N v = (case v of VString data \<Rightarrow> length data = N \<and> 0 < N \<and> data ! (N - 1) = 0 | _ \<Rightarrow> False)"

lemma copy_n_prefix:
  assumes "n < length arr" "n \<le> length src"
  shows "\<exists>arr'. copy_n src n 0 arr = Some arr' \<and> length arr' = length arr \<and>
    arr' ! (length arr - 1) = arr ! (length arr - 1)"
  using assms by (auto simp: copy_n_def nth_append)

lemma parser_string [parser_intros]:
  assumes "0 < N"
  shows "parser (conv_string e N tr) (string_shaped N)"
proof (rule parserI)
  show "string_shaped N (init_value (conv_string e N tr))"
    using assms by (simp add: converter_simps string_shaped_def sb_empty_def)
  fix v buf assume "string_shaped N v"
  then obtain data where v: "v = VString data" and d: "length data = N" "data ! (N - 1) = 0"
    by (auto simp: string_shaped_def split: pval.splits)
  consider "deserialize (conv_base e (BUInt 2)) buf (VInt 0) = Some (conv_err 0 size_err, VInt 0)"
    | x where "2 \<le> length buf" "deserialize (conv_base e (BUInt 2)) buf (VInt 0) = Some (conv_ok 2, VInt x)"
    using conv_base_reads_int [of "BUInt 2" buf e "VInt 0"] by auto
  then show "reads_into (string_shaped N) buf (deserialize (conv_string e N tr) buf v)"
  proof cases
    case 1
    then show ?thesis using d assms by (simp add: conv_string_def v string_shaped_def Let_def)
  next
    case (2 x)
    show ?thesis
    proof (cases "length buf < 2 + nat x \<or> N \<le> nat x")
      case True
      then show ?thesis using 2 d assms by (auto simp: conv_string_def v string_shaped_def Let_def)
    next
      case False
      then have "nat x \<le> length (drop 2 buf)" by auto
      with False obtain data' where "copy_n (drop 2 buf) (nat x) 0 data = Some data'"
        "length data' = N" "data' ! (N - 1) = 0"
        using copy_n_prefix [of "nat x" data "drop 2 buf"] d by auto
      then show ?thesis using 2 d assms False by (simp add: conv_string_def v string_shaped_def Let_def)
    qed
  qed
qed

section \<open>Sequences of definitions\<close>

lemma deserialize_tuple_reads:
  assumes "length Ss = length subs" "\<And>i. i < length subs \<Longrightarrow> parser (subs ! i) (Ss ! i)" "tuple_typed Ss vs"
  shows "\<exists>r vs'. deserialize_tuple subs buf off vs = Some (r, vs') \<and> tuple_typed Ss vs' \<and>
    (\<not> has_error r \<longrightarrow> off \<le> length buf \<longrightarrow> used r \<le> length buf)"
  using assms
proof (induction subs arbitrary: Ss vs off)
  case (Cons c subs)
  obtain S Ss' v vs' where S: "Ss = S # Ss'" and v: "vs = v # vs'" and Sv: "S v" and tv: "tuple_typed Ss' vs'"
    using Cons.prems(1,3) by (cases Ss; cases vs) (auto simp: tuple_typed_def)
  have c: "parser c S" using Cons.prems(2) [of 0] S by simp
  show ?case
  proof (cases "off > length buf")
    case True
    then show ?thesis using Cons.prems(3) v by simp
  next
    case False
    obtain r x where r: "deserialize c (drop off buf) v = Some (r, x)" "S x"
      "\<not> has_error r \<Longrightarrow> used r \<le> length (drop off buf)"
      using parser.readsE [OF c Sv] by blast
    show ?thesis
    proof (cases "has_error r")
      case True
      then show ?thesis using False r tv S v by (simp add: tuple_typed_def)
    next
      case ok: False
      obtain r' xs where "deserialize_tuple subs buf (off + used r) vs' = Some (r', xs)" "tuple_typed Ss' xs"
        "\<not> has_error r' \<longrightarrow> off + used r \<le> length buf \<longrightarrow> used r' \<le> length buf"
        using Cons.IH [of Ss' vs' "off + used r"] Cons.prems(1) Cons.prems(2) [of "Suc _"] tv S by auto
      then show ?thesis using False ok r S v by (auto simp: tuple_typed_def)
    qed
  qed
qed (auto simp: tuple_typed_def)

lemma tuple_typed_init:
  assumes "length Ss = length subs" "\<And>i. i < length subs \<Longrightarrow> parser (subs ! i) (Ss ! i)"
  shows "tuple_typed Ss (map init_value subs)"
  using assms parser.init by (auto simp: tuple_typed_def list_all2_conv_all_nth)

lemma parser_tuple [parser_intros]:
  assumes "length Ss = length subs" "\<And>i. i < length subs \<Longrightarrow> parser (subs ! i) (Ss ! i)"
  shows "parser (conv_tuple subs tr) (\<lambda>v. case v of VTuple vs \<Rightarrow> tuple_typed Ss vs | _ \<Rightarrow> False)"
proof (rule parserI)
  show "case init_value (conv_tuple subs tr) of VTuple vs \<Rightarrow> tuple_typed Ss vs | _ \<Rightarrow> False"
    using tuple_typed_init [OF assms] by (simp add: converter_simps)
  fix v buf assume "case v of VTuple vs \<Rightarrow> tuple_typed Ss vs | _ \<Rightarrow> False"
  then obtain vs where "v = VTuple vs" "tuple_typed Ss vs" by (auto split: pval.splits)
  then show "reads_into (\<lambda>v. case v of VTuple vs \<Rightarrow> tuple_typed Ss vs | _ \<Rightarrow> False) buf
      (deserialize (conv_tuple subs tr) buf v)"
    using deserialize_tuple_reads [OF assms, of vs buf 0] by (auto simp: conv_tuple_def)
qed

lemma parser_struct [parser_intros]:
  assumes "parser (conv_tuple subs tr') (\<lambda>v. case v of VTuple vs \<Rightarrow> S vs | _ \<Rightarrow> False)"
  shows "parser (conv_struct (conv_tuple subs tr') tr) (\<lambda>v. case v of VStruct vs \<Rightarrow> S vs | _ \<Rightarrow> False)"
proof (rule parserI)
  let ?c = "conv_tuple subs tr'"
  show "case init_value (conv_struct ?c tr) of VStruct vs \<Rightarrow> S vs | _ \<Rightarrow> False"
    using parser.init [OF assms] by (simp add: converter_simps)
  fix v buf assume v: "case v of VStruct vs \<Rightarrow> S vs | _ \<Rightarrow> False"
  obtain r x where "deserialize ?c buf (init_value ?c) = Some (r, x)"
      "case x of VTuple vs \<Rightarrow> S vs | _ \<Rightarrow> False" "\<not> has_error r \<Longrightarrow> used r \<le> length buf"
    by (rule parser.reads_initE [OF assms, of buf]) blast
  then show "reads_into (\<lambda>v. case v of VStruct vs \<Rightarrow> S vs | _ \<Rightarrow> False) buf
      (deserialize (conv_struct ?c tr) buf v)"
    using v by (auto simp: conv_struct_def split: pval.splits)
qed

lemma deserialize_range_reads:
  assumes "parser sub S" "\<forall>x \<in> set data. S x"
  shows "\<exists>r data'. deserialize_range sub buf 0 data = Some (r, data') \<and> length data' = length data \<and>
    (\<forall>x \<in> set data'. S x) \<and> (\<not> has_error r \<longrightarrow> used r \<le> length buf)"
proof -
  let ?n = "length data"
  have S: "tuple_typed (replicate ?n S) xs \<longleftrightarrow> length xs = ?n \<and> (\<forall>x \<in> set xs. S x)" for xs
    by (auto simp: tuple_typed_def list_all2_conv_all_nth all_set_conv_all_nth)
  have "\<exists>r data'. deserialize_tuple (replicate ?n sub) buf 0 data = Some (r, data') \<and>
      tuple_typed (replicate ?n S) data' \<and> (\<not> has_error r \<longrightarrow> 0 \<le> length buf \<longrightarrow> used r \<le> length buf)"
    by (rule deserialize_tuple_reads) (use assms S in auto)
  then show ?thesis unfolding deserialize_range_tuple S by auto
qed

lemma parser_array [parser_intros]:
  assumes "parser sub S"
  shows "parser (conv_array sub tr N)
    (\<lambda>v. case v of VArray vs \<Rightarrow> length vs = N \<and> (\<forall>x \<in> set vs. S x) | _ \<Rightarrow> False)"
proof (rule parserI)
  show "case init_value (conv_array sub tr N) of VArray vs \<Rightarrow> length vs = N \<and> (\<forall>x \<in> set vs. S x) | _ \<Rightarrow> False"
    using parser.init [OF assms] by (simp add: converter_simps)
  fix v buf assume "case v of VArray vs \<Rightarrow> length vs = N \<and> (\<forall>x \<in> set vs. S x) | _ \<Rightarrow> False"
  then obtain vs where "v = VArray vs" "length vs = N" "\<forall>x \<in> set vs. S x" by (auto split: pval.splits)
  then show "reads_into (\<lambda>v. case v of VArray vs \<Rightarrow> length vs = N \<and> (\<forall>x \<in> set vs. S x) | _ \<Rightarrow> False) buf
      (deserialize (conv_array sub tr N) buf v)"
    using deserialize_range_reads [OF assms, of vs buf] by (auto simp: conv_array_def)
qed

lemma vector_grow_keeps:
  assumes "length vs \<le> N" "\<forall>x \<in> set vs. S x" "S d"
  shows "length (vector_grow N count d vs) \<le> N \<and> (\<forall>x \<in> set (vector_grow N count d vs). S x)"
  using assms
proof (induction N count d vs rule: vector_grow.induct)
  case (1 N count d vs)
  then show ?case by (subst (1 2) vector_grow.simps) auto
qed

text \<open>Whatever the count in the message, the vector stays within its capacity.\<close>

lemma parser_vector [parser_intros]:
  assumes "parser sub S"
  shows "parser (conv_vector e sub tr N) (vector_typed S N)"
proof (rule parserI)
  fix v buf assume "vector_typed S N v"
  then obtain vs where v: "v = VVector vs" and vs: "length vs \<le> N" "\<forall>x \<in> set vs. S x"
    by (auto simp: vector_typed_def split: pval.splits)
  consider "deserialize (conv_base e (BUInt 2)) buf (VInt 0) = Some (conv_err 0 size_err, VInt 0)"
    | x where "2 \<le> length buf" "deserialize (conv_base e (BUInt 2)) buf (VInt 0) = Some (conv_ok 2, VInt x)"
    using conv_base_reads_int [of "BUInt 2" buf e "VInt 0"] by auto
  then show "reads_into (vector_typed S N) buf (deserialize (conv_vector e sub tr N) buf v)"
  proof cases
    case 1
    then show ?thesis using vs by (simp add: conv_vector_def v vector_typed_def Let_def)
  next
    case (2 x)
    let ?vs = "vector_grow N (nat x) (init_value sub) vs"
    note grow = vector_grow_keeps [OF vs parser.init [OF assms], of "nat x"]
    obtain r data' where "deserialize_range sub (drop 2 buf) 0 ?vs = Some (r, data')"
      "length data' = length ?vs" "\<forall>x \<in> set data'. S x" "\<not> has_error r \<longrightarrow> used r \<le> length (drop 2 buf)"
      using deserialize_range_reads [OF assms, of ?vs "drop 2 buf"] grow by blast
    then show ?thesis using 2 grow
      by (auto simp: conv_vector_def v vector_typed_def subspan_le converter_simps Let_def)
  qed
qed (simp add: converter_simps vector_typed_def)

section \<open>Alternatives\<close>

lemma variant_typed_init:
  assumes "subs \<noteq> []" "length Ss = length subs" "\<And>i. i < length subs \<Longrightarrow> parser (subs ! i) (Ss ! i)"
  shows "variant_typed Ss (init_variant subs)"
  using assms(1,2) parser.init [OF assms(3) [of 0]]
  by (cases subs) (auto simp: init_variant_def variant_typed_def)

lemma parser_variant [parser_intros]:
  assumes "subs \<noteq> []" "length Ss = length subs" "\<And>i. i < length subs \<Longrightarrow> parser (subs ! i) (Ss ! i)"
  shows "parser (conv_variant e subs tr) (variant_typed Ss)"
proof (rule parserI)
  show "variant_typed Ss (init_value (conv_variant e subs tr))"
    using variant_typed_init [OF assms] by (simp add: converter_simps)
  fix v buf assume v: "variant_typed Ss v"
  consider "deserialize (conv_base e (BUInt 1)) buf (VInt 0) = Some (conv_err 0 size_err, VInt 0)"
    | x where "1 \<le> length buf" "deserialize (conv_base e (BUInt 1)) buf (VInt 0) = Some (conv_ok 1, VInt x)"
    using conv_base_reads_int [of "BUInt 1" buf e "VInt 0"] by auto
  then show "reads_into (variant_typed Ss) buf (deserialize (conv_variant e subs tr) buf v)"
  proof cases
    case 1
    then show ?thesis using v by (simp add: conv_variant_def Let_def)
  next
    case (2 x)
    show ?thesis
    proof (cases "0 \<le> x \<and> nat x < length subs")
      case False
      then show ?thesis using 2 v by (auto simp: conv_variant_def subspan_le converter_simps Let_def)
    next
      case True
      let ?c = "subs ! nat x"
      obtain r y where "deserialize ?c (drop 1 buf) (init_value ?c) = Some (r, y)" "(Ss ! nat x) y"
        "\<not> has_error r \<Longrightarrow> used r \<le> length (drop 1 buf)"
        using parser.reads_initE [OF assms(3)] True by blast
      then show ?thesis using 2 True assms(2)
        by (auto simp: conv_variant_def subspan_le converter_simps variant_typed_def Let_def)
    qed
  qed
qed

lemma group_loop_reads:
  assumes "variant_typed Ss v" "I + length subs = length Ss"
    and "\<And>i. i < length subs \<Longrightarrow> parser (subs ! i) (Ss ! (I + i))"
  shows "\<exists>m v'. group_loop subs I buf v = Some (m, v') \<and> variant_typed Ss v' \<and>
    (\<forall>r. m = Some r \<longrightarrow> \<not> has_error r \<longrightarrow> used r \<le> length buf)"
  using assms
proof (induction subs arbitrary: I v)
  case (Cons c subs)
  obtain r x where r: "deserialize c buf (init_value c) = Some (r, x)" "(Ss ! I) x"
    "\<not> has_error r \<Longrightarrow> used r \<le> length buf"
    using parser.reads_initE [of c "Ss ! I" buf] Cons.prems(3) [of 0] by auto
  have x: "variant_typed Ss (VVariant I x)" using r(2) Cons.prems(2) by (simp add: variant_typed_def)
  show ?case
  proof (cases "used r \<noteq> 0")
    case True
    then show ?thesis using r x by simp
  next
    case False
    then show ?thesis using r Cons.IH [OF x, of "Suc I"] Cons.prems(2) Cons.prems(3) [of "Suc _"] by auto
  qed
qed simp

lemma parser_group [parser_intros]:
  assumes "subs \<noteq> []" "length Ss = length subs" "\<And>i. i < length subs \<Longrightarrow> parser (subs ! i) (Ss ! i)"
  shows "parser (conv_group subs tr) (variant_typed Ss)"
proof (rule parserI)
  show "variant_typed Ss (init_value (conv_group subs tr))"
    using variant_typed_init [OF assms] by (simp add: converter_simps)
  fix v buf assume "variant_typed Ss v"
  then show "reads_into (variant_typed Ss) buf (deserialize (conv_group subs tr) buf v)"
    using group_loop_reads [of Ss v 0 subs buf] assms(2,3)
    by (auto simp: conv_group_def split: option.splits)
qed

lemma tag_group_loop_reads:
  assumes "variant_typed Ss v" "I + length alts = length Ss" "used r0 \<le> length buf"
    and "\<And>i. i < length alts \<Longrightarrow> parser (fst (alts ! i)) (\<lambda>v. v = VTag) \<and> parser (snd (alts ! i)) (Ss ! (I + i))"
  shows "reads_into (variant_typed Ss) buf (tag_group_loop alts I buf r0 v)"
  using assms
proof (induction alts arbitrary: I)
  case (Cons alt alts)
  obtain tagc c where alt: "alt = (tagc, c)" by (cases alt)
  have p: "parser tagc (\<lambda>v. v = VTag)" "parser c (Ss ! I)" using Cons.prems(4) [of 0] alt by simp_all
  obtain t where t: "deserialize tagc buf VTag = Some (t, VTag)" "\<not> has_error t \<Longrightarrow> used t \<le> length buf"
    using parser.readsE [OF p(1), of VTag buf] by blast
  show ?case
  proof (cases "has_error t")
    case True
    then show ?thesis using t Cons.IH [of "Suc I"] Cons.prems(1-3) Cons.prems(4) [of "Suc _"] alt by simp
  next
    case False
    obtain r x where "deserialize c (drop (used t) buf) (init_value c) = Some (r, x)" "(Ss ! I) x"
      "\<not> has_error r \<Longrightarrow> used r \<le> length (drop (used t) buf)"
      using parser.reads_initE [OF p(2)] by blast
    then show ?thesis using t False Cons.prems(2) alt by (auto simp: subspan_le variant_typed_def)
  qed
qed simp

lemma parser_tag_group [parser_intros]:
  assumes "alts \<noteq> []" "length Ss = length alts"
    and "\<And>i. i < length alts \<Longrightarrow> parser (fst (alts ! i)) (\<lambda>v. v = VTag) \<and> parser (snd (alts ! i)) (Ss ! i)"
  shows "parser (conv_tag_group alts tr) (variant_typed Ss)"
proof (rule parserI)
  show "variant_typed Ss (init_value (conv_tag_group alts tr))"
    using variant_typed_init [of "map snd alts" Ss] assms by (simp add: converter_simps)
  fix v buf assume "variant_typed Ss v"
  then show "reads_into (variant_typed Ss) buf (deserialize (conv_tag_group alts tr) buf v)"
    using tag_group_loop_reads [of Ss v 0 alts "\<lparr>used = 0, error = None\<rparr>" buf] assms(2,3)
    by (simp add: conv_tag_group_def)
qed

section \<open>Sized buffers\<close>

text \<open>A counter that reads a size for which \<open>used + size\<close> cannot wrap around.\<close>

definition reads_size :: "converter \<Rightarrow> bool" where
  "reads_size cnt \<longleftrightarrow>
     (\<forall>buf. (\<exists>r v. deserialize cnt buf (VInt 0) = Some (r, v) \<and> has_error r) \<or>
        (\<exists>x. deserialize cnt buf (VInt 0) = Some (conv_ok (max_size cnt), VInt x) \<and>
          max_size cnt \<le> length buf \<and> 0 \<le> x \<and> nat x + max_size cnt < 2 ^ 64))"

lemma parser_sized [parser_intros]:
  assumes sub: "parser sub S" and cnt: "reads_size cnt"
  shows "parser (conv_sized b cnt sub tr) S"
proof (rule parserI)
  show "S (init_value (conv_sized b cnt sub tr))"
    using parser.init [OF sub] by (simp add: converter_simps)
  fix v buf assume v: "S v"
  consider r w where "deserialize cnt buf (VInt 0) = Some (r, w)" "has_error r"
    | x where "deserialize cnt buf (VInt 0) = Some (conv_ok (max_size cnt), VInt x)"
      "max_size cnt \<le> length buf" "0 \<le> x" "nat x + max_size cnt < 2 ^ 64"
    using cnt unfolding reads_size_def by blast
  then show "reads_into S buf (deserialize (conv_sized b cnt sub tr) buf v)"
  proof cases
    case (1 r w)
    then show ?thesis using v by (simp add: conv_sized_def)
  next
    case (2 x)
    let ?n = "nat x" and ?m = "max_size cnt"
    have x: "nat (x mod 2 ^ 64) = ?n" "(?m + ?n) mod 2 ^ 64 = ?m + ?n"
      using 2(3,4) by (simp_all add: nat_mod_distrib add.commute)
    show ?thesis
    proof (cases "length buf < ?m + ?n")
      case True
      then show ?thesis using 2(1) v x by (simp add: conv_sized_def Let_def)
    next
      case False
      obtain r y where "deserialize sub (take ?n (drop ?m buf)) v = Some (r, y)" "S y"
        "\<not> has_error r \<Longrightarrow> used r \<le> length (take ?n (drop ?m buf))"
        using parser.readsE [OF sub v] by blast
      then show ?thesis using 2(1) x False by (auto simp: conv_sized_def Let_def)
    qed
  qed
qed

fun counter_safe :: "pdef \<Rightarrow> bool" where
  "counter_safe (DBase b) = (case b of BUInt n \<Rightarrow> 0 < n \<and> n < 8 | _ \<Rightarrow> False)"
| "counter_safe (DOffset b off) = (case b of BUInt n \<Rightarrow> 0 < n \<and> n < 8 | _ \<Rightarrow> False)"
| "counter_safe (DEndian e d) = counter_safe d"
| "counter_safe (DDef d) = counter_safe d"
| "counter_safe _ = False"

lemma small_size:
  assumes "int_in (BUInt n) x" "n < 8"
  shows "0 \<le> x \<and> nat x + n < 2 ^ 64"
proof -
  have x: "0 \<le> x" "x < 2 ^ (8 * n)" using assms(1) by (auto simp: int_in_unsigned)
  have "(2 :: int) ^ (8 * n) \<le> 2 ^ 56" using assms(2) by (intro power_increasing) auto
  with x assms(2) show ?thesis by auto
qed

lemma counter_safe_reads: "counter_safe c \<Longrightarrow> reads_size (converter_for c e)"
proof (induction c arbitrary: e rule: counter_safe.induct)
  case (1 b)
  then obtain n where b: "b = BUInt n" and n: "0 < n" "n < 8" by (auto split: base_type.splits)
  show ?case
    unfolding reads_size_def
  proof
    fix buf
    from conv_base_reads_int [of b buf e "VInt 0"]
    show "(\<exists>r v. deserialize (converter_for (DBase b) e) buf (VInt 0) = Some (r, v) \<and> has_error r) \<or>
      (\<exists>x. deserialize (converter_for (DBase b) e) buf (VInt 0) =
          Some (conv_ok (max_size (converter_for (DBase b) e)), VInt x) \<and>
        max_size (converter_for (DBase b) e) \<le> length buf \<and> 0 \<le> x \<and>
        nat x + max_size (converter_for (DBase b) e) < 2 ^ 64)"
      using b n small_size [of n] by (fastforce simp: converter_simps)
  qed
next
  case (2 b off)
  then obtain n where b: "b = BUInt n" and n: "0 < n" "n < 8" by (auto split: base_type.splits)
  let ?c = "converter_for (DOffset b off) e"
  have sz: "max_size ?c = n" using b by (simp add: converter_simps offset_traits_def base_traits_def)
  show ?case
    unfolding reads_size_def sz
  proof
    fix buf
    have "(length buf < n \<and> deserialize ?c buf (VInt 0) = Some (conv_err 0 size_err, VInt (cast_to b (0 + - off)))) \<or>
      (n \<le> length buf \<and> (\<exists>x. deserialize ?c buf (VInt 0) = Some (conv_ok n, VInt (cast_to b (x + - off)))))"
      using conv_base_reads_int [of b buf e "VInt 0"] b n
      by (auto simp: conv_offset_def base_add_def Let_def)
    then show "(\<exists>r v. deserialize ?c buf (VInt 0) = Some (r, v) \<and> has_error r) \<or>
      (\<exists>x. deserialize ?c buf (VInt 0) = Some (conv_ok n, VInt x) \<and> n \<le> length buf \<and> 0 \<le> x \<and> nat x + n < 2 ^ 64)"
      using small_size [OF cast_in, of n] b n by fastforce
  qed
qed simp_all

section \<open>All definitions\<close>

fun shaped :: "pdef \<Rightarrow> pval \<Rightarrow> bool" where
  "shaped (DBase b) v = base_typed b v"
| "shaped (DArray d N) v =
     (case v of VArray vs \<Rightarrow> length vs = N \<and> (\<forall>x \<in> set vs. shaped d x) | _ \<Rightarrow> False)"
| "shaped (DTuple ds) v = (case v of VTuple vs \<Rightarrow> tuple_typed (map shaped ds) vs | _ \<Rightarrow> False)"
| "shaped (DVariant ds) v = variant_typed (map shaped ds) v"
| "shaped DMonostate v = (v = VMonostate)"
| "shaped (DBitset N) v = (case v of VBitset fs \<Rightarrow> length fs = N | _ \<Rightarrow> False)"
| "shaped (DSizeless N) v = message_typed N v"
| "shaped (DMessage N) v = message_typed N v"
| "shaped (DOffset b off) v = int_shaped b v"
| "shaped (DQuantity d) v = (case v of VQuantity x \<Rightarrow> shaped d x | _ \<Rightarrow> False)"
| "shaped (DBounded b lo hi) v = bounded_shaped lo hi v"
| "shaped (DSized c d) v = shaped d v"
| "shaped (DTag b x) v = (v = VTag)"
| "shaped (DGroup ds) v = variant_typed (map shaped ds) v"
| "shaped (DTagGroup b ids ds) v = variant_typed (map shaped ds) v"
| "shaped (DEndian e d) v = shaped d v"
| "shaped (DDef d) v = shaped d v"
| "shaped (DString N) v = string_shaped N v"
| "shaped (DDuration d) v = (case v of VDuration x \<Rightarrow> shaped d x | _ \<Rightarrow> False)"
| "shaped DErrorRecord v =
     (case v of VErrorRecord m off \<Rightarrow> length m = mark_size \<and> int_in (BUInt 8) off | _ \<Rightarrow> False)"
| "shaped (DVector d N) v = vector_typed (shaped d) N v"
| "shaped (DOptional d) v = optional_typed (shaped d) v"
| "shaped (DStruct ds) v = (case v of VStruct vs \<Rightarrow> tuple_typed (map shaped ds) vs | _ \<Rightarrow> False)"

fun read_safe :: "pdef \<Rightarrow> bool" where
  "read_safe (DBase b) = base_ok b"
| "read_safe (DArray d N) = read_safe d"
| "read_safe (DTuple ds) = list_all read_safe ds"
| "read_safe (DVariant ds) = (ds \<noteq> [] \<and> list_all read_safe ds)"
| "read_safe (DOffset b off) = adds_safely b"
| "read_safe (DQuantity d) = read_safe d"
| "read_safe (DBounded b lo hi) = (int_base b \<and> lo \<le> hi)"
| "read_safe (DSized c d) = (counter_safe c \<and> read_safe d)"
| "read_safe (DTag b v) = base_ok b"
| "read_safe (DGroup ds) = (ds \<noteq> [] \<and> list_all read_safe ds)"
| "read_safe (DTagGroup b ids ds) = (ds \<noteq> [] \<and> base_ok b \<and> length ids = length ds \<and> list_all read_safe ds)"
| "read_safe (DEndian e d) = read_safe d"
| "read_safe (DDef d) = read_safe d"
| "read_safe (DString N) = (0 < N)"
| "read_safe (DDuration d) = read_safe d"
| "read_safe DErrorRecord = False"
| "read_safe (DVector d N) = read_safe d"
| "read_safe (DOptional d) = False"
| "read_safe (DStruct ds) = list_all read_safe ds"
| "read_safe _ = True"

lemma parser_cong: "parser c S \<Longrightarrow> (\<And>v. S' v = S v) \<Longrightarrow> parser c S'"
proof -
  assume "parser c S" "\<And>v. S' v = S v"
  moreover from this(2) have "S' = S" by (intro ext)
  ultimately show "parser c S'" by simp
qed

lemma nth_map_parser:
  "\<forall>d \<in> set ds. parser (converter_for d e) (shaped d) \<Longrightarrow> i < length ds \<Longrightarrow>
   parser (map (\<lambda>d. converter_for d e) ds ! i) (map shaped ds ! i)"
  by simp

theorem read_safe_parser: "read_safe d \<Longrightarrow> parser (converter_for d e) (shaped d)"
proof (induction d e rule: converter_for.induct)
  case (3 ds e)
  then have "\<forall>d \<in> set ds. parser (converter_for d e) (shaped d)" by (auto simp: list_all_iff)
  then show ?case by (auto intro!: parser_cong [OF parser_tuple])
next
  case (23 ds e)
  then have "\<forall>d \<in> set ds. parser (converter_for d e) (shaped d)" by (auto simp: list_all_iff)
  then show ?case by (auto intro!: parser_cong [OF parser_struct [OF parser_tuple]])
next
  case (15 b ids ds e)
  then have "\<forall>d \<in> set ds. parser (converter_for d e) (shaped d)" by (auto simp: list_all_iff)
  then show ?case using 15(2) by (auto intro!: parser_cong [OF parser_tag_group] parser_tag)
qed (auto simp: list_all_iff intro!: parser_cong [OF parser_base] parser_cong [OF parser_array]
  parser_cong [OF parser_variant] parser_cong [OF parser_monostate] parser_cong [OF parser_bitset]
  parser_cong [OF parser_sizeless] parser_cong [OF parser_message] parser_cong [OF parser_offset]
  parser_cong [OF parser_quantity] parser_cong [OF parser_bounded]
  parser_cong [OF parser_sized [OF _ counter_safe_reads]] parser_cong [OF parser_tag]
  parser_cong [OF parser_group] parser_cong [OF parser_string] parser_cong [OF parser_duration]
  parser_cong [OF parser_vector] intro: parser_cong)

end
