(* ===== verification/Handler.thy ===== *)
theory Handler
  imports ProtoParser
begin

text \<open>
  \<open>protocol/handler.hpp\<close>: messages of a definition, and \<open>protocol/command_group.hpp\<close>, the groups of
  commands that are distinguished by the id in front.
\<close>

section \<open>Handler\<close>

text \<open>
  \<open>message_type res{ max_size }\<close> has the right size and indeterminate bytes, here \<open>raw\<close>; the
  assertion \<open>*used <= max_size\<close> is part of the definedness.
\<close>

definition handler_serialize :: "pdef \<Rightarrow> endian \<Rightarrow> byte list \<Rightarrow> pval \<Rightarrow> byte list option" where
  "handler_serialize d e raw val = do {
     (res, used) \<leftarrow> serialize_at (converter_for d e) raw val;
     (if used \<le> max_size (converter_for d e) then Some (take used res) else None)
   }"

definition handler_extract :: "pdef \<Rightarrow> endian \<Rightarrow> byte list \<Rightarrow> (pval + error_record) option" where
  "handler_extract d e msg = do {
     (res, val) \<leftarrow> deserialize (converter_for d e) msg (default_val d);
     (case error res of
        Some m \<Rightarrow> Some (Inr \<lparr>error_mark = mark_text m, error_offset = used res\<rparr>)
      | None \<Rightarrow> Some (Inl val))
   }"

lemma well_formed_init: "well_formed d \<Longrightarrow> init_value (converter_for d e) = default_val d"
  by (rule init_value_converter_for)

text \<open>The message of a value is its encoding, whatever was in the memory of the message before.\<close>

lemma handler_serialize_eq:
  assumes "well_formed d" "typed d v" "length raw = max_size (converter_for d e)"
  shows "handler_serialize d e raw v = Some (encoding (converter_for d e) v)"
  using encodesD [OF codec.encoding_encodes [OF well_formed_codec [OF assms(1)] assms(2), of e]] assms(3)
  by (simp add: handler_serialize_def)

lemma handler_extract_eq:
  assumes "well_formed d" "typed d v" "greedy d \<Longrightarrow> rest = []"
  shows "handler_extract d e (encoding (converter_for d e) v @ rest) = Some (Inl v)"
  using decodesD [OF codec.encoding_decodes [OF well_formed_codec [OF assms(1)] assms(2), of e], of rest]
    assms(3) well_formed_init [OF assms(1), of e]
  by (simp add: handler_extract_def)

lemma handler_extract_safe:
  assumes "read_safe d" "init_value (converter_for d e) = default_val d"
  shows "(\<exists>v. handler_extract d e msg = Some (Inl v) \<and> shaped d v) \<or>
    (\<exists>r. handler_extract d e msg = Some (Inr r))"
proof -
  obtain r v where "deserialize (converter_for d e) msg (default_val d) = Some (r, v)" "shaped d v"
    using parser.reads_initE [OF read_safe_parser [OF assms(1)], of e msg] assms(2) by metis
  then show ?thesis by (cases "error r") (simp_all add: handler_extract_def)
qed

section \<open>Command groups\<close>

text \<open>
  A command is its id and its arguments, \<open>command< ID, Defs... >\<close>; all ids of a group have the type
  \<open>id_type\<close>.  \<open>make_val\<close> gives the last command of that id the arguments, as \<open>for_each_index\<close> visits
  all of them and \<open>res\<close> is assigned at each match; without one the assertion fails.
\<close>

type_synonym command = "int \<times> pdef list"

definition command_def_type :: "base_type \<Rightarrow> command \<Rightarrow> pdef" where
  "command_def_type id_type cmd = (case cmd of (ID, defs) \<Rightarrow> DTuple (DTag id_type ID # defs))"

definition command_group_def_type :: "endian \<Rightarrow> base_type \<Rightarrow> command list \<Rightarrow> pdef" where
  "command_group_def_type e id_type cmds =
     DDef (DEndian e (DGroup (map (command_def_type id_type) cmds)))"

definition command_make_val :: "pval list \<Rightarrow> pval" where
  "command_make_val args = VTuple (VTag # args)"

definition command_group_make_val :: "command list \<Rightarrow> int \<Rightarrow> pval list \<Rightarrow> pval option" where
  "command_group_make_val cmds Idv args =
     fold (\<lambda>(I, cmd) res. if fst cmd = Idv then Some (VVariant I (command_make_val args)) else res)
       (zip [0..<length cmds] cmds) None"

text \<open>A group of commands is well formed when the ids differ and only last arguments are greedy.\<close>

definition commands_ok :: "base_type \<Rightarrow> command list \<Rightarrow> bool" where
  "commands_ok id_type cmds \<longleftrightarrow>
     base_ok id_type \<and> distinct (map fst cmds) \<and>
     (\<forall>(ID, defs) \<in> set cmds. base_typed id_type (VInt ID) \<and> list_all well_formed defs \<and>
        True \<notin> set (butlast (map greedy defs)))"

lemma command_well_formed:
  assumes "base_ok b" "base_typed b (VInt ID)" "list_all well_formed defs" "True \<notin> set (butlast (map greedy defs))"
  shows "well_formed (command_def_type b (ID, defs))"
  using assms by (simp add: command_def_type_def)

lemma commands_well_formed:
  assumes "commands_ok b cmds"
  shows "well_formed (command_group_def_type e b cmds)"
proof -
  have tags: "map leading_tag (map (command_def_type b) cmds) = map (\<lambda>x. Some (b, x)) (map fst cmds)"
    by (induction cmds) (auto simp: command_def_type_def)
  have "tags_distinct (map leading_tag (map (command_def_type b) cmds))"
    using assms unfolding tags tags_distinct_def commands_ok_def
    by (cases cmds) (auto simp: distinct_map inj_on_def)
  moreover have "list_all well_formed (map (command_def_type b) cmds)"
    using assms command_well_formed by (fastforce simp: commands_ok_def list_all_iff)
  ultimately show ?thesis by (simp add: command_group_def_type_def comp_def)
qed

lemma fold_unique_match:
  "\<forall>p \<in> set xs. fst (snd p) = Idv \<longrightarrow> fst p = i \<Longrightarrow>
   fold (\<lambda>(I, cmd) res. if fst cmd = Idv then Some (f I) else res) xs r
     = (if \<exists>p \<in> set xs. fst (snd p) = Idv then Some (f i) else r)"
  by (induction xs arbitrary: r) auto

lemma make_val_nth:
  assumes "distinct (map fst cmds)" "i < length cmds" "fst (cmds ! i) = Idv"
  shows "command_group_make_val cmds Idv args = Some (VVariant i (command_make_val args))"
proof -
  let ?xs = "zip [0..<length cmds] cmds"
  have "\<forall>p \<in> set ?xs. fst (snd p) = Idv \<longrightarrow> fst p = i"
  proof (intro ballI impI)
    fix p assume p: "p \<in> set ?xs" "fst (snd p) = Idv"
    then obtain j where "j < length cmds" "p = (j, cmds ! j)" by (auto simp: set_zip)
    then show "fst p = i"
      using p(2) assms nth_eq_iff_index_eq [OF assms(1), of j i] by simp
  qed
  moreover have "(i, cmds ! i) \<in> set ?xs" using assms(2) by (force simp: set_zip)
  then have "\<exists>p \<in> set ?xs. fst (snd p) = Idv" using assms(3) by force
  ultimately show ?thesis
    by (simp add: command_group_make_val_def fold_unique_match [where i = i])
qed

lemma make_val_typed:
  assumes "distinct (map fst cmds)" "i < length cmds" "cmds ! i = (Idv, defs)" "tuple_typed (map typed defs) args"
  shows "\<exists>v. command_group_make_val cmds Idv args = Some v \<and> typed (command_group_def_type e b cmds) v"
  using make_val_nth [OF assms(1,2), of Idv args] assms(2-4)
  by (auto simp: command_group_def_type_def command_make_val_def command_def_type_def variant_typed_def tuple_typed_def)

end
