(* ===== verification/CircularBuffer.thy ===== *)
theory CircularBuffer
  imports Prelude
begin

text \<open>
  \<open>static_circular_buffer.hpp\<close> on \<open>static_storage.hpp\<close>: a queue of at most \<open>N\<close> elements in a fixed
  array.  Two strategies manage its indices: the spacer strategy keeps one slot free and both
  indices below the number of slots; the overflow strategy, for powers of two, lets them run through
  the whole range of their type.  The buffer is modelled over a record of the strategy's members, as
  the class is a template over \<open>Strategy\<close>, and what it relies on is the locale \<open>index_strategy\<close>.

  A slot is \<^term>\<open>Some x\<close> while an object lives there and \<^const>\<open>None\<close> before its construction and
  after its destruction.  An operation that touches an object outside of its lifetime has no defined
  result, which is again \<^const>\<open>None\<close>.
\<close>

section \<open>Strategies\<close>

text \<open>
  The members of a strategy as functions of the values of \<open>from_\<close> and \<open>to_\<close>.  \<open>st_incr\<close> is what
  \<open>incr_front\<close> and \<open>incr_back\<close> store, \<open>st_idx\<close> what \<open>front_idx\<close> and \<open>back_idx\<close> return.
\<close>

record strategy =
  st_max :: nat
  st_incr :: "nat \<Rightarrow> nat \<Rightarrow> nat"
  st_idx :: "nat \<Rightarrow> nat"
  st_size :: "nat \<Rightarrow> nat \<Rightarrow> nat"
  st_empty :: "nat \<Rightarrow> nat \<Rightarrow> bool"
  st_full :: "nat \<Rightarrow> nat \<Rightarrow> bool"
  st_last :: "nat \<Rightarrow> nat"

definition select_index_bits :: "nat \<Rightarrow> nat" where
  "select_index_bits N =
     (if N \<le> 2 ^ 8 - 1 then 8 else if N \<le> 2 ^ 16 - 1 then 16 else if N \<le> 2 ^ 32 - 1 then 32 else 64)"

text \<open>Sums of two indices are computed in \<open>int\<close>, or in the type of the index when that is wider.\<close>

definition promoted_bits :: "nat \<Rightarrow> nat" where
  "promoted_bits N = max 32 (select_index_bits N)"

definition spacer_size :: "nat \<Rightarrow> nat \<Rightarrow> nat \<Rightarrow> nat" where
  "spacer_size N fr to =
     (if to \<ge> fr then to - fr else (to + (N + 1 - fr)) mod 2 ^ select_index_bits N)"

definition spacer_strategy :: "nat \<Rightarrow> strategy" where
  "spacer_strategy N =
     \<lparr>st_max = N + 1,
      st_incr = (\<lambda>i n. ((i + n) mod 2 ^ promoted_bits N) mod (N + 1) mod 2 ^ select_index_bits N),
      st_idx = (\<lambda>i. i),
      st_size = spacer_size N,
      st_empty = (\<lambda>fr to. fr = to),
      st_full = (\<lambda>fr to. spacer_size N fr to = N),
      st_last = (\<lambda>to. (to + (N + 1) - 1) mod (N + 1))\<rparr>"

definition overflow_size :: "nat \<Rightarrow> nat \<Rightarrow> nat \<Rightarrow> nat" where
  "overflow_size N fr to = nat ((int to - int fr) mod 2 ^ select_index_bits N)"

definition overflow_strategy :: "nat \<Rightarrow> strategy" where
  "overflow_strategy N =
     \<lparr>st_max = N,
      st_incr = (\<lambda>i n. (i + n) mod 2 ^ select_index_bits N),
      st_idx = (\<lambda>i. i mod N),
      st_size = overflow_size N,
      st_empty = (\<lambda>fr to. fr = to),
      st_full = (\<lambda>fr to. overflow_size N fr to = N mod 2 ^ select_index_bits N),
      st_last = (\<lambda>to. (to + N - 1) mod N)\<rparr>"

definition power_of_two :: "nat \<Rightarrow> bool" where
  "power_of_two N \<longleftrightarrow> N \<noteq> 0 \<and> N AND (N - 1) = 0"

definition select_strategy :: "nat \<Rightarrow> strategy" where
  "select_strategy N = (if power_of_two N then overflow_strategy N else spacer_strategy N)"

section \<open>The buffer\<close>

record 'a cbuf =
  cb_from :: nat
  cb_to :: nat
  cb_store :: "'a option list"

definition cb_new :: "strategy \<Rightarrow> 'a cbuf" where
  "cb_new S = \<lparr>cb_from = 0, cb_to = 0, cb_store = replicate (st_max S) None\<rparr>"

definition cb_size :: "strategy \<Rightarrow> 'a cbuf \<Rightarrow> nat" where
  "cb_size S b = st_size S (cb_from b) (cb_to b)"

definition cb_empty :: "strategy \<Rightarrow> 'a cbuf \<Rightarrow> bool" where
  "cb_empty S b = st_empty S (cb_from b) (cb_to b)"

definition cb_full :: "strategy \<Rightarrow> 'a cbuf \<Rightarrow> bool" where
  "cb_full S b = st_full S (cb_from b) (cb_to b)"

definition cb_front :: "strategy \<Rightarrow> 'a cbuf \<Rightarrow> 'a option" where
  "cb_front S b = cb_store b ! st_idx S (cb_from b)"

definition cb_back :: "strategy \<Rightarrow> 'a cbuf \<Rightarrow> 'a option" where
  "cb_back S b = cb_store b ! st_last S (cb_to b)"

definition cb_emplace_back :: "strategy \<Rightarrow> 'a cbuf \<Rightarrow> 'a \<Rightarrow> 'a cbuf" where
  "cb_emplace_back S b x =
     b\<lparr>cb_store := (cb_store b) [st_idx S (cb_to b) := Some x],
       cb_to := st_incr S (cb_to b) 1\<rparr>"

text \<open>\<open>static_storage::delete_item\<close> and \<open>delete_n\<close>.\<close>

definition delete_item :: "'a option list \<Rightarrow> nat \<Rightarrow> 'a option list option" where
  "delete_item st i = (if i < length st \<and> st ! i \<noteq> None then Some (st [i := None]) else None)"

primrec delete_n :: "'a option list \<Rightarrow> nat \<Rightarrow> nat \<Rightarrow> 'a option list option" where
  "delete_n st i 0 = Some st"
| "delete_n st i (Suc n) = do { st \<leftarrow> delete_item st i; delete_n st (i + 1) n }"

definition cb_pop_front :: "strategy \<Rightarrow> 'a cbuf \<Rightarrow> 'a cbuf option" where
  "cb_pop_front S b = do {
     st \<leftarrow> delete_item (cb_store b) (st_idx S (cb_from b));
     Some (b\<lparr>cb_store := st, cb_from := st_incr S (cb_from b) 1\<rparr>)
   }"

definition cb_pop_front_n :: "strategy \<Rightarrow> 'a cbuf \<Rightarrow> nat \<Rightarrow> 'a cbuf option" where
  "cb_pop_front_n S b n =
     (let idx = st_idx S (cb_from b); capacity = st_max S - idx in do {
        st \<leftarrow> (if capacity \<ge> n then delete_n (cb_store b) idx n
              else do {
                st \<leftarrow> delete_n (cb_store b) idx capacity;
                delete_n st 0 (n - capacity)
              });
        Some (b\<lparr>cb_store := st, cb_from := st_incr S (cb_from b) n\<rparr>)
      })"

definition cb_clear :: "strategy \<Rightarrow> 'a cbuf \<Rightarrow> 'a cbuf option" where
  "cb_clear S b = cb_pop_front_n S b (cb_size S b)"

definition cb_take_front :: "strategy \<Rightarrow> 'a cbuf \<Rightarrow> ('a \<times> 'a cbuf) option" where
  "cb_take_front S b = do {
     item \<leftarrow> cb_front S b;
     b \<leftarrow> cb_pop_front S b;
     Some (item, b)
   }"

text \<open>The objects in \<open>n\<close> slots from slot \<open>i\<close> on, all of which must be alive.\<close>

definition live_n :: "'a option list \<Rightarrow> nat \<Rightarrow> nat \<Rightarrow> 'a list option" where
  "live_n st i n =
     (let part = take n (drop i st)
      in if i + n \<le> length st \<and> None \<notin> set part then Some (map the part) else None)"

text \<open>
  \<open>take_front( buffer )\<close> moves the elements out of their slots and advances the index.  It does not
  destroy them: the slots stay alive.
\<close>

definition cb_take_front_n :: "strategy \<Rightarrow> 'a cbuf \<Rightarrow> nat \<Rightarrow> ('a list \<times> 'a cbuf) option" where
  "cb_take_front_n S b n =
     (let idx = st_idx S (cb_from b); capacity = st_max S - idx in do {
        xs \<leftarrow> (if capacity \<ge> n then live_n (cb_store b) idx n
              else do {
                xs \<leftarrow> live_n (cb_store b) idx capacity;
                ys \<leftarrow> live_n (cb_store b) 0 (n - capacity);
                Some (xs @ ys)
              });
        Some (xs, b\<lparr>cb_from := st_incr S (cb_from b) n\<rparr>)
      })"

text \<open>\<open>static_storage::copy_n\<close> and \<open>move_n\<close> construct the elements of a range in consecutive slots.\<close>

definition store_n :: "'a option list \<Rightarrow> nat \<Rightarrow> 'a list \<Rightarrow> 'a option list option" where
  "store_n st i xs =
     (if i + length xs \<le> length st
      then Some (take i st @ map Some xs @ drop (i + length xs) st) else None)"

definition cb_copy_range_back :: "strategy \<Rightarrow> 'a cbuf \<Rightarrow> 'a list \<Rightarrow> 'a cbuf option" where
  "cb_copy_range_back S b rng =
     (let idx = st_idx S (cb_to b); capacity = st_max S - idx; n = length rng in do {
        st \<leftarrow> (if capacity \<ge> n then store_n (cb_store b) idx rng
              else do {
                st \<leftarrow> store_n (cb_store b) idx (take capacity rng);
                store_n st 0 (drop capacity rng)
              });
        Some (b\<lparr>cb_store := st, cb_to := st_incr S (cb_to b) n\<rparr>)
      })"

section \<open>Iterators\<close>

text \<open>An iterator is its slot, between the first slot and the number \<open>m\<close> of slots.\<close>

definition iter_next :: "nat \<Rightarrow> nat \<Rightarrow> nat" where
  "iter_next m p = (if p + 1 = m then 0 else p + 1)"

definition iter_prev :: "nat \<Rightarrow> nat \<Rightarrow> nat" where
  "iter_prev m p = (if p = 0 then m else p) - 1"

text \<open>\<open>operator+=\<close>; the remainder of C++ has the sign of the dividend.\<close>

definition trunc_mod :: "int \<Rightarrow> int \<Rightarrow> int" where
  "trunc_mod a n = (if a \<ge> 0 then a mod n else - ((- a) mod n))"

definition iter_add :: "nat \<Rightarrow> nat \<Rightarrow> int \<Rightarrow> nat" where
  "iter_add m p v =
     (let i = trunc_mod (int p + v) (int m) in nat (if i < 0 then i + int m else i))"

definition iter_sub :: "nat \<Rightarrow> nat \<Rightarrow> int \<Rightarrow> nat" where
  "iter_sub m p v = iter_add m p (- v)"

definition cb_begin :: "strategy \<Rightarrow> 'a cbuf \<Rightarrow> nat" where
  "cb_begin S b = st_idx S (cb_from b)"

definition cb_end :: "strategy \<Rightarrow> 'a cbuf \<Rightarrow> nat" where
  "cb_end S b = st_idx S (cb_to b)"

text \<open>
  \<open>for ( auto it = first; it != last; ++it )\<close> over the slots, at most \<open>fuel\<close> steps; the elements in
  the order in which they are visited.
\<close>

primrec walk :: "nat \<Rightarrow> 'a option list \<Rightarrow> nat \<Rightarrow> nat \<Rightarrow> 'a list option" where
  "walk 0 st p e = (if p = e then Some [] else None)"
| "walk (Suc fuel) st p e =
     (if p = e then Some []
      else do {
        x \<leftarrow> st ! p;
        xs \<leftarrow> walk fuel st (iter_next (length st) p) e;
        Some (x # xs)
      })"

definition cb_iterate :: "strategy \<Rightarrow> 'a cbuf \<Rightarrow> 'a list option" where
  "cb_iterate S b = walk (st_max S) (cb_store b) (cb_begin S b) (cb_end S b)"

text \<open>The reverse iterators dereference the slot before their own.\<close>

primrec walk_back :: "nat \<Rightarrow> 'a option list \<Rightarrow> nat \<Rightarrow> nat \<Rightarrow> 'a list option" where
  "walk_back 0 st p e = (if p = e then Some [] else None)"
| "walk_back (Suc fuel) st p e =
     (if p = e then Some []
      else do {
        x \<leftarrow> st ! iter_prev (length st) p;
        xs \<leftarrow> walk_back fuel st (iter_prev (length st) p) e;
        Some (x # xs)
      })"

definition cb_iterate_back :: "strategy \<Rightarrow> 'a cbuf \<Rightarrow> 'a list option" where
  "cb_iterate_back S b = walk_back (st_max S) (cb_store b) (cb_end S b) (cb_begin S b)"

text \<open>\<open>std::equal( first, last, other )\<close>: stops at the first difference.\<close>

primrec equal_walk ::
  "nat \<Rightarrow> 'a option list \<Rightarrow> nat \<Rightarrow> nat \<Rightarrow> 'a option list \<Rightarrow> nat \<Rightarrow> bool option"
where
  "equal_walk 0 st p e st' p' = (if p = e then Some True else None)"
| "equal_walk (Suc fuel) st p e st' p' =
     (if p = e then Some True
      else do {
        x \<leftarrow> st ! p;
        y \<leftarrow> st' ! p';
        (if x = y
         then equal_walk fuel st (iter_next (length st) p) e st' (iter_next (length st') p')
         else Some False)
      })"

definition cb_eq :: "strategy \<Rightarrow> 'a cbuf \<Rightarrow> 'a cbuf \<Rightarrow> bool option" where
  "cb_eq S lh rh =
     (if cb_size S lh \<noteq> cb_size S rh then Some False
      else equal_walk (st_max S) (cb_store lh) (cb_begin S lh) (cb_end S lh) (cb_store rh) (cb_begin S rh))"

text \<open>
  Construction from another buffer: the elements are copied one by one, or, when the element type is
  trivially copyable, as one block of memory that starts at the first of them.
\<close>

primrec iter_take :: "nat \<Rightarrow> 'a option list \<Rightarrow> nat \<Rightarrow> 'a list option" where
  "iter_take 0 st p = Some []"
| "iter_take (Suc n) st p = do {
     x \<leftarrow> st ! p;
     xs \<leftarrow> iter_take n st (iter_next (length st) p);
     Some (x # xs)
   }"

definition cb_copy_construct :: "bool \<Rightarrow> strategy \<Rightarrow> 'a cbuf \<Rightarrow> 'a cbuf option" where
  "cb_copy_construct trivial S other =
     (let n = cb_size S other in do {
        rng \<leftarrow> (if trivial then live_n (cb_store other) (cb_begin S other) n
                 else iter_take n (cb_store other) (cb_begin S other));
        cb_copy_range_back S (cb_new S) rng
      })"

section \<open>The contract of a strategy\<close>

text \<open>
  \<open>N\<close> is the capacity.  Indices advance by at most \<open>N\<close> at a time, their slots advance with them
  around the array, and the size is the number of steps between the two indices.
\<close>

locale index_strategy =
  fixes S :: strategy and N :: nat and valid :: "nat \<Rightarrow> bool"
  assumes slot_less: "valid i \<Longrightarrow> st_idx S i < st_max S"
    and valid_incr: "valid i \<Longrightarrow> n \<le> N \<Longrightarrow> valid (st_incr S i n)"
    and slot_incr: "valid i \<Longrightarrow> n \<le> N \<Longrightarrow> st_idx S (st_incr S i n) = (st_idx S i + n) mod st_max S"
    and incr_0: "valid i \<Longrightarrow> st_incr S i 0 = i"
    and incr_add: "valid i \<Longrightarrow> m + n \<le> N \<Longrightarrow> st_incr S (st_incr S i m) n = st_incr S i (m + n)"
    and size_incr: "valid i \<Longrightarrow> n \<le> N \<Longrightarrow> st_size S i (st_incr S i n) = n"
    and empty_incr: "valid i \<Longrightarrow> n \<le> N \<Longrightarrow> st_empty S i (st_incr S i n) \<longleftrightarrow> n = 0"
    and full_incr: "valid i \<Longrightarrow> n \<le> N \<Longrightarrow> st_full S i (st_incr S i n) \<longleftrightarrow> n = N"
    and last_incr: "valid i \<Longrightarrow> 0 < n \<Longrightarrow> n \<le> N \<Longrightarrow>
      st_last S (st_incr S i n) = (st_idx S i + (n - 1)) mod st_max S"
    and capacity: "valid i \<Longrightarrow> N \<le> st_max S"

text \<open>The spacer strategy keeps the contract when the sums of two indices do not wrap around.\<close>

definition spacer_valid :: "nat \<Rightarrow> nat \<Rightarrow> bool" where
  "spacer_valid N i \<longleftrightarrow> 2 * N < 2 ^ promoted_bits N \<and> N < 2 ^ select_index_bits N - 1 \<and> i \<le> N"

lemma add_mod_cases:
  "i \<le> N \<Longrightarrow> n \<le> N \<Longrightarrow> (i + n) mod Suc N = (if i + n \<le> N then i + n else i + n - Suc N)"
  by (auto simp: mod_if)

lemma spacer_valid_less:
  assumes "spacer_valid N i" "j \<le> N"
  shows "Suc j < 2 ^ select_index_bits N"
proof -
  have "N + 1 < 2 ^ select_index_bits N"
    using assms(1) unfolding spacer_valid_def by (metis less_diff_conv)
  with assms(2) show ?thesis by linarith
qed

lemma spacer_incr:
  assumes "spacer_valid N i" "n \<le> N"
  shows "st_incr (spacer_strategy N) i n = (i + n) mod Suc N"
proof -
  have "(i + n) mod 2 ^ promoted_bits N = i + n"
    using assms by (intro mod_less) (simp add: spacer_valid_def)
  moreover have "(i + n) mod Suc N mod 2 ^ select_index_bits N = (i + n) mod Suc N"
    using spacer_valid_less [OF assms(1), of "(i + n) mod Suc N"] mod_less_divisor [of "Suc N" "i + n"]
    by (intro mod_less) linarith
  ultimately show ?thesis by (simp add: spacer_strategy_def)
qed

lemma spacer_size_incr:
  assumes "spacer_valid N i" "n \<le> N"
  shows "spacer_size N i ((i + n) mod Suc N) = n"
proof -
  have i: "i \<le> N" using assms by (simp add: spacer_valid_def)
  have n: "n mod 2 ^ select_index_bits N = n"
    using spacer_valid_less [OF assms] by (intro mod_less) simp
  show ?thesis
    unfolding add_mod_cases [OF i assms(2)] using i n assms(2)
    by (auto simp: spacer_size_def)
qed

interpretation spacer: index_strategy "spacer_strategy N" N "spacer_valid N" for N
proof unfold_locales
  fix i n m :: nat
  assume i: "spacer_valid N i"
  then have le: "i \<le> N" by (simp add: spacer_valid_def)
  show "st_idx (spacer_strategy N) i < st_max (spacer_strategy N)"
    using le by (simp add: spacer_strategy_def)
  show "st_incr (spacer_strategy N) i 0 = i" using le by (simp add: spacer_incr [OF i])
  show "N \<le> st_max (spacer_strategy N)" by (simp add: spacer_strategy_def)
  {
    assume n: "n \<le> N"
    have lt: "(i + n) mod Suc N \<le> N" using mod_less_divisor [of "Suc N" "i + n"] by linarith
    show v: "spacer_valid N (st_incr (spacer_strategy N) i n)"
      using i lt by (simp add: spacer_incr [OF i n] spacer_valid_def)
    show "st_idx (spacer_strategy N) (st_incr (spacer_strategy N) i n)
        = (st_idx (spacer_strategy N) i + n) mod st_max (spacer_strategy N)"
      using spacer_incr [OF i n] by (simp add: spacer_strategy_def)
    show sz: "st_size (spacer_strategy N) i (st_incr (spacer_strategy N) i n) = n"
      using spacer_size_incr [OF i n] spacer_incr [OF i n] by (simp add: spacer_strategy_def)
    show "st_empty (spacer_strategy N) i (st_incr (spacer_strategy N) i n) \<longleftrightarrow> n = 0"
      unfolding spacer_incr [OF i n] add_mod_cases [OF le n]
      using le n by (auto simp: spacer_strategy_def)
    show "st_full (spacer_strategy N) i (st_incr (spacer_strategy N) i n) \<longleftrightarrow> n = N"
      using spacer_size_incr [OF i n] spacer_incr [OF i n] by (simp add: spacer_strategy_def)
    assume "0 < n"
    then have "((i + n) mod Suc N + N) mod Suc N = (i + (n - 1) + Suc N) mod Suc N"
      unfolding mod_add_left_eq by (intro arg_cong [of _ _ "\<lambda>x. x mod Suc N"]) simp
    then have "((i + n) mod Suc N + N) mod Suc N = (i + (n - 1)) mod Suc N"
      unfolding mod_add_self2 .
    then show "st_last (spacer_strategy N) (st_incr (spacer_strategy N) i n)
        = (st_idx (spacer_strategy N) i + (n - 1)) mod st_max (spacer_strategy N)"
      unfolding spacer_incr [OF i n] by (simp add: spacer_strategy_def)
  }
  assume mn: "m + n \<le> N"
  then have m: "m \<le> N" by simp
  have "(i + m) mod Suc N \<le> N" using mod_less_divisor [of "Suc N" "i + m"] by linarith
  then have v: "spacer_valid N ((i + m) mod Suc N)"
    using i by (simp add: spacer_valid_def)
  show "st_incr (spacer_strategy N) (st_incr (spacer_strategy N) i m) n = st_incr (spacer_strategy N) i (m + n)"
    using mn by (simp add: spacer_incr [OF i m] spacer_incr [OF v] spacer_incr [OF i mn] mod_add_left_eq add.assoc)
qed

text \<open>A power of two divides the range of the index type.\<close>

lemma and_div_2: "(a AND b) div 2 = (a div 2) AND (b div 2 :: nat)"
  using drop_bit_and [of 1 a b] by (simp add: drop_bit_eq_div)

lemma power_of_two_even:
  assumes "power_of_two (2 * m)"
  shows "power_of_two m"
proof -
  have "(2 * m AND (2 * m - 1)) div 2 = m AND (m - 1)"
    unfolding and_div_2 by (cases m) simp_all
  then show ?thesis using assms by (simp add: power_of_two_def)
qed

lemma power_of_two_odd:
  assumes "power_of_two (Suc (2 * m))"
  shows "m = 0"
proof -
  have "(Suc (2 * m) AND (Suc (2 * m) - 1)) div 2 = m"
    unfolding and_div_2 by simp
  then show ?thesis using assms by (simp add: power_of_two_def)
qed

lemma power_of_two_iff: "power_of_two N \<Longrightarrow> \<exists>k. N = 2 ^ k"
proof (induction N rule: less_induct)
  case (less N)
  show ?case
  proof (cases "even N")
    case True
    then obtain m where m: "N = 2 * m" by blast
    then have "m < N" using less.prems by (simp add: power_of_two_def)
    moreover have "power_of_two m" using less.prems m power_of_two_even by blast
    ultimately obtain k where "m = 2 ^ k" using less.IH by blast
    then have "N = 2 ^ Suc k" using m by simp
    then show ?thesis by blast
  next
    case False
    then obtain m where m: "N = Suc (2 * m)" by (metis oddE Suc_eq_plus1)
    then have "N = 2 ^ 0" using less.prems power_of_two_odd by fastforce
    then show ?thesis by blast
  qed
qed

definition overflow_valid :: "nat \<Rightarrow> nat \<Rightarrow> bool" where
  "overflow_valid N i \<longleftrightarrow>
     power_of_two N \<and> N < 2 ^ select_index_bits N - 1 \<and> i < 2 ^ select_index_bits N"

lemma overflow_validD:
  assumes "overflow_valid N i"
  shows "0 < N" "N < 2 ^ select_index_bits N" "N dvd 2 ^ select_index_bits N"
proof -
  show "0 < N" using assms by (simp add: overflow_valid_def power_of_two_def)
  show lt: "N < 2 ^ select_index_bits N" using assms by (auto simp: overflow_valid_def)
  obtain k where k: "N = 2 ^ k" using assms power_of_two_iff by (auto simp: overflow_valid_def)
  have "k < select_index_bits N" using lt by (subst (asm) (1) k) (simp add: power_strict_increasing_iff)
  then have "(2 :: nat) ^ k dvd 2 ^ select_index_bits N" by (intro le_imp_power_dvd) simp
  then show "N dvd 2 ^ select_index_bits N" by (simp only: k [symmetric])
qed

lemma overflow_size_incr:
  assumes "overflow_valid N i" "n \<le> N"
  shows "overflow_size N i ((i + n) mod 2 ^ select_index_bits N) = n"
proof -
  let ?B = "2 ^ select_index_bits N :: int"
  have n: "n < 2 ^ select_index_bits N" using assms overflow_validD(2) [OF assms(1)] by simp
  have "int ((i + n) mod 2 ^ select_index_bits N) = (int i + int n) mod ?B"
    by (simp add: zmod_int)
  then have "(int ((i + n) mod 2 ^ select_index_bits N) - int i) mod ?B = int n mod ?B"
    by (simp add: mod_diff_left_eq)
  also have "\<dots> = int n" using n by (simp flip: of_nat_power)
  finally show ?thesis by (simp add: overflow_size_def)
qed

lemma overflow_idx_mod:
  assumes "overflow_valid N i"
  shows "x mod 2 ^ select_index_bits N mod N = x mod N"
  using overflow_validD(3) [OF assms] by (rule mod_mod_cancel)

interpretation overflow: index_strategy "overflow_strategy N" N "overflow_valid N" for N
proof unfold_locales
  fix i n m :: nat
  assume i: "overflow_valid N i"
  note N = overflow_validD [OF i] and idx = overflow_idx_mod [OF i]
  have i': "i < 2 ^ select_index_bits N" using i by (simp add: overflow_valid_def)
  show "st_idx (overflow_strategy N) i < st_max (overflow_strategy N)"
    using N by (simp add: overflow_strategy_def)
  show "st_incr (overflow_strategy N) i 0 = i" using i' by (simp add: overflow_strategy_def)
  show "N \<le> st_max (overflow_strategy N)" by (simp add: overflow_strategy_def)
  show "st_incr (overflow_strategy N) (st_incr (overflow_strategy N) i m) n = st_incr (overflow_strategy N) i (m + n)"
    by (simp add: overflow_strategy_def mod_add_left_eq add.assoc)
  show "overflow_valid N (st_incr (overflow_strategy N) i n)"
    using i by (simp add: overflow_strategy_def overflow_valid_def)
  show "st_idx (overflow_strategy N) (st_incr (overflow_strategy N) i n)
      = (st_idx (overflow_strategy N) i + n) mod st_max (overflow_strategy N)"
    by (simp add: overflow_strategy_def idx mod_add_left_eq)
  assume n: "n \<le> N"
  note sz = overflow_size_incr [OF i n]
  show "st_size (overflow_strategy N) i (st_incr (overflow_strategy N) i n) = n"
    using sz by (simp add: overflow_strategy_def)
  show "st_full (overflow_strategy N) i (st_incr (overflow_strategy N) i n) \<longleftrightarrow> n = N"
    using sz N by (simp add: overflow_strategy_def)
  show "st_empty (overflow_strategy N) i (st_incr (overflow_strategy N) i n) \<longleftrightarrow> n = 0"
  proof -
    have "i = (i + n) mod 2 ^ select_index_bits N \<Longrightarrow> n = 0"
      using sz by (simp add: overflow_size_def)
    then show ?thesis using i' by (auto simp: overflow_strategy_def)
  qed
  assume "0 < n"
  have "(i + n) mod 2 ^ select_index_bits N + N - 1 = (i + n) mod 2 ^ select_index_bits N + (N - 1)"
    using N(1) by simp
  then have "((i + n) mod 2 ^ select_index_bits N + N - 1) mod N = ((i + n) mod 2 ^ select_index_bits N mod N + (N - 1)) mod N"
    by (simp only: mod_add_left_eq)
  also have "\<dots> = (i + (n - 1) + N) mod N"
    unfolding idx mod_add_left_eq using N(1) \<open>0 < n\<close> by (intro arg_cong [of _ _ "\<lambda>x. x mod N"]) simp
  also have "\<dots> = (i mod N + (n - 1)) mod N"
    by (simp add: mod_add_left_eq)
  finally show "st_last (overflow_strategy N) (st_incr (overflow_strategy N) i n)
      = (st_idx (overflow_strategy N) i + (n - 1)) mod st_max (overflow_strategy N)"
    by (simp add: overflow_strategy_def)
qed

definition selected_valid :: "nat \<Rightarrow> nat \<Rightarrow> bool" where
  "selected_valid N i = (if power_of_two N then overflow_valid N i else spacer_valid N i)"

interpretation selected: index_strategy "select_strategy N" N "selected_valid N" for N
  using overflow.index_strategy_axioms [of N] spacer.index_strategy_axioms [of N]
  by (cases "power_of_two N") (simp_all add: select_strategy_def selected_valid_def [abs_def])

text \<open>The sizes for which the class can be instantiated, less the ones whose index sums wrap around.\<close>

definition capacity_ok :: "nat \<Rightarrow> bool" where
  "capacity_ok N \<longleftrightarrow> N < 2 ^ select_index_bits N - 1 \<and> 2 * N < 2 ^ promoted_bits N"

lemma selected_valid_0: "capacity_ok N \<Longrightarrow> selected_valid N 0"
  by (simp add: capacity_ok_def selected_valid_def overflow_valid_def spacer_valid_def)

section \<open>The buffer is a queue\<close>

text \<open>
  \<open>queue_of b q\<close>: the buffer \<open>b\<close> holds the sequence \<open>q\<close>.  \<open>tidy\<close>: no other slot holds an object that
  is alive, so that the destructor, which clears the queue, destroys all there are.
\<close>

definition queue_of :: "strategy \<Rightarrow> nat \<Rightarrow> (nat \<Rightarrow> bool) \<Rightarrow> 'a cbuf \<Rightarrow> 'a list \<Rightarrow> bool" where
  "queue_of S N valid b q \<longleftrightarrow>
     valid (cb_from b) \<and> length (cb_store b) = st_max S \<and> length q \<le> N \<and>
     cb_to b = st_incr S (cb_from b) (length q) \<and>
     (\<forall>i < length q. cb_store b ! ((st_idx S (cb_from b) + i) mod st_max S) = Some (q ! i))"

definition tidy :: "strategy \<Rightarrow> 'a cbuf \<Rightarrow> 'a list \<Rightarrow> bool" where
  "tidy S b q \<longleftrightarrow>
     (\<forall>i < st_max S. length q \<le> i \<longrightarrow> cb_store b ! ((st_idx S (cb_from b) + i) mod st_max S) = None)"

lemma ring_pos: "idx < m \<Longrightarrow> j < m \<Longrightarrow> (idx + j) mod (m :: nat) = (if idx + j < m then idx + j else idx + j - m)"
  by (cases "idx + j < m") (simp_all add: le_mod_geq)

lemma ring_inject: "idx < m \<Longrightarrow> i < m \<Longrightarrow> j < m \<Longrightarrow> (idx + i) mod (m :: nat) = (idx + j) mod m \<longleftrightarrow> i = j"
  by (auto simp: ring_pos split: if_splits)

subsection \<open>Runs of slots around the end of the array\<close>

lemma store_n_nth:
  assumes "i + length xs \<le> length st"
  shows "\<exists>st'. store_n st i xs = Some st' \<and> length st' = length st \<and>
    (\<forall>p < length st. st' ! p = (if i \<le> p \<and> p < i + length xs then Some (xs ! (p - i)) else st ! p))"
  using assms by (auto simp: store_n_def nth_append)

lemma delete_n_nth:
  "(\<forall>j < n. i + j < length st \<and> st ! (i + j) \<noteq> None) \<Longrightarrow>
   \<exists>st'. delete_n st i n = Some st' \<and> length st' = length st \<and>
    (\<forall>p < length st. st' ! p = (if i \<le> p \<and> p < i + n then None else st ! p))"
proof (induction n arbitrary: st i)
  case (Suc n)
  have i: "i < length st" "st ! i \<noteq> None" using Suc.prems [rule_format, of 0] by simp_all
  have "\<forall>j < n. Suc i + j < length (st [i := None]) \<and> st [i := None] ! (Suc i + j) \<noteq> None"
    using Suc.prems [rule_format, of "Suc _"] by simp
  from Suc.IH [OF this] obtain st' where "delete_n (st [i := None]) (Suc i) n = Some st'"
    "length st' = length st"
    "\<forall>p < length st. st' ! p = (if Suc i \<le> p \<and> p < Suc i + n then None else st [i := None] ! p)"
    by auto
  then show ?case using i by (auto simp: delete_item_def nth_list_update)
qed auto

lemma live_n_eq:
  assumes "length xs = n" "i + n \<le> length st" "\<And>j. j < n \<Longrightarrow> st ! (i + j) = Some (xs ! j)"
  shows "live_n st i n = Some xs"
proof -
  have "take n (drop i st) = map Some xs"
    using assms by (intro nth_equalityI) auto
  then show ?thesis using assms(2) by (simp add: live_n_def Let_def comp_def)
qed

text \<open>The two parts in which a run of \<open>n\<close> slots from \<open>idx\<close> on is written, destroyed or read.\<close>

definition store_run :: "'a option list \<Rightarrow> nat \<Rightarrow> 'a list \<Rightarrow> 'a option list option" where
  "store_run st idx xs =
     (let capacity = length st - idx
      in if capacity \<ge> length xs then store_n st idx xs
         else do { st \<leftarrow> store_n st idx (take capacity xs); store_n st 0 (drop capacity xs) })"

definition delete_run :: "'a option list \<Rightarrow> nat \<Rightarrow> nat \<Rightarrow> 'a option list option" where
  "delete_run st idx n =
     (let capacity = length st - idx
      in if capacity \<ge> n then delete_n st idx n
         else do { st \<leftarrow> delete_n st idx capacity; delete_n st 0 (n - capacity) })"

definition live_run :: "'a option list \<Rightarrow> nat \<Rightarrow> nat \<Rightarrow> 'a list option" where
  "live_run st idx n =
     (let capacity = length st - idx
      in if capacity \<ge> n then live_n st idx n
         else do { xs \<leftarrow> live_n st idx capacity; ys \<leftarrow> live_n st 0 (n - capacity); Some (xs @ ys) })"

lemma store_run_nth:
  assumes "idx < length st" "length xs \<le> length st"
  shows "\<exists>st'. store_run st idx xs = Some st' \<and> length st' = length st \<and>
    (\<forall>j < length st. st' ! ((idx + j) mod length st)
       = (if j < length xs then Some (xs ! j) else st ! ((idx + j) mod length st)))"
proof (cases "length xs \<le> length st - idx")
  case True
  then have "idx + length xs \<le> length st" using assms(1) by linarith
  from store_n_nth [OF this] obtain st' where st': "store_n st idx xs = Some st'" "length st' = length st"
    "\<forall>p < length st. st' ! p = (if idx \<le> p \<and> p < idx + length xs then Some (xs ! (p - idx)) else st ! p)"
    by blast
  have "st' ! ((idx + j) mod length st) = (if j < length xs then Some (xs ! j) else st ! ((idx + j) mod length st))"
    if "j < length st" for j
    using st'(3) \<open>idx + length xs \<le> length st\<close> assms that by (auto simp: ring_pos)
  then show ?thesis using st'(1,2) True by (simp add: store_run_def)
next
  case False
  let ?c = "length st - idx"
  obtain st1 where 1: "store_n st idx (take ?c xs) = Some st1" "length st1 = length st"
    "\<forall>p < length st. st1 ! p = (if idx \<le> p then Some (xs ! (p - idx)) else st ! p)"
    using store_n_nth [of idx "take ?c xs" st] assms False by fastforce
  have "0 + length (drop ?c xs) \<le> length st1" using 1(2) assms by auto
  from store_n_nth [OF this] obtain st2 where 2: "store_n st1 0 (drop ?c xs) = Some st2" "length st2 = length st"
    "\<forall>p < length st. st2 ! p = (if p < length xs - ?c then Some (xs ! (?c + p)) else st1 ! p)"
    using 1(2) assms False by auto
  have "st2 ! ((idx + j) mod length st) = (if j < length xs then Some (xs ! j) else st ! ((idx + j) mod length st))"
    if "j < length st" for j
    using 1(3) 2(3) assms False that by (auto simp: ring_pos)
  then show ?thesis using 1(1,2) 2(1,2) False by (simp add: store_run_def Let_def)
qed

lemma delete_run_nth:
  assumes "idx < length st" "n \<le> length st" "\<And>j. j < n \<Longrightarrow> st ! ((idx + j) mod length st) \<noteq> None"
  shows "\<exists>st'. delete_run st idx n = Some st' \<and> length st' = length st \<and>
    (\<forall>j < length st. st' ! ((idx + j) mod length st)
       = (if j < n then None else st ! ((idx + j) mod length st)))"
proof (cases "n \<le> length st - idx")
  case True
  have "st ! (idx + j) \<noteq> None" if "j < n" for j
    using assms(3) [OF that] assms(1,2) True that by (simp add: ring_pos)
  then have "\<forall>j < n. idx + j < length st \<and> st ! (idx + j) \<noteq> None" using assms(1) True by auto
  from delete_n_nth [OF this] obtain st' where st': "delete_n st idx n = Some st'" "length st' = length st"
    "\<forall>p < length st. st' ! p = (if idx \<le> p \<and> p < idx + n then None else st ! p)"
    by blast
  have "st' ! ((idx + j) mod length st) = (if j < n then None else st ! ((idx + j) mod length st))"
    if "j < length st" for j
    using st'(3) assms(1,2) True that by (auto simp: ring_pos)
  then show ?thesis using st'(1,2) True by (simp add: delete_run_def)
next
  case False
  let ?c = "length st - idx"
  have live1: "st ! (idx + j) \<noteq> None" if "j < ?c" for j
    using assms(3) [of j] assms(1,2) False that by (simp add: ring_pos)
  have live2: "st ! j \<noteq> None" if "j < n - ?c" for j
    using assms(3) [of "?c + j"] assms(1,2) False that by (simp add: ring_pos)
  obtain st1 where 1: "delete_n st idx ?c = Some st1" "length st1 = length st"
    "\<forall>p < length st. st1 ! p = (if idx \<le> p then None else st ! p)"
    using delete_n_nth [of ?c idx st] live1 assms(1) by fastforce
  have "\<forall>j < n - ?c. 0 + j < length st1 \<and> st1 ! (0 + j) \<noteq> None"
    using live2 1(2,3) assms(1,2) by auto
  from delete_n_nth [OF this] obtain st2 where 2: "delete_n st1 0 (n - ?c) = Some st2" "length st2 = length st"
    "\<forall>p < length st. st2 ! p = (if p < n - ?c then None else st1 ! p)"
    using 1(2) by auto
  have "st2 ! ((idx + j) mod length st) = (if j < n then None else st ! ((idx + j) mod length st))"
    if "j < length st" for j
    using 1(3) 2(3) assms(1,2) False that by (auto simp: ring_pos)
  then show ?thesis using 1(1,2) 2(1,2) False by (simp add: delete_run_def Let_def)
qed

lemma live_run_eq:
  assumes "idx < length st" "length xs \<le> length st"
    and "\<And>j. j < length xs \<Longrightarrow> st ! ((idx + j) mod length st) = Some (xs ! j)"
  shows "live_run st idx (length xs) = Some xs"
proof (cases "length xs \<le> length st - idx")
  case True
  have "live_n st idx (length xs) = Some xs"
  proof (rule live_n_eq)
    fix j assume "j < length xs"
    then show "st ! (idx + j) = Some (xs ! j)" using assms(3) [of j] assms(1,2) True by (simp add: ring_pos)
  qed (use assms(1) True in auto)
  then show ?thesis using True by (simp add: live_run_def)
next
  case False
  let ?c = "length st - idx"
  have "live_n st idx ?c = Some (take ?c xs)"
  proof (rule live_n_eq)
    fix j assume "j < ?c"
    then show "st ! (idx + j) = Some (take ?c xs ! j)"
      using assms(3) [of j] assms(1,2) False by (simp add: ring_pos)
  qed (use assms(1) False in auto)
  moreover have "live_n st 0 (length xs - ?c) = Some (drop ?c xs)"
  proof (rule live_n_eq)
    fix j assume "j < length xs - ?c"
    then show "st ! (0 + j) = Some (drop ?c xs ! j)"
      using assms(3) [of "?c + j"] assms(1,2) False by (simp add: ring_pos)
  qed (use assms(1,2) False in auto)
  ultimately show ?thesis using False by (simp add: live_run_def Let_def)
qed

lemma cb_copy_range_back_run:
  "length (cb_store b) = st_max S \<Longrightarrow> cb_copy_range_back S b xs = do {
     st \<leftarrow> store_run (cb_store b) (st_idx S (cb_to b)) xs;
     Some (b\<lparr>cb_store := st, cb_to := st_incr S (cb_to b) (length xs)\<rparr>) }"
  by (simp add: cb_copy_range_back_def store_run_def Let_def)

lemma cb_pop_front_n_run:
  "length (cb_store b) = st_max S \<Longrightarrow> cb_pop_front_n S b n = do {
     st \<leftarrow> delete_run (cb_store b) (st_idx S (cb_from b)) n;
     Some (b\<lparr>cb_store := st, cb_from := st_incr S (cb_from b) n\<rparr>) }"
  by (simp add: cb_pop_front_n_def delete_run_def Let_def)

lemma cb_take_front_n_run:
  "length (cb_store b) = st_max S \<Longrightarrow> cb_take_front_n S b n = do {
     xs \<leftarrow> live_run (cb_store b) (st_idx S (cb_from b)) n;
     Some (xs, b\<lparr>cb_from := st_incr S (cb_from b) n\<rparr>) }"
  by (simp add: cb_take_front_n_def live_run_def Let_def)

subsection \<open>The operations\<close>

context index_strategy
begin

lemma queue_ofD:
  assumes "queue_of S N valid b q"
  shows "valid (cb_from b)" "length (cb_store b) = st_max S" "length q \<le> N" "length q \<le> st_max S"
    and "cb_to b = st_incr S (cb_from b) (length q)"
    and "st_idx S (cb_from b) < st_max S"
    and "st_idx S (cb_to b) = (st_idx S (cb_from b) + length q) mod st_max S"
    and "i < length q \<Longrightarrow> cb_store b ! ((st_idx S (cb_from b) + i) mod st_max S) = Some (q ! i)"
  using assms slot_less slot_incr capacity by (fastforce simp: queue_of_def)+

lemma queue_new: "valid 0 \<Longrightarrow> queue_of S N valid (cb_new S) []"
  by (simp add: queue_of_def cb_new_def incr_0)

lemma tidy_new: "valid 0 \<Longrightarrow> tidy S (cb_new S) []"
  using slot_less [of 0] by (simp add: tidy_def cb_new_def)

lemma queue_size: "queue_of S N valid b q \<Longrightarrow> cb_size S b = length q"
  by (simp add: queue_of_def cb_size_def size_incr)

lemma queue_empty: "queue_of S N valid b q \<Longrightarrow> cb_empty S b \<longleftrightarrow> q = []"
  by (simp add: queue_of_def cb_empty_def empty_incr)

lemma queue_full: "queue_of S N valid b q \<Longrightarrow> cb_full S b \<longleftrightarrow> length q = N"
  by (simp add: queue_of_def cb_full_def full_incr)

lemma queue_front:
  assumes "queue_of S N valid b q" "q \<noteq> []"
  shows "cb_front S b = Some (hd q)"
  using queue_ofD(6) [OF assms(1)] queue_ofD(8) [OF assms(1), of 0] assms(2)
  by (simp add: cb_front_def hd_conv_nth)

lemma queue_back:
  assumes "queue_of S N valid b q" "q \<noteq> []"
  shows "cb_back S b = Some (last q)"
  using queue_ofD(1,3,5) [OF assms(1)] queue_ofD(8) [OF assms(1), of "length q - 1"] assms(2)
  by (simp add: cb_back_def last_incr last_conv_nth)

lemma ring_assoc: "((st_idx S i + n) mod st_max S + j) mod st_max S = (st_idx S i + (n + j)) mod st_max S"
  by (simp add: mod_add_left_eq add.assoc)

text \<open>\<open>emplace_back\<close> appends, while there is room.\<close>

lemma queue_emplace_back:
  assumes q: "queue_of S N valid b q" and room: "length q < N"
  shows "queue_of S N valid (cb_emplace_back S b x) (q @ [x])"
    and "tidy S b q \<Longrightarrow> tidy S (cb_emplace_back S b x) (q @ [x])"
proof -
  note d = queue_ofD [OF q]
  let ?p = "\<lambda>i. (st_idx S (cb_from b) + i) mod st_max S"
  have lt: "length q < st_max S" using room d(1) capacity by force
  have p_less: "?p i < length (cb_store b)" for i using d(2,6) by simp
  have st: "cb_store (cb_emplace_back S b x) ! ?p i = (if i = length q then Some x else cb_store b ! ?p i)"
    if "i < st_max S" for i
    using ring_inject [OF d(6) that lt] p_less [of i] by (auto simp: cb_emplace_back_def d(7) nth_list_update)
  have "st_incr S (cb_to b) 1 = st_incr S (cb_from b) (Suc (length q))"
    using incr_add [OF d(1), of "length q" 1] room d(5) by simp
  then show "queue_of S N valid (cb_emplace_back S b x) (q @ [x])"
    using d room st lt unfolding queue_of_def
    by (auto simp: nth_append less_Suc_eq cb_emplace_back_def)
  assume "tidy S b q"
  then show "tidy S (cb_emplace_back S b x) (q @ [x])"
    using st by (auto simp: tidy_def cb_emplace_back_def)
qed

text \<open>Ranges are appended as a whole, also around the end of the array.\<close>

lemma queue_copy_range_back:
  assumes q: "queue_of S N valid b q" and room: "length q + length xs \<le> N"
  shows "\<exists>b'. cb_copy_range_back S b xs = Some b' \<and> queue_of S N valid b' (q @ xs) \<and>
    (tidy S b q \<longrightarrow> tidy S b' (q @ xs))"
proof -
  note d = queue_ofD [OF q]
  let ?M = "st_max S"
  let ?p = "\<lambda>i. (st_idx S (cb_from b) + i) mod ?M"
  have le: "length q + length xs \<le> ?M" using room d(1) capacity by force
  have "st_idx S (cb_to b) < length (cb_store b)" using d(2,6,7) by simp
  from store_run_nth [OF this, of xs] le d(2) obtain st'
    where st': "store_run (cb_store b) (st_idx S (cb_to b)) xs = Some st'" "length st' = ?M"
      "\<And>j. j < ?M \<Longrightarrow> st' ! ((st_idx S (cb_to b) + j) mod ?M)
        = (if j < length xs then Some (xs ! j) else cb_store b ! ((st_idx S (cb_to b) + j) mod ?M))"
    by auto
  have pos: "(st_idx S (cb_to b) + j) mod ?M = ?p (length q + j)" for j
    unfolding d(7) by (rule ring_assoc)
  have st: "st' ! ?p i = (if length q \<le> i \<and> i < length q + length xs then Some (xs ! (i - length q)) else cb_store b ! ?p i)"
    if i: "i < ?M" for i
  proof (cases "length q \<le> i")
    case True
    then show ?thesis using st'(3) [of "i - length q"] pos [of "i - length q"] i by auto
  next
    case False
    have "length q + (i + ?M - length q) = i + ?M" using le by linarith
    then have "?p i = ?p (length q + (i + ?M - length q))" by (simp add: add.assoc [symmetric])
    then show ?thesis using st'(3) [of "i + ?M - length q"] pos [of "i + ?M - length q"] i le False by auto
  qed
  let ?b = "b\<lparr>cb_store := st', cb_to := st_incr S (cb_to b) (length xs)\<rparr>"
  have "cb_copy_range_back S b xs = Some ?b"
    using st'(1) d(2) by (simp add: cb_copy_range_back_run)
  moreover have "queue_of S N valid ?b (q @ xs)"
    using d room st'(2) st le incr_add [OF d(1), of "length q" "length xs"]
    by (auto simp: queue_of_def nth_append)
  moreover have "tidy S b q \<Longrightarrow> tidy S ?b (q @ xs)"
    using st by (auto simp: tidy_def)
  ultimately show ?thesis by blast
qed

lemma queue_drop:
  assumes q: "queue_of S N valid b q" and n: "n \<le> length q" and len: "length st = st_max S"
    and st: "\<And>i. i < st_max S \<Longrightarrow> n \<le> i \<Longrightarrow>
      st ! ((st_idx S (cb_from b) + i) mod st_max S) = cb_store b ! ((st_idx S (cb_from b) + i) mod st_max S)"
  shows "queue_of S N valid (b\<lparr>cb_store := st, cb_from := st_incr S (cb_from b) n\<rparr>) (drop n q)"
proof -
  note d = queue_ofD [OF q]
  have nN: "n \<le> N" using n d(3) by simp
  have "cb_to b = st_incr S (st_incr S (cb_from b) n) (length (drop n q))"
    using incr_add [OF d(1), of n "length q - n"] n d(3,5) by simp
  moreover have "st ! ((st_idx S (st_incr S (cb_from b) n) + i) mod st_max S) = Some (drop n q ! i)"
    if "i < length (drop n q)" for i
    using st [of "n + i"] d(4) d(8) [of "n + i"] that n
    by (simp add: slot_incr [OF d(1) nN] ring_assoc)
  ultimately show ?thesis using d valid_incr [OF d(1) nN] len by (simp add: queue_of_def)
qed

lemma tidy_drop:
  assumes q: "queue_of S N valid b q" and n: "n \<le> length q" and t: "tidy S b q"
    and st: "\<And>i. i < st_max S \<Longrightarrow>
      st ! ((st_idx S (cb_from b) + i) mod st_max S)
        = (if i < n then None else cb_store b ! ((st_idx S (cb_from b) + i) mod st_max S))"
  shows "tidy S (b\<lparr>cb_store := st, cb_from := st_incr S (cb_from b) n\<rparr>) (drop n q)"
  unfolding tidy_def
proof (intro allI impI)
  note d = queue_ofD [OF q]
  let ?M = "st_max S" and ?b = "b\<lparr>cb_store := st, cb_from := st_incr S (cb_from b) n\<rparr>"
  let ?p = "\<lambda>i. (st_idx S (cb_from b) + i) mod ?M"
  fix i assume i: "i < ?M" "length (drop n q) \<le> i"
  have nN: "n \<le> N" using n d(3) by simp
  have pos: "(st_idx S (cb_from ?b) + i) mod ?M = ?p (n + i)"
    by (simp add: slot_incr [OF d(1) nN] ring_assoc)
  show "cb_store ?b ! ((st_idx S (cb_from ?b) + i) mod ?M) = None"
  proof (cases "n + i < ?M")
    case True
    then show ?thesis unfolding pos using st [OF True] t i n by (simp add: tidy_def)
  next
    case False
    then have "n + i = (n + i - ?M) + ?M" by simp
    then have eq: "?p (n + i) = ?p (n + i - ?M)" by (metis add.assoc mod_add_self2)
    have k: "n + i - ?M < n" "n + i - ?M < ?M" using i n d(4) False by linarith+
    have "st ! ?p (n + i) = None" unfolding eq st [OF k(2)] using k(1) by (rule if_P)
    then show ?thesis unfolding pos by simp
  qed
qed

lemma queue_pop_front_n:
  assumes q: "queue_of S N valid b q" and n: "n \<le> length q"
  shows "\<exists>b'. cb_pop_front_n S b n = Some b' \<and> queue_of S N valid b' (drop n q) \<and>
    (tidy S b q \<longrightarrow> tidy S b' (drop n q))"
proof -
  note d = queue_ofD [OF q]
  have "n \<le> length (cb_store b)" using n d(2,4) by simp
  moreover have "cb_store b ! ((st_idx S (cb_from b) + j) mod length (cb_store b)) \<noteq> None" if "j < n" for j
    using d(8) [of j] d(2) that n by simp
  ultimately obtain st' where st': "delete_run (cb_store b) (st_idx S (cb_from b)) n = Some st'"
    "length st' = st_max S"
    "\<And>j. j < st_max S \<Longrightarrow> st' ! ((st_idx S (cb_from b) + j) mod st_max S)
       = (if j < n then None else cb_store b ! ((st_idx S (cb_from b) + j) mod st_max S))"
    using delete_run_nth [of "st_idx S (cb_from b)" "cb_store b" n] d(2,6) by auto
  show ?thesis
    using st' cb_pop_front_n_run [OF d(2), of n] queue_drop [OF q n st'(2)] tidy_drop [OF q n _ st'(3)]
    by auto
qed

lemma pop_front_one:
  assumes "queue_of S N valid b q"
  shows "cb_pop_front S b = cb_pop_front_n S b 1"
proof -
  note d = queue_ofD [OF assms]
  have "1 \<le> st_max S - st_idx S (cb_from b)" using d(6) by simp
  then show ?thesis
    by (simp add: cb_pop_front_def cb_pop_front_n_def Let_def delete_n.simps)
qed

lemma queue_pop_front:
  assumes q: "queue_of S N valid b q" and "q \<noteq> []"
  shows "\<exists>b'. cb_pop_front S b = Some b' \<and> queue_of S N valid b' (tl q) \<and>
    (tidy S b q \<longrightarrow> tidy S b' (tl q))"
  using queue_pop_front_n [OF q, of 1] pop_front_one [OF q] assms(2)
  by (simp add: drop_Suc Suc_leI)

lemma queue_clear:
  assumes q: "queue_of S N valid b q"
  shows "\<exists>b'. cb_clear S b = Some b' \<and> queue_of S N valid b' [] \<and> (tidy S b q \<longrightarrow> tidy S b' [])"
  using queue_pop_front_n [OF q, of "length q"] queue_size [OF q] by (simp add: cb_clear_def)

lemma queue_take_front:
  assumes q: "queue_of S N valid b q" and "q \<noteq> []"
  shows "\<exists>b'. cb_take_front S b = Some (hd q, b') \<and> queue_of S N valid b' (tl q) \<and>
    (tidy S b q \<longrightarrow> tidy S b' (tl q))"
  using queue_front [OF assms] queue_pop_front [OF assms] by (auto simp: cb_take_front_def)

lemma queue_take_front_n:
  assumes q: "queue_of S N valid b q" and n: "n \<le> length q"
  shows "\<exists>b'. cb_take_front_n S b n = Some (take n q, b') \<and> queue_of S N valid b' (drop n q) \<and>
    cb_store b' = cb_store b"
proof -
  note d = queue_ofD [OF q]
  have len: "length (take n q) = n" using n by simp
  have "live_run (cb_store b) (st_idx S (cb_from b)) (length (take n q)) = Some (take n q)"
    by (rule live_run_eq) (use d(2,4,6,8) n in auto)
  then have "cb_take_front_n S b n = Some (take n q, b\<lparr>cb_from := st_incr S (cb_from b) n\<rparr>)"
    using cb_take_front_n_run [OF d(2)] unfolding len by simp
  then show ?thesis using queue_drop [OF q n d(2)] by simp
qed

subsection \<open>Iteration\<close>

lemma iter_next_ring: "p < st_max S \<Longrightarrow> iter_next (st_max S) ((p + i) mod st_max S) = (p + Suc i) mod st_max S"
  by (auto simp: iter_next_def mod_Suc)

lemma walk_ring:
  assumes "length st = st_max S" "p < st_max S" "n < st_max S" "n - i \<le> fuel" "i \<le> n"
    and "\<And>j. j < n \<Longrightarrow> st ! ((p + j) mod st_max S) = Some (q ! j)" "length q = n"
  shows "walk fuel st ((p + i) mod st_max S) ((p + n) mod st_max S) = Some (drop i q)"
  using assms(4,5)
proof (induction fuel arbitrary: i)
  case 0
  then show ?case using assms(7) by simp
next
  case (Suc fuel)
  show ?case
  proof (cases "i = n")
    case True
    then show ?thesis using assms(7) by simp
  next
    case False
    then have "(p + i) mod st_max S \<noteq> (p + n) mod st_max S"
      using ring_inject [OF assms(2) _ assms(3), of i] Suc.prems assms(3) by simp
    then show ?thesis
      using Suc.IH [of "Suc i"] Suc.prems False assms(1,2,6,7)
      by (simp add: iter_next_ring Cons_nth_drop_Suc)
  qed
qed

lemma iter_take_ring:
  assumes "length st = st_max S" "p < st_max S" "i + n \<le> length q"
    and "\<And>j. j < length q \<Longrightarrow> st ! ((p + j) mod st_max S) = Some (q ! j)"
  shows "iter_take n st ((p + i) mod st_max S) = Some (take n (drop i q))"
  using assms(3)
proof (induction n arbitrary: i)
  case (Suc n)
  have "take (Suc n) (drop i q) = q ! i # take n (drop (Suc i) q)"
    using Suc.prems by (metis Cons_nth_drop_Suc Suc_le_lessD add_Suc_right le_add1 order.strict_trans1 take_Suc_Cons less_Suc_eq_le)
  then show ?case
    using Suc.IH [of "Suc i"] Suc.prems assms(1,2,4) by (simp add: iter_next_ring)
qed simp

text \<open>
  From \<open>begin()\<close> to \<open>end()\<close> are the elements in order, unless they fill all slots: then the two
  iterators are the same.
\<close>

lemma queue_iterate:
  assumes q: "queue_of S N valid b q" and "length q < st_max S"
  shows "cb_iterate S b = Some q"
proof -
  note d = queue_ofD [OF q]
  show ?thesis
    using walk_ring [OF d(2,6) assms(2), of 0 "st_max S" q] d(8) assms(2)
    by (simp add: cb_iterate_def cb_begin_def cb_end_def d(7) d(6))
qed

lemma full_iterate:
  assumes q: "queue_of S N valid b q" and "length q = st_max S"
  shows "cb_iterate S b = Some []"
proof -
  note d = queue_ofD [OF q]
  have "cb_begin S b = cb_end S b" using d(6,7) assms(2) by (simp add: cb_begin_def cb_end_def)
  then show ?thesis by (cases "st_max S") (simp_all add: cb_iterate_def)
qed

lemma queue_eq:
  assumes a: "queue_of S N valid a p" and b: "queue_of S N valid b q" and lt: "length p < st_max S"
  shows "cb_eq S a b = Some (p = q)"
proof (cases "length p = length q")
  case False
  then show ?thesis using queue_size [OF a] queue_size [OF b] by (auto simp: cb_eq_def)
next
  case True
  note da = queue_ofD [OF a] and db = queue_ofD [OF b]
  let ?M = "st_max S"
  have "equal_walk fuel (cb_store a) ((st_idx S (cb_from a) + i) mod ?M) ((st_idx S (cb_from a) + length p) mod ?M)
      (cb_store b) ((st_idx S (cb_from b) + i) mod ?M) = Some (drop i p = drop i q)"
    if "length p - i \<le> fuel" "i \<le> length p" for fuel i
    using that
  proof (induction fuel arbitrary: i)
    case 0
    then show ?case using True by simp
  next
    case (Suc fuel)
    show ?case
    proof (cases "i = length p")
      case i: True
      then show ?thesis using True by simp
    next
      case False
      then have i: "i < length p" "i < length q" using Suc.prems True by simp_all
      have "(st_idx S (cb_from a) + i) mod ?M \<noteq> (st_idx S (cb_from a) + length p) mod ?M"
        using ring_inject [OF da(6) _ lt, of i] i lt by simp
      moreover have "drop i p = drop i q \<longleftrightarrow> p ! i = q ! i \<and> drop (Suc i) p = drop (Suc i) q"
        using i by (simp add: Cons_nth_drop_Suc [symmetric])
      ultimately show ?thesis
        using Suc.IH [of "Suc i"] Suc.prems i da(2,6,8) db(2,6,8)
        by (auto simp: iter_next_ring)
    qed
  qed
  from this [of 0 ?M] show ?thesis
    using queue_size [OF a] queue_size [OF b] True lt da(6,7) db(6)
    by (simp add: cb_eq_def cb_begin_def cb_end_def)
qed

lemma full_eq:
  assumes a: "queue_of S N valid a p" and b: "queue_of S N valid b q"
    and "length p = st_max S" "length q = st_max S"
  shows "cb_eq S a b = Some True"
proof -
  have "cb_begin S a = cb_end S a"
    using queue_ofD(6,7) [OF a] assms(3) by (simp add: cb_begin_def cb_end_def)
  then show ?thesis
    using queue_size [OF a] queue_size [OF b] assms(3,4)
    by (cases "st_max S") (simp_all add: cb_eq_def)
qed

text \<open>Copies: element by element always, as one block only when the elements do not wrap around.\<close>

lemma queue_copy_construct:
  assumes q: "queue_of S N valid b q" and v: "valid 0"
    and "trivial \<Longrightarrow> st_idx S (cb_from b) + length q \<le> st_max S"
  shows "\<exists>b'. cb_copy_construct trivial S b = Some b' \<and> queue_of S N valid b' q \<and> tidy S b' q"
proof -
  note d = queue_ofD [OF q]
  have "(if trivial then live_n (cb_store b) (cb_begin S b) (length q)
         else iter_take (length q) (cb_store b) (cb_begin S b)) = Some q"
  proof (cases trivial)
    case True
    have "st_idx S (cb_from b) + j < st_max S" if "j < length q" for j
      using assms(3) [OF True] that by simp
    then have "live_n (cb_store b) (st_idx S (cb_from b)) (length q) = Some q"
      using d(2,8) assms(3) [OF True] by (intro live_n_eq) auto
    then show ?thesis using True by (simp add: cb_begin_def)
  next
    case False
    then show ?thesis
      using iter_take_ring [OF d(2,6), of 0 "length q" q] d(6,8) by (simp add: cb_begin_def)
  qed
  then show ?thesis
    using queue_copy_range_back [OF queue_new [OF v], of q] queue_size [OF q] d(3) tidy_new [OF v]
    by (cases trivial) (auto simp: cb_copy_construct_def)
qed

lemma wrapped_copy_undefined:
  assumes q: "queue_of S N valid b q" and "st_max S < st_idx S (cb_from b) + length q"
  shows "cb_copy_construct True S b = None"
  using queue_size [OF q] queue_ofD(2) [OF q] assms(2)
  by (simp add: cb_copy_construct_def live_n_def cb_begin_def Let_def)

lemma iter_prev_ring: "p < st_max S \<Longrightarrow> iter_prev (st_max S) ((p + Suc i) mod st_max S) = (p + i) mod st_max S"
  by (auto simp: iter_prev_def mod_Suc)

lemma walk_back_ring:
  assumes "length st = st_max S" "p < st_max S" "n < st_max S" "i \<le> fuel" "i \<le> n"
    and "\<And>j. j < n \<Longrightarrow> st ! ((p + j) mod st_max S) = Some (q ! j)" "length q = n"
  shows "walk_back fuel st ((p + i) mod st_max S) p = Some (rev (take i q))"
  using assms(4,5)
proof (induction fuel arbitrary: i)
  case 0
  then show ?case using assms(2) by simp
next
  case (Suc fuel)
  show ?case
  proof (cases i)
    case 0
    then show ?thesis using assms(2) by simp
  next
    case (Suc k)
    then have "(p + i) mod st_max S \<noteq> p"
      using ring_inject [OF assms(2), of i 0] Suc.prems assms(2,3) by simp
    moreover have "rev (take i q) = q ! k # rev (take k q)"
      using Suc Suc.prems assms(7) by (simp add: take_Suc_conv_app_nth)
    ultimately show ?thesis
      using Suc.IH [of k] Suc.prems Suc assms(1,2,6,7) iter_prev_ring [OF assms(2), of k] by simp
  qed
qed

lemma queue_iterate_back:
  assumes q: "queue_of S N valid b q" and "length q < st_max S"
  shows "cb_iterate_back S b = Some (rev q)"
proof -
  note d = queue_ofD [OF q]
  show ?thesis
    using walk_back_ring [OF d(2,6) assms(2), of "length q" "st_max S" q] d(8) assms(2)
    by (simp add: cb_iterate_back_def cb_begin_def cb_end_def d(7))
qed

end

text \<open>Steps of any number in both directions, around both ends.\<close>

lemma trunc_mod_wrap:
  assumes "0 < n"
  shows "(if trunc_mod w n < 0 then trunc_mod w n + n else trunc_mod w n) = w mod n"
proof (cases "w \<ge> 0")
  case True
  moreover have "0 \<le> w mod n" using assms by simp
  ultimately show ?thesis by (simp add: trunc_mod_def)
next
  case False
  have "0 \<le> (- w) mod n" "(- w) mod n < n" using assms by simp_all
  moreover have "w mod n = (if (- w) mod n = 0 then 0 else n - (- w) mod n)"
    using zmod_zminus1_eq_if [of "- w" n] by simp
  ultimately show ?thesis using False by (auto simp: trunc_mod_def)
qed

lemma iter_add_eq: "0 < m \<Longrightarrow> iter_add m p v = nat ((int p + v) mod int m)"
  using trunc_mod_wrap [of "int m" "int p + v"] by (simp add: iter_add_def Let_def split: if_splits)

end
