(* ===== verification/Sequencer.thy ===== *)
theory Sequencer
  imports CircularBuffer
begin

text \<open>
  \<open>protocol/sequencer.hpp\<close>: finds the messages in a stream of bytes.  The bytes wait in a circular
  buffer of twice the capacity of a message; \<open>get_message\<close> drops bytes until the buffer begins with
  the prefix of a message, and gives the message, or the number of bytes to read before the next try.
\<close>

section \<open>The sequencer\<close>

text \<open>The static members of \<open>Def\<close>; \<open>get_size\<close> reads the buffer through its iterators.\<close>

record sequencer_def =
  sq_prefix :: "byte list"
  sq_fixed_size :: nat
  sq_capacity :: nat \<comment> \<open>\<open>message_type::capacity\<close>\<close>
  sq_get_size :: "strategy \<Rightarrow> byte cbuf \<Rightarrow> nat option"

definition sq_strategy :: "sequencer_def \<Rightarrow> strategy" where
  "sq_strategy d = select_strategy (sq_capacity d * 2)"

definition seq_new :: "sequencer_def \<Rightarrow> byte cbuf" where
  "seq_new d = cb_new (sq_strategy d)"

definition seq_insert :: "sequencer_def \<Rightarrow> byte cbuf \<Rightarrow> byte list \<Rightarrow> byte cbuf" where
  "seq_insert d b dview = fold (\<lambda>x b. cb_emplace_back (sq_strategy d) b x) dview b"

text \<open>
  \<open>std::mismatch\<close> of the prefix with the slots from \<open>p\<close> to \<open>e\<close>: what is left of the prefix, and where
  the iterator of the buffer stops.
\<close>

primrec mismatch :: "byte list \<Rightarrow> byte option list \<Rightarrow> nat \<Rightarrow> nat \<Rightarrow> (byte list \<times> nat) option" where
  "mismatch [] st p e = Some ([], p)"
| "mismatch (x # xs) st p e =
     (if p = e then Some (x # xs, p)
      else do {
        y \<leftarrow> st ! p;
        (if x = y then mismatch xs st (iter_next (length st) p) e else Some (x # xs, p))
      })"

text \<open>
  The \<open>while\<close> loop.  It ends with a request, or leaves the loop with the buffer as it then is.
  \<open>fuel\<close> bounds the number of iterations; each one that continues removes a byte.
\<close>

primrec seq_loop :: "nat \<Rightarrow> sequencer_def \<Rightarrow> nat \<Rightarrow> byte cbuf \<Rightarrow> (nat option \<times> byte cbuf) option" where
  "seq_loop 0 d bend b = None"
| "seq_loop (Suc fuel) d bend b =
     (if cb_empty (sq_strategy d) b then Some (None, b)
      else do {
        (pleft, biter) \<leftarrow> mismatch (sq_prefix d) (cb_store b) (cb_begin (sq_strategy d) b) bend;
        (if biter = cb_begin (sq_strategy d) b \<or> pleft \<noteq> [] \<and> biter \<noteq> bend
         then do {
           b \<leftarrow> cb_pop_front (sq_strategy d) b;
           seq_loop fuel d bend b
         }
         else if pleft \<noteq> []
         then Some (Some (sq_fixed_size d - (length (sq_prefix d) - length pleft)), b)
         else Some (None, b))
      })"

primrec seq_pop :: "strategy \<Rightarrow> byte cbuf \<Rightarrow> nat \<Rightarrow> byte cbuf option" where
  "seq_pop S b 0 = Some b"
| "seq_pop S b (Suc i) = do { b \<leftarrow> cb_pop_front S b; seq_pop S b i }"

text \<open>The loop is given one iteration more than the buffer can hold bytes.\<close>

definition seq_get_message :: "sequencer_def \<Rightarrow> byte cbuf \<Rightarrow> ((nat + byte list) \<times> byte cbuf) option" where
  "seq_get_message d b = (let S = sq_strategy d in do {
     (req, b) \<leftarrow> seq_loop (sq_capacity d * 2 + 1) d (cb_end S b) b;
     (case req of
        Some n \<Rightarrow> Some (Inl n, b)
      | None \<Rightarrow>
          if cb_empty S b then Some (Inl (sq_fixed_size d), b)
          else
            (let bsize = cb_size S b in
             if bsize < length (sq_prefix d) then None
             else if bsize < sq_fixed_size d then Some (Inl (sq_fixed_size d - bsize), b)
             else do {
               desired \<leftarrow> sq_get_size d S b;
               (if bsize < desired then Some (Inl (desired - bsize), b)
                else if desired > sq_capacity d then None
                else do {
                  res \<leftarrow> walk (st_max S) (cb_store b) (cb_begin S b)
                           (iter_add (st_max S) (cb_begin S b) (int desired));
                  b \<leftarrow> seq_pop S b desired;
                  Some (Inr res, b)
                })
             }))
   })"

section \<open>What it does to the sequence of bytes\<close>

text \<open>
  The specification knows nothing of slots and iterators.  Bytes are dropped until the rest agrees
  with the prefix as far as both go.
\<close>

definition compatible :: "byte list \<Rightarrow> byte list \<Rightarrow> bool" where
  "compatible pre q \<longleftrightarrow> take (length q) pre = take (length pre) q"

fun resync :: "byte list \<Rightarrow> byte list \<Rightarrow> byte list" where
  "resync pre [] = []"
| "resync pre (x # xs) = (if compatible pre (x # xs) then x # xs else resync pre xs)"

definition seq_spec ::
  "byte list \<Rightarrow> nat \<Rightarrow> (byte list \<Rightarrow> nat) \<Rightarrow> byte list \<Rightarrow> (nat + byte list) \<times> byte list"
where
  "seq_spec pre fixed get q =
     (let r = resync pre q in
      if length r < fixed then (Inl (fixed - length r), r)
      else if length r < get r then (Inl (get r - length r), r)
      else (Inr (take (get r) r), drop (get r) r))"

lemma compatible_Nil [simp]: "compatible [] q" "compatible pre []"
  by (simp_all add: compatible_def)

lemma compatible_Cons [simp]: "compatible (x # pre) (y # q) \<longleftrightarrow> x = y \<and> compatible pre q"
  by (auto simp: compatible_def)

lemma resync_suffix: "\<exists>noise. q = noise @ resync pre q"
proof (induction q)
  case (Cons x q)
  then show ?case by (cases "compatible pre (x # q)") (auto, metis append_Cons)
qed simp

lemma resync_compatible: "compatible pre (resync pre q)"
  by (induction q) auto

lemma resync_id: "compatible pre q \<Longrightarrow> resync pre q = q"
  by (cases q) auto

lemma length_resync: "length (resync pre q) \<le> length q"
  by (induction q) auto

text \<open>Noise without the first byte of the prefix goes away.\<close>

lemma resync_noise:
  assumes "pre \<noteq> []" "hd pre \<notin> set noise"
  shows "resync pre (noise @ q) = resync pre q"
  using assms(2)
proof (induction noise)
  case (Cons x noise)
  then have "\<not> compatible pre (x # noise @ q)" using assms(1) by (cases pre) auto
  then show ?case using Cons by simp
qed simp

lemma seq_spec_noise:
  "pre \<noteq> [] \<Longrightarrow> hd pre \<notin> set noise \<Longrightarrow> seq_spec pre fixed get (noise @ q) = seq_spec pre fixed get q"
  by (simp add: seq_spec_def resync_noise)

text \<open>
  A frame: it begins with the prefix, and any bytes that begin as it does have its size.
\<close>

definition frame :: "byte list \<Rightarrow> nat \<Rightarrow> (byte list \<Rightarrow> nat) \<Rightarrow> byte list \<Rightarrow> bool" where
  "frame pre fixed get f \<longleftrightarrow>
     take (length pre) f = pre \<and> length pre \<le> fixed \<and> fixed \<le> length f \<and>
     (\<forall>q. take fixed q = take fixed f \<longrightarrow> get q = length f)"

lemma frame_compatible:
  assumes "frame pre fixed get f"
  shows "compatible pre (take n f @ (if n < length f then [] else rest))"
proof -
  have pre: "take (length pre) f = pre" "length pre \<le> length f" using assms by (auto simp: frame_def)
  show ?thesis
  proof (cases "n < length f")
    case True
    have "take n pre = take (length pre) (take n f)" using pre(1) by (metis take_take min.commute)
    then show ?thesis using True by (simp add: compatible_def min_def)
  next
    case False
    then show ?thesis using pre by (simp add: compatible_def)
  qed
qed

text \<open>A frame at the front is delivered as it is, and nothing behind it is touched.\<close>

lemma seq_spec_frame:
  assumes "frame pre fixed get f"
  shows "seq_spec pre fixed get (f @ rest) = (Inr f, rest)"
proof -
  have "resync pre (f @ rest) = f @ rest"
    using frame_compatible [OF assms, of "length f" rest] by (intro resync_id) simp
  moreover have "get (f @ rest) = length f" "fixed \<le> length f"
    using assms by (auto simp: frame_def)
  ultimately show ?thesis by (simp add: seq_spec_def)
qed

text \<open>
  A part of a frame is kept, and the request is never for more bytes than the frame still has: a
  blocking read of that many bytes does not wait for the next frame.
\<close>

lemma seq_spec_part:
  assumes "frame pre fixed get f" "n < length f"
  shows "\<exists>k. seq_spec pre fixed get (take n f) = (Inl k, take n f) \<and> 0 < k \<and> k \<le> length f - n"
proof -
  have r: "resync pre (take n f) = take n f"
    using frame_compatible [OF assms(1), of n "[]"] assms(2) by (intro resync_id) simp
  have "get (take n f) = length f" if "fixed \<le> n"
    using assms(1) that by (auto simp: frame_def min_def)
  moreover have "fixed \<le> length f" using assms(1) by (simp add: frame_def)
  ultimately show ?thesis using assms(2) by (auto simp: seq_spec_def r Let_def)
qed

section \<open>The sequencer does what the specification says\<close>

lemma compatible_mismatch:
  assumes "k \<le> min (length pre) (length q)" "take k pre = take k q"
    and "k < length pre \<longrightarrow> k < length q \<longrightarrow> pre ! k \<noteq> q ! k"
  shows "compatible pre q \<longleftrightarrow> k = min (length pre) (length q)"
proof
  assume c: "compatible pre q"
  show "k = min (length pre) (length q)"
  proof (rule ccontr)
    assume "k \<noteq> min (length pre) (length q)"
    then have k: "k < length pre" "k < length q" using assms(1) by auto
    have "take (length q) pre ! k = take (length pre) q ! k" using c by (simp add: compatible_def)
    then show False using assms(3) k by simp
  qed
next
  assume "k = min (length pre) (length q)"
  then show "compatible pre q"
    using assms(2) by (cases "length pre \<le> length q") (simp_all add: compatible_def)
qed

lemma cb_pop_front_to: "cb_pop_front S b = Some b' \<Longrightarrow> cb_to b' = cb_to b"
  by (auto simp: cb_pop_front_def)

text \<open>What the code relies on of the definition it is instantiated with.\<close>

definition sequencer_ok :: "sequencer_def \<Rightarrow> bool" where
  "sequencer_ok d \<longleftrightarrow>
     sq_prefix d \<noteq> [] \<and> length (sq_prefix d) \<le> sq_fixed_size d \<and> capacity_ok (sq_capacity d * 2)"

context index_strategy
begin

lemma mismatch_ring:
  assumes "queue_of S N valid b q" "length q < st_max S" "i \<le> length q"
  shows "\<exists>k \<le> min (length pre) (length q - i).
    mismatch pre (cb_store b) ((st_idx S (cb_from b) + i) mod st_max S) (st_idx S (cb_to b))
      = Some (drop k pre, (st_idx S (cb_from b) + (i + k)) mod st_max S) \<and>
    take k pre = take k (drop i q) \<and>
    (k < length pre \<longrightarrow> i + k < length q \<longrightarrow> pre ! k \<noteq> q ! (i + k))"
  using assms(3)
proof (induction pre arbitrary: i)
  case (Cons x pre)
  note d = queue_ofD [OF assms(1)]
  show ?case
  proof (cases "i = length q")
    case True
    then show ?thesis by (simp add: d(7))
  next
    case False
    then have i: "i < length q" using Cons.prems by simp
    have ne: "(st_idx S (cb_from b) + i) mod st_max S \<noteq> st_idx S (cb_to b)"
      using ring_inject [OF d(6), of i "length q"] i assms(2) by (simp add: d(7))
    have y: "cb_store b ! ((st_idx S (cb_from b) + i) mod st_max S) = Some (q ! i)" using d(8) [OF i] .
    show ?thesis
    proof (cases "x = q ! i")
      case False
      then show ?thesis using ne y i by (intro exI [of _ 0]) auto
    next
      case True
      have "Suc i \<le> length q" using i by simp
      from Cons.IH [OF this] obtain k where k: "k \<le> min (length pre) (length q - Suc i)"
        "mismatch pre (cb_store b) ((st_idx S (cb_from b) + Suc i) mod st_max S) (st_idx S (cb_to b))
          = Some (drop k pre, (st_idx S (cb_from b) + (Suc i + k)) mod st_max S)"
        "take k pre = take k (drop (Suc i) q)"
        "k < length pre \<longrightarrow> Suc i + k < length q \<longrightarrow> pre ! k \<noteq> q ! (Suc i + k)"
        by blast
      have "take (Suc k) (drop i q) = q ! i # take k (drop (Suc i) q)"
        using i by (simp add: Cons_nth_drop_Suc [symmetric])
      then show ?thesis
        using k ne y True i d(2) iter_next_ring [OF d(6), of i]
        by (intro exI [of _ "Suc k"]) auto
    qed
  qed
qed simp

lemma queue_seq_pop:
  "queue_of S N valid b q \<Longrightarrow> n \<le> length q \<Longrightarrow>
   \<exists>b'. seq_pop S b n = Some b' \<and> queue_of S N valid b' (drop n q)"
proof (induction n arbitrary: b q)
  case (Suc n)
  then have "q \<noteq> []" by auto
  with queue_pop_front [OF Suc.prems(1)] obtain b' where b': "cb_pop_front S b = Some b'"
    "queue_of S N valid b' (tl q)" by blast
  then show ?case using Suc.IH [OF b'(2)] Suc.prems(2) by (auto simp: drop_Suc)
qed simp

lemma queue_seq_loop:
  assumes "S = sq_strategy d" "sq_prefix d \<noteq> []"
    and "queue_of S N valid b q" "length q < st_max S" "length q < fuel" "bend = st_idx S (cb_to b)"
  shows "\<exists>b'. queue_of S N valid b' (resync (sq_prefix d) q) \<and>
    seq_loop fuel d bend b
      = Some (if resync (sq_prefix d) q \<noteq> [] \<and> length (resync (sq_prefix d) q) < length (sq_prefix d)
              then Some (sq_fixed_size d - length (resync (sq_prefix d) q)) else None, b')"
  using assms(3-6)
proof (induction fuel arbitrary: b q)
  case (Suc fuel)
  note d = queue_ofD [OF Suc.prems(1)]
  let ?pre = "sq_prefix d"
  show ?case
  proof (cases q)
    case Nil
    then show ?thesis using Suc.prems(1) queue_empty [OF Suc.prems(1)] by (auto simp: assms(1) [symmetric])
  next
    case (Cons x xs)
    have nonempty: "\<not> cb_empty S b" using queue_empty [OF Suc.prems(1)] Cons by simp
    obtain k where k: "k \<le> min (length ?pre) (length q)"
      "mismatch ?pre (cb_store b) (cb_begin S b) bend
        = Some (drop k ?pre, (st_idx S (cb_from b) + k) mod st_max S)"
      "take k ?pre = take k q" "k < length ?pre \<longrightarrow> k < length q \<longrightarrow> ?pre ! k \<noteq> q ! k"
      using mismatch_ring [OF Suc.prems(1,2), of 0 ?pre] Suc.prems(4) d(6) by (auto simp: cb_begin_def)
    have lt: "k < st_max S" using k(1) Suc.prems(2) by simp
    have from0: "(st_idx S (cb_from b) + 0) mod st_max S = st_idx S (cb_from b)" using d(6) by simp
    have at_begin: "(st_idx S (cb_from b) + k) mod st_max S = cb_begin S b \<longleftrightarrow> k = 0"
      using ring_inject [OF d(6) lt, of 0] lt from0 by (simp add: cb_begin_def)
    have at_end: "(st_idx S (cb_from b) + k) mod st_max S = bend \<longleftrightarrow> k = length q"
      using ring_inject [OF d(6) lt Suc.prems(2)] Suc.prems(4) by (simp add: d(7))
    note comp = compatible_mismatch [OF k(1,3,4)]
    show ?thesis
    proof (cases "compatible ?pre q")
      case True
      then have kmin: "k = min (length ?pre) (length q)" using comp by simp
      then have "k \<noteq> 0" using assms(2) Cons by auto
      moreover have "resync ?pre q = q" using True by (rule resync_id)
      moreover have "drop k ?pre \<noteq> [] \<longleftrightarrow> length q < length ?pre"
        using kmin by auto
      moreover have "drop k ?pre \<noteq> [] \<Longrightarrow> k = length q" using kmin by auto
      ultimately show ?thesis
        using nonempty k(2) at_begin at_end Suc.prems(1) Cons kmin
        by (auto simp: assms(1) [symmetric])
    next
      case False
      then have kmin: "k < length ?pre" "k < length q" using comp k(1) by auto
      have "q \<noteq> []" using Cons by simp
      with queue_pop_front [OF Suc.prems(1)] obtain b' where b': "cb_pop_front S b = Some b'"
        "queue_of S N valid b' xs" using Cons by auto
      have "length xs < st_max S" "length xs < fuel" "bend = st_idx S (cb_to b')"
        using Suc.prems(2-4) Cons cb_pop_front_to [OF b'(1)] by simp_all
      from Suc.IH [OF b'(2) this] have "\<exists>b''. queue_of S N valid b'' (resync ?pre xs) \<and>
          seq_loop fuel d bend b' = Some (if resync ?pre xs \<noteq> [] \<and> length (resync ?pre xs) < length ?pre
            then Some (sq_fixed_size d - length (resync ?pre xs)) else None, b'')" .
      moreover have "resync ?pre q = resync ?pre xs" using False Cons by simp
      ultimately show ?thesis
        using nonempty k(2) at_end kmin b'(1) by (auto simp: assms(1) [symmetric])
    qed
  qed
qed simp

lemma walk_front:
  assumes "queue_of S N valid b q" "n \<le> length q" "n < st_max S"
  shows "walk (st_max S) (cb_store b) (cb_begin S b) (iter_add (st_max S) (cb_begin S b) (int n)) = Some (take n q)"
proof -
  note d = queue_ofD [OF assms(1)]
  have "0 < st_max S" using d(6) by simp
  then have "iter_add (st_max S) (cb_begin S b) (int n) = (st_idx S (cb_from b) + n) mod st_max S"
    by (simp add: iter_add_eq cb_begin_def nat_mod_as_int)
  then show ?thesis
    using walk_ring [OF d(2,6) assms(3), of 0 "st_max S" "take n q"] d(6,8) assms(2,3)
    by (simp add: cb_begin_def)
qed

text \<open>
  The refinement, for a buffer that is not full to the last slot and a definition whose \<open>get_size\<close>
  reads the bytes of the buffer.
\<close>

lemma queue_get_message:
  assumes S: "S = sq_strategy d" and ok: "sequencer_ok d" and N: "N = sq_capacity d * 2"
    and q: "queue_of S N valid b q" and lt: "length q < st_max S"
    and get: "\<And>b q. queue_of S N valid b q \<Longrightarrow> length q < st_max S \<Longrightarrow> sq_fixed_size d \<le> length q \<Longrightarrow>
      sq_get_size d S b = Some (get q)"
    and cap: "\<And>m. fst (seq_spec (sq_prefix d) (sq_fixed_size d) get q) = Inr m \<Longrightarrow> length m \<le> sq_capacity d"
  shows "\<exists>b'. seq_get_message d b = Some (fst (seq_spec (sq_prefix d) (sq_fixed_size d) get q), b') \<and>
    queue_of S N valid b' (snd (seq_spec (sq_prefix d) (sq_fixed_size d) get q))"
proof -
  let ?pre = "sq_prefix d" and ?fixed = "sq_fixed_size d" and ?r = "resync (sq_prefix d) q"
  have pre: "?pre \<noteq> []" "length ?pre \<le> ?fixed" using ok by (simp_all add: sequencer_ok_def)
  have fuel: "length q < sq_capacity d * 2 + 1" using queue_ofD(3) [OF q] N by simp
  obtain b1 where b1: "queue_of S N valid b1 ?r"
    "seq_loop (sq_capacity d * 2 + 1) d (cb_end S b) b
      = Some (if ?r \<noteq> [] \<and> length ?r < length ?pre then Some (?fixed - length ?r) else None, b1)"
    using queue_seq_loop [OF S pre(1) q lt fuel, of "cb_end S b"] by (auto simp: cb_end_def)
  have r_lt: "length ?r < st_max S" using length_resync [of ?pre q] lt by simp
  note sizes = queue_size [OF b1(1)] queue_empty [OF b1(1)]
  consider "length ?r < ?fixed"
    | "?fixed \<le> length ?r" "length ?r < get ?r" | "?fixed \<le> length ?r" "get ?r \<le> length ?r"
    by linarith
  then show ?thesis
  proof cases
    case 1
    then show ?thesis using b1 sizes pre
      by (auto simp: seq_get_message_def S [symmetric] seq_spec_def Let_def)
  next
    case 2
    have "?r \<noteq> []" using 2 pre by auto
    then show ?thesis using 2 b1 sizes pre get [OF b1(1) r_lt 2(1)]
      by (auto simp: seq_get_message_def S [symmetric] seq_spec_def Let_def)
  next
    case 3
    have ne: "?r \<noteq> []" using 3 pre by auto
    have m: "length (take (get ?r) ?r) \<le> sq_capacity d"
      using 3 cap [of "take (get ?r) ?r"] by (simp add: seq_spec_def Let_def)
    have w: "walk (st_max S) (cb_store b1) (cb_begin S b1) (iter_add (st_max S) (cb_begin S b1) (int (get ?r)))
        = Some (take (get ?r) ?r)"
      by (rule walk_front [OF b1(1)]) (use 3 r_lt in auto)
    obtain b2 where "seq_pop S b1 (get ?r) = Some b2" "queue_of S N valid b2 (drop (get ?r) ?r)"
      using queue_seq_pop [OF b1(1) 3(2)] by blast
    then show ?thesis using 3 b1 sizes pre ne m w get [OF b1(1) r_lt 3(1)]
      by (auto simp: seq_get_message_def S [symmetric] seq_spec_def Let_def)
  qed
qed

lemma queue_seq_insert:
  assumes "S = sq_strategy d" "queue_of S N valid b q" "length q + length data \<le> N"
  shows "queue_of S N valid (seq_insert d b data) (q @ data)"
  using assms(2,3)
proof (induction data arbitrary: b q)
  case (Cons x data)
  have "queue_of S N valid (cb_emplace_back S b x) (q @ [x])"
    using queue_emplace_back(1) [OF Cons.prems(1)] Cons.prems(2) by simp
  from Cons.IH [OF this] show ?case using Cons.prems(2) by (simp add: seq_insert_def assms(1))
qed (simp add: seq_insert_def)

end

end
