(* ===== verification/Packet.thy ===== *)
theory Packet
  imports Handler Sequencer
begin

text \<open>
  \<open>protocol/packet.hpp\<close>, \<open>packet_handler.hpp\<close> and \<open>endpoint.hpp\<close>: packets of a prefix, a size, a
  payload and a checksum over all that precedes it, and the endpoint that finds them in a stream with
  a sequencer.  The checksum function is the user's, \<open>Def::get_checksum\<close>, and a field of the
  definition here.
\<close>

section \<open>Packets\<close>

record packet =
  pk_endianess :: endian
  pk_prefix :: "byte list" \<comment> \<open>a \<open>std::array< std::byte, N >\<close>\<close>
  pk_size_type :: base_type
  pk_checksum_type :: base_type
  pk_payload :: pdef
  pk_get_checksum :: "byte list \<Rightarrow> int"

definition byte_def :: pdef where
  "byte_def = DBase (BEnum (BUInt 1))"

definition packet_base :: "packet \<Rightarrow> pdef" where
  "packet_base p =
     DDef (DEndian (pk_endianess p)
       (DTuple [DArray byte_def (length (pk_prefix p)),
                DSized (DBase (pk_size_type p)) (pk_payload p),
                DBase (pk_checksum_type p)]))"

definition packet_prefix_size :: "packet \<Rightarrow> nat" where
  "packet_prefix_size p = tr_max (traits_for (DArray byte_def (length (pk_prefix p))))"

definition packet_size_size :: "packet \<Rightarrow> nat" where
  "packet_size_size p = tr_max (traits_for (DBase (pk_size_type p)))"

definition packet_checksum_size :: "packet \<Rightarrow> nat" where
  "packet_checksum_size p = tr_max (traits_for (DBase (pk_checksum_type p)))"

definition packet_fixed_size :: "packet \<Rightarrow> nat" where
  "packet_fixed_size p = packet_prefix_size p + packet_size_size p"

text \<open>\<open>sequencer_def::get_size\<close>: the sum is one of \<open>std::size_t\<close>.\<close>

definition packet_get_size :: "packet \<Rightarrow> strategy \<Rightarrow> byte cbuf \<Rightarrow> nat option" where
  "packet_get_size p S b = do {
     tmp \<leftarrow> iter_take (packet_size_size p) (cb_store b)
             (iter_add (st_max S) (cb_begin S b) (int (packet_prefix_size p)));
     Some (nat ((deserialize_int (pk_endianess p) (pk_size_type p) tmp
                   + int (packet_fixed_size p) + int (packet_checksum_size p)) mod 2 ^ 64))
   }"

definition packet_sequencer_def :: "packet \<Rightarrow> sequencer_def" where
  "packet_sequencer_def p =
     \<lparr>sq_prefix = pk_prefix p, sq_fixed_size = packet_fixed_size p,
      sq_capacity = tr_max (traits_for (packet_base p)), sq_get_size = packet_get_size p\<rparr>"

section \<open>Packet handler\<close>

definition packet_prefix_value :: "packet \<Rightarrow> pval" where
  "packet_prefix_value p = VArray (map (\<lambda>b. VInt (uint b)) (pk_prefix p))"

text \<open>
  \<open>std::make_tuple( Packet::prefix, val, checksum_type{} )\<close> is serialised, then the checksum of the
  bytes before it replaces the last bytes.
\<close>

definition packet_serialize :: "packet \<Rightarrow> byte list \<Rightarrow> pval \<Rightarrow> byte list option" where
  "packet_serialize p raw val = do {
     msg \<leftarrow> handler_serialize (packet_base p) Big raw
             (VTuple [packet_prefix_value p, val, base_default (pk_checksum_type p)]);
     (let n = length msg - packet_checksum_size p; chcksm = pk_get_checksum p (take n msg) in do {
        (msg, _) \<leftarrow> with_span n (packet_checksum_size p) msg
             (\<lambda>b. Some (serialize_int (pk_endianess p) (pk_checksum_type p) b chcksm, ()));
        Some msg
      })
   }"

definition packet_extract :: "packet \<Rightarrow> byte list \<Rightarrow> (pval + error_record) option" where
  "packet_extract p msg = do {
     r \<leftarrow> handler_extract (packet_base p) Big msg;
     (case r of
        Inr err \<Rightarrow> Some (Inr err)
      | Inl (VTuple [_, val, VInt present_checksum]) \<Rightarrow>
          if length msg < packet_checksum_size p then None
          else (let checksum_pos = length msg - packet_checksum_size p in
            if present_checksum \<noteq> pk_get_checksum p (take checksum_pos msg)
            then Some (Inr \<lparr>error_mark = mark_text checksum_err, error_offset = checksum_pos\<rparr>)
            else Some (Inl val))
      | _ \<Rightarrow> None)
   }"

section \<open>Endpoint\<close>

text \<open>The state of an endpoint is the buffer of its sequencer.\<close>

datatype endpoint_result =
    Read_request nat
  | Input_value pval
  | Input_error error_record

definition endpoint_insert :: "packet \<Rightarrow> byte cbuf \<Rightarrow> byte list \<Rightarrow> byte cbuf" where
  "endpoint_insert p b data = seq_insert (packet_sequencer_def p) b data"

definition endpoint_get_value :: "packet \<Rightarrow> byte cbuf \<Rightarrow> (endpoint_result \<times> byte cbuf) option" where
  "endpoint_get_value p b = do {
     (res, b) \<leftarrow> seq_get_message (packet_sequencer_def p) b;
     (case res of
        Inl to_read \<Rightarrow> Some (Read_request to_read, b)
      | Inr msg \<Rightarrow> do {
          r \<leftarrow> packet_extract p msg;
          (case r of Inl v \<Rightarrow> Some (Input_value v, b) | Inr err \<Rightarrow> Some (Input_error err, b))
        })
   }"

section \<open>The layout of a packet\<close>

text \<open>
  A definition of packets that can be used: the size type holds the sizes of the payload, and the
  user's checksum function gives values of the checksum type.
\<close>

definition packet_ok :: "packet \<Rightarrow> bool" where
  "packet_ok p \<longleftrightarrow>
     pk_prefix p \<noteq> [] \<and> int_base (pk_size_type p) \<and> int_base (pk_checksum_type p) \<and>
     well_formed (DSized (DBase (pk_size_type p)) (pk_payload p)) \<and>
     tr_max (traits_for (packet_base p)) < 2 ^ 64 \<and>
     (\<forall>m. int_in (pk_checksum_type p) (pk_get_checksum p m))"

lemma packet_okD:
  assumes "packet_ok p"
  shows "int_base (pk_size_type p)" "int_base (pk_checksum_type p)" "pk_prefix p \<noteq> []"
    and "well_formed (DSized (DBase (pk_size_type p)) (pk_payload p))" "well_formed (pk_payload p)"
    and "int_in (pk_checksum_type p) (pk_get_checksum p m)"
    and "packet_prefix_size p = length (pk_prefix p)"
    and "packet_size_size p = base_size (pk_size_type p)"
    and "packet_checksum_size p = base_size (pk_checksum_type p)"
    and "well_formed (packet_base p)"
  using assms int_base_ok
  by (auto simp: packet_ok_def packet_base_def byte_def_def packet_prefix_size_def packet_size_size_def
      packet_checksum_size_def base_traits_def array_traits_def)

abbreviation payload_bytes :: "packet \<Rightarrow> pval \<Rightarrow> byte list" where
  "payload_bytes p v \<equiv> encoding (converter_for (pk_payload p) (pk_endianess p)) v"

text \<open>The bytes before the checksum.\<close>

definition packet_body :: "packet \<Rightarrow> pval \<Rightarrow> byte list" where
  "packet_body p v = pk_prefix p
     @ bytes_in (pk_endianess p) (packet_size_size p) (int (length (payload_bytes p v)))
     @ payload_bytes p v"

definition packet_bytes :: "packet \<Rightarrow> pval \<Rightarrow> int \<Rightarrow> byte list" where
  "packet_bytes p v c = packet_body p v @ bytes_in (pk_endianess p) (packet_checksum_size p) c"

lemma prefix_bytes: "tuple_bytes (replicate (length bs) (converter_for byte_def e)) (map (\<lambda>b. VInt (uint b)) bs) = bs"
proof (induction bs)
  case (Cons b bs)
  have "uint b < 2 ^ 8" using uint_lt2p [of b] by simp
  then have "base_typed (BEnum (BUInt 1)) (VInt (uint b))" by (simp add: int_in_unsigned)
  then have "encoding (converter_for byte_def e) (VInt (uint b)) = bytes_in e 1 (uint b)"
    using encoding_base [of "BEnum (BUInt 1)" _ e] by (simp add: byte_def_def)
  also have "\<dots> = [b]"
    by (cases e) (simp_all add: bytes_in_def One_nat_def)
  finally show ?case using Cons.IH by simp
qed simp

lemma packet_typed:
  assumes "packet_ok p" "typed (pk_payload p) v" "int_in (pk_checksum_type p) c"
  shows "typed (packet_base p) (VTuple [packet_prefix_value p, v, VInt c])"
proof -
  have "int_in (BUInt 1) (uint b)" for b :: byte
    using uint_lt2p [of b] by (simp add: int_in_unsigned)
  then show ?thesis
    using assms(2,3) int_base_typed [OF packet_okD(2) [OF assms(1)], of c]
    by (auto simp: packet_base_def byte_def_def packet_prefix_value_def tuple_typed_def)
qed

lemma packet_encoding:
  assumes ok: "packet_ok p" and v: "typed (pk_payload p) v" and c: "int_in (pk_checksum_type p) c"
  shows "encoding (converter_for (packet_base p) e) (VTuple [packet_prefix_value p, v, VInt c]) = packet_bytes p v c"
proof -
  note d = packet_okD [OF ok]
  let ?e = "pk_endianess p"
  let ?ds = "[DArray byte_def (length (pk_prefix p)), DSized (DBase (pk_size_type p)) (pk_payload p),
              DBase (pk_checksum_type p)]"
  have wf: "well_formed (DTuple ?ds)" and ty: "typed (DTuple ?ds) (VTuple [packet_prefix_value p, v, VInt c])"
    using d(10) packet_typed [OF assms] by (simp_all add: packet_base_def)
  have "encoding (converter_for (packet_base p) e) (VTuple [packet_prefix_value p, v, VInt c])
      = encoding (converter_for (DTuple ?ds) ?e) (VTuple [packet_prefix_value p, v, VInt c])"
    by (simp add: packet_base_def)
  also have "\<dots> = tuple_bytes (map (\<lambda>d. converter_for d ?e) ?ds) [packet_prefix_value p, v, VInt c]"
    by (rule encoding_tuple [OF wf ty])
  also have "\<dots> = encoding (converter_for (DArray byte_def (length (pk_prefix p))) ?e) (packet_prefix_value p)
      @ encoding (converter_for (DSized (DBase (pk_size_type p)) (pk_payload p)) ?e) v
      @ encoding (converter_for (DBase (pk_checksum_type p)) ?e) (VInt c)"
    by simp
  also have "encoding (converter_for (DArray byte_def (length (pk_prefix p))) ?e) (packet_prefix_value p) = pk_prefix p"
  proof -
    have "typed byte_def (VInt (uint b))" for b :: byte
      using uint_lt2p [of b] by (simp add: byte_def_def int_in_unsigned)
    then show ?thesis
      using encoding_array [of byte_def "length (pk_prefix p)" "map (\<lambda>b. VInt (uint b)) (pk_prefix p)" ?e]
        wf prefix_bytes [of "pk_prefix p" ?e]
      by (auto simp: packet_prefix_value_def)
  qed
  also have "encoding (converter_for (DSized (DBase (pk_size_type p)) (pk_payload p)) ?e) v
      = bytes_in ?e (packet_size_size p) (int (length (payload_bytes p v))) @ payload_bytes p v"
  proof -
    have "length (payload_bytes p v) \<le> tr_max (traits_for (pk_payload p))"
      using proto.encoding_size [of "pk_payload p" v ?e] d(5) v by (simp add: max_size_converter_for)
    then have "int_in (pk_size_type p) (int (length (payload_bytes p v)))"
      using d(4) by (auto intro: int_in_convex [of _ 0])
    then have "encoding (converter_for (DBase (pk_size_type p)) ?e) (VInt (int (length (payload_bytes p v))))
        = bytes_in ?e (packet_size_size p) (int (length (payload_bytes p v)))"
      using encodes_encoding [OF conv_base_encodes_int [OF d(1)]] d(8) by simp
    then show ?thesis using encoding_sized [OF d(4) v, of ?e] by simp
  qed
  also have "encoding (converter_for (DBase (pk_checksum_type p)) ?e) (VInt c)
      = bytes_in ?e (packet_checksum_size p) c"
    using encodes_encoding [OF conv_base_encodes_int [OF d(2) c, of ?e]] d(9) by simp
  finally show ?thesis by (simp add: packet_bytes_def packet_body_def)
qed

section \<open>Round trip\<close>

definition packet_message :: "packet \<Rightarrow> pval \<Rightarrow> byte list" where
  "packet_message p v = packet_bytes p v (pk_get_checksum p (packet_body p v))"

lemma length_packet_bytes: "length (packet_bytes p v c) = length (packet_body p v) + packet_checksum_size p"
  by (simp add: packet_bytes_def)

lemma packet_serialize_eq:
  assumes ok: "packet_ok p" and v: "typed (pk_payload p) v" and raw: "length raw = tr_max (traits_for (packet_base p))"
  shows "packet_serialize p raw v = Some (packet_message p v)"
proof -
  note d = packet_okD [OF ok]
  have default: "base_default (pk_checksum_type p) = VInt 0" "int_in (pk_checksum_type p) 0"
    using d(2) int_in_zero [OF d(2)] by (cases "pk_checksum_type p"; simp)+
  have "handler_serialize (packet_base p) Big raw (VTuple [packet_prefix_value p, v, VInt 0])
      = Some (packet_bytes p v 0)"
    using handler_serialize_eq [OF d(10) packet_typed [OF ok v default(2)], of raw Big] raw
      packet_encoding [OF ok v default(2), of Big]
    by (simp add: max_size_converter_for)
  moreover have "take (length (packet_bytes p v 0) - packet_checksum_size p) (packet_bytes p v 0) = packet_body p v"
    by (simp add: packet_bytes_def)
  ultimately show ?thesis
    using d(2,6,9)
    by (simp add: packet_serialize_def default(1) Let_def with_span_def packet_bytes_def packet_message_def
        serialize_int_eq)
qed

lemma packet_extract_message:
  assumes ok: "packet_ok p" and v: "typed (pk_payload p) v"
  shows "packet_extract p (packet_message p v) = Some (Inl v)"
proof -
  note d = packet_okD [OF ok]
  let ?c = "pk_get_checksum p (packet_body p v)"
  have "handler_extract (packet_base p) Big (packet_message p v)
      = Some (Inl (VTuple [packet_prefix_value p, v, VInt ?c]))"
    using handler_extract_eq [OF d(10) packet_typed [OF ok v d(6)], of "[]" Big]
      packet_encoding [OF ok v d(6), of Big]
    by (simp add: packet_message_def)
  then show ?thesis
    by (simp add: packet_extract_def Let_def packet_message_def packet_bytes_def)
qed

text \<open>
  A message whose checksum is not the one of its bytes is rejected, with the position of the
  checksum.
\<close>

lemma packet_extract_corrupted:
  assumes ok: "packet_ok p" and v: "typed (pk_payload p) v" and c: "int_in (pk_checksum_type p) c"
    and "c \<noteq> pk_get_checksum p (packet_body p v)"
  shows "packet_extract p (packet_bytes p v c)
    = Some (Inr \<lparr>error_mark = mark_text checksum_err, error_offset = length (packet_body p v)\<rparr>)"
proof -
  have "handler_extract (packet_base p) Big (packet_bytes p v c)
      = Some (Inl (VTuple [packet_prefix_value p, v, VInt c]))"
    using handler_extract_eq [OF packet_okD(10) [OF ok] packet_typed [OF ok v c], of "[]" Big]
      packet_encoding [OF ok v c, of Big]
    by simp
  then show ?thesis
    using assms(4) by (simp add: packet_extract_def Let_def packet_bytes_def)
qed

section \<open>Packets in a stream\<close>

text \<open>What \<open>get_size\<close> reads from a sequence of bytes, and that a packet is a frame for it.\<close>

definition packet_size_of :: "packet \<Rightarrow> byte list \<Rightarrow> nat" where
  "packet_size_of p q =
     nat ((deserialize_int (pk_endianess p) (pk_size_type p)
             (take (packet_size_size p) (drop (packet_prefix_size p) q))
           + int (packet_fixed_size p) + int (packet_checksum_size p)) mod 2 ^ 64)"

lemma length_packet_message:
  assumes "packet_ok p" "typed (pk_payload p) v"
  shows "length (packet_message p v)
      = packet_fixed_size p + length (payload_bytes p v) + packet_checksum_size p"
    and "length (packet_message p v) \<le> tr_max (traits_for (packet_base p))"
    and "packet_message p v \<noteq> []"
proof -
  note d = packet_okD [OF assms(1)]
  show len: "length (packet_message p v)
      = packet_fixed_size p + length (payload_bytes p v) + packet_checksum_size p"
    using d(7) by (simp add: packet_message_def packet_bytes_def packet_body_def packet_fixed_size_def)
  show "length (packet_message p v) \<le> tr_max (traits_for (packet_base p))"
    using proto.encoding_size [of "packet_base p" _ Big] d(10) packet_typed [OF assms d(6)]
      packet_encoding [OF assms d(6), of Big]
    by (metis max_size_converter_for packet_message_def)
  show "packet_message p v \<noteq> []"
    using d(3) by (simp add: packet_message_def packet_bytes_def packet_body_def)
qed

lemma packet_frame:
  assumes ok: "packet_ok p" and v: "typed (pk_payload p) v"
  shows "frame (pk_prefix p) (packet_fixed_size p) (packet_size_of p) (packet_message p v)"
proof -
  note d = packet_okD [OF ok] and len = length_packet_message [OF ok v]
  let ?m = "packet_message p v" and ?n = "length (payload_bytes p v)"
  have "?n \<le> tr_max (traits_for (pk_payload p))"
    using proto.encoding_size [of "pk_payload p" v] d(5) v by (simp add: max_size_converter_for)
  then have n: "int_in (pk_size_type p) (int ?n)"
    using d(4) by (auto intro: int_in_convex [of _ 0])
  have small: "length ?m < 2 ^ 64" using len(2) ok by (simp add: packet_ok_def)
  have m: "?m = (pk_prefix p @ bytes_in (pk_endianess p) (packet_size_size p) (int ?n))
      @ payload_bytes p v @ bytes_in (pk_endianess p) (packet_checksum_size p) (pk_get_checksum p (packet_body p v))"
    by (simp add: packet_message_def packet_bytes_def packet_body_def)
  have "packet_size_of p q = length ?m" if q: "take (packet_fixed_size p) q = take (packet_fixed_size p) ?m" for q
  proof -
    have "take (packet_size_size p) (drop (packet_prefix_size p) q)
        = drop (packet_prefix_size p) (take (packet_fixed_size p) q)"
      by (simp add: packet_fixed_size_def take_drop add.commute)
    also have "\<dots> = bytes_in (pk_endianess p) (packet_size_size p) (int ?n)"
      unfolding q using d(7) by (subst m) (simp add: packet_fixed_size_def)
    finally have "deserialize_int (pk_endianess p) (pk_size_type p)
        (take (packet_size_size p) (drop (packet_prefix_size p) q)) = int ?n"
      using serializer_roundtrip [OF d(1) n] d(8) by simp
    then have "packet_size_of p q = nat (int (length ?m) mod 2 ^ 64)"
      by (simp add: packet_size_of_def len(1) add.commute add.left_commute)
    then show ?thesis using small by (simp add: nat_mod_as_int)
  qed
  moreover have "take (length (pk_prefix p)) ?m = pk_prefix p" by (simp add: m)
  ultimately show ?thesis using d(7) len(1) by (simp add: frame_def packet_fixed_size_def)
qed

text \<open>The endpoint holds the bytes \<open>q\<close>.\<close>

definition endpoint_ok :: "packet \<Rightarrow> bool" where
  "endpoint_ok p \<longleftrightarrow> packet_ok p \<and> capacity_ok (tr_max (traits_for (packet_base p)) * 2)"

definition endpoint_new :: "packet \<Rightarrow> byte cbuf" where
  "endpoint_new p = seq_new (packet_sequencer_def p)"

definition endpoint_holds :: "packet \<Rightarrow> byte cbuf \<Rightarrow> byte list \<Rightarrow> bool" where
  "endpoint_holds p b q \<longleftrightarrow>
     (let N = tr_max (traits_for (packet_base p)) * 2
      in queue_of (select_strategy N) N (selected_valid N) b q)"

lemma packet_sequencer_simps:
  "sq_prefix (packet_sequencer_def p) = pk_prefix p"
  "sq_fixed_size (packet_sequencer_def p) = packet_fixed_size p"
  "sq_capacity (packet_sequencer_def p) = tr_max (traits_for (packet_base p))"
  "sq_get_size (packet_sequencer_def p) = packet_get_size p"
  "sq_strategy (packet_sequencer_def p) = select_strategy (tr_max (traits_for (packet_base p)) * 2)"
  by (simp_all add: packet_sequencer_def_def sq_strategy_def)

lemma endpoint_sequencer_ok:
  assumes "endpoint_ok p"
  shows "sequencer_ok (packet_sequencer_def p)"
  using assms packet_okD(3,7) [of p]
  by (simp add: endpoint_ok_def sequencer_ok_def packet_sequencer_simps packet_fixed_size_def)

context index_strategy
begin

lemma queue_get_size:
  assumes q: "queue_of S N valid b q" and lt: "length q < st_max S" and fixed: "packet_fixed_size p \<le> length q"
  shows "packet_get_size p S b = Some (packet_size_of p q)"
proof -
  note d = queue_ofD [OF q]
  have "0 < st_max S" using d(6) by simp
  then have "iter_add (st_max S) (cb_begin S b) (int (packet_prefix_size p))
      = (st_idx S (cb_from b) + packet_prefix_size p) mod st_max S"
    by (simp add: iter_add_eq cb_begin_def nat_mod_as_int)
  then show ?thesis
    using iter_take_ring [OF d(2,6), of "packet_prefix_size p" "packet_size_size p" q] d(8) fixed
    by (simp add: packet_get_size_def packet_size_of_def packet_fixed_size_def)
qed

end

lemma endpoint_new_holds: "endpoint_ok p \<Longrightarrow> endpoint_holds p (endpoint_new p) []"
  by (simp add: selected.queue_new selected_valid_0 endpoint_ok_def endpoint_holds_def endpoint_new_def seq_new_def packet_sequencer_simps Let_def)

lemma endpoint_insert_holds:
  assumes "endpoint_holds p b q" "length q + length data \<le> tr_max (traits_for (packet_base p)) * 2"
  shows "endpoint_holds p (endpoint_insert p b data) (q @ data)"
  using selected.queue_seq_insert [of _ "packet_sequencer_def p" b q data] assms
  by (simp add: endpoint_holds_def endpoint_insert_def packet_sequencer_simps Let_def)

text \<open>The room of the buffer in which iteration works: one slot must be free.\<close>

definition endpoint_room :: "packet \<Rightarrow> nat" where
  "endpoint_room p = tr_max (traits_for (packet_base p)) * 2 - 1"

lemma endpoint_room_slots:
  assumes "length q \<le> endpoint_room p" "packet_ok p"
  shows "length q < st_max (select_strategy (tr_max (traits_for (packet_base p)) * 2))"
proof -
  have "0 < tr_max (traits_for (packet_base p))"
    using packet_okD(3) [OF assms(2)]
    by (simp add: packet_base_def tuple_traits_def array_traits_def byte_def_def base_traits_def)
  then show ?thesis using assms(1)
    by (auto simp: endpoint_room_def select_strategy_def overflow_strategy_def spacer_strategy_def)
qed

lemma endpoint_message:
  assumes ok: "endpoint_ok p" and b: "endpoint_holds p b q" and lt: "length q \<le> endpoint_room p"
    and cap: "\<And>m. fst (seq_spec (pk_prefix p) (packet_fixed_size p) (packet_size_of p) q) = Inr m \<Longrightarrow>
      length m \<le> tr_max (traits_for (packet_base p))"
  shows "\<exists>b'. seq_get_message (packet_sequencer_def p) b
      = Some (fst (seq_spec (pk_prefix p) (packet_fixed_size p) (packet_size_of p) q), b') \<and>
    endpoint_holds p b' (snd (seq_spec (pk_prefix p) (packet_fixed_size p) (packet_size_of p) q))"
proof -
  let ?N = "tr_max (traits_for (packet_base p)) * 2"
  have "length q < st_max (select_strategy ?N)"
    using endpoint_room_slots [OF lt] ok by (simp add: endpoint_ok_def)
  from selected.queue_get_message [OF packet_sequencer_simps(5) [symmetric] endpoint_sequencer_ok [OF ok] _ _ this,
      of b "packet_size_of p"]
  show ?thesis
    using b cap selected.queue_get_size [of ?N _ _ p]
    by (simp add: endpoint_holds_def packet_sequencer_simps Let_def)
qed

lemma endpoint_delivers:
  assumes ok: "endpoint_ok p" and v: "typed (pk_payload p) v"
    and b: "endpoint_holds p b (packet_message p v @ rest)" and lt: "length (packet_message p v @ rest) \<le> endpoint_room p"
  shows "\<exists>b'. endpoint_get_value p b = Some (Input_value v, b') \<and> endpoint_holds p b' rest"
proof -
  have pok: "packet_ok p" using ok by (simp add: endpoint_ok_def)
  have spec: "seq_spec (pk_prefix p) (packet_fixed_size p) (packet_size_of p) (packet_message p v @ rest)
      = (Inr (packet_message p v), rest)"
    by (rule seq_spec_frame [OF packet_frame [OF pok v]])
  show ?thesis
    using endpoint_message [OF ok b lt] length_packet_message(2) [OF pok v] packet_extract_message [OF pok v]
    unfolding spec by (auto simp: endpoint_get_value_def)
qed

lemma endpoint_waits:
  assumes ok: "endpoint_ok p" and v: "typed (pk_payload p) v" and n: "n < length (packet_message p v)"
    and b: "endpoint_holds p b (take n (packet_message p v))"
  shows "\<exists>k b'. endpoint_get_value p b = Some (Read_request k, b') \<and> 0 < k \<and>
    k \<le> length (packet_message p v) - n \<and> endpoint_holds p b' (take n (packet_message p v))"
proof -
  have pok: "packet_ok p" using ok by (simp add: endpoint_ok_def)
  obtain k where k: "0 < k" "k \<le> length (packet_message p v) - n"
    and spec: "seq_spec (pk_prefix p) (packet_fixed_size p) (packet_size_of p) (take n (packet_message p v))
      = (Inl k, take n (packet_message p v))"
    using seq_spec_part [OF packet_frame [OF pok v] n] by blast
  have lt: "length (take n (packet_message p v)) \<le> endpoint_room p"
    using length_packet_message(2) [OF pok v] n by (simp add: endpoint_room_def)
  show ?thesis
    using endpoint_message [OF ok b lt] k unfolding spec by (auto simp: endpoint_get_value_def)
qed

section \<open>Any chunking of a stream of packets\<close>

text \<open>
  A client of the endpoint: it inserts the chunks of data as they arrive, and after each one takes
  values until the endpoint asks for more.  A message removes at least one byte, so the number of
  bytes in the buffer and one more bounds the number of calls.
\<close>

primrec endpoint_drain :: "nat \<Rightarrow> packet \<Rightarrow> byte cbuf \<Rightarrow> (endpoint_result list \<times> byte cbuf) option" where
  "endpoint_drain 0 p b = None"
| "endpoint_drain (Suc fuel) p b = do {
     (res, b) \<leftarrow> endpoint_get_value p b;
     (case res of
        Read_request _ \<Rightarrow> Some ([], b)
      | r \<Rightarrow> do { (rs, b) \<leftarrow> endpoint_drain fuel p b; Some (r # rs, b) })
   }"

fun endpoint_feed :: "packet \<Rightarrow> byte cbuf \<Rightarrow> byte list list \<Rightarrow> (endpoint_result list \<times> byte cbuf) option" where
  "endpoint_feed p b [] = Some ([], b)"
| "endpoint_feed p b (chunk # chunks) = do {
     (rs, b) \<leftarrow> endpoint_drain (tr_max (traits_for (packet_base p)) * 2 + 1) p (endpoint_insert p b chunk);
     (rs', b) \<leftarrow> endpoint_feed p b chunks;
     Some (rs @ rs', b)
   }"

abbreviation packet_stream :: "packet \<Rightarrow> pval list \<Rightarrow> byte list" where
  "packet_stream p vs \<equiv> concat (map (packet_message p) vs)"

text \<open>\<open>q\<close> is a part of the first packet, or nothing when no packet is to come.\<close>

definition waits_for :: "packet \<Rightarrow> byte list \<Rightarrow> pval list \<Rightarrow> bool" where
  "waits_for p q vs \<longleftrightarrow>
     (case vs of [] \<Rightarrow> q = [] | v # _ \<Rightarrow> \<exists>n < length (packet_message p v). q = take n (packet_message p v))"

lemma endpoint_empty:
  assumes "endpoint_ok p" "endpoint_holds p b []"
  shows "\<exists>k b'. endpoint_get_value p b = Some (Read_request k, b') \<and> endpoint_holds p b' []"
proof -
  have pok: "packet_ok p" using assms(1) by (simp add: endpoint_ok_def)
  have "0 < packet_fixed_size p" using packet_okD(3,7) [OF pok] by (simp add: packet_fixed_size_def)
  then have spec: "seq_spec (pk_prefix p) (packet_fixed_size p) (packet_size_of p) [] = (Inl (packet_fixed_size p), [])"
    by (simp add: seq_spec_def)
  show ?thesis
    using endpoint_message [OF assms] unfolding spec by (auto simp: endpoint_get_value_def)
qed

lemma endpoint_waiting:
  assumes ok: "endpoint_ok p" and "\<forall>v \<in> set vs. typed (pk_payload p) v"
    and b: "endpoint_holds p b q" and w: "waits_for p q vs"
  shows "\<exists>k b'. endpoint_get_value p b = Some (Read_request k, b') \<and> endpoint_holds p b' q"
proof (cases vs)
  case Nil
  then show ?thesis using endpoint_empty [OF ok] b w by (simp add: waits_for_def)
next
  case (Cons v ws)
  then obtain n where "n < length (packet_message p v)" "q = take n (packet_message p v)"
    using w by (auto simp: waits_for_def)
  then show ?thesis using endpoint_waits [OF ok, of v n b] assms(2) b Cons by auto
qed

lemma stream_split:
  assumes ok: "packet_ok p" and "\<forall>v \<in> set vs. typed (pk_payload p) v" and "q @ future = packet_stream p vs"
  shows "waits_for p q vs \<or> (\<exists>v ws q'. vs = v # ws \<and> q = packet_message p v @ q' \<and> q' @ future = packet_stream p ws)"
proof (cases vs)
  case (Cons v ws)
  then have eq: "q @ future = packet_message p v @ packet_stream p ws" using assms(3) by simp
  show ?thesis
  proof (cases "length q < length (packet_message p v)")
    case True
    have "q = take (length q) (packet_message p v)"
      using arg_cong [OF eq, of "take (length q)"] True by simp
    then show ?thesis using Cons True by (auto simp: waits_for_def)
  next
    case False
    then have "q = packet_message p v @ drop (length (packet_message p v)) q"
      "drop (length (packet_message p v)) q @ future = packet_stream p ws"
      using arg_cong [OF eq, of "take (length (packet_message p v))"]
        arg_cong [OF eq, of "drop (length (packet_message p v))"]
      by (simp_all, metis append_take_drop_id)
    then show ?thesis using Cons by blast
  qed
qed (use assms(3) in \<open>simp add: waits_for_def\<close>)

lemma endpoint_drain_stream:
  assumes ok: "endpoint_ok p"
  shows "endpoint_holds p b q \<Longrightarrow> \<forall>v \<in> set vs. typed (pk_payload p) v \<Longrightarrow> q @ future = packet_stream p vs \<Longrightarrow>
    length q < fuel \<Longrightarrow> length q \<le> endpoint_room p \<Longrightarrow>
    \<exists>done ws q' b'. vs = done @ ws \<and> endpoint_drain fuel p b = Some (map Input_value done, b') \<and>
      endpoint_holds p b' q' \<and> q' @ future = packet_stream p ws \<and> waits_for p q' ws"
proof (induction fuel arbitrary: b q vs)
  case (Suc fuel)
  have pok: "packet_ok p" using ok by (simp add: endpoint_ok_def)
  from stream_split [OF pok Suc.prems(2,3)] show ?case
  proof
    assume w: "waits_for p q vs"
    obtain k b' where "endpoint_get_value p b = Some (Read_request k, b')" "endpoint_holds p b' q"
      using endpoint_waiting [OF ok Suc.prems(2,1) w] by blast
    then show ?thesis
      using Suc.prems(3) w by (intro exI [of _ "[]"] exI [of _ vs] exI [of _ q] exI [of _ b']) simp
  next
    assume "\<exists>v ws q'. vs = v # ws \<and> q = packet_message p v @ q' \<and> q' @ future = packet_stream p ws"
    then obtain v ws q' where vs: "vs = v # ws" and q: "q = packet_message p v @ q'"
      and future: "q' @ future = packet_stream p ws" by blast
    have v: "typed (pk_payload p) v" using Suc.prems(2) vs by simp
    obtain b' where b': "endpoint_get_value p b = Some (Input_value v, b')" "endpoint_holds p b' q'"
      using endpoint_delivers [OF ok v] Suc.prems(1,5) q by blast
    have "length q' < fuel" "length q' \<le> endpoint_room p"
      using Suc.prems(4,5) q length_packet_message(3) [OF pok v] by (auto simp: neq_Nil_conv)
    from Suc.IH [OF b'(2) _ future this] obtain dn us r b'' where
      "ws = dn @ us" "endpoint_drain fuel p b' = Some (map Input_value dn, b'')"
      "endpoint_holds p b'' r" "r @ future = packet_stream p us" "waits_for p r us"
      using Suc.prems(2) vs by auto
    then show ?thesis
      using b'(1) vs by (intro exI [of _ "v # dn"] exI [of _ us] exI [of _ r] exI [of _ b'']) simp
  qed
qed simp

lemma waits_for_length:
  assumes "packet_ok p" "\<forall>v \<in> set vs. typed (pk_payload p) v" "waits_for p q vs"
  shows "length q \<le> tr_max (traits_for (packet_base p)) - 1"
  using assms length_packet_message(2) [OF assms(1)]
  by (fastforce simp: waits_for_def split: list.splits)

lemma endpoint_feed_stream:
  assumes ok: "endpoint_ok p"
  shows "endpoint_holds p b q \<Longrightarrow> \<forall>v \<in> set vs. typed (pk_payload p) v \<Longrightarrow> waits_for p q vs \<Longrightarrow>
    q @ concat chunks = packet_stream p vs \<Longrightarrow>
    \<forall>c \<in> set chunks. length c \<le> tr_max (traits_for (packet_base p)) \<Longrightarrow>
    \<exists>b'. endpoint_feed p b chunks = Some (map Input_value vs, b') \<and> endpoint_holds p b' []"
proof (induction chunks arbitrary: b q vs)
  case Nil
  have pok: "packet_ok p" using ok by (simp add: endpoint_ok_def)
  have "vs = []"
  proof (cases vs)
    case (Cons v ws)
    then have "length (packet_message p v) \<le> length q" using Nil.prems(4) by simp
    then show ?thesis using Nil.prems(3) Cons by (auto simp: waits_for_def)
  qed simp
  then show ?case using Nil.prems(1,3) by (simp add: waits_for_def)
next
  case (Cons c chunks)
  have pok: "packet_ok p" using ok by (simp add: endpoint_ok_def)
  let ?cap = "tr_max (traits_for (packet_base p))"
  have pos: "0 < ?cap"
    using packet_okD(3) [OF pok]
    by (simp add: packet_base_def tuple_traits_def array_traits_def byte_def_def base_traits_def)
  have len: "length (q @ c) \<le> endpoint_room p" "length (q @ c) < ?cap * 2 + 1" "length q + length c \<le> ?cap * 2"
    using waits_for_length [OF pok Cons.prems(2,3)] Cons.prems(5) pos by (auto simp: endpoint_room_def)
  have eq: "(q @ c) @ concat chunks = packet_stream p vs" using Cons.prems(4) by simp
  obtain dn ws q' b' where 1: "vs = dn @ ws"
    "endpoint_drain (?cap * 2 + 1) p (endpoint_insert p b c) = Some (map Input_value dn, b')"
    "endpoint_holds p b' q'" "q' @ concat chunks = packet_stream p ws" "waits_for p q' ws"
    using endpoint_drain_stream [OF ok endpoint_insert_holds [OF Cons.prems(1) len(3)] Cons.prems(2) eq len(2,1)]
    by blast
  have "\<forall>v \<in> set ws. typed (pk_payload p) v" "\<forall>c \<in> set chunks. length c \<le> ?cap"
    using Cons.prems(2,5) 1(1) by auto
  from Cons.IH [OF 1(3) this(1) 1(5,4) this(2)] show ?case using 1(1,2) by auto
qed

end
