(* ===== verification/Algorithm.thy ===== *)
theory Algorithm
  imports Prelude
begin

text \<open>
  \<open>algorithm.hpp\<close>, \<open>algorithm/impl.hpp\<close>, \<open>min_max.hpp\<close> and \<open>bounded.hpp\<close>: loops over containers and
  over compile-time indices, ranges of two values, and integers with bounds.  A container is the list
  of its items, a callable a function, and an iterator of a container the number of steps from its
  begin.  Arithmetic on \<open>int\<close> is the mathematical one where the C++ result is in range.
\<close>

section \<open>Integer helpers\<close>

text \<open>The quotient of C++ is truncated towards zero, and the remainder has the sign of the dividend.\<close>

definition cdiv :: "int \<Rightarrow> int \<Rightarrow> int" where
  "cdiv a b = sgn a * sgn b * (\<bar>a\<bar> div \<bar>b\<bar>)"

definition c_mod :: "int \<Rightarrow> int \<Rightarrow> int" where
  "c_mod a b = sgn a * (\<bar>a\<bar> mod \<bar>b\<bar>)"

lemma cdiv_cmod: "cdiv a b * b + c_mod a b = a"
proof -
  have "cdiv a b * b = sgn a * (\<bar>a\<bar> div \<bar>b\<bar> * (sgn b * b))"
    by (simp add: cdiv_def mult.commute mult.left_commute)
  also have "sgn b * b = \<bar>b\<bar>" by (simp add: abs_sgn mult.commute)
  finally have "cdiv a b * b + c_mod a b = sgn a * (\<bar>a\<bar> div \<bar>b\<bar> * \<bar>b\<bar> + \<bar>a\<bar> mod \<bar>b\<bar>)"
    unfolding c_mod_def by (simp only: distrib_left)
  then show ?thesis by (simp only: div_mult_mod_eq sgn_mult_abs)
qed

lemma cdiv_mult: "0 < b \<Longrightarrow> cdiv (a * b) b = a"
  by (simp add: cdiv_def sgn_mult abs_mult sgn_mult_abs)

lemma cdiv_nonneg: "0 \<le> a \<Longrightarrow> 0 < b \<Longrightarrow> cdiv a b = a div b"
  by (cases "a = 0") (auto simp: cdiv_def)

lemma c_mod_nonneg: "0 \<le> a \<Longrightarrow> 0 < b \<Longrightarrow> c_mod a b = a mod b"
  by (cases "a = 0") (auto simp: c_mod_def)

definition sign_of :: "int \<Rightarrow> int" where
  "sign_of val = (if 0 > val then -1 else if 0 < val then 1 else 0)"

definition ceil_to :: "int \<Rightarrow> int \<Rightarrow> int" where
  "ceil_to val b = (let m = c_mod val b in if m = 0 then val else val + b - m)"

definition map_range :: "int \<Rightarrow> int \<Rightarrow> int \<Rightarrow> int \<Rightarrow> int \<Rightarrow> int option" where
  "map_range x from_min from_max to_min to_max =
     (if from_max - from_min = 0 then None
      else Some (to_min + cdiv ((to_max - to_min) * (x - from_min)) (from_max - from_min)))"

text \<open>The smallest multiple that is not below, for values that are not negative.\<close>

lemma ceil_to_least:
  assumes "0 \<le> val" "0 < b"
  shows "b dvd ceil_to val b" and "val \<le> ceil_to val b" and "ceil_to val b < val + b"
    and "b dvd k \<Longrightarrow> val \<le> k \<Longrightarrow> ceil_to val b \<le> k"
proof -
  let ?m = "val mod b"
  have m: "c_mod val b = ?m" "0 \<le> ?m" "?m < b" using assms by (simp_all add: c_mod_nonneg)
  have v: "val = b * (val div b) + ?m" by simp
  have eq: "ceil_to val b = (if ?m = 0 then val else b * (val div b + 1))"
    unfolding ceil_to_def m(1) Let_def using v by (simp add: algebra_simps)
  show "b dvd ceil_to val b" unfolding eq by (simp add: mod_eq_0_iff_dvd)
  have "ceil_to val b = (if ?m = 0 then val else val + b - ?m)"
    by (simp add: ceil_to_def m(1))
  moreover have "x = (if m = 0 then val else val + b - m) \<Longrightarrow> 0 \<le> m \<Longrightarrow> m < b \<Longrightarrow> val \<le> x \<and> x < val + b"
    for x m :: int using assms(2) by (auto split: if_splits)
  ultimately show "val \<le> ceil_to val b" "ceil_to val b < val + b"
    using m(2,3) by blast+
  assume "b dvd k" "val \<le> k"
  then obtain j where k: "k = b * j" by (elim dvdE)
  show "ceil_to val b \<le> k"
  proof (cases "?m = 0")
    case True
    then show ?thesis unfolding eq using \<open>val \<le> k\<close> by simp
  next
    case False
    then have "b * (val div b) < b * j" using v m(2) \<open>val \<le> k\<close> k by linarith
    then have "val div b + 1 \<le> j" using assms(2) by simp
    then have "b * (val div b + 1) \<le> b * j" using assms(2) by (intro mult_left_mono) auto
    then show ?thesis using False k unfolding eq by simp
  qed
qed

text \<open>The ends of a range go to the ends, and what lies between stays between.\<close>

lemma map_range_ends:
  assumes "from_min < from_max"
  shows "map_range from_min from_min from_max to_min to_max = Some to_min"
    and "map_range from_max from_min from_max to_min to_max = Some to_max"
  using assms cdiv_mult [of "from_max - from_min"] by (simp_all add: map_range_def cdiv_def [of 0])

lemma map_range_between:
  assumes "from_min \<le> x" "x \<le> from_max" "from_min < from_max" "to_min \<le> to_max"
  shows "\<exists>y. map_range x from_min from_max to_min to_max = Some y \<and> to_min \<le> y \<and> y \<le> to_max"
proof -
  let ?n = "(to_max - to_min) * (x - from_min)" and ?d = "from_max - from_min"
  have n: "0 \<le> ?n" using assms by simp
  have "?n \<le> (to_max - to_min) * ?d" using assms by (intro mult_left_mono) auto
  then have "?n div ?d \<le> to_max - to_min"
    using assms zdiv_mono1 [of ?n "(to_max - to_min) * ?d" ?d] by simp
  moreover have "0 \<le> ?n div ?d" using n assms by (simp add: pos_imp_zdiv_nonneg_iff)
  ultimately show ?thesis
    using n assms by (simp add: map_range_def cdiv_nonneg)
qed

section \<open>Loops over containers\<close>

fun find_if :: "('a \<Rightarrow> bool) \<Rightarrow> 'a list \<Rightarrow> nat" where
  "find_if f [] = 0"
| "find_if f (x # xs) = (if f x then 0 else Suc (find_if f xs))"

definition find_item :: "'a list \<Rightarrow> 'a \<Rightarrow> nat" where
  "find_item cont item = find_if (\<lambda>sub_item. sub_item = item) cont"

definition contains_item :: "'a list \<Rightarrow> 'a \<Rightarrow> bool" where
  "contains_item cont item \<longleftrightarrow> find_item cont item \<noteq> length cont"

text \<open>\<open>find_if\<close> of a tuple: a fold with \<open>||\<close> over the indices, which stops at the first match.\<close>

fun find_if_tuple :: "('a \<Rightarrow> bool) \<Rightarrow> 'a list \<Rightarrow> nat \<Rightarrow> nat \<Rightarrow> nat" where
  "find_if_tuple f [] i res = res"
| "find_if_tuple f (x # xs) i res = (if f x then i else find_if_tuple f xs (Suc i) res)"

definition any_of :: "('a \<Rightarrow> bool) \<Rightarrow> 'a list \<Rightarrow> bool" where
  "any_of f cont \<longleftrightarrow> find_if f cont \<noteq> length cont"

definition none_of :: "('a \<Rightarrow> bool) \<Rightarrow> 'a list \<Rightarrow> bool" where
  "none_of f cont \<longleftrightarrow> \<not> any_of f cont"

definition all_of :: "('a \<Rightarrow> bool) \<Rightarrow> 'a list \<Rightarrow> bool" where
  "all_of f cont \<longleftrightarrow> \<not> any_of (\<lambda>item. \<not> f item) cont"

definition count_f :: "('a \<Rightarrow> bool) \<Rightarrow> 'a list \<Rightarrow> nat" where
  "count_f f cont = fold (\<lambda>item res. if f item then res + 1 else res) cont 0"

definition sum_f :: "('a \<Rightarrow> 'b :: monoid_add) \<Rightarrow> 'a list \<Rightarrow> 'b \<Rightarrow> 'b" where
  "sum_f f cont i = fold (\<lambda>item i. i + f item) cont i"

definition accumulate :: "'a list \<Rightarrow> 'b \<Rightarrow> ('b \<Rightarrow> 'a \<Rightarrow> 'b) \<Rightarrow> 'b" where
  "accumulate cont i f = fold (\<lambda>item i. f i item) cont i"

text \<open>Division by the size of an empty container is undefined.\<close>

definition avg_f :: "('a \<Rightarrow> int) \<Rightarrow> 'a list \<Rightarrow> int option" where
  "avg_f f cont =
     (let res = fold (\<lambda>item res. res + f item) cont 0
      in if cont = [] then None else Some (cdiv res (int (length cont))))"

definition variance_f :: "('a \<Rightarrow> int) \<Rightarrow> 'a list \<Rightarrow> int option" where
  "variance_f f cont = do {
     u \<leftarrow> avg_f f cont;
     (let res = sum_f (\<lambda>item. (f item - u) * (f item - u)) cont 0
      in Some (cdiv res (int (length cont))))
   }"

definition max_elem :: "int \<Rightarrow> ('a \<Rightarrow> int) \<Rightarrow> 'a list \<Rightarrow> int" where
  "max_elem lowest f cont = fold (\<lambda>item val. max (f item) val) cont lowest"

definition min_elem :: "int \<Rightarrow> ('a \<Rightarrow> int) \<Rightarrow> 'a list \<Rightarrow> int" where
  "min_elem highest f cont = fold (\<lambda>item val. min (f item) val) cont highest"

text \<open>The calls of \<open>for_cross_joint\<close> in their order.\<close>

definition for_cross_joint :: "'a list \<Rightarrow> 'b list \<Rightarrow> ('a \<times> 'b) list" where
  "for_cross_joint lh rh =
     fold (\<lambda>lh_item calls. fold (\<lambda>rh_item calls. calls @ [(lh_item, rh_item)]) rh calls) lh []"

fun equal_items :: "('a \<Rightarrow> 'b \<Rightarrow> bool) \<Rightarrow> 'a list \<Rightarrow> 'b list \<Rightarrow> bool option" where
  "equal_items f [] rh = Some True"
| "equal_items f (x # lh) [] = None"
| "equal_items f (x # lh) (y # rh) = (if \<not> f x y then Some False else equal_items f lh rh)"

definition equal_f :: "('a \<Rightarrow> 'b \<Rightarrow> bool) \<Rightarrow> 'a list \<Rightarrow> 'b list \<Rightarrow> bool option" where
  "equal_f f lh rh = (if length lh \<noteq> length rh then Some False else equal_items f lh rh)"

text \<open>\<open>map_f\<close> into a container with \<open>push_back\<close>, and into an array of \<open>N\<close> default values.\<close>

definition map_f :: "('a \<Rightarrow> 'b) \<Rightarrow> 'a list \<Rightarrow> 'b list" where
  "map_f f cont = fold (\<lambda>item res. res @ [f item]) cont []"

definition map_f_array :: "nat \<Rightarrow> 'b \<Rightarrow> ('a \<Rightarrow> 'b) \<Rightarrow> 'a list \<Rightarrow> 'b list option" where
  "map_f_array N d f cont =
     fold (\<lambda>item acc. do {
             (res, i) \<leftarrow> acc;
             (if i < N then Some (res [i := f item], i + 1) else None)
           }) cont (Some (replicate N d, 0)) \<bind> (\<lambda>(res, _). Some res)"

text \<open>\<open>joined\<close> over a type with \<open>+=\<close>, here sequences; \<open>tail\<close> skips the first item.\<close>

definition tail_view :: "'a list \<Rightarrow> nat \<Rightarrow> 'a list option" where
  "tail_view cont step = (if step \<le> length cont then Some (drop step cont) else None)"

definition init_view :: "'a list \<Rightarrow> nat \<Rightarrow> 'a list option" where
  "init_view cont step = (if step \<le> length cont then Some (take (length cont - step) cont) else None)"

definition joined :: "'a list \<Rightarrow> 'b list \<Rightarrow> ('a \<Rightarrow> 'b list) \<Rightarrow> 'b list option" where
  "joined cont val f =
     (if cont = [] then Some []
      else do {
        rest \<leftarrow> tail_view cont 1;
        Some (fold (\<lambda>item res. res @ val @ f item) rest (f (hd cont)))
      })"

fun get_ith_item :: "nat \<Rightarrow> 'a list list \<Rightarrow> 'a option" where
  "get_ith_item I [] = None"
| "get_ith_item I (arr # arrs) =
     (if I \<ge> length arr then get_ith_item (I - length arr) arrs else Some (arr ! I))"

definition merge_arrays :: "'a list list \<Rightarrow> 'a list option" where
  "merge_arrays arrs =
     (let sz = sum_list (map length arrs)
      in those (map (\<lambda>I. get_ith_item I arrs) [0..<sz]))"

lemma find_if_le: "find_if f xs \<le> length xs"
  by (induction xs) auto

lemma find_if_end: "find_if f xs = length xs \<longleftrightarrow> (\<forall>x \<in> set xs. \<not> f x)"
  by (induction xs) auto

lemma find_if_first:
  assumes "find_if f xs < length xs"
  shows "f (xs ! find_if f xs)" and "i < find_if f xs \<Longrightarrow> \<not> f (xs ! i)"
  using assms
proof (induction xs arbitrary: i)
  case (Cons x xs)
  { case 1 then show ?case using Cons.IH(1) by (auto split: if_splits) }
  { case 2 then show ?case using Cons.IH(2) by (cases i) (auto split: if_splits) }
qed simp_all

lemma find_if_tuple_eq: "find_if_tuple f xs i (i + length xs) = i + find_if f xs"
proof (induction xs arbitrary: i)
  case (Cons x xs)
  then show ?case using Cons.IH [of "Suc i"] by simp
qed simp

lemma contains_item_iff: "contains_item cont item \<longleftrightarrow> item \<in> set cont"
  using find_if_end [of "\<lambda>x. x = item" cont] by (auto simp: contains_item_def find_item_def)

lemma any_of_iff: "any_of f cont \<longleftrightarrow> (\<exists>x \<in> set cont. f x)"
  using find_if_end [of f cont] by (auto simp: any_of_def)

lemma all_of_iff: "all_of f cont \<longleftrightarrow> (\<forall>x \<in> set cont. f x)"
  by (simp add: all_of_def any_of_iff)

lemma count_f_eq: "count_f f cont = length (filter f cont)"
proof -
  have "fold (\<lambda>item res. if f item then res + 1 else res) cont n = n + length (filter f cont)" for n :: nat
    by (induction cont arbitrary: n) auto
  then show ?thesis by (simp add: count_f_def)
qed

lemma sum_f_eq: "sum_f f cont i = i + sum_list (map f cont)"
  by (induction cont arbitrary: i) (auto simp: sum_f_def add.assoc)

lemma max_elem_ge: "lowest \<le> max_elem lowest f cont \<and> (\<forall>x \<in> set cont. f x \<le> max_elem lowest f cont)"
proof (induction cont arbitrary: lowest)
  case (Cons x cont)
  from Cons [of "max (f x) lowest"] show ?case by (auto simp: max_elem_def)
qed (simp add: max_elem_def)

lemma max_elem_in: "max_elem lowest f cont = lowest \<or> max_elem lowest f cont \<in> f ` set cont"
proof (induction cont arbitrary: lowest)
  case (Cons x cont)
  from Cons [of "max (f x) lowest"] show ?case by (auto simp: max_elem_def max_def split: if_splits)
qed (simp add: max_elem_def)

lemma min_elem_le: "min_elem highest f cont \<le> highest \<and> (\<forall>x \<in> set cont. min_elem highest f cont \<le> f x)"
proof (induction cont arbitrary: highest)
  case (Cons x cont)
  from Cons [of "min (f x) highest"] show ?case by (auto simp: min_elem_def)
qed (simp add: min_elem_def)

lemma min_elem_in: "min_elem highest f cont = highest \<or> min_elem highest f cont \<in> f ` set cont"
proof (induction cont arbitrary: highest)
  case (Cons x cont)
  from Cons [of "min (f x) highest"] show ?case by (auto simp: min_elem_def min_def split: if_splits)
qed (simp add: min_elem_def)

lemma for_cross_joint_eq: "for_cross_joint lh rh = concat (map (\<lambda>x. map (Pair x) rh) lh)"
proof -
  have inner: "fold (\<lambda>y calls. calls @ [(x, y)]) ys calls = calls @ map (Pair x) ys"
    for x :: 'a and ys :: "'b list" and calls
    by (induction ys arbitrary: calls) auto
  have "fold (\<lambda>x calls. fold (\<lambda>y calls. calls @ [(x, y)]) rh calls) lh calls
      = calls @ concat (map (\<lambda>x. map (Pair x) rh) lh)" for calls
    by (induction lh arbitrary: calls) (auto simp: inner)
  then show ?thesis by (simp add: for_cross_joint_def)
qed

lemma equal_items_eq: "length lh = length rh \<Longrightarrow> equal_items f lh rh = Some (list_all2 f lh rh)"
  by (induction f lh rh rule: equal_items.induct) auto

lemma equal_f_eq: "equal_f f lh rh = Some (list_all2 f lh rh)"
  using list_all2_lengthD [of f lh rh] by (auto simp: equal_f_def equal_items_eq)

lemma map_f_eq: "map_f f cont = map f cont"
proof -
  have "fold (\<lambda>item res. res @ [f item]) cont res = res @ map f cont" for res
    by (induction cont arbitrary: res) auto
  then show ?thesis by (simp add: map_f_def)
qed

lemma map_f_array_loop:
  "i + length cont \<le> length res \<Longrightarrow>
   fold (\<lambda>item acc. do {
             (res, i) \<leftarrow> acc;
             (if i < N then Some (res [i := f item], i + 1) else None)
           }) cont (Some (res, i)) \<bind> (\<lambda>(res, _). Some res)
     = (if i + length cont \<le> N \<or> cont = [] then Some (take i res @ map f cont @ drop (i + length cont) res) else None)"
proof (induction cont arbitrary: res i)
  case (Cons x cont)
  have none: "fold (\<lambda>item acc. do {
             (res, i) \<leftarrow> acc;
             (if i < N then Some (res [i := f item], i + 1) else None)
           }) xs None = None" for xs
    by (induction xs) auto
  show ?case
  proof (cases "i < N")
    case True
    have "i < length res" using Cons.prems by simp
    then have "take (Suc i) (res [i := f x]) = take i res @ [f x]"
      by (simp add: take_Suc_conv_app_nth)
    then show ?thesis using Cons True by (auto simp: none)
  qed (simp add: none)
qed auto

lemma map_f_array_eq: "length cont = N \<Longrightarrow> map_f_array N d f cont = Some (map f cont)"
  using map_f_array_loop [of 0 cont "replicate N d" N f] by (simp add: map_f_array_def)

lemma joined_eq:
  "joined cont val f = Some (concat (map f (take 1 cont)) @ concat (map (\<lambda>x. val @ f x) (drop 1 cont)))"
proof -
  have "fold (\<lambda>item res. res @ val @ f item) xs res = res @ concat (map (\<lambda>x. val @ f x) xs)" for xs res
    by (induction xs arbitrary: res) auto
  then show ?thesis by (cases cont) (auto simp: joined_def tail_view_def)
qed

lemma get_ith_item_eq: "I < length (concat arrs) \<Longrightarrow> get_ith_item I arrs = Some (concat arrs ! I)"
  by (induction arrs arbitrary: I) (auto simp: nth_append)

lemma merge_arrays_eq: "merge_arrays arrs = Some (concat arrs)"
proof -
  have "those (map Some xs) = Some xs" for xs :: "'a list"
    by (induction xs) auto
  moreover have "map (\<lambda>I. get_ith_item I arrs) [0..<sum_list (map length arrs)] = map Some (concat arrs)"
    by (rule nth_equalityI) (auto simp: length_concat get_ith_item_eq comp_def)
  ultimately show ?thesis by (simp add: merge_arrays_def)
qed

lemma variance_nonneg: "variance_f f cont = Some v \<Longrightarrow> 0 \<le> v"
proof -
  assume "variance_f f cont = Some v"
  then obtain u where ne: "cont \<noteq> []" and v: "v = cdiv (sum_list (map (\<lambda>x. (f x - u) * (f x - u)) cont)) (int (length cont))"
    by (auto simp: variance_f_def avg_f_def Let_def sum_f_eq split: if_splits)
  have "0 \<le> sum_list (map (\<lambda>x. (f x - u) * (f x - u)) cont)"
    by (intro sum_list_nonneg) auto
  then show ?thesis using ne v by (simp add: cdiv_nonneg pos_imp_zdiv_nonneg_iff)
qed

lemma avg_between:
  assumes "avg_f f cont = Some a" "\<forall>x \<in> set cont. 0 \<le> f x \<and> f x \<le> hi"
  shows "0 \<le> a \<and> a \<le> hi"
proof -
  have ne: "cont \<noteq> []" and a: "a = cdiv (sum_list (map f cont)) (int (length cont))"
    using assms(1) sum_f_eq [of f cont 0] by (auto simp: avg_f_def sum_f_def Let_def split: if_splits)
  have lo: "0 \<le> sum_list (map f cont)" using assms(2) by (intro sum_list_nonneg) auto
  have "sum_list (map f cont) \<le> int (length cont) * hi"
    using assms(2) by (induction cont) (auto simp: algebra_simps)
  then have "sum_list (map f cont) div int (length cont) \<le> hi"
    using ne zdiv_mono1 [of "sum_list (map f cont)" "int (length cont) * hi" "int (length cont)"] by simp
  then show ?thesis using a lo ne by (simp add: cdiv_nonneg pos_imp_zdiv_nonneg_iff)
qed

section \<open>Calls, copies and arrays\<close>

text \<open>\<open>for_each\<close> over a tuple or a range: the callable changes a state.\<close>

definition for_each :: "('a \<Rightarrow> 's \<Rightarrow> 's) \<Rightarrow> 'a list \<Rightarrow> 's \<Rightarrow> 's" where
  "for_each f cont s = fold f cont s"

text \<open>\<open>copy\<close> to an iterator into a container: its index and the container are the state.\<close>

definition copy_items :: "'a list \<Rightarrow> nat \<times> 'a list \<Rightarrow> (nat \<times> 'a list) option" where
  "copy_items cont iter =
     for_each (\<lambda>item acc. do {
       (i, out) \<leftarrow> acc;
       (if i < length out then Some (i + 1, out [i := item]) else None)
     }) cont (Some iter)"

definition cont_size :: "'a list \<Rightarrow> nat" where
  "cont_size cont = length cont"

definition almost_equal :: "('a :: linordered_field) \<Rightarrow> 'a \<Rightarrow> 'a \<Rightarrow> bool" where
  "almost_equal lh rh eps \<longleftrightarrow> \<bar>lh - rh\<bar> < eps"

definition bytes_of :: "int list \<Rightarrow> byte list" where
  "bytes_of args = map of_int args"

definition filled :: "nat \<Rightarrow> 'a \<Rightarrow> 'a \<Rightarrow> 'a list option" where
  "filled N d item = map_f_array N d (\<lambda>_. item) [0..<N]"

lemma copy_items_eq:
  "i + length cont \<le> length out \<Longrightarrow>
    copy_items cont (i, out) = Some (i + length cont, take i out @ cont @ drop (i + length cont) out)"
proof (induction cont arbitrary: i out)
  case (Cons x cont)
  then have "copy_items (x # cont) (i, out) = copy_items cont (i + 1, out [i := x])"
    by (simp add: copy_items_def for_each_def)
  also have "\<dots> = Some (i + 1 + length cont, take (i + 1) (out [i := x]) @ cont @ drop (i + 1 + length cont) (out [i := x]))"
    using Cons.prems by (intro Cons.IH) simp
  finally show ?case using Cons.prems by (simp add: take_Suc_conv_app_nth)
qed (simp add: copy_items_def for_each_def)

text \<open>A container that is too small is written past its end.\<close>

lemma copy_items_short: "i \<le> length out \<Longrightarrow> length out < i + length cont \<Longrightarrow> copy_items cont (i, out) = None"
proof (induction cont arbitrary: i out)
  case (Cons x cont)
  show ?case
  proof (cases "i < length out")
    case True
    then have "copy_items (x # cont) (i, out) = copy_items cont (i + 1, out [i := x])"
      by (simp add: copy_items_def for_each_def)
    then show ?thesis using Cons True by simp
  next
    case False
    have "fold (\<lambda>item acc. do {
       (i, out) \<leftarrow> acc;
       (if i < length out then Some (i + 1, out [i := item]) else None)
     }) cont None = None" by (induction cont) simp_all
    with False show ?thesis by (simp add: copy_items_def for_each_def)
  qed
qed simp

lemma filled_eq: "filled N d item = Some (replicate N item)"
  by (simp add: filled_def map_f_array_eq map_replicate_const)

lemma almost_equal_sym: "almost_equal lh rh eps \<longleftrightarrow> almost_equal rh lh eps"
  by (simp add: almost_equal_def abs_minus_commute)

text \<open>Being almost equal is not transitive, but the errors add up.\<close>

lemma almost_equal_trans: "almost_equal a b e \<Longrightarrow> almost_equal b c e' \<Longrightarrow> almost_equal a c (e + e')"
  by (auto simp: almost_equal_def)

lemma bytes_wrap: "bytes_of [256, - 1] = [0, 255]"
  by (simp add: bytes_of_def)

end
