(* ===== verification/Indices.thy ===== *)
theory Indices
  imports Algorithm
begin

text \<open>
  The loops over compile-time indices of \<open>algorithm.hpp\<close> and \<open>algorithm/impl.hpp\<close>:
  \<open>for_each_index\<close>, \<open>until_index\<close>, \<open>find_if_index\<close> and \<open>select_index\<close>.  They unroll 32 indices at a
  time and call themselves for the rest.
\<close>

section \<open>Unrolled loops\<close>

abbreviation index_max :: nat where
  "index_max \<equiv> 32"

text \<open>The indices with which \<open>index_seq< Off, N >\<close> calls \<open>f\<close>.\<close>

fun index_seq :: "nat \<Rightarrow> nat \<Rightarrow> nat list" where
  "index_seq off N =
     map (\<lambda>x. off + x) [0..<min 32 N]
     @ (if N > index_max then index_seq index_max (N - index_max) else [])"

declare index_seq.simps [simp del]

text \<open>A callable with state: it returns whether to stop, and its state.\<close>

fun until_list :: "nat list \<Rightarrow> (nat \<Rightarrow> 's \<Rightarrow> bool \<times> 's) \<Rightarrow> 's \<Rightarrow> bool \<times> 's" where
  "until_list [] f s = (False, s)"
| "until_list (i # is) f s = (case f i s of (True, s) \<Rightarrow> (True, s) | (False, s) \<Rightarrow> until_list is f s)"

fun index_until :: "nat \<Rightarrow> nat \<Rightarrow> (nat \<Rightarrow> 's \<Rightarrow> bool \<times> 's) \<Rightarrow> 's \<Rightarrow> bool \<times> 's" where
  "index_until off N f s =
     (case until_list (map (\<lambda>x. off + x) [0..<min 32 N]) f s of
        (True, s) \<Rightarrow> (True, s)
      | (False, s) \<Rightarrow> if N > index_max then index_until index_max (N - index_max) f s else (False, s))"

declare index_until.simps [simp del]

text \<open>The index for which \<open>index_switch< Off, N >( i )\<close> calls \<open>f\<close>; \<^const>\<open>None\<close> is \<open>abort()\<close>.\<close>

fun index_switch :: "nat \<Rightarrow> nat \<Rightarrow> nat \<Rightarrow> nat option" where
  "index_switch off N i =
     (if i < 32 \<and> i < N then Some (off + i)
      else if N > index_max then index_switch index_max (N - index_max) (nat ((int i - int index_max) mod 2 ^ 64))
      else None)"

declare index_switch.simps [simp del]

definition for_each_index :: "nat \<Rightarrow> (nat \<Rightarrow> 's \<Rightarrow> 's) \<Rightarrow> 's \<Rightarrow> 's" where
  "for_each_index N f s = fold f (index_seq 0 N) s"

definition until_index :: "nat \<Rightarrow> (nat \<Rightarrow> 's \<Rightarrow> bool \<times> 's) \<Rightarrow> 's \<Rightarrow> bool \<times> 's" where
  "until_index N f s = index_until 0 N f s"

definition find_if_index :: "nat \<Rightarrow> (nat \<Rightarrow> bool) \<Rightarrow> nat" where
  "find_if_index N f = snd (until_index N (\<lambda>I res. (f I, I)) N)"

definition select_index :: "nat \<Rightarrow> nat \<Rightarrow> (nat \<Rightarrow> 'a) \<Rightarrow> 'a option" where
  "select_index max_val i f = map_option f (index_switch 0 (max_val + 1) i)"

section \<open>Which indices they visit\<close>

lemma index_until_seq: "index_until off N f s = until_list (index_seq off N) f s"
proof (induction off N f s rule: index_until.induct)
  case (1 off N f s)
  have app: "until_list (xs @ ys) f s = (case until_list xs f s of (True, s) \<Rightarrow> (True, s) | (False, s) \<Rightarrow> until_list ys f s)"
    for xs ys s by (induction xs arbitrary: s) (auto split: prod.splits bool.splits)
  show ?case
    by (subst index_until.simps, subst index_seq.simps)
      (use 1 in \<open>auto simp: app split: prod.splits bool.splits\<close>)
qed

lemma map_add_upt: "map (\<lambda>x. a + x) [0..<n] = [a..<a + n]"
  by (induction n) auto

text \<open>Up to 64 indices, these are all of them in order.\<close>

lemma index_seq_eq:
  assumes "N \<le> 64"
  shows "index_seq 0 N = [0..<N]"
proof (cases "N \<le> 32")
  case True
  then show ?thesis by (subst index_seq.simps) (simp add: map_add_upt)
next
  case False
  have "\<not> 32 < N - 32" "min 32 (N - 32) = N - 32" using assms by linarith+
  with False have "index_seq 32 (N - 32) = [32..<N]"
    by (subst index_seq.simps) (simp add: map_add_upt)
  moreover have "[0..<N] = [0..<32] @ [32..<N]"
    using False upt_add_eq_append [of 0 32 "N - 32"] by simp
  ultimately show ?thesis
    using False by (subst index_seq.simps) (simp add: map_add_upt)
qed

text \<open>From there on the recursion starts again at 32, and no index from 64 on is ever visited.\<close>

lemma index_seq_less: "off \<le> 32 \<Longrightarrow> i \<in> set (index_seq off N) \<Longrightarrow> i < 64"
proof (induction off N rule: index_seq.induct)
  case (1 off N)
  then show ?case
    by (subst (asm) (2) index_seq.simps) (auto split: if_splits)
qed

lemma until_list_find:
  "until_list is (\<lambda>I res. (f I, I)) r
     = (if \<exists>i \<in> set is. f i then (True, is ! find_if f is) else (False, if is = [] then r else last is))"
  by (induction "is" arbitrary: r) auto

lemma find_if_index_eq:
  assumes "N \<le> 64"
  shows "find_if_index N f =
    (if \<exists>i < N. f i then find_if f [0..<N] else if N = 0 then 0 else N - 1)"
proof -
  have "find_if f [0..<N] < N" if "\<exists>i < N. f i"
    using that find_if_le [of f "[0..<N]"] find_if_end [of f "[0..<N]"] by (auto simp: order.order_iff_strict)
  then have "(\<exists>i < N. f i) \<Longrightarrow> [0..<N] ! find_if f [0..<N] = find_if f [0..<N]" by simp
  then show ?thesis
    using assms by (auto simp: find_if_index_def until_index_def index_until_seq index_seq_eq until_list_find)
qed

lemma find_if_upt:
  assumes "f i" "i < N" "\<And>j. j < N \<Longrightarrow> f j \<Longrightarrow> j = i"
  shows "find_if f [0..<N] = i"
proof -
  have "find_if f [0..<N] < length [0..<N]"
    using assms(1,2) find_if_le [of f "[0..<N]"] find_if_end [of f "[0..<N]"] by (auto simp: order.order_iff_strict)
  then show ?thesis using find_if_first(1) [of f "[0..<N]"] assms(3) by auto
qed

lemma index_switch_eq:
  assumes "i < N" "N \<le> 64"
  shows "index_switch 0 N i = Some i"
proof (cases "i < 32")
  case True
  then show ?thesis using assms by (subst index_switch.simps) simp
next
  case False
  have "nat ((int i - int index_max) mod 2 ^ 64) = i - 32"
    using False assms by (simp add: nat_mod_distrib nat_diff_distrib flip: of_nat_diff)
  then have "index_switch 0 N i = index_switch 32 (N - 32) (i - 32)"
    using False assms by (subst index_switch.simps) simp
  also have "i - 32 < 32 \<and> i - 32 < N - 32" using False assms by linarith
  then have "index_switch 32 (N - 32) (i - 32) = Some i" using False by (subst index_switch.simps) simp
  finally show ?thesis .
qed

end
