(* ===== verification/RegisterMap.thy ===== *)
theory RegisterMap
  imports Indices Handler
begin

text \<open>
  \<open>protocol/register_map.hpp\<close> and \<open>register_handler.hpp\<close>: a table of values under keys, the registers
  of a device, and their conversion from and to bytes by a key that is known at run time.  The
  registers of a map are a list of their keys and definitions, its state the list of their values.
\<close>

section \<open>Register map\<close>

type_synonym registers = "(int \<times> pdef) list"

definition reg_key :: "registers \<Rightarrow> nat \<Rightarrow> int" where
  "reg_key regs i = fst (regs ! i)"

definition reg_def :: "registers \<Rightarrow> nat \<Rightarrow> pdef" where
  "reg_def regs i = snd (regs ! i)"

definition get_reg_index :: "registers \<Rightarrow> int \<Rightarrow> nat" where
  "get_reg_index regs k = find_if_index (length regs) (\<lambda>I. reg_key regs I = k)"

definition rm_contains :: "registers \<Rightarrow> int \<Rightarrow> bool" where
  "rm_contains regs k \<longleftrightarrow> get_reg_index regs k \<noteq> length regs"

definition rm_new :: "registers \<Rightarrow> pval list" where
  "rm_new regs = map (\<lambda>r. default_val (snd r)) regs"

text \<open>\<open>static_assert( contains_key< Key > )\<close>: without the key there is no program.\<close>

definition rm_get_val :: "registers \<Rightarrow> pval list \<Rightarrow> int \<Rightarrow> pval option" where
  "rm_get_val regs m key = (if rm_contains regs key then Some (m ! get_reg_index regs key) else None)"

definition rm_set_val :: "registers \<Rightarrow> pval list \<Rightarrow> int \<Rightarrow> pval \<Rightarrow> pval list option" where
  "rm_set_val regs m key val =
     (if rm_contains regs key then Some (m [get_reg_index regs key := val]) else None)"

definition rm_register_size :: "registers \<Rightarrow> nat \<Rightarrow> nat option" where
  "rm_register_size regs i = select_index (length regs - 1) i (\<lambda>J. tr_max (traits_for (reg_def regs J)))"

definition rm_register_key :: "registers \<Rightarrow> nat \<Rightarrow> int option" where
  "rm_register_key regs i = select_index (length regs - 1) i (reg_key regs)"

definition rm_max_value_size :: "registers \<Rightarrow> nat" where
  "rm_max_value_size regs = max_of (map (\<lambda>r. tr_max (traits_for (snd r))) regs)"

text \<open>
  \<open>with_register_impl\<close>: the callable is given the index of the register and works on the state \<open>s\<close>
  of what it captures.
\<close>

definition with_register :: "registers \<Rightarrow> int \<Rightarrow> (nat \<Rightarrow> 's \<Rightarrow> 's) \<Rightarrow> 's \<Rightarrow> 's" where
  "with_register regs key f s =
     snd (until_index (length regs)
       (\<lambda>J s. if reg_key regs J \<noteq> key then (False, s) else (True, f J s)) s)"

definition with_register_ret :: "registers \<Rightarrow> int \<Rightarrow> (nat \<Rightarrow> 'r) \<Rightarrow> 'r \<Rightarrow> 'r" where
  "with_register_ret regs key f res = with_register regs key (\<lambda>J res. f J) res"

definition rm_setup_register :: "registers \<Rightarrow> pval list \<Rightarrow> int \<Rightarrow> (nat \<Rightarrow> pval) \<Rightarrow> pval list" where
  "rm_setup_register regs m key f = with_register regs key (\<lambda>J m. m [J := f J]) m"

definition with_reg_type :: "registers \<Rightarrow> int \<Rightarrow> (nat \<Rightarrow> 's \<Rightarrow> 's) \<Rightarrow> 's \<Rightarrow> 's" where
  "with_reg_type regs key f s =
     snd (until_index (length regs)
       (\<lambda>J s. if reg_key regs J \<noteq> key then (False, s) else (True, f J s)) s)"

definition for_each_register :: "registers \<Rightarrow> pval list \<Rightarrow> (int \<Rightarrow> pval \<Rightarrow> 's \<Rightarrow> 's) \<Rightarrow> 's \<Rightarrow> 's option" where
  "for_each_register regs m f s =
     for_each_index (length regs) (\<lambda>I acc. do {
       s \<leftarrow> acc;
       key \<leftarrow> rm_register_key regs I;
       v \<leftarrow> rm_get_val regs m key;
       Some (f key v s)
     }) (Some s)"

section \<open>Register handler\<close>

text \<open>
  \<open>serialize\<close> writes into the first \<open>size_type::max_val\<close> bytes of a message of \<open>max_value_size\<close> bytes
  with the contents \<open>raw\<close>.
\<close>

definition rh_serialize :: "registers \<Rightarrow> endian \<Rightarrow> byte list \<Rightarrow> int \<Rightarrow> pval \<Rightarrow> byte list option" where
  "rh_serialize regs e raw key val =
     (let c = converter_for (reg_def regs (get_reg_index regs key)) e in do {
        (res, used) \<leftarrow> with_span 0 (size_max c) raw (\<lambda>b. serialize_at c b val);
        Some (take used res)
      })"

text \<open>A key that is not in the map gives the message that \<open>ret_type res;\<close> constructs.\<close>

definition rh_select :: "registers \<Rightarrow> endian \<Rightarrow> byte list \<Rightarrow> pval list \<Rightarrow> int \<Rightarrow> byte list option" where
  "rh_select regs e raw m key =
     with_register_ret regs key (\<lambda>J. rh_serialize regs e raw (reg_key regs J) (m ! J)) (Some [])"

definition rh_extract :: "registers \<Rightarrow> endian \<Rightarrow> int \<Rightarrow> byte list \<Rightarrow> (pval + error_record) option" where
  "rh_extract regs e key msg =
     (let d = reg_def regs (get_reg_index regs key); c = converter_for d e;
          v = take (min (max_size c) (length msg)) msg in
      if length v < size_min c \<or> length v > size_max c
      then Some (Inr \<lparr>error_mark = mark_text size_err, error_offset = 0\<rparr>)
      else do {
        (sres, res) \<leftarrow> deserialize c v (default_val d);
        (case error sres of
           Some mk \<Rightarrow> Some (Inr \<lparr>error_mark = mark_text mk, error_offset = used sres\<rparr>)
         | None \<Rightarrow> Some (Inl res))
      })"

definition rh_insert ::
  "registers \<Rightarrow> endian \<Rightarrow> pval list \<Rightarrow> int \<Rightarrow> byte list \<Rightarrow> (error_record option \<times> pval list) option"
where
  "rh_insert regs e m key buff =
     with_register regs key (\<lambda>J acc. do {
       (res, m) \<leftarrow> acc;
       r \<leftarrow> rh_extract regs e (reg_key regs J) buff;
       (case r of Inr err \<Rightarrow> Some (Some err, m) | Inl val \<Rightarrow> Some (res, m [J := val]))
     }) (Some (None, m))"

section \<open>Facts\<close>

text \<open>
  A map that can be used: different keys, well-formed registers, and no more of them than the index
  loops visit.
\<close>

definition registers_ok :: "registers \<Rightarrow> bool" where
  "registers_ok regs \<longleftrightarrow>
     distinct (map fst regs) \<and> length regs \<le> 64 \<and> (\<forall>(k, d) \<in> set regs. well_formed d)"

lemma reg_key_eq_iff:
  "registers_ok regs \<Longrightarrow> i < length regs \<Longrightarrow> j < length regs \<Longrightarrow> reg_key regs j = reg_key regs i \<longleftrightarrow> j = i"
  using nth_eq_iff_index_eq [of "map fst regs" j i] by (simp add: registers_ok_def reg_key_def)

lemma get_reg_index_eq:
  assumes "registers_ok regs" "i < length regs"
  shows "get_reg_index regs (reg_key regs i) = i"
proof -
  have "find_if (\<lambda>I. reg_key regs I = reg_key regs i) [0..<length regs] = i"
    using reg_key_eq_iff [OF assms] assms(2) by (intro find_if_upt) auto
  moreover have "\<exists>I < length regs. reg_key regs I = reg_key regs i" using assms(2) by blast
  ultimately show ?thesis
    using assms(1) by (simp add: get_reg_index_def find_if_index_eq registers_ok_def)
qed

text \<open>A key that is not there has the index of the last register, and the map says it contains it.\<close>

lemma unknown_key_index:
  assumes "length regs \<le> 64" "regs \<noteq> []" "key \<notin> fst ` set regs"
  shows "get_reg_index regs key = length regs - 1" and "rm_contains regs key"
proof -
  have "\<not> (\<exists>I < length regs. reg_key regs I = key)"
    using assms(3) by (force simp: reg_key_def)
  then show i: "get_reg_index regs key = length regs - 1"
    using assms(1,2) by (auto simp: get_reg_index_def find_if_index_eq)
  show "rm_contains regs key" unfolding rm_contains_def i using assms(2) by (cases regs) simp_all
qed

lemma until_list_first:
  assumes "i < length is" "P (is ! i)" "\<And>j. j < i \<Longrightarrow> \<not> P (is ! j)"
  shows "snd (until_list is (\<lambda>J s. if \<not> P J then (False, s) else (True, f J s)) s) = f (is ! i) s"
  using assms
proof (induction "is" arbitrary: i)
  case (Cons a xs)
  show ?case
  proof (cases i)
    case (Suc k)
    have "\<not> P a" using Cons.prems(3) [of 0] Suc by simp
    moreover have "snd (until_list xs (\<lambda>J s. if \<not> P J then (False, s) else (True, f J s)) s) = f (xs ! k) s"
      by (rule Cons.IH) (use Cons.prems(1,2) Cons.prems(3) [of "Suc _"] Suc in auto)
    ultimately show ?thesis using Suc by simp
  qed (use Cons.prems in simp)
qed simp

lemma until_list_none:
  "\<forall>i \<in> set is. \<not> P i \<Longrightarrow> until_list is (\<lambda>J s. if \<not> P J then (False, s) else (True, f J s)) s = (False, s)"
  by (induction "is") auto

lemma with_register_eq:
  assumes "registers_ok regs" "i < length regs"
  shows "with_register regs (reg_key regs i) f s = f i s"
proof -
  have "snd (until_list [0..<length regs]
      (\<lambda>J s. if \<not> reg_key regs J = reg_key regs i then (False, s) else (True, f J s)) s)
    = f ([0..<length regs] ! i) s"
    by (rule until_list_first) (use reg_key_eq_iff [OF assms] assms(2) in auto)
  then show ?thesis
    using assms by (simp add: with_register_def until_index_def index_until_seq index_seq_eq registers_ok_def)
qed

lemma with_register_unknown:
  assumes "length regs \<le> 64" "key \<notin> fst ` set regs"
  shows "with_register regs key f s = s"
proof -
  have "\<forall>i \<in> set [0..<length regs]. \<not> reg_key regs i = key"
    using assms(2) by (force simp: reg_key_def)
  from until_list_none [OF this, of f s] show ?thesis
    using assms(1) by (simp add: with_register_def until_index_def index_until_seq index_seq_eq)
qed

lemma get_set_val:
  assumes ok: "registers_ok regs" and m: "length m = length regs" and i: "i < length regs" and j: "j < length regs"
  shows "\<exists>m'. rm_set_val regs m (reg_key regs i) v = Some m' \<and> length m' = length regs \<and>
    rm_get_val regs m' (reg_key regs j) = Some (if i = j then v else m ! j)"
  using get_reg_index_eq [OF ok i] get_reg_index_eq [OF ok j] m i j
  by (auto simp: rm_set_val_def rm_get_val_def rm_contains_def)

lemma reg_well_formed: "registers_ok regs \<Longrightarrow> i < length regs \<Longrightarrow> well_formed (reg_def regs i)"
  by (auto simp: registers_ok_def reg_def_def split_beta)

lemma reg_size_le: "i < length regs \<Longrightarrow> tr_max (traits_for (reg_def regs i)) \<le> rm_max_value_size regs"
  unfolding rm_max_value_size_def reg_def_def by (intro max_of_ge) auto

lemma register_size_eq:
  "length regs \<le> 64 \<Longrightarrow> i < length regs \<Longrightarrow> rm_register_size regs i = Some (tr_max (traits_for (reg_def regs i)))"
  "length regs \<le> 64 \<Longrightarrow> i < length regs \<Longrightarrow> rm_register_key regs i = Some (reg_key regs i)"
  by (simp_all add: rm_register_size_def rm_register_key_def select_index_def index_switch_eq)

text \<open>
  What \<open>select\<close> gives for a register of one map, \<open>insert\<close> puts into the same register of another.
\<close>

lemma size_max_converter_for: "size_max (converter_for d e) = max_size (converter_for d e)"
proof -
  have "size_max (converter_for d e) = tr_max (traits_for d)"
    by (induction d e rule: converter_for.induct) (simp_all add: converter_simps traits_defs)
  then show ?thesis by (simp add: max_size_converter_for)
qed

lemma rh_select_eq:
  assumes ok: "registers_ok regs" and i: "i < length regs"
    and v: "typed (reg_def regs i) (m ! i)" and raw: "length raw = rm_max_value_size regs"
  shows "rh_select regs e raw m (reg_key regs i) = Some (encoding (converter_for (reg_def regs i) e) (m ! i))"
proof -
  let ?c = "converter_for (reg_def regs i) e"
  have "encodes ?c (m ! i) (encoding ?c (m ! i))"
    using proto.encoding_encodes reg_well_formed [OF ok i] v by blast
  moreover have "max_size ?c \<le> length raw" using reg_size_le [OF i] raw by (simp add: max_size_converter_for)
  ultimately show ?thesis
    using with_span_encodes_first [of ?c "m ! i" "encoding ?c (m ! i)" raw] get_reg_index_eq [OF ok i]
      size_max_converter_for [of "reg_def regs i" e]
    by (simp add: rh_select_def with_register_ret_def with_register_eq [OF ok i] rh_serialize_def Let_def)
qed

lemma rh_insert_eq:
  assumes ok: "registers_ok regs" and i: "i < length regs" and v: "typed (reg_def regs i) v"
  shows "rh_insert regs e m (reg_key regs i) (encoding (converter_for (reg_def regs i) e) v) = Some (None, m [i := v])"
proof -
  let ?d = "reg_def regs i" and ?c = "converter_for (reg_def regs i) e"
  have wf: "well_formed ?d" by (rule reg_well_formed [OF ok i])
  note len = encodesD(1-3) [OF proto.encoding_encodes, of ?d v e]
  have "deserialize ?c (encoding ?c v) (default_val ?d) = Some (conv_ok (length (encoding ?c v)), v)"
    using decodes_all [OF proto.encoding_decodes, of ?d v e] wf v init_value_converter_for [OF wf, of e] by simp
  then show ?thesis
    using len wf v get_reg_index_eq [OF ok i]
    by (simp add: rh_insert_def with_register_eq [OF ok i] rh_extract_def Let_def)
qed

end
