(* ===== verification/Bounded.thy ===== *)
theory Bounded
  imports Serializer Algorithm
begin

text \<open>
  \<open>bounded.hpp\<close> and \<open>min_max.hpp\<close>: integers of a type \<open>T\<close> between two constants, and pairs of a minimum
  and a maximum.  Arithmetic on \<open>T\<close> is done in the type it is promoted to: types narrower than
  \<open>int\<close> in \<open>int\<close>, and overflow there is undefined; unsigned types from 32 bits on wrap around.
\<close>

section \<open>Arithmetic of C++ types\<close>

definition arith :: "base_type \<Rightarrow> int \<Rightarrow> int option" where
  "arith T x =
     (case T of
        BUInt n \<Rightarrow> if 4 \<le> n then Some (x mod 2 ^ (8 * n)) else if int_in (BSInt 4) x then Some x else None
      | BSInt n \<Rightarrow> if int_in (BSInt (max 4 n)) x then Some x else None
      | _ \<Rightarrow> None)"

definition integral :: "base_type \<Rightarrow> bool" where
  "integral T = (case T of BUInt n \<Rightarrow> 0 < n | BSInt n \<Rightarrow> 0 < n | _ \<Rightarrow> False)"

section \<open>Bounded values\<close>

text \<open>A \<open>bounded< T, lo, hi >\<close> is its value \<open>val_\<close>.\<close>

definition bounded_inv :: "int \<Rightarrow> int \<Rightarrow> int \<Rightarrow> bool" where
  "bounded_inv lo hi val \<longleftrightarrow> lo \<le> val \<and> val \<le> hi"

definition interval_range :: "base_type \<Rightarrow> int \<Rightarrow> int \<Rightarrow> int option" where
  "interval_range T lo hi = do {
     s \<leftarrow> arith T (1 + hi);
     d \<leftarrow> arith T (s - lo);
     Some (cast_to T d)
   }"

definition bounded_make :: "base_type \<Rightarrow> int \<Rightarrow> int \<Rightarrow> int \<Rightarrow> int option" where
  "bounded_make T lo hi val =
     (if cast_to T val < lo then None else if cast_to T val > hi then None else Some (cast_to T val))"

definition bounded_min :: "int \<Rightarrow> int \<Rightarrow> int" where
  "bounded_min lo hi = lo"

definition bounded_max :: "int \<Rightarrow> int \<Rightarrow> int" where
  "bounded_max lo hi = hi"

text \<open>Conversion from a type with narrower bounds.\<close>

definition bounded_convert :: "base_type \<Rightarrow> int \<Rightarrow> int" where
  "bounded_convert T other = cast_to T other"

definition rotate_to :: "base_type \<Rightarrow> int \<Rightarrow> int \<Rightarrow> int \<Rightarrow> int option" where
  "rotate_to T lo hi d = do {
     m \<leftarrow> interval_range T lo hi;
     (if m = 0 then None
      else do {
        s \<leftarrow> arith T (m + c_mod d m);
        v \<leftarrow> arith T (lo + c_mod s m);
        Some (cast_to T v)
      })
   }"

definition rotate_right :: "base_type \<Rightarrow> int \<Rightarrow> int \<Rightarrow> int \<Rightarrow> int \<Rightarrow> int option" where
  "rotate_right T lo hi val step = do {
     s \<leftarrow> arith T (val + step);
     d \<leftarrow> arith T (s - lo);
     rotate_to T lo hi d
   }"

definition rotate_left :: "base_type \<Rightarrow> int \<Rightarrow> int \<Rightarrow> int \<Rightarrow> int \<Rightarrow> int option" where
  "rotate_left T lo hi val step = do {
     s \<leftarrow> arith T (val - step);
     d \<leftarrow> arith T (s - lo);
     rotate_to T lo hi d
   }"

definition bounded_plus :: "base_type \<Rightarrow> int \<Rightarrow> int \<Rightarrow> int option" where
  "bounded_plus T a b = do { s \<leftarrow> arith T (a + b); Some (cast_to T s) }"

section \<open>Facts\<close>

lemma bounded_make_inv:
  "bounded_make T lo hi val = Some v \<Longrightarrow> bounded_inv lo hi v \<and> v = cast_to T val"
  by (auto simp: bounded_make_def bounded_inv_def split: if_splits)

lemma bounded_make_in:
  "int_in T val \<Longrightarrow> bounded_make T lo hi val = (if bounded_inv lo hi val then Some val else None)"
  by (auto simp: bounded_make_def bounded_inv_def int_in_def)

lemma arith_in: "integral T \<Longrightarrow> int_in T x \<Longrightarrow> arith T x = Some x"
proof (cases T)
  case (BUInt n)
  assume "int_in T x"
  then have x: "0 \<le> x" "x < 2 ^ (8 * n)" using BUInt by (simp_all add: int_in_unsigned)
  show ?thesis
  proof (cases "4 \<le> n")
    case True
    then show ?thesis using x BUInt by (simp add: arith_def)
  next
    case False
    then have "(2 :: int) ^ (8 * n) \<le> 2 ^ 24" by (intro power_increasing) auto
    then have "int_in (BSInt 4) x" using x by (auto simp: int_in_signed)
    then show ?thesis using False BUInt by (simp add: arith_def)
  qed
next
  case (BSInt n)
  assume "integral T" "int_in T x"
  then have x: "0 < n" "- (2 ^ (8 * n - 1)) \<le> x" "x < 2 ^ (8 * n - 1)" using BSInt by (simp_all add: int_in_signed integral_def)
  have "(2 :: int) ^ (8 * n - 1) \<le> 2 ^ (8 * max 4 n - 1)" by (intro power_increasing) auto
  then have "- (2 ^ (8 * max 4 n - 1)) \<le> x \<and> x < 2 ^ (8 * max 4 n - 1)" using x(2,3) by linarith
  then have "int_in (BSInt (max 4 n)) x" by (subst int_in_signed) simp_all
  then show ?thesis using BSInt by (simp add: arith_def)
qed (auto simp: integral_def)

lemma c_mod_bounds: "0 < m \<Longrightarrow> - m < c_mod d m \<and> c_mod d m < m"
  using pos_mod_bound [of m "\<bar>d\<bar>"] pos_mod_sign [of m "\<bar>d\<bar>"]
  by (cases "d = 0") (auto simp: c_mod_def sgn_if simp del: pos_mod_bound pos_mod_sign)

text \<open>The integer types whose range of values \<open>lo\<close> to \<open>hi\<close> has a size of the type itself.\<close>

definition range_ok :: "base_type \<Rightarrow> int \<Rightarrow> int \<Rightarrow> bool" where
  "range_ok T lo hi \<longleftrightarrow> integral T \<and> lo \<le> hi \<and> int_in T lo \<and> int_in T hi \<and> interval_range T lo hi = Some (hi - lo + 1)"

lemma c_mod_wrap:
  assumes "0 < m"
  shows "c_mod (m + c_mod d m) m = d mod m"
proof -
  note b = c_mod_bounds [OF assms, of d]
  have "d = cdiv d m * m + c_mod d m" using cdiv_cmod [of d m] by simp
  then have "d mod m = (m + c_mod d m) mod m" by (metis mod_mult_self3 mod_add_self1)
  moreover have "0 \<le> m + c_mod d m" using b by simp
  ultimately show ?thesis using assms by (simp add: c_mod_nonneg)
qed

lemma rotate_to_eq:
  assumes ok: "range_ok T lo hi" and s: "arith T (hi - lo + 1 + c_mod d (hi - lo + 1)) = Some (hi - lo + 1 + c_mod d (hi - lo + 1))"
  shows "rotate_to T lo hi d = Some (lo + d mod (hi - lo + 1))"
proof -
  let ?m = "hi - lo + 1"
  have m: "0 < ?m" and T: "integral T" "int_in T lo" "int_in T hi" "interval_range T lo hi = Some ?m"
    using ok by (auto simp: range_ok_def)
  have d: "0 \<le> d mod ?m" "d mod ?m < ?m" using pos_mod_sign [OF m] pos_mod_bound [OF m] by blast+
  have "lo \<le> lo + d mod ?m" "lo + d mod ?m \<le> hi" using d by linarith+
  moreover have convex: "int_in T y" if "lo \<le> y" "y \<le> hi" for y
    using T that by (cases T) (auto simp: int_in_unsigned int_in_signed integral_def)
  ultimately have v: "int_in T (lo + d mod ?m)" by blast
  show ?thesis
    using s m arith_in [OF T(1) v] v by (simp add: rotate_to_def T(4) c_mod_wrap [OF m] int_in_def)
qed

text \<open>Signed types, and the ones narrower than \<open>int\<close>: no result is out of the range of \<open>int\<close>.\<close>

definition rotates_exactly :: "base_type \<Rightarrow> int \<Rightarrow> int \<Rightarrow> int \<Rightarrow> int \<Rightarrow> bool" where
  "rotates_exactly T lo hi val step \<longleftrightarrow>
     (\<forall>x. \<bar>x\<bar> \<le> \<bar>val\<bar> + \<bar>step\<bar> + \<bar>lo\<bar> + 2 * (hi - lo + 1) \<longrightarrow> arith T x = Some x)"

lemma rotate_eq:
  assumes ok: "range_ok T lo hi" and ex: "rotates_exactly T lo hi val step"
  shows "rotate_right T lo hi val step = Some (lo + (val + step - lo) mod (hi - lo + 1))"
    and "rotate_left T lo hi val step = Some (lo + (val - step - lo) mod (hi - lo + 1))"
proof -
  let ?m = "hi - lo + 1"
  have m: "0 < ?m" using ok by (simp add: range_ok_def)
  have a: "arith T x = Some x" if "\<bar>x\<bar> \<le> \<bar>val\<bar> + \<bar>step\<bar> + \<bar>lo\<bar> + 2 * ?m" for x
    using ex that by (simp add: rotates_exactly_def)
  have w: "arith T (?m + c_mod d ?m) = Some (?m + c_mod d ?m)" for d
    using c_mod_bounds [OF m, of d] m by (intro a) arith
  have 1: "arith T (val + step) = Some (val + step)" "arith T (val + step - lo) = Some (val + step - lo)"
    and 2: "arith T (val - step) = Some (val - step)" "arith T (val - step - lo) = Some (val - step - lo)"
    using m by (intro a; simp)+
  show "rotate_right T lo hi val step = Some (lo + (val + step - lo) mod ?m)"
    unfolding rotate_right_def 1 using rotate_to_eq [OF ok w] 1 by simp
  show "rotate_left T lo hi val step = Some (lo + (val - step - lo) mod ?m)"
    unfolding rotate_left_def 2 using rotate_to_eq [OF ok w] 2 by simp
qed

section \<open>Minimum and maximum\<close>

record 'a min_max =
  mm_min :: 'a
  mm_max :: 'a

definition mm_clamp :: "'a :: linorder \<Rightarrow> 'a min_max \<Rightarrow> 'a" where
  "mm_clamp x mm = (if x < mm_min mm then mm_min mm else if mm_max mm < x then mm_max mm else x)"

definition mm_intersection :: "('a :: linorder) min_max \<Rightarrow> 'a min_max list \<Rightarrow> 'a min_max" where
  "mm_intersection head args =
     fold (\<lambda>other res. res\<lparr>mm_min := max (mm_min res) (mm_min other), mm_max := min (mm_max res) (mm_max other)\<rparr>)
       args head"

definition mm_expand :: "('a :: linorder) min_max \<Rightarrow> 'a \<Rightarrow> 'a min_max" where
  "mm_expand mm val =
     (if val < mm_min mm then \<lparr>mm_min = val, mm_max = mm_max mm\<rparr>
      else if val > mm_max mm then \<lparr>mm_min = mm_min mm, mm_max = val\<rparr>
      else mm)"

definition mm_contains :: "('a :: linorder) min_max \<Rightarrow> 'a \<Rightarrow> bool" where
  "mm_contains mm val \<longleftrightarrow> mm_min mm \<le> val \<and> val \<le> mm_max mm"

definition min_max_elem :: "int \<Rightarrow> int \<Rightarrow> ('a \<Rightarrow> int) \<Rightarrow> 'a list \<Rightarrow> int min_max" where
  "min_max_elem lowest highest f cont =
     fold (\<lambda>item res. let val = f item in
             (res\<lparr>mm_max := max (mm_max res) val\<rparr>)\<lparr>mm_min := min (mm_min res) val\<rparr>)
       cont \<lparr>mm_min = highest, mm_max = lowest\<rparr>"

lemma mm_clamp_contains: "mm_min mm \<le> mm_max mm \<Longrightarrow> mm_contains mm (mm_clamp x mm)"
  by (auto simp: mm_clamp_def mm_contains_def)

lemma mm_clamp_id: "mm_contains mm x \<Longrightarrow> mm_clamp x mm = x"
  by (auto simp: mm_clamp_def mm_contains_def)

lemma mm_clamp_nearest:
  "mm_contains mm y \<Longrightarrow> \<bar>x - mm_clamp x mm\<bar> \<le> \<bar>x - y\<bar>" for x :: "'a :: linordered_idom"
  by (auto simp: mm_clamp_def mm_contains_def)

lemma mm_intersection_contains:
  "mm_contains (mm_intersection head args) x \<longleftrightarrow> mm_contains head x \<and> (\<forall>mm \<in> set args. mm_contains mm x)"
  by (induction args arbitrary: head) (auto simp: mm_intersection_def mm_contains_def)

lemma mm_expand_contains:
  "mm_min mm \<le> mm_max mm \<Longrightarrow>
   mm_contains (mm_expand mm val) val \<and> (\<forall>x. mm_contains mm x \<longrightarrow> mm_contains (mm_expand mm val) x)"
  by (auto simp: mm_expand_def mm_contains_def)

lemma min_max_elem_eq:
  "min_max_elem lowest highest f cont = \<lparr>mm_min = min_elem highest f cont, mm_max = max_elem lowest f cont\<rparr>"
proof -
  have "fold (\<lambda>item res. let val = f item in (res\<lparr>mm_max := max (mm_max res) val\<rparr>)\<lparr>mm_min := min (mm_min res) val\<rparr>)
      cont \<lparr>mm_min = a, mm_max = b\<rparr>
    = \<lparr>mm_min = fold (\<lambda>item val. min (f item) val) cont a, mm_max = fold (\<lambda>item val. max (f item) val) cont b\<rparr>" for a b
    by (induction cont arbitrary: a b) (simp_all add: Let_def min.commute max.commute)
  then show ?thesis by (simp add: min_max_elem_def min_elem_def max_elem_def)
qed

end
