(* ===== verification/Spsc.thy ===== *)
theory Spsc
  imports CircularBuffer
begin

text \<open>
  The buffer between one producer and one consumer, say an interrupt and the main loop, which its
  comments call safe: "on insertion, item is inserted and than index is advanced; on removal, item is
  removed and than index is advanced".  The two run interleaved, one access to shared state at a
  time.  The producer pushes only when it has found the buffer not full, the consumer takes only when
  it has found it not empty.
\<close>

section \<open>The system\<close>

datatype 'a producer =
    PIdle
  | PChecked 'a \<comment> \<open>has seen \<open>full() == false\<close>, is about to construct the item in its slot\<close>
  | PStored 'a \<comment> \<open>is about to advance \<open>to_\<close>\<close>

datatype 'a consumer =
    CIdle
  | CChecked \<comment> \<open>has seen \<open>empty() == false\<close>, is about to move the item out\<close>
  | CMoved 'a \<comment> \<open>is about to destroy the item in its slot\<close>
  | CDestroyed 'a \<comment> \<open>is about to advance \<open>from_\<close>\<close>

record 'a system =
  buf :: "'a cbuf"
  prod :: "'a producer"
  cons :: "'a consumer"
  pushed :: "'a list" \<comment> \<open>what \<open>push_back\<close> has completed for\<close>
  taken :: "'a list" \<comment> \<open>what \<open>take_front\<close> has returned\<close>

definition spsc_init :: "strategy \<Rightarrow> 'a system" where
  "spsc_init S = \<lparr>buf = cb_new S, prod = PIdle, cons = CIdle, pushed = [], taken = []\<rparr>"

inductive spsc_step :: "strategy \<Rightarrow> 'a system \<Rightarrow> 'a system \<Rightarrow> bool" for S where
  check_full: "prod s = PIdle \<Longrightarrow> \<not> cb_full S (buf s) \<Longrightarrow> spsc_step S s (s\<lparr>prod := PChecked x\<rparr>)"
| store: "prod s = PChecked x \<Longrightarrow>
    spsc_step S s (s\<lparr>prod := PStored x,
      buf := (buf s)\<lparr>cb_store := (cb_store (buf s)) [st_idx S (cb_to (buf s)) := Some x]\<rparr>\<rparr>)"
| advance_to: "prod s = PStored x \<Longrightarrow>
    spsc_step S s (s\<lparr>prod := PIdle, pushed := pushed s @ [x],
      buf := (buf s)\<lparr>cb_to := st_incr S (cb_to (buf s)) 1\<rparr>\<rparr>)"
| check_empty: "cons s = CIdle \<Longrightarrow> \<not> cb_empty S (buf s) \<Longrightarrow> spsc_step S s (s\<lparr>cons := CChecked\<rparr>)"
| move: "cons s = CChecked \<Longrightarrow> cb_front S (buf s) = Some x \<Longrightarrow> spsc_step S s (s\<lparr>cons := CMoved x\<rparr>)"
| destroy: "cons s = CMoved x \<Longrightarrow> delete_item (cb_store (buf s)) (st_idx S (cb_from (buf s))) = Some st \<Longrightarrow>
    spsc_step S s (s\<lparr>cons := CDestroyed x, buf := (buf s)\<lparr>cb_store := st\<rparr>\<rparr>)"
| advance_from: "cons s = CDestroyed x \<Longrightarrow>
    spsc_step S s (s\<lparr>cons := CIdle, taken := taken s @ [x],
      buf := (buf s)\<lparr>cb_from := st_incr S (cb_from (buf s)) 1\<rparr>\<rparr>)"

inductive spsc_reachable :: "strategy \<Rightarrow> 'a system \<Rightarrow> bool" for S where
  init: "spsc_reachable S (spsc_init S)"
| step: "spsc_reachable S s \<Longrightarrow> spsc_step S s s' \<Longrightarrow> spsc_reachable S s'"

section \<open>The invariant\<close>

declare One_nat_def [simp del]

text \<open>
  The elements between the indices are \<open>q\<close>.  The slots of all of them are alive but for the first
  one, while the consumer has destroyed it; the slots outside are free but for the next one, while
  the producer has constructed it.
\<close>

definition slots_of :: "'a producer \<Rightarrow> 'a consumer \<Rightarrow> 'a list \<Rightarrow> nat \<Rightarrow> 'a option" where
  "slots_of p c q i =
     (if i < length q then (if i = 0 \<and> (\<exists>x. c = CDestroyed x) then None else Some (q ! i))
      else if i = length q then (case p of PStored x \<Rightarrow> Some x | _ \<Rightarrow> None)
      else None)"

definition spsc_inv :: "strategy \<Rightarrow> nat \<Rightarrow> (nat \<Rightarrow> bool) \<Rightarrow> 'a system \<Rightarrow> 'a list \<Rightarrow> bool" where
  "spsc_inv S N valid s q \<longleftrightarrow>
     valid (cb_from (buf s)) \<and> length (cb_store (buf s)) = st_max S \<and> length q \<le> N \<and>
     cb_to (buf s) = st_incr S (cb_from (buf s)) (length q) \<and>
     (\<forall>i < st_max S. cb_store (buf s) ! ((st_idx S (cb_from (buf s)) + i) mod st_max S)
        = slots_of (prod s) (cons s) q i) \<and>
     pushed s = taken s @ q \<and>
     (prod s \<noteq> PIdle \<longrightarrow> length q < N) \<and>
     (cons s \<noteq> CIdle \<longrightarrow> q \<noteq> []) \<and>
     (\<forall>x. cons s = CMoved x \<or> cons s = CDestroyed x \<longrightarrow> x = hd q)"

lemma spsc_invD:
  assumes "spsc_inv S N valid s q"
  shows "valid (cb_from (buf s))" "length (cb_store (buf s)) = st_max S" "length q \<le> N"
    and "cb_to (buf s) = st_incr S (cb_from (buf s)) (length q)"
    and "i < st_max S \<Longrightarrow> cb_store (buf s) ! ((st_idx S (cb_from (buf s)) + i) mod st_max S)
        = slots_of (prod s) (cons s) q i"
    and "pushed s = taken s @ q"
    and "prod s \<noteq> PIdle \<Longrightarrow> length q < N"
    and "cons s \<noteq> CIdle \<Longrightarrow> q \<noteq> []"
    and "cons s = CMoved x \<or> cons s = CDestroyed x \<Longrightarrow> x = hd q"
  using assms by (auto simp: spsc_inv_def)

context index_strategy
begin

lemma spsc_inv_init: "valid 0 \<Longrightarrow> spsc_inv S N valid (spsc_init S) []"
  using slot_less [of 0] by (simp add: spsc_inv_def spsc_init_def cb_new_def incr_0 slots_of_def)

lemma spsc_slot_to:
  assumes "spsc_inv S N valid s q"
  shows "st_idx S (cb_to (buf s)) = (st_idx S (cb_from (buf s)) + length q) mod st_max S"
  using spsc_invD(1,3,4) [OF assms] slot_incr by simp

lemma spsc_store_nth:
  assumes inv: "spsc_inv S N valid s q" and "k < st_max S" "i < st_max S"
  shows "(cb_store (buf s)) [(st_idx S (cb_from (buf s)) + k) mod st_max S := y]
      ! ((st_idx S (cb_from (buf s)) + i) mod st_max S)
    = (if i = k then y else slots_of (prod s) (cons s) q i)"
proof -
  note d = spsc_invD [OF inv]
  have "(st_idx S (cb_from (buf s)) + i) mod st_max S < st_max S" using assms(2) by simp
  then show ?thesis
    using ring_inject [OF slot_less [OF d(1)] assms(2,3)] d(2) d(5) [OF assms(3)]
    by (auto simp: nth_list_update)
qed

text \<open>The producer's item joins the queue when \<open>to_\<close> is advanced.\<close>

lemma spsc_advance_to:
  assumes inv: "spsc_inv S N valid s q" and x: "prod s = PStored x"
  shows "spsc_inv S N valid (s\<lparr>prod := PIdle, pushed := pushed s @ [x],
    buf := (buf s)\<lparr>cb_to := st_incr S (cb_to (buf s)) 1\<rparr>\<rparr>) (q @ [x])"
proof -
  note d = spsc_invD [OF inv]
  have lt: "length q < N" using d(7) x by simp
  have "st_incr S (cb_to (buf s)) 1 = st_incr S (cb_from (buf s)) (Suc (length q))"
    using incr_add [OF d(1), of "length q" 1] lt d(4) by (simp flip: Suc_eq_plus1)
  moreover have "slots_of (PStored x) (cons s) q i = slots_of PIdle (cons s) (q @ [x]) i" for i
    using d(8) by (auto simp: slots_of_def nth_append split: consumer.splits)
  ultimately show ?thesis using inv x lt by (auto simp: spsc_inv_def)
qed

text \<open>The slots as the consumer sees them once \<open>from_\<close> is advanced: all of them are one nearer.\<close>

lemma spsc_slots_shift:
  assumes inv: "spsc_inv S N valid s (x # q)" and x: "cons s = CDestroyed x" and i: "i < st_max S"
  shows "cb_store (buf s) ! ((st_idx S (st_incr S (cb_from (buf s)) 1) + i) mod st_max S) = slots_of (prod s) CIdle q i"
proof -
  note d = spsc_invD [OF inv]
  have NM: "N \<le> st_max S" using capacity [OF d(1)] .
  have N1: "1 \<le> N" using d(3) by simp
  have slot: "(st_idx S (st_incr S (cb_from (buf s)) 1) + i) mod st_max S
      = (st_idx S (cb_from (buf s)) + Suc i) mod st_max S"
    unfolding slot_incr [OF d(1) N1] mod_add_left_eq by (simp add: One_nat_def)
  show ?thesis
  proof (cases "Suc i < st_max S")
    case True
    then show ?thesis using d(5) [OF True] x by (simp add: slot slots_of_def)
  next
    case False
    then have i': "Suc i = st_max S" using i by simp
    have "(st_idx S (cb_from (buf s)) + st_max S) mod st_max S = (st_idx S (cb_from (buf s)) + 0) mod st_max S" by simp
    then have "cb_store (buf s) ! ((st_idx S (cb_from (buf s)) + Suc i) mod st_max S)
        = slots_of (prod s) (CDestroyed x) (x # q) 0" using d(5) [of 0] x i i' by simp
    moreover have "prod s = PIdle \<or> i \<noteq> length q" using d(7) i' NM by fastforce
    moreover have "length q < st_max S" using d(3) NM by simp
    ultimately show ?thesis using i' by (auto simp: slot slots_of_def)
  qed
qed

lemma spsc_advance_from:
  assumes inv: "spsc_inv S N valid s (x # q)" and x: "cons s = CDestroyed x"
  shows "spsc_inv S N valid (s\<lparr>cons := CIdle, taken := taken s @ [x],
    buf := (buf s)\<lparr>cb_from := st_incr S (cb_from (buf s)) 1\<rparr>\<rparr>) q"
proof -
  note d = spsc_invD [OF inv]
  have N1: "1 \<le> N" using d(3) by simp
  have "cb_to (buf s) = st_incr S (st_incr S (cb_from (buf s)) 1) (length q)"
    using incr_add [OF d(1), of 1 "length q"] d(3,4) by (simp add: One_nat_def)
  then show ?thesis using inv x valid_incr [OF d(1) N1] spsc_slots_shift [OF inv x] by (auto simp: spsc_inv_def)
qed

text \<open>The steps that only touch the slots, or only look at the indices.\<close>

lemma spsc_store:
  assumes inv: "spsc_inv S N valid s q" and x: "prod s = PChecked x"
  shows "spsc_inv S N valid (s\<lparr>prod := PStored x,
    buf := (buf s)\<lparr>cb_store := (cb_store (buf s)) [st_idx S (cb_to (buf s)) := Some x]\<rparr>\<rparr>) q"
proof -
  note d = spsc_invD [OF inv]
  have "length q < N" using d(7) x by simp
  then show ?thesis
    using inv x spsc_store_nth [OF inv, of "length q" _ "Some x"] capacity [OF d(1)] spsc_slot_to [OF inv]
    by (simp add: spsc_inv_def slots_of_def)
qed

lemma spsc_move:
  assumes inv: "spsc_inv S N valid s q" and x: "cons s = CChecked" "cb_front S (buf s) = Some x"
  shows "spsc_inv S N valid (s\<lparr>cons := CMoved x\<rparr>) q"
proof -
  note d = spsc_invD [OF inv]
  have ne: "q \<noteq> []" using d(8) x(1) by simp
  then have "cb_front S (buf s) = Some (q ! 0)"
    using d(5) [of 0] slot_less [OF d(1)] x(1) by (simp add: cb_front_def slots_of_def)
  then show ?thesis using inv x ne by (simp add: spsc_inv_def slots_of_def hd_conv_nth)
qed

lemma spsc_destroy:
  assumes inv: "spsc_inv S N valid s q" and x: "cons s = CMoved x"
    and st: "delete_item (cb_store (buf s)) (st_idx S (cb_from (buf s))) = Some st"
  shows "spsc_inv S N valid (s\<lparr>cons := CDestroyed x, buf := (buf s)\<lparr>cb_store := st\<rparr>\<rparr>) q"
proof -
  note d = spsc_invD [OF inv]
  have "q \<noteq> []" using d(8) x by simp
  moreover have "0 < st_max S" "st_idx S (cb_from (buf s)) mod st_max S = st_idx S (cb_from (buf s))"
    using slot_less [OF d(1)] by simp_all
  moreover have "st = (cb_store (buf s)) [st_idx S (cb_from (buf s)) := None]"
    using st by (simp add: delete_item_def split: if_splits)
  ultimately show ?thesis
    using inv x spsc_store_nth [OF inv, of 0 _ None] by (simp add: spsc_inv_def slots_of_def)
qed

lemma spsc_inv_step:
  assumes inv: "spsc_inv S N valid s q" and step: "spsc_step S s s'"
  shows "\<exists>q'. spsc_inv S N valid s' q'"
  using step
proof cases
  note d = spsc_invD [OF inv]
  {
    case (check_full x)
    then have "length q \<noteq> N" using d(1,3,4) full_incr by (simp add: cb_full_def)
    then have "spsc_inv S N valid s' q" using inv check_full d(3) by (simp add: spsc_inv_def slots_of_def)
    then show ?thesis ..
  next
    case check_empty
    then have "q \<noteq> []" using d(1,3,4) empty_incr by (simp add: cb_empty_def)
    then have "spsc_inv S N valid s' q" using inv check_empty by (simp add: spsc_inv_def slots_of_def)
    then show ?thesis ..
  next
    case (advance_from x)
    have "q \<noteq> []" "x = hd q" using d(8,9) advance_from by simp_all
    then obtain q' where "q = x # q'" by (cases q) auto
    then show ?thesis using spsc_advance_from [of s x q'] inv advance_from by blast
  }
qed (use inv in \<open>blast intro: spsc_store spsc_advance_to spsc_move spsc_destroy\<close>)+

lemma spsc_reachable_inv: "spsc_reachable S s \<Longrightarrow> valid 0 \<Longrightarrow> \<exists>q. spsc_inv S N valid s q"
  by (induction rule: spsc_reachable.induct) (use spsc_inv_init spsc_inv_step in blast)+

text \<open>What the two rely on when they touch a slot.\<close>

lemma spsc_reachable_safe:
  assumes "spsc_reachable S s" "valid 0"
  shows "\<exists>q. pushed s = taken s @ q \<and> length q \<le> N"
    and "prod s = PChecked x \<Longrightarrow> cb_store (buf s) ! st_idx S (cb_to (buf s)) = None"
    and "cons s = CChecked \<Longrightarrow> cb_front S (buf s) \<noteq> None"
    and "cons s = CMoved x \<Longrightarrow> delete_item (cb_store (buf s)) (st_idx S (cb_from (buf s))) \<noteq> None"
    and "prod s \<noteq> PIdle \<Longrightarrow> cons s \<noteq> CIdle \<Longrightarrow> st_idx S (cb_to (buf s)) \<noteq> st_idx S (cb_from (buf s))"
proof -
  obtain q where inv: "spsc_inv S N valid s q" using spsc_reachable_inv [OF assms] by blast
  note d = spsc_invD [OF inv] and to = spsc_slot_to [OF inv]
  have M: "st_idx S (cb_from (buf s)) < st_max S" using slot_less [OF d(1)] .
  then have from0: "(st_idx S (cb_from (buf s)) + 0) mod st_max S = st_idx S (cb_from (buf s))" by simp
  have NM: "N \<le> st_max S" using capacity [OF d(1)] .
  show "\<exists>q. pushed s = taken s @ q \<and> length q \<le> N" using d(3,6) by blast
  show "prod s = PChecked x \<Longrightarrow> cb_store (buf s) ! st_idx S (cb_to (buf s)) = None"
    using d(5) [of "length q"] d(7) NM by (simp add: to slots_of_def)
  have first: "cb_store (buf s) ! st_idx S (cb_from (buf s)) = slots_of (prod s) (cons s) q 0"
    using d(5) [of 0] M from0 by simp
  show "cons s = CChecked \<Longrightarrow> cb_front S (buf s) \<noteq> None"
    using first d(8) by (simp add: cb_front_def slots_of_def)
  show "cons s = CMoved x \<Longrightarrow> delete_item (cb_store (buf s)) (st_idx S (cb_from (buf s))) \<noteq> None"
    using first d(2,8) M by (simp add: delete_item_def slots_of_def)
  show "prod s \<noteq> PIdle \<Longrightarrow> cons s \<noteq> CIdle \<Longrightarrow> st_idx S (cb_to (buf s)) \<noteq> st_idx S (cb_from (buf s))"
    using ring_inject [OF M, of "length q" 0] d(7,8) NM M from0 by (simp add: to)
qed

end

subsection \<open>Neither side waits for the other for ever\<close>

text \<open>
  Each side can finish its operation by steps of its own, whatever the other one is doing: the
  consumer takes when there is an element, the producer pushes when there is room.
\<close>

definition can_take :: "strategy \<Rightarrow> 'a system \<Rightarrow> 'a \<Rightarrow> bool" where
  "can_take S s x \<longleftrightarrow> (\<exists>s'. (spsc_step S)\<^sup>*\<^sup>* s s' \<and> cons s' = CIdle \<and> prod s' = prod s \<and>
     taken s' = taken s @ [x] \<and> pushed s' = pushed s)"

definition can_push :: "strategy \<Rightarrow> 'a system \<Rightarrow> 'a \<Rightarrow> bool" where
  "can_push S s x \<longleftrightarrow> (\<exists>s'. (spsc_step S)\<^sup>*\<^sup>* s s' \<and> prod s' = PIdle \<and> cons s' = cons s \<and>
     pushed s' = pushed s @ [x] \<and> taken s' = taken s)"

lemma can_take_step:
  "spsc_step S s s1 \<Longrightarrow> can_take S s1 x \<Longrightarrow> prod s1 = prod s \<Longrightarrow> taken s1 = taken s \<Longrightarrow> pushed s1 = pushed s \<Longrightarrow>
   can_take S s x"
  unfolding can_take_def by (metis converse_rtranclp_into_rtranclp)

lemma can_push_step:
  "spsc_step S s s1 \<Longrightarrow> can_push S s1 x \<Longrightarrow> cons s1 = cons s \<Longrightarrow> taken s1 = taken s \<Longrightarrow> pushed s1 = pushed s \<Longrightarrow>
   can_push S s x"
  unfolding can_push_def by (metis converse_rtranclp_into_rtranclp)

context index_strategy
begin

lemma spsc_step_same:
  assumes "spsc_inv S N valid s q" "spsc_step S s s1" "taken s1 = taken s" "pushed s1 = pushed s"
  shows "spsc_inv S N valid s1 q"
  using spsc_inv_step [OF assms(1,2)] spsc_invD(6) [OF assms(1)] spsc_invD(6) assms(3,4) by fastforce

lemma take_destroyed:
  assumes "spsc_inv S N valid s q" "cons s = CDestroyed x"
  shows "can_take S s (hd q)"
proof -
  let ?s = "s\<lparr>cons := CIdle, taken := taken s @ [x], buf := (buf s)\<lparr>cb_from := st_incr S (cb_from (buf s)) 1\<rparr>\<rparr>"
  have "spsc_step S s ?s" by (rule advance_from [OF assms(2)])
  then show ?thesis
    unfolding can_take_def using spsc_invD(9) [OF assms(1)] assms(2)
    by (intro exI [of _ ?s]) (auto simp: r_into_rtranclp)
qed

lemma take_moved:
  assumes inv: "spsc_inv S N valid s q" and c: "cons s = CMoved x"
  shows "can_take S s (hd q)"
proof -
  note d = spsc_invD [OF inv]
  have M: "st_idx S (cb_from (buf s)) < st_max S" using slot_less [OF d(1)] .
  then have "cb_store (buf s) ! st_idx S (cb_from (buf s)) \<noteq> None"
    using d(5) [of 0] d(8) c by (simp add: slots_of_def)
  then obtain st where st: "delete_item (cb_store (buf s)) (st_idx S (cb_from (buf s))) = Some st"
    using d(2) M by (auto simp: delete_item_def)
  from destroy [OF c st] show ?thesis
    by (rule can_take_step) (rule take_destroyed [OF spsc_step_same [OF inv destroy [OF c st]]], simp_all)
qed

lemma take_checked:
  assumes inv: "spsc_inv S N valid s q" and c: "cons s = CChecked"
  shows "can_take S s (hd q)"
proof -
  note d = spsc_invD [OF inv]
  have "st_idx S (cb_from (buf s)) < st_max S" using slot_less [OF d(1)] .
  then have f: "cb_front S (buf s) = Some (hd q)"
    using d(5) [of 0] d(8) c by (simp add: cb_front_def slots_of_def hd_conv_nth)
  from move [OF c f] show ?thesis
    by (rule can_take_step) (rule take_moved [OF spsc_step_same [OF inv move [OF c f]]], simp_all)
qed

lemma consumer_progress:
  assumes inv: "spsc_inv S N valid s q" and ne: "q \<noteq> []"
  shows "can_take S s (hd q)"
proof (cases "cons s")
  case CIdle
  have e: "\<not> cb_empty S (buf s)"
    using spsc_invD(1,3,4) [OF inv] empty_incr ne by (simp add: cb_empty_def)
  from check_empty [OF CIdle e] show ?thesis
    by (rule can_take_step) (rule take_checked [OF spsc_step_same [OF inv check_empty [OF CIdle e]]], simp_all)
qed (use take_checked [OF inv] take_moved [OF inv] take_destroyed [OF inv] in auto)

lemma push_stored:
  assumes "prod s = PStored x"
  shows "can_push S s x"
proof -
  let ?s = "s\<lparr>prod := PIdle, pushed := pushed s @ [x], buf := (buf s)\<lparr>cb_to := st_incr S (cb_to (buf s)) 1\<rparr>\<rparr>"
  have "spsc_step S s ?s" by (rule advance_to [OF assms])
  then show ?thesis
    unfolding can_push_def by (intro exI [of _ ?s]) (auto simp: r_into_rtranclp)
qed

lemma push_checked:
  assumes "prod s = PChecked x"
  shows "can_push S s x"
  by (rule can_push_step [OF store [OF assms]]) (rule push_stored, simp_all)

lemma producer_progress:
  assumes inv: "spsc_inv S N valid s q" and lt: "length q < N" and p: "prod s = PIdle"
  shows "can_push S s x"
proof -
  have "\<not> cb_full S (buf s)"
    using spsc_invD(1,3,4) [OF inv] full_incr lt by (simp add: cb_full_def)
  from check_full [OF p this, of x] show ?thesis
    by (rule can_push_step) (rule push_checked, simp_all)
qed

end

section \<open>A size that is read twice\<close>

text \<open>
  \<open>size()\<close> of the spacer strategy loads each index twice, once to compare them and once to subtract
  them.  With the loads of \<open>from_\<close> and \<open>to_\<close> for the comparison \<open>f1\<close>, \<open>t1\<close> and for the difference
  \<open>f2\<close>, \<open>t2\<close>:
\<close>

definition spacer_size_loads :: "nat \<Rightarrow> nat \<Rightarrow> nat \<Rightarrow> nat \<Rightarrow> nat \<Rightarrow> nat" where
  "spacer_size_loads N f1 t1 f2 t2 =
     (if t1 \<ge> f1 then nat ((int t2 - int f2) mod 2 ^ select_index_bits N)
      else (t2 + (N + 1 - f2)) mod 2 ^ select_index_bits N)"

lemma spacer_size_loads_same:
  assumes "t < 2 ^ select_index_bits N"
  shows "spacer_size_loads N f t f t = spacer_size N f t"
proof (cases "f \<le> t")
  case True
  then have "(int t - int f) mod 2 ^ select_index_bits N = int ((t - f) mod 2 ^ select_index_bits N)"
    by (simp add: zmod_int)
  then show ?thesis using True assms by (simp add: spacer_size_loads_def spacer_size_def)
qed (simp add: spacer_size_loads_def spacer_size_def)

end
