(* ===== verification/EdgeCases.thy ===== *)
theory EdgeCases
  imports Packet RegisterMap Bounded Spsc
begin

text \<open>
  Where the code does something other than the rest of the development relies on: inputs outside the
  preconditions of the other theories, each with what happens there.
\<close>

section \<open>Conversions\<close>

text \<open>A tag group with none of its tags on the wire reports success and leaves the value as it was.\<close>

lemma tag_group_loop_unmatched:
  "\<forall>alt \<in> set alts. \<exists>r v. deserialize (fst alt) buffer VTag = Some (r, v) \<and> has_error r \<Longrightarrow>
   tag_group_loop alts I buffer res value = Some (res, value)"
  by (induction alts arbitrary: I) force+

lemma conv_tag_mismatch:
  assumes "int_base b" "base_size b \<le> length buffer \<Longrightarrow> deserialize_int e b (take (base_size b) buffer) \<noteq> V"
  shows "\<exists>r v. deserialize (conv_tag e b V tr) buffer VTag = Some (r, v) \<and> has_error r"
proof -
  have "base_deserialize e b bs = VInt (deserialize_int e b bs)" for bs
    using assms(1) by (cases b) (simp_all add: deserialize_enum_def deserialize_int_def)
  then show ?thesis
    using assms(2) by (cases "base_size b \<le> length buffer")
      (auto simp: conv_tag_def conv_base_def base_traits_def Let_def conv_err_def has_error_def)
qed

text \<open>
  A \<open>tag_group\<close> with none of its tags at the front of the message, which may be too short for one:
  \<open>extract\<close> does not report an error but gives the default value of the group.
\<close>

lemma tag_group_unmatched_succeeds:
  assumes "int_base b" "base_size b \<le> length msg \<Longrightarrow> deserialize_int e b (take (base_size b) msg) \<notin> set ids"
  shows "handler_extract (DTagGroup b ids ds) e msg = Some (Inl (default_val (DTagGroup b ids ds)))"
proof -
  let ?alts = "zip (map (\<lambda>v. conv_tag e b v (tag_traits (base_traits b))) ids) (map (\<lambda>d. converter_for d e) ds)"
  have "\<exists>r v. deserialize (fst alt) msg VTag = Some (r, v) \<and> has_error r" if "alt \<in> set ?alts" for alt
  proof -
    have "fst alt \<in> set (map (\<lambda>v. conv_tag e b v (tag_traits (base_traits b))) ids)"
      using set_zip_leftD [of "fst alt" "snd alt"] that by (metis prod.collapse)
    then obtain x where "x \<in> set ids" "fst alt = conv_tag e b x (tag_traits (base_traits b))" by auto
    then show ?thesis using conv_tag_mismatch [OF assms(1), of msg e x] assms(2) by metis
  qed
  then show ?thesis by (simp add: handler_extract_def conv_tag_group_def tag_group_loop_unmatched)
qed

lemma tag_group_unmatched_succeeds_witness:
  "handler_extract (DTagGroup (BUInt 1) [1, 2] [DBase (BUInt 1), DBase BBool]) Big [9]
     = Some (Inl (default_val (DTagGroup (BUInt 1) [1, 2] [DBase (BUInt 1), DBase BBool])))"
proof -
  have "deserialize_int Big (BUInt 1) [9] = 9" by code_simp
  then show ?thesis
    by (intro tag_group_unmatched_succeeds) (simp_all add: One_nat_def)
qed

text \<open>The counter of a vector may be above its capacity: the elements that do not fit are left.\<close>

lemma vector_count_too_large:
  "handler_extract (DVector (DBase (BUInt 1)) 2) Big [0, 9, 1, 2, 3] = Some (Inl (VVector [VInt 1, VInt 2]))"
  by code_simp

text \<open>A vector that holds more elements than the counter says is not cut, it grows to its capacity.\<close>

lemma vector_not_cut:
  "deserialize (converter_for (DVector (DBase (BUInt 1)) 4) Big) [0, 1, 7, 8, 9, 10] (VVector [VInt 0, VInt 0])
     = Some (conv_ok 6, VVector [VInt 7, VInt 8, VInt 9, VInt 10])"
  by code_simp

text \<open>The flag of an optional is read without a check of the size.\<close>

lemma optional_of_nothing: "deserialize (converter_for (DOptional d) e) [] v = None"
  by (simp add: conv_optional_def Let_def converter_simps bounded_traits_def base_traits_def)

text \<open>An error record is read as a whole, and reported to have used the eight bytes of its offset.\<close>

lemma error_record_read:
  "deserialize (converter_for DErrorRecord Big)
     ([0, 2, 65, 66, 0, 0, 0, 0, 0, 0, 0, 0, 0, 0, 0, 0, 0, 0] @ [0, 0, 0, 0, 0, 0, 0, 5]) (VErrorRecord (sb_empty mark_size) 0)
     = Some (conv_ok 8, VErrorRecord [65, 66, 0, 0, 0, 0, 0, 0, 0, 0, 0, 0, 0, 0, 0, 0] 5)"
  by code_simp

text \<open>
  The sum of the position and the size in a \<open>sized_buffer\<close> wraps around with a counter of 64 bits,
  and the view of the content is taken past the end.
\<close>

lemma sized_counter_wraps:
  "deserialize (converter_for (DSized (DBase (BUInt 8)) (DSizeless 4)) Big) (replicate 8 255) (VMessage []) = None"
proof -
  have "deserialize_int Big (BUInt 8) (replicate 8 255) = 2 ^ 64 - 1" by code_simp
  then show ?thesis
    by (simp add: conv_sized_def conv_base_def base_traits_def conv_ok_def has_error_def Let_def)
qed

text \<open>A group takes an alternative that used bytes before it failed, and not one that needs none.\<close>

lemma group_takes_failed:
  "deserialize (converter_for
       (DGroup [DTuple [DBase (BUInt 1), DTag (BUInt 1) 3], DTuple [DBase (BUInt 1), DTag (BUInt 1) 4]]) Big)
     [7, 4] (VVariant 0 (VTuple [VInt 0, VTag])) = Some (conv_err 1 badval_err, VVariant 0 (VTuple [VInt 7, VTag]))"
proof -
  have "deserialize_int Big (BUInt 1) [7] = 7" "deserialize_int Big (BUInt 1) [4] = 4" by code_simp+
  then show ?thesis
    by (simp add: conv_group_def conv_tuple_def conv_tag_def conv_base_def tag_traits_def base_traits_def conv_ok_def
        conv_err_def has_error_def add_used_def subspan_def Let_def One_nat_def)
qed

lemma group_skips_empty:
  "deserialize (converter_for (DGroup [DMonostate]) Big) [] (VVariant 0 VMonostate)
     = Some (conv_err 0 group_err, VVariant 0 VMonostate)"
  by (simp add: conv_group_def conv_monostate_def conv_ok_def conv_err_def)

section \<open>Registers and indices\<close>

text \<open>A key without a register: nothing is inserted, and that is not reported.\<close>

lemma unknown_insert:
  assumes "length regs \<le> 64" "key \<notin> fst ` set regs"
  shows "rh_insert regs e m key buff = Some (None, m)"
  by (simp add: rh_insert_def with_register_unknown [OF assms])

section \<open>Numbers\<close>

text \<open>The remainder of a negative value is negative, and the multiple that is found is too large.\<close>

lemma ceil_to_negative: "ceil_to (-5) 4 = 0" "4 dvd (-4 :: int)" "(-5 :: int) \<le> -4" "(-4 :: int) < 0"
  by (simp_all add: ceil_to_def c_mod_def)

text \<open>
  The difference below zero wraps around at \<open>2 ^ 64\<close>, which the size of the range does not divide:
  one to the left of 0 between 0 and 2 is 0.
\<close>

lemma rotate_left_wraps: "rotate_left (BUInt 8) 0 2 0 1 = Some 0"
  by code_simp

text \<open>\<open>make\<close> converts its argument before it compares.\<close>

lemma bounded_make_converts: "bounded_make (BUInt 1) 0 10 256 = Some 0"
  by code_simp

end
