(* ===== verification/Cobs.thy ===== *)
theory Cobs
  imports Algorithm
begin

text \<open>
  \<open>experimental/cobs.hpp\<close>: Consistent Overhead Byte Stuffing.  The encoder writes into a target
  buffer through two pointers, here positions in the buffer; a write or a read past its end is
  undefined, \<^const>\<open>None\<close>.
\<close>

section \<open>The encoder\<close>

record cobs_encoder =
  ce_target :: "byte list"
  ce_last :: nat
  ce_pos :: nat
  ce_count :: "8 word"

definition cobs_encoder_new :: "byte list \<Rightarrow> cobs_encoder" where
  "cobs_encoder_new target = \<lparr>ce_target = target, ce_last = 0, ce_pos = 1, ce_count = 1\<rparr>"

definition write_at :: "byte list \<Rightarrow> nat \<Rightarrow> byte \<Rightarrow> byte list option" where
  "write_at xs i b = (if i < length xs then Some (xs [i := b]) else None)"

definition cobs_insert :: "cobs_encoder \<Rightarrow> byte \<Rightarrow> (bool \<times> cobs_encoder) option" where
  "cobs_insert e b = do {
     e \<leftarrow> (if b \<noteq> 0
           then do {
             t \<leftarrow> write_at (ce_target e) (ce_pos e) b;
             Some (e\<lparr>ce_target := t, ce_count := ce_count e + 1\<rparr>)
           }
           else do {
             t \<leftarrow> write_at (ce_target e) (ce_last e) (ce_count e);
             Some (e\<lparr>ce_target := t, ce_count := 1, ce_last := ce_pos e\<rparr>)
           });
     (let e = e\<lparr>ce_pos := ce_pos e + 1\<rparr> in
      if ce_pos e = length (ce_target e) then Some (False, e)
      else if ce_count e = 255
      then do {
        t \<leftarrow> write_at (ce_target e) (ce_last e) 255;
        (let e = e\<lparr>ce_target := t, ce_count := 1, ce_last := ce_pos e, ce_pos := ce_pos e + 1\<rparr>
         in Some (ce_pos e \<noteq> length (ce_target e), e))
      }
      else Some (True, e))
   }"

text \<open>\<open>commit\<close> gives the view of the bytes up to the position.\<close>

definition cobs_commit :: "cobs_encoder \<Rightarrow> byte list option" where
  "cobs_commit e = do {
     t \<leftarrow> write_at (ce_target e) (ce_last e) (ce_count e);
     (if ce_pos e \<le> length t then Some (take (ce_pos e) t) else None)
   }"

fun cobs_insert_all :: "cobs_encoder \<Rightarrow> byte list \<Rightarrow> (bool \<times> cobs_encoder) option" where
  "cobs_insert_all e [] = Some (True, e)"
| "cobs_insert_all e (b # source) = do {
     (ok, e) \<leftarrow> cobs_insert e b;
     (if ok then cobs_insert_all e source else Some (False, e))
   }"

definition encode_cobs :: "byte list \<Rightarrow> byte list \<Rightarrow> (bool \<times> byte list) option" where
  "encode_cobs source target = do {
     (ok, e) \<leftarrow> cobs_insert_all (cobs_encoder_new target) source;
     (if ok then do { v \<leftarrow> cobs_commit e; Some (True, v) } else Some (False, []))
   }"

section \<open>The decoder\<close>

record cobs_decoder =
  cd_nonzero :: bool
  cd_offset :: "8 word"

definition cobs_decoder_default :: cobs_decoder where
  "cobs_decoder_default = \<lparr>cd_nonzero = False, cd_offset = 1\<rparr>"

definition cobs_decoder_of :: "byte \<Rightarrow> cobs_decoder" where
  "cobs_decoder_of b = \<lparr>cd_nonzero = (b = 255), cd_offset = b\<rparr>"

definition cobs_get :: "cobs_decoder \<Rightarrow> byte \<Rightarrow> byte option" where
  "cobs_get d inpt = (if cd_offset d = 1 then (if cd_nonzero d then None else Some 0) else Some inpt)"

definition cobs_non_value_byte :: "cobs_decoder \<Rightarrow> bool" where
  "cobs_non_value_byte d \<longleftrightarrow> cd_offset d = 1 \<and> cd_nonzero d"

definition cobs_advance :: "cobs_decoder \<Rightarrow> byte \<Rightarrow> cobs_decoder" where
  "cobs_advance d inpt =
     (if cd_offset d = 1 then \<lparr>cd_nonzero = (inpt = 255), cd_offset = inpt\<rparr>
      else d\<lparr>cd_offset := cd_offset d - 1\<rparr>)"

definition cobs_iter :: "cobs_decoder \<Rightarrow> byte \<Rightarrow> byte option \<times> cobs_decoder" where
  "cobs_iter d inpt = (cobs_get d inpt, cobs_advance d inpt)"

text \<open>The loop of \<open>decode_cobs\<close>, with what has been written to the target so far.\<close>

fun decode_loop :: "cobs_decoder \<Rightarrow> byte list \<Rightarrow> byte list \<Rightarrow> nat \<Rightarrow> (bool \<times> byte list) option" where
  "decode_loop d [] target pos = Some (True, take pos target)"
| "decode_loop d (b # source) target pos =
     (case cobs_iter d b of
        (None, d) \<Rightarrow> decode_loop d source target pos
      | (Some v, d) \<Rightarrow> do {
          target \<leftarrow> write_at target pos v;
          (if pos + 1 = length target then Some (False, target)
           else decode_loop d source target (pos + 1))
        })"

definition decode_cobs :: "byte list \<Rightarrow> byte list \<Rightarrow> (bool \<times> byte list) option" where
  "decode_cobs source target =
     (case source of [] \<Rightarrow> None | b # rest \<Rightarrow> decode_loop (cobs_decoder_of b) rest target 0)"

subsection \<open>The decoding iterator\<close>

text \<open>An iterator is its decoder and its position in the data.\<close>

type_synonym cobs_position = "cobs_decoder \<times> nat"

definition read_at :: "byte list \<Rightarrow> nat \<Rightarrow> byte option" where
  "read_at xs i = (if i < length xs then Some (xs ! i) else None)"

definition ci_deref :: "byte list \<Rightarrow> cobs_position \<Rightarrow> byte option" where
  "ci_deref data it = do { b \<leftarrow> read_at data (snd it); cobs_get (fst it) b }"

definition ci_next :: "byte list \<Rightarrow> cobs_position \<Rightarrow> cobs_position option" where
  "ci_next data it = (case it of (d, i) \<Rightarrow> do {
     b \<leftarrow> read_at data i;
     (let d = cobs_advance d b in
      if cobs_non_value_byte d
      then do { b \<leftarrow> read_at data (i + 1); Some (cobs_advance d b, i + 2) }
      else Some (d, i + 1))
   })"

definition cobs_decode_view :: "byte list \<Rightarrow> (cobs_position \<times> cobs_position) option" where
  "cobs_decode_view data = do {
     b \<leftarrow> ci_next data (cobs_decoder_default, 0);
     Some (b, (cobs_decoder_default, find_item data 0))
   }"

text \<open>All elements of such a view; \<open>fuel\<close> bounds the number of steps.\<close>

primrec ci_collect :: "nat \<Rightarrow> byte list \<Rightarrow> cobs_position \<Rightarrow> cobs_position \<Rightarrow> byte list option" where
  "ci_collect 0 data it stop = (if snd it = snd stop then Some [] else None)"
| "ci_collect (Suc fuel) data it stop =
     (if snd it = snd stop then Some []
      else do {
        b \<leftarrow> ci_deref data it;
        it \<leftarrow> ci_next data it;
        bs \<leftarrow> ci_collect fuel data it stop;
        Some (b # bs)
      })"

definition decode_view_all :: "byte list \<Rightarrow> byte list option" where
  "decode_view_all data = do {
     (start, stop) \<leftarrow> cobs_decode_view data;
     ci_collect (length data) data start stop
   }"

section \<open>Reference: blocks\<close>

text \<open>
  The data is cut into blocks of at most 254 bytes that are not zero.  A block is written behind
  its length and one; unless it is a longest one, a zero follows it in the data.  \<open>cur\<close> is the block
  that has been begun.
\<close>

fun cobs_blocks :: "byte list \<Rightarrow> byte list \<Rightarrow> byte list" where
  "cobs_blocks cur [] = of_nat (length cur + 1) # cur"
| "cobs_blocks cur (b # bs) =
     (if b = 0 then of_nat (length cur + 1) # cur @ cobs_blocks [] bs
      else if length cur = 253 then 255 # cur @ [b] @ cobs_blocks [] bs
      else cobs_blocks (cur @ [b]) bs)"

definition cobs_ref :: "byte list \<Rightarrow> byte list" where
  "cobs_ref xs = cobs_blocks [] xs"

lemma of_nat_byte_eq: "m < 256 \<Longrightarrow> n < 256 \<Longrightarrow> (of_nat m :: byte) = of_nat n \<longleftrightarrow> m = n"
  by (simp add: word_of_nat_eq_iff take_bit_nat_eq_self)

lemma of_nat_byte_consts:
  "m < 256 \<Longrightarrow> (of_nat m :: byte) = 0 \<longleftrightarrow> m = 0"
  "m < 256 \<Longrightarrow> (of_nat m :: byte) = 1 \<longleftrightarrow> m = 1"
  "m < 256 \<Longrightarrow> (of_nat m :: byte) = 255 \<longleftrightarrow> m = 255"
  using of_nat_byte_eq [of m 0] of_nat_byte_eq [of m 1] of_nat_byte_eq [of m 255] by simp_all

text \<open>No zero is written, and the overhead is a byte for 254 and one.\<close>

lemma cobs_blocks_nonzero: "length cur \<le> 253 \<Longrightarrow> 0 \<notin> set cur \<Longrightarrow> 0 \<notin> set (cobs_blocks cur xs)"
proof (induction cur xs rule: cobs_blocks.induct)
  case (1 cur)
  have "(of_nat (length cur + 1) :: byte) \<noteq> 0"
    using 1(1) by (subst of_nat_byte_consts) auto
  then show ?case using 1(2) by simp
next
  case (2 cur b bs)
  have "(of_nat (length cur + 1) :: byte) \<noteq> 0"
    using "2.prems" by (subst of_nat_byte_consts) auto
  then show ?case using 2 by auto
qed

lemma cobs_blocks_length: "length cur \<le> 253 \<Longrightarrow> length (cobs_blocks cur xs) \<le> length cur + length xs + 1 + (length cur + length xs) div 254"
proof (induction cur xs rule: cobs_blocks.induct)
  case IH: (2 cur b bs)
  have shift: "(n + 254) div 254 = Suc (n div 254)" for n :: nat by simp
  consider "b = 0" | "b \<noteq> 0" "length cur = 253" | "b \<noteq> 0" "length cur \<noteq> 253" by blast
  then show ?case
  proof cases
    case 1
    have "length bs div 254 \<le> (length cur + Suc (length bs)) div 254" by (intro div_le_mono) simp
    then show ?thesis using IH.IH(1) 1 by simp
  next
    case 2
    then have "length cur + length (b # bs) = length bs + 254" by simp
    then show ?thesis using 2 shift [of "length bs"] IH.IH(2) by simp
  next
    case 3
    then show ?thesis using 3 IH.IH(3) IH.prems by simp
  qed
qed simp

lemma cobs_blocks_min: "length cur + 1 \<le> length (cobs_blocks cur xs)"
proof (induction cur xs rule: cobs_blocks.induct)
  case (2 cur b bs)
  then show ?case by (cases "b = 0"; cases "length cur = 253") auto
qed simp

section \<open>The encoder writes the blocks\<close>

text \<open>
  Between two inserts: the finished blocks \<open>fin\<close>, a slot for the code of the next one, its bytes so
  far, and at least one byte more.
\<close>

definition encoder_at :: "nat \<Rightarrow> cobs_encoder \<Rightarrow> byte list \<Rightarrow> byte list \<Rightarrow> bool" where
  "encoder_at n e fin cur \<longleftrightarrow>
     (\<exists>code rest. ce_target e = fin @ code # cur @ rest \<and> rest \<noteq> []) \<and> length (ce_target e) = n \<and>
     ce_last e = length fin \<and> ce_pos e = length fin + 1 + length cur \<and> ce_count e = of_nat (length cur + 1)"

lemma encoder_atE:
  assumes "encoder_at n e fin cur"
  obtains code x rest where
    "e = \<lparr>ce_target = fin @ code # cur @ x # rest, ce_last = length fin, ce_pos = length fin + 1 + length cur,
          ce_count = of_nat (length cur + 1)\<rparr>"
    "n = length fin + length cur + 2 + length rest"
  using assms by (cases e) (auto simp: encoder_at_def neq_Nil_conv)

lemma encoder_new: "2 \<le> length target \<Longrightarrow> encoder_at (length target) (cobs_encoder_new target) [] []"
  by (cases target; cases "tl target") (auto simp: encoder_at_def cobs_encoder_new_def)

text \<open>Inserting a byte that leaves room goes on; otherwise the encoder gives up.\<close>

lemma insert_zero:
  assumes "encoder_at n e fin cur"
  shows "\<exists>ok e'. cobs_insert e 0 = Some (ok, e') \<and> (ok \<longleftrightarrow> length fin + length cur + 2 < n) \<and>
    (ok \<longrightarrow> encoder_at n e' (fin @ of_nat (length cur + 1) # cur) [])"
  using assms
proof (rule encoder_atE)
  fix code x rest
  assume e: "e = \<lparr>ce_target = fin @ code # cur @ x # rest, ce_last = length fin, ce_pos = length fin + 1 + length cur,
          ce_count = of_nat (length cur + 1)\<rparr>" and n: "n = length fin + length cur + 2 + length rest"
  have one: "(1 :: byte) \<noteq> 255" by simp
  show ?thesis
    using n one by (auto simp: e cobs_insert_def write_at_def Let_def encoder_at_def neq_Nil_conv intro: exI)
qed

lemma insert_value:
  assumes "encoder_at n e fin cur" "b \<noteq> 0" "length cur < 253"
  shows "\<exists>ok e'. cobs_insert e b = Some (ok, e') \<and> (ok \<longleftrightarrow> length fin + length cur + 2 < n) \<and>
    (ok \<longrightarrow> encoder_at n e' fin (cur @ [b]))"
  using assms(1)
proof (rule encoder_atE)
  fix code x rest
  assume e: "e = \<lparr>ce_target = fin @ code # cur @ x # rest, ce_last = length fin, ce_pos = length fin + 1 + length cur,
          ce_count = of_nat (length cur + 1)\<rparr>" and n: "n = length fin + length cur + 2 + length rest"
  have cnt: "(of_nat (length cur + 1) :: byte) + 1 = of_nat (length cur + 2)" by simp
  have "(of_nat (length cur + 2) :: byte) \<noteq> 255" using assms(3) by (subst of_nat_byte_consts) auto
  then show ?thesis
    using n assms(2) unfolding e cobs_insert_def write_at_def cobs_encoder.simps cnt
    by (auto simp: Let_def encoder_at_def neq_Nil_conv list_update_append nth_append)
qed

lemma insert_full:
  assumes "encoder_at n e fin cur" "b \<noteq> 0" "length cur = 253"
  shows "\<exists>ok e'. cobs_insert e b = Some (ok, e') \<and> (ok \<longleftrightarrow> length fin + length cur + 3 < n) \<and>
    (ok \<longrightarrow> encoder_at n e' (fin @ 255 # cur @ [b]) [])"
  using assms(1)
proof (rule encoder_atE)
  fix code x rest
  assume e: "e = \<lparr>ce_target = fin @ code # cur @ x # rest, ce_last = length fin, ce_pos = length fin + 1 + length cur,
          ce_count = of_nat (length cur + 1)\<rparr>" and n: "n = length fin + length cur + 2 + length rest"
  have cnt: "(of_nat (length cur + 1) :: byte) + 1 = 255" using assms(3) by simp
  have w: "write_at (fin @ code # cur @ x # rest) (length fin + 1 + length cur) b = Some (fin @ code # cur @ b # rest)"
    "write_at (fin @ code # cur @ b # rest) (length fin) 255 = Some (fin @ 255 # cur @ b # rest)"
    by (simp_all add: write_at_def list_update_append)
  show ?thesis
  proof (cases rest)
    case Nil
    then show ?thesis using n assms(2) w by (auto simp: e cobs_insert_def Let_def)
  next
    case (Cons y ys)
    let ?e = "\<lparr>ce_target = fin @ 255 # cur @ b # rest, ce_last = length fin + length cur + 2,
      ce_pos = length fin + length cur + 3, ce_count = 1\<rparr>"
    have "cobs_insert e b = Some (ys \<noteq> [], ?e)"
      using assms(2) Cons w cnt by (simp add: e cobs_insert_def Let_def)
    moreover have "ys \<noteq> [] \<Longrightarrow> encoder_at n ?e (fin @ 255 # cur @ [b]) []"
      using n Cons by (simp add: encoder_at_def)
    ultimately show ?thesis using n Cons by auto
  qed
qed

lemma insert_all_blocks:
  "encoder_at n e fin cur \<Longrightarrow> length cur \<le> 253 \<Longrightarrow>
   \<exists>e'. cobs_insert_all e xs = Some (length (fin @ cobs_blocks cur xs) < n, e') \<and>
     (length (fin @ cobs_blocks cur xs) < n \<longrightarrow> cobs_commit e' = Some (fin @ cobs_blocks cur xs))"
proof (induction cur xs arbitrary: e fin rule: cobs_blocks.induct)
  case (1 cur)
  from 1(1) show ?case
    by (rule encoder_atE) (simp add: cobs_commit_def write_at_def)
next
  case IH: (2 cur b bs)
  consider "b = 0" | "b \<noteq> 0" "length cur = 253" | "b \<noteq> 0" "length cur < 253"
    using IH.prems(2) by linarith
  then show ?case
  proof cases
    case 1
    obtain ok e' where i: "cobs_insert e b = Some (ok, e')" "ok \<longleftrightarrow> length fin + length cur + 2 < n"
      "ok \<Longrightarrow> encoder_at n e' (fin @ of_nat (length cur + 1) # cur) []"
      using insert_zero [OF IH.prems(1)] 1 by blast
    show ?thesis
    proof (cases ok)
      case True
      from IH.IH(1) [OF 1 i(3) [OF True]] show ?thesis using 1 True i(1) by simp
    next
      case False
      then show ?thesis using i 1 cobs_blocks_min [of "[]" bs] by simp
    qed
  next
    case 2
    obtain ok e' where i: "cobs_insert e b = Some (ok, e')" "ok \<longleftrightarrow> length fin + length cur + 3 < n"
      "ok \<Longrightarrow> encoder_at n e' (fin @ 255 # cur @ [b]) []"
      using insert_full [OF IH.prems(1) 2] by blast
    show ?thesis
    proof (cases ok)
      case True
      from IH.IH(2) [OF 2 i(3) [OF True]] show ?thesis using 2 True i(1) by simp
    next
      case False
      then show ?thesis using i 2 cobs_blocks_min [of "[]" bs] by simp
    qed
  next
    case 3
    obtain ok e' where i: "cobs_insert e b = Some (ok, e')" "ok \<longleftrightarrow> length fin + length cur + 2 < n"
      "ok \<Longrightarrow> encoder_at n e' fin (cur @ [b])"
      using insert_value [OF IH.prems(1) 3] by blast
    have ne: "length cur \<noteq> 253" "length (cur @ [b]) \<le> 253" using 3(2) by simp_all
    show ?thesis
    proof (cases ok)
      case True
      from IH.IH(3) [OF 3(1) ne(1) i(3) [OF True] ne(2)] show ?thesis using 3 ne True i(1) by simp
    next
      case False
      then show ?thesis using i 3 ne(1) cobs_blocks_min [of "cur @ [b]" bs] by simp
    qed
  qed
qed

text \<open>
  The encoder gives the blocks, when the target has room for them and one byte more; else it says so,
  and never writes past the end.
\<close>

lemma encode_cobs_eq:
  assumes "2 \<le> length target"
  shows "encode_cobs xs target = Some (if length (cobs_ref xs) < length target then (True, cobs_ref xs) else (False, []))"
proof -
  obtain e' where "cobs_insert_all (cobs_encoder_new target) xs = Some (length (cobs_ref xs) < length target, e')"
    "length (cobs_ref xs) < length target \<Longrightarrow> cobs_commit e' = Some (cobs_ref xs)"
    using insert_all_blocks [OF encoder_new [OF assms], of xs] by (auto simp: cobs_ref_def)
  then show ?thesis by (cases "length (cobs_ref xs) < length target") (simp_all add: encode_cobs_def)
qed

section \<open>The decoder reads the blocks\<close>

text \<open>What the decoder gives for a sequence of bytes, and the codes it is at.\<close>

fun decoded :: "cobs_decoder \<Rightarrow> byte list \<Rightarrow> byte list" where
  "decoded d [] = []"
| "decoded d (b # bs) = (case cobs_get d b of None \<Rightarrow> [] | Some v \<Rightarrow> [v]) @ decoded (cobs_advance d b) bs"

lemma decoded_block:
  "length cur \<le> 254 \<Longrightarrow>
   decoded \<lparr>cd_nonzero = z, cd_offset = of_nat (length cur + 1)\<rparr> (cur @ bs)
     = cur @ decoded \<lparr>cd_nonzero = z, cd_offset = 1\<rparr> bs"
proof (induction cur)
  case (Cons c cur)
  have "(of_nat (length (c # cur) + 1) :: byte) \<noteq> 1"
    using Cons.prems by (subst of_nat_byte_consts) auto
  moreover have "(of_nat (length (c # cur) + 1) :: byte) - 1 = of_nat (length cur + 1)" by simp
  ultimately show ?case
    using Cons unfolding append_Cons decoded.simps cobs_get_def cobs_advance_def by simp
qed simp

lemma decoded_code:
  "decoded \<lparr>cd_nonzero = z, cd_offset = 1\<rparr> (c # bs) = (if z then [] else [0]) @ decoded (cobs_decoder_of c) bs"
  by (simp add: cobs_get_def cobs_advance_def cobs_decoder_of_def)

lemma cobs_blocks_Cons: "\<exists>c bs. cobs_blocks cur xs = c # bs"
  using cobs_blocks_min [of cur xs] by (cases "cobs_blocks cur xs") auto

lemma decoded_blocks:
  "length cur \<le> 253 \<Longrightarrow> cobs_blocks cur xs = c # bs \<Longrightarrow> decoded (cobs_decoder_of c) bs = cur @ xs"
proof (induction cur xs arbitrary: c bs rule: cobs_blocks.induct)
  case (1 cur)
  then show ?case
    using decoded_block [of cur "False" "[]"] decoded_block [of cur "True" "[]"]
    by (cases "(of_nat (length cur + 1) :: byte) = 255") (auto simp: cobs_decoder_of_def)
next
  case IH: (2 cur b xs)
  obtain c' bs' where nxt: "cobs_blocks [] xs = c' # bs'" using cobs_blocks_Cons by blast
  consider "b = 0" | "b \<noteq> 0" "length cur = 253" | "b \<noteq> 0" "length cur \<noteq> 253" by blast
  then show ?case
  proof cases
    case 1
    have "(of_nat (length cur + 1) :: byte) \<noteq> 255"
      using IH.prems(1) by (subst of_nat_byte_consts) auto
    then show ?thesis
      using 1 IH.prems IH.IH(1) [OF 1 _ nxt] nxt decoded_block [of cur False "c' # bs'"] decoded_code [of False c' bs']
      by (auto simp: cobs_decoder_of_def)
  next
    case 2
    have "length (cur @ [b]) \<le> 254" "(of_nat (length (cur @ [b]) + 1) :: byte) = 255" using 2 by simp_all
    then have "decoded (cobs_decoder_of 255) ((cur @ [b]) @ c' # bs') = (cur @ [b]) @ decoded (cobs_decoder_of c') bs'"
      using decoded_block [of "cur @ [b]" True "c' # bs'"] decoded_code [of True c' bs']
      by (simp add: cobs_decoder_of_def)
    then show ?thesis using 2 IH.prems(2) IH.IH(2) [OF 2 _ nxt] nxt by auto
  next
    case 3
    have len: "length (cur @ [b]) \<le> 253" using 3 IH.prems(1) by simp
    have "cobs_blocks (cur @ [b]) xs = c # bs" using 3 IH.prems(2) by simp
    from IH.IH(3) [OF 3 len this] show ?thesis by simp
  qed
qed

lemma decode_loop_eq:
  "pos < length target \<Longrightarrow>
   decode_loop d bs target pos = Some
     (if pos + length (decoded d bs) < length target then (True, take pos target @ decoded d bs)
      else (False, take (length target) (take pos target @ decoded d bs)))"
proof (induction bs arbitrary: d target pos)
  case (Cons b bs)
  show ?case
  proof (cases "cobs_get d b")
    case None
    then show ?thesis using Cons.IH [OF Cons.prems] by (simp add: cobs_iter_def)
  next
    case (Some v)
    have w: "write_at target pos v = Some (target [pos := v])" using Cons.prems by (simp add: write_at_def)
    have t: "take (pos + 1) (target [pos := v]) = take pos target @ [v]"
      using Cons.prems by (simp add: take_Suc_conv_app_nth)
    show ?thesis
    proof (cases "pos + 1 = length target")
      case True
      have "target [pos := v] = take pos target @ [v]" using t True by (metis length_list_update take_all_iff order_refl)
      moreover have "length target - pos = Suc 0" using True by simp
      ultimately show ?thesis using Some w True by (simp add: cobs_iter_def)
    next
      case False
      then have lt: "pos + 1 < length (target [pos := v])" using Cons.prems by simp
      from Cons.IH [OF lt, of "cobs_advance d b"] show ?thesis
        using Some w False t by (simp add: cobs_iter_def)
    qed
  qed
qed simp

lemma decode_cobs_blocks:
  assumes "target \<noteq> []"
  shows "decode_cobs (cobs_ref xs) target = Some
    (if length xs < length target then (True, xs) else (False, take (length target) xs))"
proof -
  obtain c bs where blocks: "cobs_blocks [] xs = c # bs" using cobs_blocks_Cons by blast
  have "decoded (cobs_decoder_of c) bs = xs" using decoded_blocks [OF _ blocks] by simp
  then show ?thesis
    using assms decode_loop_eq [of 0 target "cobs_decoder_of c" bs] blocks
    by (simp add: decode_cobs_def cobs_ref_def)
qed

section \<open>The view decodes the same\<close>

text \<open>The sequences on which the iterator never stands on a byte without a value.\<close>

fun iterates :: "cobs_decoder \<Rightarrow> byte list \<Rightarrow> bool" where
  "iterates d [] = True"
| "iterates d (b # bs) \<longleftrightarrow> \<not> cobs_non_value_byte d \<and>
     (if cobs_non_value_byte (cobs_advance d b)
      then (case bs of [] \<Rightarrow> False | c # cs \<Rightarrow> iterates (cobs_advance (cobs_advance d b) c) cs)
      else iterates (cobs_advance d b) bs)"

lemma ci_collect_eq:
  "iterates d bs \<Longrightarrow> length bs \<le> fuel \<Longrightarrow>
   ci_collect fuel (pre @ bs @ post) (d, length pre) (x, length pre + length bs) = Some (decoded d bs)"
proof (induction d bs arbitrary: fuel pre rule: iterates.induct)
  case (1 d)
  then show ?case by (cases fuel) simp_all
next
  case (2 d b bs)
  obtain n where fuel: "fuel = Suc n" "length bs \<le> n" using "2.prems"(2) by (cases fuel) auto
  have "cobs_get d b \<noteq> None" using "2.prems"(1) by (auto simp: cobs_get_def cobs_non_value_byte_def)
  then obtain v where v: "cobs_get d b = Some v" by blast
  have deref: "ci_deref (pre @ (b # bs) @ post) (d, length pre) = Some v"
    using v by (simp add: ci_deref_def read_at_def nth_append)
  show ?case
  proof (cases "cobs_non_value_byte (cobs_advance d b)")
    case False
    then have nxt: "ci_next (pre @ (b # bs) @ post) (d, length pre) = Some (cobs_advance d b, length (pre @ [b]))"
      by (simp add: ci_next_def read_at_def nth_append)
    have "ci_collect n ((pre @ [b]) @ bs @ post) (cobs_advance d b, length (pre @ [b])) (x, length (pre @ [b]) + length bs)
        = Some (decoded (cobs_advance d b) bs)"
      using "2.prems" False fuel by (intro "2.IH"(2)) auto
    then show ?thesis using fuel deref nxt v by simp
  next
    case True
    then obtain c cs where bs: "bs = c # cs" using "2.prems"(1) by (auto split: list.splits)
    have nxt: "ci_next (pre @ (b # bs) @ post) (d, length pre)
        = Some (cobs_advance (cobs_advance d b) c, length (pre @ [b, c]))"
      using True bs by (simp add: ci_next_def read_at_def nth_append)
    have "cobs_get (cobs_advance d b) c = None" using True by (simp add: cobs_get_def cobs_non_value_byte_def)
    moreover have "ci_collect n ((pre @ [b, c]) @ cs @ post) (cobs_advance (cobs_advance d b) c, length (pre @ [b, c]))
        (x, length (pre @ [b, c]) + length cs) = Some (decoded (cobs_advance (cobs_advance d b) c) cs)"
      using "2.prems" True fuel bs by (intro "2.IH"(1) [OF True bs]) auto
    ultimately show ?thesis using fuel deref nxt v bs by simp
  qed
qed

lemma iterates_code: "iterates \<lparr>cd_nonzero = False, cd_offset = 1\<rparr> (c # bs) \<longleftrightarrow> iterates (cobs_decoder_of c) bs"
  by (auto simp: cobs_non_value_byte_def cobs_advance_def cobs_decoder_of_def)

lemma iterates_block:
  "length cur \<le> 254 \<Longrightarrow> (cur = [] \<Longrightarrow> \<not> z) \<Longrightarrow>
   iterates \<lparr>cd_nonzero = z, cd_offset = of_nat (length cur + 1)\<rparr> (cur @ bs) \<longleftrightarrow>
     (if z then (case bs of [] \<Rightarrow> False | c # cs \<Rightarrow> iterates (cobs_decoder_of c) cs)
      else iterates \<lparr>cd_nonzero = False, cd_offset = 1\<rparr> bs)"
proof (induction cur)
  case (Cons c cur)
  let ?d = "\<lparr>cd_nonzero = z, cd_offset = of_nat (length (c # cur) + 1)\<rparr>"
  have ne: "(of_nat (length (c # cur) + 1) :: byte) \<noteq> 1"
    using Cons.prems by (subst of_nat_byte_consts) auto
  have "(of_nat (length (c # cur) + 1) :: byte) - 1 = of_nat (length cur + 1)" by simp
  then have adv: "cobs_advance ?d c = \<lparr>cd_nonzero = z, cd_offset = of_nat (length cur + 1)\<rparr>"
    using ne unfolding cobs_advance_def by simp
  have nv: "\<not> cobs_non_value_byte ?d" using ne by (simp add: cobs_non_value_byte_def)
  show ?case
  proof (cases "cur = []")
    case True
    then have adv1: "cobs_advance ?d c = \<lparr>cd_nonzero = z, cd_offset = 1\<rparr>" using adv by simp
    show ?thesis
      unfolding append_Cons iterates.simps adv1 using nv True
      by (auto simp: cobs_non_value_byte_def cobs_advance_def cobs_decoder_of_def split: list.split)
  next
    case False
    then have "(of_nat (length cur + 1) :: byte) \<noteq> 1"
      using Cons.prems by (subst of_nat_byte_consts) auto
    then have nv': "\<not> cobs_non_value_byte (cobs_advance ?d c)" unfolding adv by (simp add: cobs_non_value_byte_def)
    have "length cur \<le> 254" using Cons.prems(1) by simp
    note ih = Cons.IH [OF this, folded adv]
    show ?thesis
      unfolding append_Cons iterates.simps using ih False nv nv' by (simp only: simp_thms if_False)
  qed
qed simp

lemma iterates_blocks:
  "length cur \<le> 253 \<Longrightarrow> cobs_blocks cur xs = c # bs \<Longrightarrow> iterates (cobs_decoder_of c) bs"
proof (induction cur xs arbitrary: c bs rule: cobs_blocks.induct)
  case (1 cur)
  have "(of_nat (length cur + 1) :: byte) \<noteq> 255" using "1.prems" by (subst of_nat_byte_consts) auto
  then show ?case
    using "1.prems" iterates_block [of cur False "[]"] by (auto simp: cobs_decoder_of_def)
next
  case IH: (2 cur b xs)
  obtain c' bs' where nxt: "cobs_blocks [] xs = c' # bs'" using cobs_blocks_Cons by blast
  consider "b = 0" | "b \<noteq> 0" "length cur = 253" | "b \<noteq> 0" "length cur \<noteq> 253" by blast
  then show ?case
  proof cases
    case 1
    have "(of_nat (length cur + 1) :: byte) \<noteq> 255"
      using IH.prems(1) by (subst of_nat_byte_consts) auto
    then show ?thesis
      using 1 IH.prems IH.IH(1) [OF 1 _ nxt] nxt iterates_block [of cur False "c' # bs'"] iterates_code [of c' bs']
      by (auto simp: cobs_decoder_of_def)
  next
    case 2
    have "length (cur @ [b]) \<le> 254" "(of_nat (length (cur @ [b]) + 1) :: byte) = 255" using 2 by simp_all
    then have "iterates (cobs_decoder_of 255) ((cur @ [b]) @ c' # bs') = iterates (cobs_decoder_of c') bs'"
      using iterates_block [of "cur @ [b]" True "c' # bs'"] by (simp add: cobs_decoder_of_def)
    then show ?thesis using 2 IH.prems(2) IH.IH(2) [OF 2 _ nxt] nxt by auto
  next
    case 3
    have len: "length (cur @ [b]) \<le> 253" using 3 IH.prems(1) by simp
    have "cobs_blocks (cur @ [b]) xs = c # bs" using 3 IH.prems(2) by simp
    from IH.IH(3) [OF 3 len this] show ?thesis .
  qed
qed

lemma find_item_append: "x \<notin> set xs \<Longrightarrow> find_item (xs @ x # ys) x = length xs"
  by (induction xs) (auto simp: find_item_def)

lemma decode_view_blocks: "decode_view_all (cobs_ref xs @ 0 # rest) = Some xs"
proof -
  obtain c bs where blocks: "cobs_blocks [] xs = c # bs" using cobs_blocks_Cons by blast
  have it: "iterates (cobs_decoder_of c) bs" using iterates_blocks [OF _ blocks] by simp
  have dec: "decoded (cobs_decoder_of c) bs = xs" using decoded_blocks [OF _ blocks] by simp
  have "0 \<notin> set (c # bs)" using cobs_blocks_nonzero [of "[]" xs] blocks by simp
  then have stop: "find_item ((c # bs) @ 0 # rest) 0 = length (c # bs)" by (rule find_item_append)
  have "cobs_advance cobs_decoder_default c = cobs_decoder_of c" "\<not> cobs_non_value_byte (cobs_decoder_of c)"
    by (auto simp: cobs_advance_def cobs_decoder_default_def cobs_decoder_of_def cobs_non_value_byte_def)
  then have "cobs_decode_view ((c # bs) @ 0 # rest) = Some ((cobs_decoder_of c, 1), (cobs_decoder_default, length (c # bs)))"
    using stop by (simp add: cobs_decode_view_def ci_next_def read_at_def)
  moreover have "ci_collect (length ((c # bs) @ 0 # rest)) ([c] @ bs @ 0 # rest) (cobs_decoder_of c, length [c])
      (cobs_decoder_default, length [c] + length bs) = Some xs"
    using ci_collect_eq [OF it, of "length ((c # bs) @ 0 # rest)" "[c]" "0 # rest"] dec by simp
  ultimately show ?thesis using blocks by (simp add: decode_view_all_def cobs_ref_def)
qed

end
