(* ===== verification/Message.thy ===== *)
theory Message
  imports ProtoTraits
begin

text \<open>
  \<open>protocol/message.hpp\<close>: an array of \<open>N\<close> bytes that remembers how many of them are used.  The array
  of a new message is not initialised: what it holds is an argument, \<open>raw\<close>.
\<close>

section \<open>Messages\<close>

record message =
  ms_data :: "byte list"
  ms_used :: nat

definition msg_new :: "byte list \<Rightarrow> message" where
  "msg_new raw = \<lparr>ms_data = raw, ms_used = 0\<rparr>"

definition msg_of_size :: "byte list \<Rightarrow> nat \<Rightarrow> message" where
  "msg_of_size raw n = \<lparr>ms_data = raw, ms_used = n\<rparr>"

text \<open>The bytes from \<open>begin()\<close> to \<open>end()\<close>: undefined when more are used than there are.\<close>

definition msg_bytes :: "message \<Rightarrow> byte list option" where
  "msg_bytes m = (if ms_used m \<le> length (ms_data m) then Some (take (ms_used m) (ms_data m)) else None)"

definition msg_of_view :: "byte list \<Rightarrow> byte list \<Rightarrow> message option" where
  "msg_of_view raw v = do {
     data \<leftarrow> copy_n v (length v) 0 raw;
     Some \<lparr>ms_data = data, ms_used = length v\<rparr>
   }"

text \<open>From a message or an array of at most as many bytes, and from single bytes.\<close>

definition msg_of_message :: "byte list \<Rightarrow> message \<Rightarrow> message option" where
  "msg_of_message raw other = do { v \<leftarrow> msg_bytes other; msg_of_view raw v }"

definition msg_of_array :: "byte list \<Rightarrow> byte list \<Rightarrow> message option" where
  "msg_of_array raw inpt = msg_of_view raw inpt"

definition msg_of_bytes :: "nat \<Rightarrow> byte list \<Rightarrow> message option" where
  "msg_of_bytes N inpt =
     (if length inpt \<le> N then Some \<lparr>ms_data = inpt @ replicate (N - length inpt) 0, ms_used = length inpt\<rparr>
      else None)"

definition msg_assign :: "message \<Rightarrow> message \<Rightarrow> message option" where
  "msg_assign m other = do {
     v \<leftarrow> msg_bytes other;
     data \<leftarrow> copy_n v (length v) 0 (ms_data m);
     Some \<lparr>ms_data = data, ms_used = ms_used other\<rparr>
   }"

definition msg_size :: "message \<Rightarrow> nat" where
  "msg_size m = ms_used m"

definition msg_at :: "message \<Rightarrow> nat \<Rightarrow> byte option" where
  "msg_at m i = (if i < length (ms_data m) then Some (ms_data m ! i) else None)"

definition msg_front :: "message \<Rightarrow> byte option" where
  "msg_front m = msg_at m 0"

definition msg_back :: "message \<Rightarrow> byte option" where
  "msg_back m = msg_at m (size_minus (ms_used m) 1)"

definition msg_resize :: "message \<Rightarrow> nat \<Rightarrow> message" where
  "msg_resize m n = m\<lparr>ms_used := n\<rparr>"

definition msg_eq :: "message \<Rightarrow> message \<Rightarrow> bool option" where
  "msg_eq lh rh = do { x \<leftarrow> msg_bytes lh; y \<leftarrow> msg_bytes rh; Some (x = y) }"

section \<open>Facts\<close>

text \<open>A message of \<open>N\<close> bytes that uses no more than there are.\<close>

definition msg_ok :: "nat \<Rightarrow> message \<Rightarrow> bool" where
  "msg_ok N m \<longleftrightarrow> length (ms_data m) = N \<and> ms_used m \<le> N"

lemma msg_bytes_ok: "msg_ok N m \<Longrightarrow> msg_bytes m = Some (take (ms_used m) (ms_data m))"
  by (simp add: msg_ok_def msg_bytes_def)

lemma msg_of_view_eq:
  "length raw = N \<Longrightarrow> length v \<le> N \<Longrightarrow>
   \<exists>m. msg_of_view raw v = Some m \<and> msg_ok N m \<and> msg_bytes m = Some v"
  by (auto simp: msg_of_view_def copy_n_def msg_ok_def msg_bytes_def)

lemma msg_of_view_long: "length raw < length v \<Longrightarrow> msg_of_view raw v = None"
  by (simp add: msg_of_view_def copy_n_def)

lemma msg_assign_eq:
  "msg_ok N m \<Longrightarrow> msg_ok M other \<Longrightarrow> M \<le> N \<Longrightarrow>
   \<exists>m'. msg_assign m other = Some m' \<and> msg_ok N m' \<and> msg_bytes m' = msg_bytes other"
  by (auto simp: msg_assign_def msg_bytes_def copy_n_def msg_ok_def min_def)

lemma msg_of_message_eq:
  "length raw = N \<Longrightarrow> msg_ok M other \<Longrightarrow> M \<le> N \<Longrightarrow>
   \<exists>m. msg_of_message raw other = Some m \<and> msg_ok N m \<and> msg_bytes m = msg_bytes other"
  using msg_of_view_eq [of raw N "take (ms_used other) (ms_data other)"]
  by (auto simp: msg_of_message_def msg_bytes_ok msg_ok_def min_def)

lemma msg_of_bytes_eq:
  "length inpt \<le> N \<Longrightarrow> \<exists>m. msg_of_bytes N inpt = Some m \<and> msg_ok N m \<and> msg_bytes m = Some inpt"
  by (simp add: msg_of_bytes_def msg_ok_def msg_bytes_def)

text \<open>Equality is that of the used bytes, whatever the rest of the arrays holds.\<close>

lemma msg_eq_iff: "msg_ok N a \<Longrightarrow> msg_ok N b \<Longrightarrow> msg_eq a b = Some (msg_bytes a = msg_bytes b)"
  by (simp add: msg_eq_def msg_bytes_ok)

lemma msg_resize_prefix:
  "msg_ok N m \<Longrightarrow> n \<le> ms_used m \<Longrightarrow> msg_bytes (msg_resize m n) = map_option (take n) (msg_bytes m)"
  by (simp add: msg_resize_def msg_bytes_def msg_ok_def min_def)

lemma msg_back_eq:
  "msg_ok N m \<Longrightarrow> ms_used m \<noteq> 0 \<Longrightarrow> N < 2 ^ 64 \<Longrightarrow> msg_bytes m = Some v \<Longrightarrow>
   msg_back m = Some (last v) \<and> msg_front m = Some (hd v)"
  by (cases "ms_data m")
    (auto simp: msg_back_def msg_front_def msg_at_def msg_ok_def msg_bytes_def size_minus_le last_conv_nth hd_conv_nth)

end
