(* ===== verification/MemoryResource.thy ===== *)
theory MemoryResource
  imports StringBuffer "HOL-Library.Multiset"
begin

text \<open>
  \<open>pmr/util.hpp\<close>, the interface of \<open>pmr/memory_resource.hpp\<close> as a locale, and the client of it,
  \<open>pmr/allocator.hpp\<close>.  An address is a natural number below \<open>2 ^ 64\<close>; the result of \<open>allocate\<close> is an
  optional address, \<^const>\<open>None\<close> being the null pointer.  The option around the results is undefined
  behaviour.
\<close>

section \<open>Alignment\<close>

definition align_addr :: "64 word \<Rightarrow> 64 word \<Rightarrow> 64 word" where
  "align_addr addr alignment =
     (let low_bit_mask = alignment - 1 in (addr + low_bit_mask) AND NOT low_bit_mask)"

text \<open>\<open>align\<close>: the pointer advanced by the difference of the addresses.\<close>

definition align :: "nat \<Rightarrow> nat \<Rightarrow> nat" where
  "align ptr alignment =
     (let iptr = of_nat ptr; addr = align_addr iptr (of_nat alignment)
      in (ptr + unat (addr - iptr)) mod 2 ^ 64)"

lemma and_not_mask_push: "x AND NOT (mask k) = push_bit k (drop_bit k (x :: 64 word))"
  by (rule bit_word_eqI) (auto simp: bit_simps)

text \<open>For a power of two, the least multiple of it that is not below.\<close>

lemma align_addr_eq:
  assumes "k < 64" "a + 2 ^ k \<le> 2 ^ 64"
  shows "unat (align_addr (of_nat a) (of_nat (2 ^ k))) = (a + 2 ^ k - 1) div 2 ^ k * 2 ^ k"
proof -
  have m: "(of_nat (2 ^ k) - 1 :: 64 word) = mask k" by (simp add: mask_eq_decr_exp)
  have lt: "a + 2 ^ k - 1 < 2 ^ 64" using assms(2) by (simp add: less_eq_Suc_le [symmetric] Suc_le_lessD)
  have "(of_nat (2 ^ k - 1) :: 64 word) = mask k" by (simp add: mask_eq_decr_exp of_nat_diff)
  moreover have "a + 2 ^ k - 1 = a + (2 ^ k - 1)" by simp
  ultimately have sum: "(of_nat a :: 64 word) + mask k = of_nat (a + 2 ^ k - 1)" by (simp only: of_nat_add)
  have u: "unat (of_nat (a + 2 ^ k - 1) :: 64 word) = a + 2 ^ k - 1"
    using lt by (simp add: unat_of_nat)
  have "unat (push_bit k (drop_bit k (of_nat (a + 2 ^ k - 1) :: 64 word)))
      = (a + 2 ^ k - 1) div 2 ^ k * 2 ^ k mod 2 ^ 64"
    unfolding unsigned_push_bit_eq unsigned_drop_bit_eq u
    using lt by (simp add: push_bit_eq_mult drop_bit_eq_div take_bit_eq_mod mult.commute)
  also have "\<dots> = (a + 2 ^ k - 1) div 2 ^ k * 2 ^ k"
    by (rule mod_less, rule le_less_trans [OF div_times_less_eq_dividend lt])
  finally show ?thesis unfolding align_addr_def Let_def m sum and_not_mask_push .
qed

lemma align_up:
  assumes "0 < (m :: nat)"
  shows "a \<le> (a + m - 1) div m * m" "(a + m - 1) div m * m < a + m" "m dvd (a + m - 1) div m * m"
proof -
  have "(a + m - 1) = (a + m - 1) div m * m + (a + m - 1) mod m" by simp
  moreover have "(a + m - 1) mod m < m" using assms by simp
  ultimately show "a \<le> (a + m - 1) div m * m" "(a + m - 1) div m * m < a + m" using assms by linarith+
qed simp

lemma align_eq:
  assumes "k < 64" "a + 2 ^ k \<le> 2 ^ 64"
  shows "align a (2 ^ k) = (a + 2 ^ k - 1) div 2 ^ k * 2 ^ k"
proof -
  let ?r = "(a + 2 ^ k - 1) div 2 ^ k * 2 ^ k" and ?x = "align_addr (of_nat a) (of_nat (2 ^ k))"
  have r: "a \<le> ?r" "?r < 2 ^ 64" using align_up [of "2 ^ k" a] assms(2) by auto
  have x: "unat ?x = ?r" by (rule align_addr_eq [OF assms])
  have a: "unat (of_nat a :: 64 word) = a" using r by (simp add: unat_of_nat)
  then have "(of_nat a :: 64 word) \<le> ?x" using x r by (simp add: word_le_nat_alt)
  then have "unat (?x - of_nat a) = ?r - a" using x a by (simp add: unat_sub)
  then show ?thesis using r by (simp add: align_def Let_def)
qed

section \<open>The allocator\<close>

text \<open>
  \<open>allocator< T >\<close> over a resource: \<open>sz\<close> and \<open>al\<close> are \<open>sizeof( T )\<close> and \<open>alignof( T )\<close>.  The product
  \<open>n * sizeof( T )\<close> is one of \<open>size_t\<close>.
\<close>

datatype alloc_error = BadAlloc

type_synonym 'r allocate_fn = "'r \<Rightarrow> nat \<Rightarrow> nat \<Rightarrow> (nat option \<times> 'r) option"
type_synonym 'r deallocate_fn = "'r \<Rightarrow> nat \<Rightarrow> nat \<Rightarrow> nat \<Rightarrow> (bool \<times> 'r) option"

definition allocator_allocate ::
  "'r allocate_fn \<Rightarrow> nat \<Rightarrow> nat \<Rightarrow> 'r \<Rightarrow> nat \<Rightarrow> ((alloc_error + nat) \<times> 'r) option" where
  "allocator_allocate alloc sz al r n = do {
     (res, r) \<leftarrow> alloc r (n * sz mod 2 ^ 64) al;
     Some (case res of None \<Rightarrow> Inl BadAlloc | Some p \<Rightarrow> Inr p, r)
   }"

definition allocator_deallocate ::
  "'r deallocate_fn \<Rightarrow> nat \<Rightarrow> nat \<Rightarrow> 'r \<Rightarrow> nat \<Rightarrow> nat \<Rightarrow> ((alloc_error + unit) \<times> 'r) option" where
  "allocator_deallocate dealloc sz al r p n = do {
     (res, r) \<leftarrow> dealloc r p (n * sz mod 2 ^ 64) al;
     Some (if res then Inr () else Inl BadAlloc, r)
   }"

text \<open>
  A client of the allocator is a list of requests, in which a block is named by its index in the list
  of the blocks the client has.  A failing \<open>deallocate\<close> ends the run: the exception would leave a
  destructor.
\<close>

datatype request = Allocate nat | Deallocate nat

fun serve ::
  "'r allocate_fn \<Rightarrow> 'r deallocate_fn \<Rightarrow> nat \<Rightarrow> nat \<Rightarrow> request list \<Rightarrow> 'r \<times> (nat \<times> nat) list \<Rightarrow>
    ('r \<times> (nat \<times> nat) list) option" where
  "serve alloc dealloc sz al [] s = Some s"
| "serve alloc dealloc sz al (Allocate n # rs) (r, hs) = do {
     (res, r) \<leftarrow> allocator_allocate alloc sz al r n;
     serve alloc dealloc sz al rs (r, case res of Inl _ \<Rightarrow> hs | Inr p \<Rightarrow> (p, n) # hs)
   }"
| "serve alloc dealloc sz al (Deallocate i # rs) (r, hs) =
     (if i < length hs then do {
        (res, r) \<leftarrow> allocator_deallocate dealloc sz al r (fst (hs ! i)) (snd (hs ! i));
        (if res = Inr () then serve alloc dealloc sz al rs (r, take i hs @ drop (Suc i) hs) else None)
      } else serve alloc dealloc sz al rs (r, hs))"

section \<open>The interface\<close>

text \<open>
  What a resource promises.  \<open>ok r live\<close> is its invariant when the blocks \<open>live\<close> (address and size) have
  been given and not been taken back; the resource chooses the order of the list.
\<close>

definition disjoint_blocks :: "nat \<times> nat \<Rightarrow> nat \<times> nat \<Rightarrow> bool" where
  "disjoint_blocks a b \<longleftrightarrow> fst a + snd a \<le> fst b \<or> fst b + snd b \<le> fst a"

definition block_of :: "nat \<Rightarrow> nat \<times> nat \<Rightarrow> nat \<times> nat" where
  "block_of sz h = (fst h, snd h * sz)"

lemma disjoint_blocks_sym: "disjoint_blocks a b \<longleftrightarrow> disjoint_blocks b a"
  by (auto simp: disjoint_blocks_def)

lemma split_list_nth2:
  assumes "i < j" "j < length xs"
  shows "\<exists>us ws vs. xs = us @ xs ! i # ws @ xs ! j # vs"
proof -
  have "drop (Suc i) xs = take (j - Suc i) (drop (Suc i) xs) @ xs ! j # drop (Suc j) xs"
    using assms id_take_nth_drop [of "j - Suc i" "drop (Suc i) xs"] by simp
  then show ?thesis using id_take_nth_drop [of i xs] assms by (metis order_less_trans)
qed

lemma mset_split_two:
  assumes "mset xs = mset (us @ a # ws @ b # vs)"
  shows "(\<exists>us ws vs. xs = us @ a # ws @ b # vs) \<or> (\<exists>us ws vs. xs = us @ b # ws @ a # vs)"
proof -
  have "a \<in> set xs" using assms by (metis in_set_conv_decomp set_mset_mset)
  then obtain ys zs where xs: "xs = ys @ a # zs" by (meson split_list)
  have "mset (ys @ zs) = mset (us @ ws @ b # vs)" using assms xs by simp
  then have "b \<in> set (ys @ zs)" by (metis append_assoc in_set_conv_decomp set_mset_mset)
  then consider "b \<in> set ys" | "b \<in> set zs" by auto
  then show ?thesis
  proof cases
    case 1
    then obtain y1 y2 where "xs = y1 @ b # y2 @ a # zs" using xs by (metis append.assoc append_Cons split_list)
    then show ?thesis by blast
  next
    case 2
    then obtain z1 z2 where "xs = ys @ a # z1 @ b # z2" using xs by (metis split_list)
    then show ?thesis by blast
  qed
qed

text \<open>The alignments are powers of two up to the size of a page; a resource says which of them it serves.\<close>

definition max_align_log :: nat where
  "max_align_log = 12"

lemma align_log_less:
  assumes "k \<le> max_align_log"
  shows "k < 64" "(2 :: nat) ^ k \<le> 2 ^ max_align_log"
  using assms by (simp add: max_align_log_def, intro power_increasing) auto

locale memory_resource =
  fixes alloc :: "'r allocate_fn" and dealloc :: "'r deallocate_fn" and ok :: "'r \<Rightarrow> (nat \<times> nat) list \<Rightarrow> bool"
    and served :: "nat \<Rightarrow> bool" and lo hi :: nat
  assumes alloc_law: "ok r live \<Longrightarrow> 0 < bytes \<Longrightarrow> bytes < 2 ^ 63 \<Longrightarrow> served k \<Longrightarrow>
      \<exists>res r'. alloc r bytes (2 ^ k) = Some (res, r') \<and>
        (case res of
           None \<Rightarrow> r' = r
         | Some p \<Rightarrow> 2 ^ k dvd p \<and> (\<exists>us vs. live = us @ vs \<and> ok r' (us @ (p, bytes) # vs)))"
    and dealloc_law: "ok r (us @ (p, bytes) # vs) \<Longrightarrow> 0 < bytes \<Longrightarrow> served k \<Longrightarrow>
      \<exists>r'. dealloc r p bytes (2 ^ k) = Some (True, r') \<and> ok r' (us @ vs)"
    and blocks_in: "ok r live \<Longrightarrow> blk \<in> set live \<Longrightarrow> lo \<le> fst blk \<and> fst blk + snd blk \<le> hi"
    and blocks_disjoint: "ok r (us @ a # ws @ b # vs) \<Longrightarrow> disjoint_blocks a b"
begin

text \<open>The client's list is the resource's, in another order.\<close>

definition tracks :: "nat \<Rightarrow> nat \<Rightarrow> 'r \<times> (nat \<times> nat) list \<Rightarrow> bool" where
  "tracks sz k s \<longleftrightarrow> (\<exists>live. ok (fst s) live \<and> mset live = mset (map (block_of sz) (snd s))) \<and>
     (\<forall>h \<in> set (snd s). 0 < snd h \<and> snd h * sz < 2 ^ 63 \<and> 2 ^ k dvd fst h)"

lemma tracks_disjoint:
  assumes "tracks sz k (r, hs)" "i < j" "j < length hs"
  shows "disjoint_blocks (block_of sz (hs ! i)) (block_of sz (hs ! j))"
proof -
  obtain live where ok: "ok r live" and eq: "mset live = mset (map (block_of sz) hs)"
    using assms(1) by (auto simp: tracks_def)
  obtain us ws vs where "hs = us @ hs ! i # ws @ hs ! j # vs" using split_list_nth2 [OF assms(2,3)] by blast
  then have "map (block_of sz) hs = map (block_of sz) us @ block_of sz (hs ! i) # map (block_of sz) ws
      @ block_of sz (hs ! j) # map (block_of sz) vs" by (metis list.simps(9) map_append)
  then have "mset live = mset (map (block_of sz) us @ block_of sz (hs ! i) # map (block_of sz) ws
      @ block_of sz (hs ! j) # map (block_of sz) vs)" using eq by simp
  from mset_split_two [OF this] show ?thesis using ok blocks_disjoint disjoint_blocks_sym by metis
qed

lemma tracks_in:
  assumes "tracks sz k (r, hs)" "h \<in> set hs"
  shows "2 ^ k dvd fst h" "lo \<le> fst h" "fst h + snd h * sz \<le> hi"
proof -
  obtain live where ok: "ok r live" and eq: "mset live = mset (map (block_of sz) hs)"
    using assms(1) by (auto simp: tracks_def)
  from eq have "set live = block_of sz ` set hs" by (metis set_map set_mset_mset)
  then have "block_of sz h \<in> set live" using assms(2) by blast
  from blocks_in [OF ok this] show "lo \<le> fst h" "fst h + snd h * sz \<le> hi" by (simp_all add: block_of_def)
  show "2 ^ k dvd fst h" using assms by (simp add: tracks_def)
qed

lemma allocate_tracks:
  assumes tr: "tracks sz k (r, hs)" and n: "0 < n" "0 < sz" "n * sz < 2 ^ 63" and k: "served k"
  shows "\<exists>res r'. allocator_allocate alloc sz (2 ^ k) r n = Some (res, r') \<and>
    tracks sz k (r', case res of Inl _ \<Rightarrow> hs | Inr p \<Rightarrow> (p, n) # hs) \<and> (isl res \<longrightarrow> r' = r)"
proof -
  obtain live where ok: "ok r live" and eq: "mset live = mset (map (block_of sz) hs)"
    using tr by (auto simp: tracks_def)
  have "n * sz mod 2 ^ 64 = n * sz" "0 < n * sz" using n by simp_all
  with alloc_law [OF ok _ n(3) k] obtain res r' where
    step: "alloc r (n * sz mod 2 ^ 64) (2 ^ k) = Some (res, r')" and
    res: "case res of None \<Rightarrow> r' = r
      | Some p \<Rightarrow> 2 ^ k dvd p \<and> (\<exists>us vs. live = us @ vs \<and> ok r' (us @ (p, n * sz) # vs))" by auto
  show ?thesis
  proof (cases res)
    case None
    then show ?thesis using step res tr by (simp add: allocator_allocate_def)
  next
    case (Some p)
    with res obtain us vs where "2 ^ k dvd p" "live = us @ vs" "ok r' (us @ (p, n * sz) # vs)" by auto
    moreover from this eq have "mset (us @ (p, n * sz) # vs) = mset (map (block_of sz) ((p, n) # hs))"
      by (simp add: block_of_def)
    ultimately have "tracks sz k (r', (p, n) # hs)" using tr n unfolding tracks_def by (auto simp del: mset_append)
    then show ?thesis using step Some by (simp add: allocator_allocate_def)
  qed
qed

lemma deallocate_tracks:
  assumes tr: "tracks sz k (r, hs)" and i: "i < length hs" and sz: "0 < sz" and k: "served k"
  shows "\<exists>r'. allocator_deallocate dealloc sz (2 ^ k) r (fst (hs ! i)) (snd (hs ! i)) = Some (Inr (), r') \<and>
    tracks sz k (r', take i hs @ drop (Suc i) hs)"
proof -
  obtain live where ok: "ok r live" and eq: "mset live = mset (map (block_of sz) hs)"
    using tr by (auto simp: tracks_def)
  have hs: "hs = take i hs @ hs ! i # drop (Suc i) hs" by (rule id_take_nth_drop [OF i])
  let ?b = "block_of sz (hs ! i)"
  have rest: "mset (map (block_of sz) hs) = add_mset ?b (mset (map (block_of sz) (take i hs @ drop (Suc i) hs)))"
    by (subst hs) simp
  then have "?b \<in> set live" using eq by (metis set_mset_add_mset_insert insertI1 set_mset_mset)
  then obtain us vs where live: "live = us @ ?b # vs" by (meson split_list)
  have pos: "0 < snd (hs ! i)" "snd (hs ! i) * sz < 2 ^ 63" using tr i by (auto simp: tracks_def)
  then have m: "snd (hs ! i) * sz mod 2 ^ 64 = snd (hs ! i) * sz" "0 < snd (hs ! i) * sz" using sz by simp_all
  from dealloc_law [of r us "fst (hs ! i)" "snd (hs ! i) * sz" vs k] ok live m(2) k obtain r' where
    step: "dealloc r (fst (hs ! i)) (snd (hs ! i) * sz) (2 ^ k) = Some (True, r')" and ok': "ok r' (us @ vs)"
    by (auto simp: block_of_def)
  have "mset (us @ vs) = mset (map (block_of sz) (take i hs @ drop (Suc i) hs))"
    using eq rest live by simp
  with ok' tr have "tracks sz k (r', take i hs @ drop (Suc i) hs)"
    unfolding tracks_def by (auto simp del: mset_append dest: in_set_takeD in_set_dropD)
  then show ?thesis using step m(1) by (simp add: allocator_deallocate_def)
qed

text \<open>Every run of a client goes through, and its blocks are apart.\<close>

lemma serve_tracks:
  assumes "tracks sz k s" "0 < sz" "served k" "\<forall>n. Allocate n \<in> set rs \<longrightarrow> 0 < n \<and> n * sz < 2 ^ 63"
  shows "\<exists>s'. serve alloc dealloc sz (2 ^ k) rs s = Some s' \<and> tracks sz k s'"
  using assms
proof (induction rs arbitrary: s)
  case Nil
  then show ?case by simp
next
  case (Cons q rs)
  obtain r hs where s: "s = (r, hs)" by fastforce
  show ?case
  proof (cases q)
    case (Allocate n)
    then obtain res r' where "allocator_allocate alloc sz (2 ^ k) r n = Some (res, r')"
      "tracks sz k (r', case res of Inl _ \<Rightarrow> hs | Inr p \<Rightarrow> (p, n) # hs)"
      using allocate_tracks [of sz k r hs n] Cons.prems s by auto
    then show ?thesis using Cons.IH Cons.prems(2-4) Allocate s by simp
  next
    case (Deallocate i)
    show ?thesis
    proof (cases "i < length hs")
      case True
      then obtain r' where "allocator_deallocate dealloc sz (2 ^ k) r (fst (hs ! i)) (snd (hs ! i)) = Some (Inr (), r')"
        "tracks sz k (r', take i hs @ drop (Suc i) hs)"
        using deallocate_tracks [of sz k r hs i] Cons.prems s by auto
      then show ?thesis using Cons.IH Cons.prems(2-4) Deallocate s True by simp
    qed (use Cons Deallocate s in simp)
  qed
qed

text \<open>What a client sees, from a resource that has given nothing.\<close>

lemma serve_ok:
  assumes "ok r []" "0 < sz" "served k" "\<forall>n. Allocate n \<in> set rs \<longrightarrow> 0 < n \<and> n * sz < 2 ^ 63"
  shows "\<exists>r' hs. serve alloc dealloc sz (2 ^ k) rs (r, []) = Some (r', hs) \<and>
    (\<forall>h \<in> set hs. 2 ^ k dvd fst h \<and> lo \<le> fst h \<and> fst h + snd h * sz \<le> hi) \<and>
    (\<forall>i j. i < j \<longrightarrow> j < length hs \<longrightarrow> disjoint_blocks (block_of sz (hs ! i)) (block_of sz (hs ! j)))"
proof -
  have "tracks sz k (r, [])" using assms(1) by (auto simp: tracks_def)
  from serve_tracks [OF this assms(2-4)] obtain r' hs where
    "serve alloc dealloc sz (2 ^ k) rs (r, []) = Some (r', hs)" "tracks sz k (r', hs)" by auto
  moreover note tracks_in [OF this(2)] tracks_disjoint [OF this(2)]
  ultimately show ?thesis by auto
qed

end

end
