(* ===== verification/StaticVector.thy ===== *)
theory StaticVector
  imports CircularBuffer StringBuffer
begin

text \<open>
  \<open>static_vector.hpp\<close>: up to \<open>N\<close> elements in a \<open>static_storage\<close>.  A slot of the storage holds an
  object that is alive, or nothing; using a slot that holds nothing and destroying what is not there
  are undefined, and so is an access outside the storage.  An object that has been moved from stays
  alive, with the value it had, as the elements of the library are trivially copyable ones.
\<close>

section \<open>The vector\<close>

record 'a svec =
  sv_storage :: "'a option list"
  sv_count :: nat

definition sv_new :: "nat \<Rightarrow> 'a svec" where
  "sv_new N = \<lparr>sv_storage = replicate N None, sv_count = 0\<rparr>"

definition sv_capacity :: "'a svec \<Rightarrow> nat" where
  "sv_capacity v = length (sv_storage v)"

text \<open>\<open>begin()\<close> to \<open>end()\<close>, all of which must be alive.\<close>

definition sv_elems :: "'a svec \<Rightarrow> 'a list option" where
  "sv_elems v = live_n (sv_storage v) 0 (sv_count v)"

definition sv_at :: "'a svec \<Rightarrow> nat \<Rightarrow> 'a option" where
  "sv_at v i = (if i < sv_capacity v then sv_storage v ! i else None)"

definition sv_front :: "'a svec \<Rightarrow> 'a option" where
  "sv_front v = sv_at v 0"

text \<open>\<open>storage_[ size_ - 1 ]\<close>: the difference wraps around when there is no element.\<close>

definition sv_last_index :: "'a svec \<Rightarrow> nat" where
  "sv_last_index v = size_minus (sv_count v) 1"

definition sv_back :: "'a svec \<Rightarrow> 'a option" where
  "sv_back v = sv_at v (sv_last_index v)"

definition sv_empty :: "'a svec \<Rightarrow> bool" where
  "sv_empty v \<longleftrightarrow> sv_count v = 0"

definition sv_full :: "'a svec \<Rightarrow> bool" where
  "sv_full v \<longleftrightarrow> sv_count v = sv_capacity v"

definition sv_emplace_back :: "'a svec \<Rightarrow> 'a \<Rightarrow> 'a svec option" where
  "sv_emplace_back v x = do {
     st \<leftarrow> store_n (sv_storage v) (sv_count v) [x];
     Some \<lparr>sv_storage = st, sv_count = sv_count v + 1\<rparr>
   }"

definition sv_pop_back :: "'a svec \<Rightarrow> 'a svec option" where
  "sv_pop_back v = do {
     st \<leftarrow> delete_item (sv_storage v) (sv_last_index v);
     Some \<lparr>sv_storage = st, sv_count = size_minus (sv_count v) 1\<rparr>
   }"

definition sv_take_back :: "'a svec \<Rightarrow> ('a \<times> 'a svec) option" where
  "sv_take_back v = do {
     item \<leftarrow> sv_back v;
     v \<leftarrow> sv_pop_back v;
     Some (item, v)
   }"

text \<open>\<open>purge\<close>, which \<open>clear\<close> and the destructor call.\<close>

definition sv_clear :: "'a svec \<Rightarrow> 'a svec option" where
  "sv_clear v = do {
     st \<leftarrow> delete_n (sv_storage v) 0 (sv_count v);
     Some \<lparr>sv_storage = st, sv_count = 0\<rparr>
   }"

text \<open>\<open>copy_from\<close> and \<open>move_from\<close>: the elements of a container, from the first slot on.\<close>

definition sv_copy_from :: "'a svec \<Rightarrow> 'a list \<Rightarrow> 'a svec option" where
  "sv_copy_from v cont = do {
     st \<leftarrow> store_n (sv_storage v) 0 cont;
     Some \<lparr>sv_storage = st, sv_count = length cont\<rparr>
   }"

definition sv_of_vector :: "nat \<Rightarrow> 'a svec \<Rightarrow> 'a svec option" where
  "sv_of_vector N other = do { xs \<leftarrow> sv_elems other; sv_copy_from (sv_new N) xs }"

text \<open>The move constructor gives the new vector and what is left of the other one.\<close>

definition sv_move_vector :: "nat \<Rightarrow> 'a svec \<Rightarrow> ('a svec \<times> 'a svec) option" where
  "sv_move_vector N other = do {
     xs \<leftarrow> sv_elems other;
     v \<leftarrow> sv_copy_from (sv_new N) xs;
     other \<leftarrow> sv_clear other;
     Some (v, other)
   }"

definition sv_fill :: "nat \<Rightarrow> nat \<Rightarrow> 'a \<Rightarrow> 'a svec option" where
  "sv_fill N n item = (let n = min n N in do {
     st \<leftarrow> store_n (sv_storage (sv_new N)) 0 (replicate n item);
     Some \<lparr>sv_storage = st, sv_count = n\<rparr>
   })"

definition sv_of_array :: "nat \<Rightarrow> 'a list \<Rightarrow> 'a svec option" where
  "sv_of_array N data = sv_copy_from (sv_new N) data"

text \<open>Assignment from another vector (\<open>same\<close>: from itself) and from an array.\<close>

definition sv_assign :: "bool \<Rightarrow> 'a svec \<Rightarrow> 'a svec \<Rightarrow> 'a svec option" where
  "sv_assign same v other =
     (if same then Some v
      else do { v \<leftarrow> sv_clear v; xs \<leftarrow> sv_elems other; sv_copy_from v xs })"

definition sv_move_assign :: "bool \<Rightarrow> 'a svec \<Rightarrow> 'a svec \<Rightarrow> ('a svec \<times> 'a svec) option" where
  "sv_move_assign same v other =
     (if same then Some (v, other)
      else do {
        v \<leftarrow> sv_clear v;
        xs \<leftarrow> sv_elems other;
        v \<leftarrow> sv_copy_from v xs;
        other \<leftarrow> sv_clear other;
        Some (v, other)
      })"

definition sv_assign_array :: "'a svec \<Rightarrow> 'a list \<Rightarrow> 'a svec option" where
  "sv_assign_array v data = do { v \<leftarrow> sv_clear v; sv_copy_from v data }"

subsection \<open>Swap\<close>

text \<open>The three loops of \<open>swap\<close>, each from its first index on.\<close>

primrec sv_swap_items :: "nat \<Rightarrow> nat \<Rightarrow> 'a svec \<times> 'a svec \<Rightarrow> ('a svec \<times> 'a svec) option" where
  "sv_swap_items 0 i vw = Some vw"
| "sv_swap_items (Suc n) i vw = (case vw of (v, w) \<Rightarrow> do {
     x \<leftarrow> sv_at v i;
     y \<leftarrow> sv_at w i;
     sv_swap_items n (i + 1)
       (v\<lparr>sv_storage := (sv_storage v) [i := Some y]\<rparr>, w\<lparr>sv_storage := (sv_storage w) [i := Some x]\<rparr>)
   })"

primrec sv_append_items :: "nat \<Rightarrow> nat \<Rightarrow> 'a svec \<Rightarrow> 'a svec \<Rightarrow> 'a svec option" where
  "sv_append_items 0 i src dst = Some dst"
| "sv_append_items (Suc n) i src dst = do {
     x \<leftarrow> sv_at src i;
     dst \<leftarrow> sv_emplace_back dst x;
     sv_append_items n (i + 1) src dst
   }"

text \<open>
  \<open>while ( shared_n != size() ) pop_back();\<close>  With fewer elements than \<open>shared_n\<close> it would destroy
  them all and then go on past the first slot, which is undefined: \<open>fuel\<close> is the number of elements.
\<close>

primrec sv_shrink :: "nat \<Rightarrow> nat \<Rightarrow> 'a svec \<Rightarrow> 'a svec option" where
  "sv_shrink 0 n v = (if n = sv_count v then Some v else None)"
| "sv_shrink (Suc fuel) n v =
     (if n = sv_count v then Some v else do { v \<leftarrow> sv_pop_back v; sv_shrink fuel n v })"

definition sv_swap :: "'a svec \<Rightarrow> 'a svec \<Rightarrow> ('a svec \<times> 'a svec) option" where
  "sv_swap v other =
     (let n = min (sv_count v) (sv_count other) in do {
        (v, other) \<leftarrow> sv_swap_items n 0 (v, other);
        (if sv_count v > sv_count other
         then do {
           other \<leftarrow> sv_append_items (sv_count v - n) n v other;
           v \<leftarrow> sv_shrink (sv_count v) n v;
           Some (v, other)
         }
         else if sv_count v < sv_count other
         then do {
           v \<leftarrow> sv_append_items (sv_count other - n) n other v;
           other \<leftarrow> sv_shrink (sv_count other) n other;
           Some (v, other)
         }
         else Some (v, other))
      })"

subsection \<open>Comparisons\<close>

text \<open>The loop of \<open>==\<close> from index \<open>i\<close> on, with \<open>n\<close> elements to go.\<close>

primrec sv_eq_from :: "nat \<Rightarrow> nat \<Rightarrow> 'a svec \<Rightarrow> 'a svec \<Rightarrow> bool option" where
  "sv_eq_from 0 i lh rh = Some True"
| "sv_eq_from (Suc n) i lh rh = do {
     x \<leftarrow> sv_at lh i;
     y \<leftarrow> sv_at rh i;
     (if x \<noteq> y then Some False else sv_eq_from n (i + 1) lh rh)
   }"

definition sv_eq :: "'a svec \<Rightarrow> 'a svec \<Rightarrow> bool option" where
  "sv_eq lh rh = (if sv_count lh \<noteq> sv_count rh then Some False else sv_eq_from (sv_count lh) 0 lh rh)"

datatype ordering = Less | Equal | Greater

fun lex_three_way :: "'a :: linorder list \<Rightarrow> 'a list \<Rightarrow> ordering" where
  "lex_three_way [] [] = Equal"
| "lex_three_way [] (y # ys) = Less"
| "lex_three_way (x # xs) [] = Greater"
| "lex_three_way (x # xs) (y # ys) =
     (if x < y then Less else if y < x then Greater else lex_three_way xs ys)"

definition sv_three_way :: "'a :: linorder svec \<Rightarrow> 'a svec \<Rightarrow> ordering option" where
  "sv_three_way lh rh = do { xs \<leftarrow> sv_elems lh; ys \<leftarrow> sv_elems rh; Some (lex_three_way xs ys) }"

section \<open>The vector of a list\<close>

text \<open>
  Every vector the operations produce is the one of a list of at most \<open>N\<close> elements: these are alive,
  in the first slots, and no other slot is.
\<close>

definition svec_of :: "nat \<Rightarrow> 'a list \<Rightarrow> 'a svec" where
  "svec_of N xs = \<lparr>sv_storage = map Some xs @ replicate (N - length xs) None, sv_count = length xs\<rparr>"

definition fits :: "nat \<Rightarrow> 'a list \<Rightarrow> bool" where
  "fits N xs \<longleftrightarrow> length xs \<le> N \<and> N < 2 ^ 64"

lemma svec_of_simps [simp]:
  "sv_count (svec_of N xs) = length xs"
  "fits N xs \<Longrightarrow> sv_capacity (svec_of N xs) = N"
  "fits N xs \<Longrightarrow> length (sv_storage (svec_of N xs)) = N"
  by (simp_all add: svec_of_def sv_capacity_def fits_def)

lemma svec_new: "sv_new N = svec_of N []"
  by (simp add: sv_new_def svec_of_def)

lemma svec_nth: "i < length xs \<Longrightarrow> sv_storage (svec_of N xs) ! i = Some (xs ! i)"
  by (simp add: svec_of_def nth_append)

lemma svec_at: "fits N xs \<Longrightarrow> i < length xs \<Longrightarrow> sv_at (svec_of N xs) i = Some (xs ! i)"
  using svec_nth [of i xs N] by (simp add: sv_at_def fits_def)

lemma svec_elems: "fits N xs \<Longrightarrow> sv_elems (svec_of N xs) = Some xs"
  by (auto simp: sv_elems_def live_n_def svec_of_def fits_def comp_def)

lemma svec_last_index: "fits N xs \<Longrightarrow> xs \<noteq> [] \<Longrightarrow> sv_last_index (svec_of N xs) = length xs - 1"
  by (cases xs) (auto simp: sv_last_index_def fits_def size_minus_le)

lemma svec_back: "fits N xs \<Longrightarrow> xs \<noteq> [] \<Longrightarrow> sv_back (svec_of N xs) = Some (last xs)"
  by (simp add: sv_back_def svec_last_index svec_at last_conv_nth)

lemma svec_emplace_back:
  assumes "length xs < N"
  shows "sv_emplace_back (svec_of N xs) x = Some (svec_of N (xs @ [x]))"
proof -
  have "replicate (N - length xs) None = None # replicate (N - Suc (length xs)) None"
    using assms by (metis Suc_diff_Suc replicate_Suc)
  then show ?thesis using assms by (simp add: sv_emplace_back_def svec_of_def store_n_def)
qed

lemma svec_emplace_full: "fits N xs \<Longrightarrow> length xs = N \<Longrightarrow> sv_emplace_back (svec_of N xs) x = None"
  by (simp add: sv_emplace_back_def store_n_def)

lemma svec_pop_back:
  fixes xs :: "'a list"
  assumes "fits N xs" "xs \<noteq> []"
  shows "sv_pop_back (svec_of N xs) = Some (svec_of N (butlast xs))"
proof -
  obtain ys y where xs: "xs = ys @ [y]" using assms(2) by (cases xs rule: rev_cases) auto
  have i: "sv_last_index (svec_of N xs) = length ys" using svec_last_index [OF assms] xs by simp
  have "size_minus (length xs) 1 = length ys" using i by (simp add: sv_last_index_def)
  moreover have "replicate (N - length ys) (None :: 'a option) = None # replicate (N - Suc (length ys)) None"
    using assms(1) xs by (metis Suc_diff_Suc Suc_le_lessD fits_def length_append_singleton replicate_Suc)
  ultimately show ?thesis
    unfolding sv_pop_back_def i by (simp add: delete_item_def svec_of_def xs list_update_append nth_append)
qed

lemma svec_pop_empty: "N < 2 ^ 64 \<Longrightarrow> sv_pop_back (svec_of N []) = None"
  by (simp add: sv_pop_back_def delete_item_def sv_last_index_def size_minus_def svec_of_def)

lemma svec_take_back:
  "fits N xs \<Longrightarrow> xs \<noteq> [] \<Longrightarrow> sv_take_back (svec_of N xs) = Some (last xs, svec_of N (butlast xs))"
  by (simp add: sv_take_back_def svec_back svec_pop_back)

lemma svec_clear: "fits N xs \<Longrightarrow> sv_clear (svec_of N xs) = Some (svec_of N [])"
proof -
  assume f: "fits N xs"
  have "\<forall>j < length xs. 0 + j < length (sv_storage (svec_of N xs)) \<and> sv_storage (svec_of N xs) ! (0 + j) \<noteq> None"
    using f by (auto simp: svec_nth fits_def)
  from delete_n_nth [OF this] obtain st where st: "delete_n (sv_storage (svec_of N xs)) 0 (length xs) = Some st"
    "length st = N" "\<forall>p < N. st ! p = (if p < length xs then None else sv_storage (svec_of N xs) ! p)"
    using f by auto
  have "st = replicate N None"
  proof (rule nth_equalityI)
    fix p assume "p < length st"
    then show "st ! p = replicate N None ! p"
      using st f by (auto simp: svec_of_def nth_append fits_def)
  qed (simp add: st)
  then show ?thesis using st(1) by (simp add: sv_clear_def svec_of_def)
qed

lemma svec_copy_from: "length xs \<le> N \<Longrightarrow> sv_copy_from (svec_of N []) xs = Some (svec_of N xs)"
  by (simp add: sv_copy_from_def store_n_def svec_of_def)

text \<open>Construction and assignment.\<close>

lemma svec_of_vector: "fits M xs \<Longrightarrow> length xs \<le> N \<Longrightarrow> sv_of_vector N (svec_of M xs) = Some (svec_of N xs)"
  by (simp add: sv_of_vector_def svec_elems svec_new svec_copy_from)

lemma svec_move_vector:
  "fits N xs \<Longrightarrow> sv_move_vector N (svec_of N xs) = Some (svec_of N xs, svec_of N [])"
  by (simp add: sv_move_vector_def svec_elems svec_new svec_copy_from svec_clear fits_def)

lemma svec_fill: "sv_fill N n x = Some (svec_of N (replicate (min n N) x))"
  by (simp add: sv_fill_def store_n_def svec_of_def sv_new_def Let_def map_replicate_const)

lemma svec_assign:
  "fits N xs \<Longrightarrow> fits N ys \<Longrightarrow> sv_assign False (svec_of N xs) (svec_of N ys) = Some (svec_of N ys)"
  "sv_assign True v v = Some v"
  by (simp_all add: sv_assign_def svec_clear svec_elems svec_copy_from fits_def)

lemma svec_move_assign:
  "fits N xs \<Longrightarrow> fits N ys \<Longrightarrow> sv_move_assign False (svec_of N xs) (svec_of N ys) = Some (svec_of N ys, svec_of N [])"
  by (simp add: sv_move_assign_def svec_clear svec_elems svec_copy_from fits_def)

lemma svec_assign_array:
  "fits N xs \<Longrightarrow> length ys \<le> N \<Longrightarrow> sv_assign_array (svec_of N xs) ys = Some (svec_of N ys)"
  by (simp add: sv_assign_array_def svec_clear svec_copy_from)

lemma svec_of_array: "length ys \<le> N \<Longrightarrow> sv_of_array N ys = Some (svec_of N ys)"
  by (simp add: sv_of_array_def svec_new svec_copy_from)

text \<open>Swap.\<close>

lemma svec_update:
  "i < length xs \<Longrightarrow> (svec_of N xs)\<lparr>sv_storage := (sv_storage (svec_of N xs)) [i := Some x]\<rparr> = svec_of N (xs [i := x])"
  by (simp add: svec_of_def list_update_append map_update)

lemma svec_swap_items:
  assumes "fits N (zs @ xs @ us)" "fits N (ws @ ys @ vs)" "length xs = n" "length ys = n" "length zs = i" "length ws = i"
  shows "sv_swap_items n i (svec_of N (zs @ xs @ us), svec_of N (ws @ ys @ vs))
    = Some (svec_of N (zs @ ys @ us), svec_of N (ws @ xs @ vs))"
  using assms
proof (induction n arbitrary: i zs ws xs ys)
  case (Suc n)
  obtain x xs' y ys' where c: "xs = x # xs'" "ys = y # ys'"
    using Suc.prems(3,4) by (metis length_Suc_conv)
  have at: "sv_at (svec_of N (zs @ xs @ us)) i = Some x" "sv_at (svec_of N (ws @ ys @ vs)) i = Some y"
    using svec_at [OF Suc.prems(1), of i] svec_at [OF Suc.prems(2), of i] Suc.prems(5,6) c
    by (simp_all add: nth_append)
  have upd: "(svec_of N (zs @ xs @ us))\<lparr>sv_storage := (sv_storage (svec_of N (zs @ xs @ us))) [i := Some y]\<rparr>
      = svec_of N ((zs @ [y]) @ xs' @ us)"
    "(svec_of N (ws @ ys @ vs))\<lparr>sv_storage := (sv_storage (svec_of N (ws @ ys @ vs))) [i := Some x]\<rparr>
      = svec_of N ((ws @ [x]) @ ys' @ vs)"
    using Suc.prems(5,6) c by (simp_all add: svec_update list_update_append)
  have "sv_swap_items n (i + 1) (svec_of N ((zs @ [y]) @ xs' @ us), svec_of N ((ws @ [x]) @ ys' @ vs))
      = Some (svec_of N ((zs @ [y]) @ ys' @ us), svec_of N ((ws @ [x]) @ xs' @ vs))"
    using Suc.prems c by (intro Suc.IH) (auto simp: fits_def)
  then show ?case unfolding upd [symmetric] using at c by simp
qed simp

lemma svec_append_items:
  assumes "fits N (zs @ xs)" "length zs = i" "length xs = n" "length ys + n \<le> N"
  shows "sv_append_items n i (svec_of N (zs @ xs)) (svec_of N ys) = Some (svec_of N (ys @ xs))"
  using assms
proof (induction n arbitrary: i zs xs ys)
  case (Suc n)
  obtain x xs' where xs: "xs = x # xs'" using Suc.prems(3) by (cases xs) auto
  have "sv_at (svec_of N (zs @ xs)) i = Some x"
    using svec_at [OF Suc.prems(1), of i] Suc.prems(2) xs by (simp add: nth_append)
  moreover have "sv_append_items n (i + 1) (svec_of N ((zs @ [x]) @ xs')) (svec_of N (ys @ [x]))
      = Some (svec_of N ((ys @ [x]) @ xs'))"
    using Suc.prems xs by (intro Suc.IH) auto
  ultimately show ?case using Suc.prems xs by (simp add: svec_emplace_back)
qed simp

lemma svec_shrink:
  "fits N xs \<Longrightarrow> n \<le> length xs \<Longrightarrow> length xs \<le> fuel + n \<Longrightarrow> sv_shrink fuel n (svec_of N xs) = Some (svec_of N (take n xs))"
proof (induction fuel arbitrary: xs)
  case (Suc fuel)
  show ?case
  proof (cases "n = length xs")
    case False
    then have ne: "xs \<noteq> []" and lt: "n < length xs" using Suc.prems(2) by auto
    have "sv_shrink fuel n (svec_of N (butlast xs)) = Some (svec_of N (take n (butlast xs)))"
      using Suc.prems lt by (intro Suc.IH) (auto simp: fits_def)
    then show ?thesis using False lt by (simp add: svec_pop_back [OF Suc.prems(1) ne] take_butlast)
  qed simp
qed simp

lemma svec_swap:
  assumes "fits N xs" "fits N ys"
  shows "sv_swap (svec_of N xs) (svec_of N ys) = Some (svec_of N ys, svec_of N xs)"
proof -
  let ?n = "min (length xs) (length ys)"
  have len: "length xs \<le> N" "length ys \<le> N" using assms by (simp_all add: fits_def)
  have items: "sv_swap_items ?n 0 (svec_of N xs, svec_of N ys)
      = Some (svec_of N (take ?n ys @ drop ?n xs), svec_of N (take ?n xs @ drop ?n ys))"
    using svec_swap_items [of N "[]" "take ?n xs" "drop ?n xs" "[]" "take ?n ys" "drop ?n ys" ?n 0] assms by simp
  consider "length ys < length xs" | "length xs < length ys" | "length xs = length ys" by linarith
  then show ?thesis
  proof cases
    case 1
    then have n: "?n = length ys" by simp
    have "sv_append_items (length xs - length ys) (length ys) (svec_of N (ys @ drop (length ys) xs)) (svec_of N (take (length ys) xs))
        = Some (svec_of N (take (length ys) xs @ drop (length ys) xs))"
      using 1 len assms by (intro svec_append_items) (auto simp: fits_def)
    moreover have "sv_shrink (length xs) (length ys) (svec_of N (ys @ drop (length ys) xs))
        = Some (svec_of N (take (length ys) (ys @ drop (length ys) xs)))"
      using 1 len assms by (intro svec_shrink) (auto simp: fits_def)
    ultimately show ?thesis using 1 items n by (simp add: sv_swap_def Let_def)
  next
    case 2
    then have n: "?n = length xs" by simp
    have "sv_append_items (length ys - length xs) (length xs) (svec_of N (xs @ drop (length xs) ys)) (svec_of N (take (length xs) ys))
        = Some (svec_of N (take (length xs) ys @ drop (length xs) ys))"
      using 2 len assms by (intro svec_append_items) (auto simp: fits_def)
    moreover have "sv_shrink (length ys) (length xs) (svec_of N (xs @ drop (length xs) ys))
        = Some (svec_of N (take (length xs) (xs @ drop (length xs) ys)))"
      using 2 len assms by (intro svec_shrink) (auto simp: fits_def)
    ultimately show ?thesis using 2 items n by (simp add: sv_swap_def Let_def)
  next
    case 3
    then show ?thesis using items by (simp add: sv_swap_def Let_def)
  qed
qed

text \<open>Comparisons.\<close>

lemma svec_eq_from:
  assumes "fits N xs" "fits N ys" "i + n = length xs" "length ys = length xs"
  shows "sv_eq_from n i (svec_of N xs) (svec_of N ys) = Some (drop i xs = drop i ys)"
  using assms(3)
proof (induction n arbitrary: i)
  case (Suc n)
  then have i: "i < length xs" "i < length ys" using assms(4) by simp_all
  then show ?case
    using Suc.IH [of "i + 1"] Suc.prems svec_at [OF assms(1) i(1)] svec_at [OF assms(2) i(2)]
      Cons_nth_drop_Suc [OF i(1)] Cons_nth_drop_Suc [OF i(2)]
    by auto (metis list.inject)+
qed (use assms in simp)

lemma svec_eq: "fits N xs \<Longrightarrow> fits N ys \<Longrightarrow> sv_eq (svec_of N xs) (svec_of N ys) = Some (xs = ys)"
  by (auto simp: sv_eq_def svec_eq_from)

lemma lex_three_way_Equal: "lex_three_way xs ys = Equal \<longleftrightarrow> xs = ys"
  by (induction xs ys rule: lex_three_way.induct) auto

lemma lex_three_way_flip: "lex_three_way xs ys = Less \<longleftrightarrow> lex_three_way ys xs = Greater"
  by (induction xs ys rule: lex_three_way.induct) auto

text \<open>The order is the lexicographical one of the lists.\<close>

lemma lex_three_way_Less: "lex_three_way xs ys = Less \<longleftrightarrow> ord_class.lexordp xs ys"
  by (induction xs ys rule: lex_three_way.induct) auto

lemma svec_three_way:
  "fits N xs \<Longrightarrow> fits N ys \<Longrightarrow> sv_three_way (svec_of N xs) (svec_of N ys) = Some (lex_three_way xs ys)"
  by (simp add: sv_three_way_def svec_elems)

section \<open>The contract of a bounded stack\<close>

text \<open>
  What the memory resources and the decoders of the library rely on: a push while there is room and
  a take while there are elements, over the list of the elements.
\<close>

locale bounded_stack =
  fixes cap :: nat and holds :: "'s \<Rightarrow> 'a list \<Rightarrow> bool"
    and push :: "'s \<Rightarrow> 'a \<Rightarrow> 's option" and take_last :: "'s \<Rightarrow> ('a \<times> 's) option"
  assumes holds_push: "holds s xs \<Longrightarrow> length xs < cap \<Longrightarrow> \<exists>s'. push s x = Some s' \<and> holds s' (xs @ [x])"
    and holds_take: "holds s (xs @ [x]) \<Longrightarrow> \<exists>s'. take_last s = Some (x, s') \<and> holds s' xs"
begin

text \<open>Pushing a list and taking as many elements again gives them in reverse.\<close>

primrec push_all :: "'a list \<Rightarrow> 's \<Rightarrow> 's option" where
  "push_all [] s = Some s"
| "push_all (x # xs) s = do { s \<leftarrow> push s x; push_all xs s }"

primrec take_many :: "nat \<Rightarrow> 's \<Rightarrow> ('a list \<times> 's) option" where
  "take_many 0 s = Some ([], s)"
| "take_many (Suc n) s = do { (x, s) \<leftarrow> take_last s; (xs, s) \<leftarrow> take_many n s; Some (x # xs, s) }"

lemma push_all_holds:
  "holds s xs \<Longrightarrow> length xs + length ys \<le> cap \<Longrightarrow> \<exists>s'. push_all ys s = Some s' \<and> holds s' (xs @ ys)"
proof (induction ys arbitrary: s xs)
  case (Cons y ys)
  then obtain s1 where s1: "push s y = Some s1" "holds s1 (xs @ [y])"
    using holds_push [of s xs y] by auto
  show ?case using Cons.IH [OF s1(2)] Cons.prems(2) s1(1) by auto
qed simp

lemma take_many_holds:
  "holds s (xs @ ys) \<Longrightarrow> \<exists>s'. take_many (length ys) s = Some (rev ys, s') \<and> holds s' xs"
proof (induction ys arbitrary: s rule: rev_induct)
  case (snoc y ys)
  then obtain s1 where s1: "take_last s = Some (y, s1)" "holds s1 (xs @ ys)"
    using holds_take [of s "xs @ ys" y] by auto
  show ?case using snoc.IH [OF s1(2)] s1(1) by auto
qed simp

lemma push_take:
  assumes "holds s xs" "length xs + length ys \<le> cap"
  shows "\<exists>s1 s2. push_all ys s = Some s1 \<and> take_many (length ys) s1 = Some (rev ys, s2) \<and> holds s2 xs"
  using push_all_holds [OF assms] take_many_holds by blast

end

interpretation svec: bounded_stack N "\<lambda>v xs. v = svec_of N xs \<and> fits N xs" sv_emplace_back sv_take_back for N
  by unfold_locales (auto simp: svec_emplace_back svec_take_back fits_def)

end
