(* ===== verification/PoolResource.thy ===== *)
theory PoolResource
  imports MemoryResource StaticVector
begin

text \<open>
  \<open>pmr/pool_resource.hpp\<close>: the pools, the stack of the free ones (a \<open>static_vector\<close>), and the proof that
  the class is a memory resource.
\<close>

section \<open>The pool\<close>

text \<open>
  \<open>pool_resource< PoolSize, PoolCount >\<close>: the pools are an array at address \<open>base\<close>, the ones that are
  not given away are on a stack.
\<close>

record pool_resource =
  pl_base :: nat
  pl_size :: nat
  pl_count :: nat
  pl_free :: "nat svec"

text \<open>The constructor pushes the indices of all pools.\<close>

definition pool_new :: "nat \<Rightarrow> nat \<Rightarrow> nat \<Rightarrow> pool_resource option" where
  "pool_new base sz cnt = do {
     free \<leftarrow> svec.push_all [0..<cnt] (sv_new cnt);
     Some \<lparr>pl_base = base, pl_size = sz, pl_count = cnt, pl_free = free\<rparr>
   }"

definition pool_allocate :: "pool_resource \<Rightarrow> nat \<Rightarrow> nat \<Rightarrow> (nat option \<times> pool_resource) option" where
  "pool_allocate r bytes alignment =
     (if sv_empty (pl_free r) then Some (None, r)
      else do {
        i \<leftarrow> sv_back (pl_free r);
        (let pool_p = (pl_base r + i * pl_size r) mod 2 ^ 64;
             p = align pool_p alignment;
             used = (bytes + size_minus p pool_p) mod 2 ^ 64 in
         if p = 0 \<or> used > pl_size r then Some (None, r)
         else do {
           free \<leftarrow> sv_pop_back (pl_free r);
           Some (Some p, r\<lparr>pl_free := free\<rparr>)
         })
      })"

definition pool_deallocate :: "pool_resource \<Rightarrow> nat \<Rightarrow> nat \<Rightarrow> nat \<Rightarrow> (bool \<times> pool_resource) option" where
  "pool_deallocate r ptr bytes alignment =
     (let spot_i = size_minus ptr (pl_base r) div pl_size r in
      if spot_i \<ge> pl_count r then Some (False, r)
      else do {
        free \<leftarrow> sv_emplace_back (pl_free r) (spot_i mod 2 ^ 16);
        Some (True, r\<lparr>pl_free := free\<rparr>)
      })"

definition pool_is_full :: "pool_resource \<Rightarrow> bool" where
  "pool_is_full r \<longleftrightarrow> sv_empty (pl_free r)"

subsection \<open>The invariant\<close>

text \<open>
  \<open>live\<close> are the blocks that have been given and not been taken back: each has an address and a size
  and lies in a pool of its own.  Every pool is either free, once, or has one block.
\<close>

definition pool_of :: "pool_resource \<Rightarrow> nat \<Rightarrow> nat" where
  "pool_of r ptr = (ptr - pl_base r) div pl_size r"

definition in_pool :: "pool_resource \<Rightarrow> nat \<times> nat \<Rightarrow> bool" where
  "in_pool r blk \<longleftrightarrow> pl_base r \<le> fst blk \<and> pool_of r (fst blk) < pl_count r \<and>
     fst blk + snd blk \<le> pl_base r + (pool_of r (fst blk) + 1) * pl_size r"

definition pool_inv :: "pool_resource \<Rightarrow> (nat \<times> nat) list \<Rightarrow> nat list \<Rightarrow> bool" where
  "pool_inv r live free \<longleftrightarrow>
     0 < pl_size r \<and> 0 < pl_base r \<and> pl_count r < 2 ^ 16 \<and> pl_base r + pl_count r * pl_size r \<le> 2 ^ 64 \<and>
     pl_free r = svec_of (pl_count r) free \<and>
     distinct (free @ map (pool_of r \<circ> fst) live) \<and>
     set (free @ map (pool_of r \<circ> fst) live) = {..<pl_count r} \<and>
     (\<forall>blk \<in> set live. in_pool r blk)"

lemma pool_inv_length: "pool_inv r live free \<Longrightarrow> length free + length live = pl_count r"
  using distinct_card [of "free @ map (pool_of r \<circ> fst) live"] by (simp add: pool_inv_def)

lemma pool_inv_fits: "pool_inv r live free \<Longrightarrow> fits (pl_count r) free"
  using pool_inv_length [of r live free] by (simp add: fits_def pool_inv_def)

lemma pool_new_inv:
  assumes "0 < sz" "0 < base" "cnt < 2 ^ 16" "base + cnt * sz \<le> 2 ^ 64"
  shows "\<exists>r. pool_new base sz cnt = Some r \<and> pool_inv r [] [0..<cnt] \<and> pl_base r = base \<and> pl_size r = sz \<and> pl_count r = cnt"
proof -
  have "sv_new cnt = svec_of cnt [] \<and> fits cnt []" using assms(3) by (simp add: svec_new fits_def)
  from svec.push_all_holds [OF this, of "[0..<cnt]"]
  have "svec.push_all [0..<cnt] (sv_new cnt) = Some (svec_of cnt [0..<cnt])" by auto
  then show ?thesis using assms by (auto simp: pool_new_def pool_inv_def)
qed

text \<open>Distinct pools do not overlap, so blocks do not.\<close>

lemma pools_disjoint:
  assumes "in_pool r a" "in_pool r b" "pool_of r (fst a) < pool_of r (fst b)" "0 < pl_size r"
  shows "fst a + snd a \<le> fst b"
proof -
  have "(pool_of r (fst a) + 1) * pl_size r \<le> pool_of r (fst b) * pl_size r"
    using assms(3) by (intro mult_le_mono1) simp
  moreover have "pool_of r (fst b) * pl_size r \<le> fst b - pl_base r"
    unfolding pool_of_def by (rule div_times_less_eq_dividend)
  ultimately show ?thesis using assms(1,2) unfolding in_pool_def by linarith
qed

lemma live_disjoint:
  assumes inv: "pool_inv r (us @ a # ws @ b # vs) free"
  shows "disjoint_blocks a b"
proof -
  have "in_pool r a" "in_pool r b" "0 < pl_size r" "pool_of r (fst a) \<noteq> pool_of r (fst b)"
    using inv by (auto simp: pool_inv_def)
  then show ?thesis
    using pools_disjoint [of r a b] pools_disjoint [of r b a] unfolding disjoint_blocks_def
    by (metis linorder_neqE_nat)
qed

subsection \<open>The operations keep it\<close>

text \<open>The start of a pool, aligned: nothing wraps around.\<close>

lemma pool_aligned:
  assumes i: "i < c" and S: "0 < S" and room: "B + c * S + 2 ^ k \<le> 2 ^ 64" and k: "k < 64" and bytes: "bytes < 2 ^ 63"
  defines "pp \<equiv> B + i * S"
  shows "pp mod 2 ^ 64 = pp" "pp \<le> align pp (2 ^ k)" "2 ^ k dvd align pp (2 ^ k)"
    "(bytes + size_minus (align pp (2 ^ k)) pp) mod 2 ^ 64 = bytes + (align pp (2 ^ k) - pp)"
proof -
  have "i * S + S \<le> c * S" using i by (metis Suc_leI add.commute mult_Suc mult_le_mono1)
  moreover have k1: "(0 :: nat) < 2 ^ k" by simp
  ultimately have pp: "pp + 2 ^ k \<le> 2 ^ 64" "pp < 2 ^ 64" using room S unfolding pp_def by linarith+
  then show "pp mod 2 ^ 64 = pp" by simp
  note up = align_up [OF k1, of pp, folded align_eq [OF k pp(1)]]
  show le: "pp \<le> align pp (2 ^ k)" and "2 ^ k dvd align pp (2 ^ k)" using up by simp_all
  have p64: "align pp (2 ^ k) < 2 ^ 64" using up(2) pp(1) by linarith
  have "(2 :: nat) ^ k \<le> 2 ^ 63" using k by (intro power_increasing) auto
  moreover have "align pp (2 ^ k) - pp < 2 ^ k" using up(1,2) by linarith
  ultimately have "bytes + (align pp (2 ^ k) - pp) < 2 ^ 63 + 2 ^ 63" using bytes by linarith
  then show "(bytes + size_minus (align pp (2 ^ k)) pp) mod 2 ^ 64 = bytes + (align pp (2 ^ k) - pp)"
    using size_minus_le [OF le p64] by simp
qed

text \<open>
  \<open>allocate\<close> with an alignment \<open>2 ^ k\<close>: it gives an aligned block in a free pool, or the null pointer
  and no change.  A block of no bytes may end up at the start of the next pool, so there must be one.
\<close>

lemma pool_allocate_inv:
  assumes inv: "pool_inv r live free" and bytes: "0 < bytes" "bytes < 2 ^ 63" and k: "k < 64"
    and room: "pl_base r + pl_count r * pl_size r + 2 ^ k \<le> 2 ^ 64"
  shows "\<exists>res r'. pool_allocate r bytes (2 ^ k) = Some (res, r') \<and>
    (case res of
       None \<Rightarrow> r' = r
     | Some p \<Rightarrow> 2 ^ k dvd p \<and> pool_inv r' ((p, bytes) # live) (butlast free) \<and> free \<noteq> [])"
proof (cases "free = []")
  case True
  then show ?thesis using inv by (simp add: pool_allocate_def sv_empty_def pool_inv_def)
next
  case False
  note fits = pool_inv_fits [OF inv]
  obtain rest top where free: "free = rest @ [top]" using False by (metis append_butlast_last_id)
  let ?i = "top" and ?S = "pl_size r" and ?B = "pl_base r"
  have pos: "0 < ?S" "0 < ?B" "pl_count r < 2 ^ 16" and fr: "pl_free r = svec_of (pl_count r) free"
    and set: "set (free @ map (pool_of r \<circ> fst) live) = {..<pl_count r}"
    and dist: "distinct (free @ map (pool_of r \<circ> fst) live)" and blks: "\<forall>blk \<in> set live. in_pool r blk"
    using inv by (simp_all add: pool_inv_def)
  have i: "?i < pl_count r" using set free by auto
  let ?pp = "?B + ?i * ?S"
  let ?p = "align ?pp (2 ^ k)"
  note al = pool_aligned [OF i pos(1) room k bytes(2)]
  have nz: "?p \<noteq> 0" using al(2) pos(2) by linarith
  have ops: "sv_back (pl_free r) = Some ?i" "sv_pop_back (pl_free r) = Some (svec_of (pl_count r) (butlast free))"
    and ne: "\<not> sv_empty (pl_free r)"
    using svec_back [OF fits False] svec_pop_back [OF fits False] fr free by (simp_all add: sv_empty_def)
  show ?thesis
  proof (cases "bytes + (?p - ?pp) > ?S")
    case True
    then show ?thesis using ops ne al(1,4) nz by (simp add: pool_allocate_def Let_def)
  next
    case fit: False
    let ?r = "r\<lparr>pl_free := svec_of (pl_count r) (butlast free)\<rparr>"
    have "pool_allocate r bytes (2 ^ k) = Some (Some ?p, ?r)"
      using fit ops ne al(1,4) nz by (simp add: pool_allocate_def Let_def)
    moreover have spot: "pool_of r ?p = ?i"
    proof -
      have "?p - ?B = ?i * ?S + (?p - ?pp)" "?p - ?pp < ?S" using al(2) fit bytes(1) by linarith+
      then show ?thesis using pos(1) by (simp add: pool_of_def)
    qed
    moreover have "in_pool r (?p, bytes)"
      using spot i fit al(2) by (simp add: in_pool_def)
    moreover have "butlast free = rest" using free by simp
    moreover have "distinct (rest @ ?i # map (pool_of r \<circ> fst) live)"
      "set (rest @ ?i # map (pool_of r \<circ> fst) live) = {..<pl_count r}"
      using dist set unfolding free by auto
    ultimately show ?thesis
      using inv al(3) False
      by (intro exI [of _ "Some ?p"] exI [of _ ?r])
        (auto simp: pool_inv_def pool_of_def in_pool_def comp_def)
  qed
qed

text \<open>\<open>deallocate\<close> of a block that is live gives its pool back.\<close>

lemma pool_deallocate_inv:
  assumes inv: "pool_inv r (us @ (p, bytes) # vs) free" and bytes: "0 < bytes"
  shows "\<exists>r'. pool_deallocate r p bytes al = Some (True, r') \<and> pool_inv r' (us @ vs) (free @ [pool_of r p])"
proof -
  have pos: "0 < pl_size r" "pl_count r < 2 ^ 16" "pl_base r + pl_count r * pl_size r \<le> 2 ^ 64"
    and fr: "pl_free r = svec_of (pl_count r) free" and blk: "in_pool r (p, bytes)"
    using inv by (simp_all add: pool_inv_def)
  have i: "pool_of r p < pl_count r" "pl_base r \<le> p" "p + bytes \<le> pl_base r + (pool_of r p + 1) * pl_size r"
    using blk by (simp_all add: in_pool_def)
  have "(pool_of r p + 1) * pl_size r \<le> pl_count r * pl_size r" using i(1) by (intro mult_le_mono1) simp
  then have "p < 2 ^ 64" using i(3) pos(3) bytes by linarith
  then have spot: "size_minus p (pl_base r) div pl_size r = pool_of r p"
    using size_minus_le [OF i(2)] by (simp add: pool_of_def)
  have "length free < pl_count r" using pool_inv_length [OF inv] by simp
  then have "sv_emplace_back (pl_free r) (pool_of r p) = Some (svec_of (pl_count r) (free @ [pool_of r p]))"
    using svec_emplace_back fr by simp
  then have "pool_deallocate r p bytes al = Some (True, r\<lparr>pl_free := svec_of (pl_count r) (free @ [pool_of r p])\<rparr>)"
    using spot i(1) pos(2) by (simp add: pool_deallocate_def Let_def)
  moreover have "pool_inv (r\<lparr>pl_free := svec_of (pl_count r) (free @ [pool_of r p])\<rparr>) (us @ vs) (free @ [pool_of r p])"
    using inv by (auto simp: pool_inv_def pool_of_def in_pool_def comp_def)
  ultimately show ?thesis by blast
qed

text \<open>
  A block that is not live any more is taken back again: its pool is then on the stack twice, and two
  later blocks share it.
\<close>

lemma pool_double_free:
  assumes inv: "pool_inv r live free" and p: "pl_base r \<le> p" "p < 2 ^ 64" "pool_of r p \<in> set free" and "live \<noteq> []"
  shows "\<exists>r'. pool_deallocate r p bytes al = Some (True, r') \<and> pl_free r' = svec_of (pl_count r) (free @ [pool_of r p])"
proof -
  have i: "pool_of r p < pl_count r" "pl_count r < 2 ^ 16"
    using inv p(3) by (auto simp: pool_inv_def)
  have spot: "size_minus p (pl_base r) div pl_size r = pool_of r p"
    using size_minus_le [OF p(1,2)] by (simp add: pool_of_def)
  have "length free < pl_count r" using pool_inv_length [OF inv] assms(5) by (cases live) auto
  then have "sv_emplace_back (pl_free r) (pool_of r p) = Some (svec_of (pl_count r) (free @ [pool_of r p]))"
    using svec_emplace_back inv by (simp add: pool_inv_def)
  then show ?thesis using spot i by (simp add: pool_deallocate_def Let_def)
qed

subsection \<open>The resource\<close>

definition pool_ok :: "nat \<Rightarrow> nat \<Rightarrow> nat \<Rightarrow> pool_resource \<Rightarrow> (nat \<times> nat) list \<Rightarrow> bool" where
  "pool_ok base sz cnt r live \<longleftrightarrow> (\<exists>free. pool_inv r live free) \<and>
     pl_base r = base \<and> pl_size r = sz \<and> pl_count r = cnt \<and> base + cnt * sz + 2 ^ max_align_log \<le> 2 ^ 64"

lemma pool_alloc_ok:
  assumes "pool_ok base sz cnt r live" "0 < bytes" "bytes < 2 ^ 63" "k \<le> max_align_log"
  shows "\<exists>res r'. pool_allocate r bytes (2 ^ k) = Some (res, r') \<and>
    (case res of
       None \<Rightarrow> r' = r
     | Some p \<Rightarrow> 2 ^ k dvd p \<and> (\<exists>us vs. live = us @ vs \<and> pool_ok base sz cnt r' (us @ (p, bytes) # vs)))"
proof -
  obtain free where inv: "pool_inv r live free" and room: "pl_base r + pl_count r * pl_size r + 2 ^ k \<le> 2 ^ 64"
    using assms(1) align_log_less(2) [OF assms(4)] unfolding pool_ok_def by (elim conjE exE) (meson add_le_mono le_refl order_trans)
  from pool_allocate_inv [OF inv assms(2,3) align_log_less(1) [OF assms(4)] room] obtain res r' where
    step: "pool_allocate r bytes (2 ^ k) = Some (res, r')"
    and res: "case res of None \<Rightarrow> r' = r
      | Some p \<Rightarrow> 2 ^ k dvd p \<and> pool_inv r' ((p, bytes) # live) (butlast free) \<and> free \<noteq> []" by blast
  have same: "pl_base r' = pl_base r \<and> pl_count r' = pl_count r \<and> pl_size r' = pl_size r"
    using step by (auto simp: pool_allocate_def Let_def split: if_splits)
  show ?thesis
  proof (cases res)
    case (Some p)
    then have "pool_ok base sz cnt r' ((p, bytes) # live)" "2 ^ k dvd p"
      using res same assms(1) unfolding pool_ok_def by auto
    then have "2 ^ k dvd p \<and> (\<exists>us vs. live = us @ vs \<and> pool_ok base sz cnt r' (us @ (p, bytes) # vs))"
      by (metis append_Nil)
    then show ?thesis unfolding step Some by simp
  next
    case None
    then show ?thesis using res unfolding step by simp
  qed
qed

lemma pool_dealloc_ok:
  assumes "pool_ok base sz cnt r (us @ (p, bytes) # vs)" "0 < bytes"
  shows "\<exists>r'. pool_deallocate r p bytes al = Some (True, r') \<and> pool_ok base sz cnt r' (us @ vs)"
proof -
  obtain free where "pool_inv r (us @ (p, bytes) # vs) free" using assms(1) by (auto simp: pool_ok_def)
  from pool_deallocate_inv [OF this assms(2)] obtain r' where
    step: "pool_deallocate r p bytes al = Some (True, r')" and "pool_inv r' (us @ vs) (free @ [pool_of r p])" by blast
  moreover have "pl_base r' = pl_base r \<and> pl_count r' = pl_count r \<and> pl_size r' = pl_size r"
    using step by (auto simp: pool_deallocate_def Let_def split: if_splits)
  ultimately show ?thesis using assms(1) by (auto simp: pool_ok_def)
qed

lemma pool_blocks_in:
  assumes "pool_ok base sz cnt r live" "blk \<in> set live"
  shows "base \<le> fst blk \<and> fst blk + snd blk \<le> base + cnt * sz"
proof -
  have "in_pool r blk" "pl_base r = base" "pl_size r = sz" "pl_count r = cnt"
    using assms by (auto simp: pool_ok_def pool_inv_def)
  moreover from this have "(pool_of r (fst blk) + 1) * sz \<le> cnt * sz"
    by (intro mult_le_mono1) (simp add: in_pool_def)
  ultimately show ?thesis unfolding in_pool_def by auto
qed

interpretation pool: memory_resource pool_allocate pool_deallocate "pool_ok base sz cnt" "\<lambda>k. k \<le> max_align_log" base "base + cnt * sz"
  for base sz cnt
proof
  show "disjoint_blocks a b" if "pool_ok base sz cnt r (us @ a # ws @ b # vs)" for r us a ws b vs
    using that live_disjoint [of r us a ws b vs] unfolding pool_ok_def by blast
qed (rule pool_alloc_ok pool_dealloc_ok pool_blocks_in; assumption)+

end
