(* ===== verification/StackResource.thy ===== *)
theory StackResource
  imports MemoryResource Serializer
begin

text \<open>
  \<open>pmr/stack_resource.hpp\<close>: blocks one behind the other in a buffer, each followed by a node of two
  pointers that lies in the buffer too and is part of a doubly linked list.  The memory is modelled by
  its bytes, a pointer is stored as eight of them, the null pointer as zero.
\<close>

section \<open>The memory\<close>

record stack_resource =
  sk_base :: nat
  sk_buff :: "byte list"
  sk_top :: nat

definition ptr_size :: nat where
  "ptr_size = 8"

definition node_size :: nat where
  "node_size = 16"

definition ptr_bytes :: "nat \<Rightarrow> byte list" where
  "ptr_bytes v = bytes_in Little ptr_size (int v)"

definition bytes_ptr :: "byte list \<Rightarrow> nat" where
  "bytes_ptr bs = nat (be_value (rev bs))"

text \<open>\<open>memcpy\<close> from and to an address: undefined outside of the buffer.\<close>

definition peek :: "stack_resource \<Rightarrow> nat \<Rightarrow> nat \<Rightarrow> byte list option" where
  "peek r a n =
     (if sk_base r \<le> a \<and> a + n \<le> sk_base r + length (sk_buff r) then Some (take n (drop (a - sk_base r) (sk_buff r)))
      else None)"

definition poke :: "stack_resource \<Rightarrow> nat \<Rightarrow> byte list \<Rightarrow> stack_resource option" where
  "poke r a bs =
     (if sk_base r \<le> a \<and> a + length bs \<le> sk_base r + length (sk_buff r)
      then Some (r\<lparr>sk_buff := take (a - sk_base r) (sk_buff r) @ bs @ drop (a - sk_base r + length bs) (sk_buff r)\<rparr>)
      else None)"

section \<open>The operations\<close>

definition get_node :: "stack_resource \<Rightarrow> nat \<Rightarrow> (nat \<times> nat) option" where
  "get_node r ptr = do {
     let ptr = size_minus ptr ptr_size;
     prev \<leftarrow> peek r ptr ptr_size;
     let ptr = size_minus ptr ptr_size;
     nxt \<leftarrow> peek r ptr ptr_size;
     Some (bytes_ptr prev, bytes_ptr nxt)
   }"

definition set_node :: "stack_resource \<Rightarrow> nat \<Rightarrow> nat \<Rightarrow> nat \<Rightarrow> stack_resource option" where
  "set_node r ptr prev nxt = do {
     let ptr = size_minus ptr ptr_size;
     r \<leftarrow> poke r ptr (ptr_bytes prev);
     let ptr = size_minus ptr ptr_size;
     poke r ptr (ptr_bytes nxt)
   }"

definition stack_new :: "nat \<Rightarrow> nat \<Rightarrow> stack_resource option" where
  "stack_new base cap =
     (let top = base + node_size in set_node \<lparr>sk_base = base, sk_buff = replicate cap 0, sk_top = top\<rparr> top 0 0)"

definition free_space :: "stack_resource \<Rightarrow> nat" where
  "free_space r = size_minus (sk_base r + length (sk_buff r)) (sk_top r)"

definition stack_allocate :: "stack_resource \<Rightarrow> nat \<Rightarrow> nat \<Rightarrow> (nat option \<times> stack_resource) option" where
  "stack_allocate r bytes alignment = do {
     let prev_ptr = sk_top r;
     prev_node \<leftarrow> get_node r prev_ptr;
     let padding = unat (align_addr (of_nat (sk_top r)) (of_nat alignment) - of_nat (sk_top r));
     let space = free_space r;
     if bytes > space \<or> (padding + node_size) mod 2 ^ 64 > space - bytes then Some (None, r)
     else do {
       let p = sk_top r + padding;
       let r = r\<lparr>sk_top := p + bytes + node_size\<rparr>;
       r \<leftarrow> set_node r (sk_top r) prev_ptr 0;
       r \<leftarrow> set_node r prev_ptr (fst prev_node) (sk_top r);
       Some (Some p, r)
     }
   }"

definition stack_deallocate :: "stack_resource \<Rightarrow> nat \<Rightarrow> nat \<Rightarrow> nat \<Rightarrow> (bool \<times> stack_resource) option" where
  "stack_deallocate r addr bytes alignment =
     (let start = sk_base r; cap = length (sk_buff r) in
      if addr < start \<or> addr - start > cap then Some (False, r)
      else (let left = cap - (addr - start) in
        if bytes > left \<or> node_size > left - bytes then Some (False, r)
        else do {
          let node_ptr = addr + bytes + node_size;
          (prev_ptr, next_ptr) \<leftarrow> get_node r node_ptr;
          (prev_prev_ptr, prev_next_ptr) \<leftarrow> get_node r prev_ptr;
          r \<leftarrow> set_node r prev_ptr prev_prev_ptr next_ptr;
          if next_ptr = 0 then Some (True, r\<lparr>sk_top := prev_ptr\<rparr>)
          else do {
            (next_prev_ptr, next_next_ptr) \<leftarrow> get_node r next_ptr;
            r \<leftarrow> set_node r next_ptr prev_ptr next_next_ptr;
            Some (True, r)
          }
        }))"

definition stack_is_full :: "stack_resource \<Rightarrow> bool" where
  "stack_is_full r \<longleftrightarrow> free_space r \<le> node_size"

section \<open>Bytes and nodes\<close>

lemma length_ptr_bytes [simp]: "length (ptr_bytes v) = 8"
  by (simp add: ptr_bytes_def ptr_size_def)

lemma bytes_ptr_bytes: "v < 2 ^ 64 \<Longrightarrow> bytes_ptr (ptr_bytes v) = v"
  by (simp add: bytes_ptr_def ptr_bytes_def bytes_in_def be_value_be_bytes ptr_size_def take_bit_eq_mod flip: of_nat_mod)

text \<open>A step of the memory keeps the base and the capacity.\<close>

definition same_frame :: "stack_resource \<Rightarrow> stack_resource \<Rightarrow> bool" where
  "same_frame r r' \<longleftrightarrow> sk_base r' = sk_base r \<and> length (sk_buff r') = length (sk_buff r)"

lemma poke_frame: "poke r a bs = Some r' \<Longrightarrow> same_frame r r' \<and> sk_top r' = sk_top r"
  by (auto simp: poke_def same_frame_def split: if_splits)

lemma peek_poke_same: "poke r a bs = Some r' \<Longrightarrow> peek r' a (length bs) = Some bs"
  by (auto simp: poke_def peek_def split: if_splits)

lemma splice_before: "b + n \<le> a \<Longrightarrow> a \<le> length xs \<Longrightarrow> take n (drop b (take a xs @ ys)) = take n (drop b xs)"
  by (simp add: drop_take)

lemma splice_after:
  assumes "a + length ys \<le> b" "a + length ys \<le> length xs"
  shows "drop b (take a xs @ ys @ drop (a + length ys) xs) = drop b xs"
proof -
  have "b = (a + length ys) + (b - (a + length ys))" using assms(1) by simp
  moreover have "drop (a + length ys) (take a xs @ ys @ drop (a + length ys) xs) = drop (a + length ys) xs"
    using assms(2) by simp
  ultimately show ?thesis by (metis add.commute drop_drop)
qed

lemma peek_poke_other:
  assumes p: "poke r a bs = Some r'" and far: "b + n \<le> a \<or> a + length bs \<le> b"
  shows "peek r' b n = peek r b n"
proof -
  let ?a = "a - sk_base r" and ?b = "b - sk_base r" and ?m = "sk_buff r"
  have in_a: "sk_base r \<le> a" "?a + length bs \<le> length ?m" and
    r': "sk_base r' = sk_base r" "sk_buff r' = take ?a ?m @ bs @ drop (?a + length bs) ?m"
    using p by (auto simp: poke_def split: if_splits)
  have len: "length (sk_buff r') = length ?m" using in_a r' by simp
  show ?thesis
  proof (cases "sk_base r \<le> b \<and> b + n \<le> sk_base r + length ?m")
    case True
    have "take n (drop ?b (sk_buff r')) = take n (drop ?b ?m)"
    proof (cases "b + n \<le> a")
      case True
      then show ?thesis using splice_before [of ?b n ?a ?m] in_a r' \<open>sk_base r \<le> b \<and> _\<close> by simp
    next
      case False
      then have "?a + length bs \<le> ?b" using far in_a by simp
      from splice_after [OF this in_a(2)] show ?thesis using r' by simp
    qed
    then show ?thesis using True len r'(1) by (simp add: peek_def)
  qed (use len r'(1) in \<open>auto simp: peek_def\<close>)
qed


text \<open>A node: its two pointers lie in the sixteen bytes before its address.\<close>

definition in_buffer :: "stack_resource \<Rightarrow> nat \<Rightarrow> bool" where
  "in_buffer r q \<longleftrightarrow> sk_base r + node_size \<le> q \<and> q \<le> sk_base r + length (sk_buff r) \<and>
     sk_base r + length (sk_buff r) < 2 ^ 64"

lemma node_ptrs:
  assumes "in_buffer r q"
  shows "size_minus q ptr_size = q - 8" "size_minus (q - 8) ptr_size = q - 16"
    "sk_base r \<le> q - 16" "q - 16 + 8 = q - 8" "q - 8 + 8 = q" "q < 2 ^ 64"
    "sk_base r \<le> q - 8 \<and> q - 8 + 8 \<le> sk_base r + length (sk_buff r)"
    "sk_base r \<le> q - 16 \<and> q - 16 + 8 \<le> sk_base r + length (sk_buff r)"
proof -
  have q: "sk_base r + 16 \<le> q" "q < 2 ^ 64" "q \<le> sk_base r + length (sk_buff r)"
    using assms unfolding in_buffer_def node_size_def by linarith+
  have "8 \<le> q" "8 \<le> q - 8" "q - 8 < 2 ^ 64" using q(1,2) by linarith+
  then show "size_minus q ptr_size = q - 8" "size_minus (q - 8) ptr_size = q - 16"
    using size_minus_le [of 8 q] size_minus_le [of 8 "q - 8"] q(2) unfolding ptr_size_def by (simp_all only: diff_diff_left numeral_plus_numeral semiring_norm)
  show "sk_base r \<le> q - 16" "q - 16 + 8 = q - 8" "q - 8 + 8 = q" "q < 2 ^ 64"
    "sk_base r \<le> q - 8 \<and> q - 8 + 8 \<le> sk_base r + length (sk_buff r)"
    "sk_base r \<le> q - 16 \<and> q - 16 + 8 \<le> sk_base r + length (sk_buff r)"
    using q by linarith+
qed

lemma get_node_eq:
  assumes "in_buffer r q"
  shows "get_node r q = do { prev \<leftarrow> peek r (q - 8) 8; nxt \<leftarrow> peek r (q - 16) 8; Some (bytes_ptr prev, bytes_ptr nxt) }"
  unfolding get_node_def Let_def node_ptrs [OF assms] by (simp add: ptr_size_def)

lemma same_frame_in: "same_frame r r' \<Longrightarrow> in_buffer r' q = in_buffer r q"
  by (simp add: same_frame_def in_buffer_def)

text \<open>Writing a node: it reads back, the nodes apart from it stay, and so do the bytes of the blocks.\<close>

lemma set_node_ok:
  assumes q: "in_buffer r q" and ptrs: "prev < 2 ^ 64" "nxt < 2 ^ 64"
  shows "\<exists>r'. set_node r q prev nxt = Some r' \<and> same_frame r r' \<and> sk_top r' = sk_top r \<and>
    get_node r' q = Some (prev, nxt) \<and> (\<forall>b n. b + n \<le> q - 16 \<or> q \<le> b \<longrightarrow> peek r' b n = peek r b n)"
proof -
  note ps = node_ptrs [OF q]
  obtain r1 where r1: "poke r (q - 8) (ptr_bytes prev) = Some r1"
    using ps(7) unfolding poke_def by simp
  note f1 = poke_frame [OF r1]
  obtain r2 where r2: "poke r1 (q - 16) (ptr_bytes nxt) = Some r2"
    using ps(8) f1 unfolding poke_def same_frame_def by simp
  note f2 = poke_frame [OF r2]
  have frame: "same_frame r r2" "sk_top r2 = sk_top r" using f1 f2 by (auto simp: same_frame_def)
  have "peek r2 (q - 8) 8 = Some (ptr_bytes prev)"
    using peek_poke_other [OF r2, of "q - 8" 8] peek_poke_same [OF r1] ps(4) by simp
  moreover have "peek r2 (q - 16) 8 = Some (ptr_bytes nxt)" using peek_poke_same [OF r2] by simp
  ultimately have "get_node r2 q = Some (prev, nxt)"
    using get_node_eq [of r2 q] q same_frame_in [OF frame(1)] bytes_ptr_bytes ptrs by simp
  moreover have "peek r2 b n = peek r b n" if "b + n \<le> q - 16 \<or> q \<le> b" for b n
  proof -
    have "b + n \<le> q - 16 \<or> q - 16 + 8 \<le> b" "b + n \<le> q - 8 \<or> q - 8 + 8 \<le> b" using that ps(4,5) by linarith+
    then show ?thesis using peek_poke_other [OF r2, of b n] peek_poke_other [OF r1, of b n] by simp
  qed
  moreover have "set_node r q prev nxt = Some r2" using r1 r2 unfolding set_node_def Let_def ps by simp
  ultimately show ?thesis using frame by blast
qed

lemma get_node_other:
  assumes frame: "same_frame r r'" and same: "\<forall>b n. b + n \<le> q - 16 \<or> q \<le> b \<longrightarrow> peek r' b n = peek r b n"
    and p: "in_buffer r p" and q: "in_buffer r q" and far: "p + 16 \<le> q \<or> q + 16 \<le> p"
  shows "get_node r' p = get_node r p"
proof -
  have "peek r' (p - 8) 8 = peek r (p - 8) 8" "peek r' (p - 16) 8 = peek r (p - 16) 8"
    using same far node_ptrs(4,5) [OF p] node_ptrs(4) [OF q] by auto
  then show ?thesis using get_node_eq [OF p] get_node_eq [of r' p] p same_frame_in [OF frame] by simp
qed

lemma get_node_top: "get_node (r\<lparr>sk_top := t\<rparr>) = get_node r"
  by (rule ext) (simp add: get_node_def peek_def Let_def)

section \<open>The list in the buffer\<close>

text \<open>
  \<open>linked g prev qs nxt\<close>: the nodes \<open>qs\<close> point to one another, the first one back to \<open>prev\<close>, the final
  one to \<open>nxt\<close>.
\<close>

fun linked :: "(nat \<Rightarrow> (nat \<times> nat) option) \<Rightarrow> nat \<Rightarrow> nat list \<Rightarrow> nat \<Rightarrow> bool" where
  "linked g prev [] nxt \<longleftrightarrow> True"
| "linked g prev (q # qs) nxt \<longleftrightarrow> g q = Some (prev, hd (qs @ [nxt])) \<and> linked g q qs nxt"

lemma linked_append:
  "linked g prev (xs @ ys) nxt \<longleftrightarrow> linked g prev xs (hd (ys @ [nxt])) \<and> linked g (last (prev # xs)) ys nxt"
  by (induction xs arbitrary: prev) (auto simp: hd_append)

lemma linked_cong: "(\<And>q. q \<in> set qs \<Longrightarrow> g' q = g q) \<Longrightarrow> linked g prev qs nxt \<Longrightarrow> linked g' prev qs nxt"
  by (induction qs arbitrary: prev) auto

text \<open>The blocks in the order of their addresses, \<open>lo\<close> the node before them and \<open>hi\<close> the end.\<close>

definition node_of :: "nat \<times> nat \<Rightarrow> nat" where
  "node_of blk = fst blk + snd blk + node_size"

fun spaced :: "nat \<Rightarrow> (nat \<times> nat) list \<Rightarrow> nat \<Rightarrow> bool" where
  "spaced lo [] hi \<longleftrightarrow> lo \<le> hi"
| "spaced lo (blk # blks) hi \<longleftrightarrow> lo \<le> fst blk \<and> spaced (node_of blk) blks hi"

lemma spaced_append:
  "spaced lo (xs @ ys) hi \<longleftrightarrow> spaced lo xs (last (lo # map node_of xs)) \<and> spaced (last (lo # map node_of xs)) ys hi"
  by (induction xs arbitrary: lo) auto

lemma spaced_lo_hi: "spaced lo xs hi \<Longrightarrow> lo \<le> hi"
proof (induction xs arbitrary: lo)
  case (Cons x xs)
  then have "lo \<le> node_of x" "node_of x \<le> hi" by (auto simp: node_of_def)
  then show ?case by simp
qed simp

lemma spaced_le: "spaced lo xs hi \<Longrightarrow> blk \<in> set xs \<Longrightarrow> lo \<le> fst blk \<and> node_of blk \<le> hi"
proof (induction xs arbitrary: lo)
  case (Cons x xs)
  then show ?case using spaced_lo_hi [of "node_of x" xs hi] by (fastforce simp: node_of_def)
qed simp

lemma spaced_weaken: "spaced lo xs hi \<Longrightarrow> lo' \<le> lo \<Longrightarrow> spaced lo' xs hi"
  by (cases xs) auto

lemma spaced_sorted: "spaced lo xs hi \<Longrightarrow> sorted_wrt (\<lambda>x y. x + 16 \<le> y) (lo # map node_of xs)"
proof (induction xs arbitrary: lo)
  case (Cons x xs)
  moreover have "lo + 16 \<le> node_of y" if "y \<in> set (x # xs)" for y
    using spaced_le [OF Cons.prems that] by (simp add: node_of_def node_size_def)
  ultimately show ?case using Cons.IH [of "node_of x"] Cons.prems by simp
qed simp

lemma spaced_apart:
  "spaced lo blks hi \<Longrightarrow> (p, n) \<in> set blks \<Longrightarrow> x \<in> set (lo # map node_of blks) \<Longrightarrow> x \<le> p \<or> p + n + 16 \<le> x"
proof (induction blks arbitrary: lo)
  case (Cons b bs)
  show ?case
  proof (cases "x = lo")
    case True
    then show ?thesis using spaced_le [OF Cons.prems(1,2)] by simp
  next
    case False
    then have x: "x \<in> set (node_of b # map node_of bs)" using Cons.prems(3) by simp
    have sp: "spaced (node_of b) bs hi" using Cons.prems(1) by simp
    show ?thesis
    proof (cases "(p, n) = b")
      case True
      then show ?thesis using x spaced_le [OF sp] by (fastforce simp: node_of_def node_size_def)
    next
      case False
      then show ?thesis using Cons.IH [OF sp] x Cons.prems(2) by auto
    qed
  qed
qed simp

text \<open>The invariant: the list of the nodes is the list of the blocks.\<close>

definition first_node :: "stack_resource \<Rightarrow> nat" where
  "first_node r = sk_base r + node_size"

definition nodes :: "stack_resource \<Rightarrow> (nat \<times> nat) list \<Rightarrow> nat list" where
  "nodes r blks = first_node r # map node_of blks"

definition stack_inv :: "stack_resource \<Rightarrow> (nat \<times> nat) list \<Rightarrow> bool" where
  "stack_inv r blks \<longleftrightarrow>
     0 < sk_base r \<and> sk_base r + length (sk_buff r) < 2 ^ 64 \<and>
     spaced (first_node r) blks (sk_base r + length (sk_buff r)) \<and>
     sk_top r = last (nodes r blks) \<and>
     linked (get_node r) 0 (nodes r blks) 0"

lemma same_frame_nodes: "same_frame r r' \<Longrightarrow> nodes r' blks = nodes r blks \<and> first_node r' = first_node r"
  by (simp add: same_frame_def nodes_def first_node_def)

lemma nodes_in: "stack_inv r blks \<Longrightarrow> q \<in> set (nodes r blks) \<Longrightarrow> in_buffer r q"
proof -
  assume inv: "stack_inv r blks" and q: "q \<in> set (nodes r blks)"
  have "first_node r \<le> q \<and> q \<le> sk_base r + length (sk_buff r)"
    using inv q spaced_le [of "first_node r" blks] spaced_lo_hi [of "first_node r" blks]
    by (fastforce simp: stack_inv_def nodes_def node_of_def)
  then show ?thesis using inv by (simp add: in_buffer_def stack_inv_def first_node_def)
qed

lemma nodes_sorted: "stack_inv r blks \<Longrightarrow> sorted_wrt (\<lambda>x y. x + 16 \<le> y) (nodes r blks)"
  unfolding nodes_def stack_inv_def by (metis spaced_sorted)

lemma stack_new_inv:
  assumes "node_size \<le> cap" "0 < base" "base + cap < 2 ^ 64"
  shows "\<exists>r. stack_new base cap = Some r \<and> stack_inv r [] \<and> sk_base r = base \<and> length (sk_buff r) = cap"
proof -
  let ?r = "\<lparr>sk_base = base, sk_buff = replicate cap 0, sk_top = base + node_size\<rparr>"
  have "in_buffer ?r (base + node_size)" using assms by (simp add: in_buffer_def)
  from set_node_ok [OF this, of 0 0] obtain r where "set_node ?r (base + node_size) 0 0 = Some r" "same_frame ?r r"
    "sk_top r = base + node_size" "get_node r (base + node_size) = Some (0, 0)" by auto
  then show ?thesis using assms
    by (intro exI [of _ r]) (auto simp: stack_new_def Let_def stack_inv_def nodes_def first_node_def same_frame_def)
qed

text \<open>Writing one node of a list of nodes that are apart.\<close>

lemma sorted_gap: "sorted_wrt (\<lambda>x y. x + 16 \<le> y) ns \<Longrightarrow> p \<in> set ns \<Longrightarrow> q \<in> set ns \<Longrightarrow> p \<noteq> q \<Longrightarrow> p + 16 \<le> q \<or> q + 16 \<le> (p :: nat)"
  by (induction ns) auto

lemma set_node_at:
  assumes ns: "\<forall>x \<in> set ns. in_buffer r x" "sorted_wrt (\<lambda>x y. x + 16 \<le> y) ns" and q: "q \<in> set ns"
    and ptrs: "prev < 2 ^ 64" "nxt < 2 ^ 64"
  shows "\<exists>r'. set_node r q prev nxt = Some r' \<and> same_frame r r' \<and> sk_top r' = sk_top r \<and>
    (\<forall>x \<in> set ns. get_node r' x = (if x = q then Some (prev, nxt) else get_node r x))"
proof -
  obtain r' where r': "set_node r q prev nxt = Some r'" "same_frame r r'" "sk_top r' = sk_top r"
    "get_node r' q = Some (prev, nxt)" "\<forall>b n. b + n \<le> q - 16 \<or> q \<le> b \<longrightarrow> peek r' b n = peek r b n"
    using set_node_ok [of r q prev nxt] ns(1) q ptrs by blast
  have "get_node r' x = get_node r x" if "x \<in> set ns" "x \<noteq> q" for x
    using get_node_other [OF r'(2,5), of x] sorted_gap [OF ns(2) that(1) q that(2)] ns(1) that(1) q by simp
  then show ?thesis using r' by auto
qed

lemma node_ptr_less: "in_buffer r q \<Longrightarrow> 0 < sk_base r \<Longrightarrow> q < 2 ^ 64 \<and> 0 < q"
  by (auto simp: in_buffer_def node_size_def)

text \<open>The padding of \<open>allocate\<close>.\<close>

lemma padding_eq:
  assumes "k < 64" "a + 2 ^ k \<le> 2 ^ 64"
  shows "a + unat (align_addr (of_nat a) (of_nat (2 ^ k)) - of_nat a) = (a + 2 ^ k - 1) div 2 ^ k * 2 ^ k"
    (is "a + unat (?x - _) = ?r")
proof -
  have r: "a \<le> ?r" "?r < 2 ^ 64" using align_up [of "2 ^ k" a] assms(2) by auto
  have x: "unat ?x = ?r" by (rule align_addr_eq [OF assms])
  have a: "unat (of_nat a :: 64 word) = a" using r by (simp add: unat_of_nat)
  then have "(of_nat a :: 64 word) \<le> ?x" using x r by (simp add: word_le_nat_alt)
  then have "unat (?x - of_nat a) = ?r - a" using x a by (simp add: unat_sub)
  then show ?thesis using r by simp
qed

lemma no_space_iff:
  "(t :: nat) \<le> hi \<Longrightarrow> t \<le> p \<Longrightarrow> bytes > hi - t \<or> p - t + m > hi - t - bytes \<longleftrightarrow> hi < p + bytes + m"
  by arith

section \<open>The operations keep the invariant\<close>

text \<open>What the two operations do to the list: a node is put behind the last one, or taken out.\<close>

lemma apart_distinct: "sorted_wrt (\<lambda>x y. (x :: nat) + 16 \<le> y) ns \<Longrightarrow> distinct ns"
  by (induction ns) fastforce+

lemma linked_behind:
  assumes link: "linked g 0 (xs @ [t]) 0" and d: "distinct (xs @ [t, q])"
    and g': "\<forall>x \<in> set (xs @ [t, q]). g' x = (if x = t then Some (last (0 # xs), q) else if x = q then Some (t, 0) else g x)"
  shows "linked g' 0 (xs @ [t, q]) 0"
proof -
  have "linked g' 0 xs t" using link d g' by (intro linked_cong [of xs g' g]) (auto simp: linked_append)
  then show ?thesis using d g' by (simp add: linked_append)
qed

lemma linked_unlink:
  assumes link: "linked g 0 (xs @ [t, q] @ ys) 0" and d: "distinct (xs @ [t, q] @ ys)"
    and g': "\<forall>x \<in> set (xs @ [t] @ ys). g' x = (if x = t then Some (last (0 # xs), hd (ys @ [0]))
      else if ys \<noteq> [] \<and> x = hd ys then Some (t, hd (tl ys @ [0])) else g x)"
  shows "linked g' 0 (xs @ [t] @ ys) 0"
proof -
  have "hd ys \<notin> set xs" if "ys \<noteq> []" using d that by (cases ys) auto
  then have "linked g' 0 xs t" using link d g' by (intro linked_cong [of xs g' g]) (auto simp: linked_append)
  moreover have "linked g' t ys 0"
  proof (cases ys)
    case (Cons w zs)
    have "linked g w zs 0" using link Cons by (simp add: linked_append)
    then have "linked g' w zs 0" using d g' Cons by (intro linked_cong [of zs g' g]) auto
    then show ?thesis using d g' Cons by auto
  qed simp
  ultimately show ?thesis using g' by (simp add: linked_append)
qed

lemma push_node:
  assumes ins: "\<forall>x \<in> set ns. in_buffer r x" and sorted: "sorted_wrt (\<lambda>x y. x + 16 \<le> y) ns" and base: "0 < sk_base r"
    and ns: "ns = xs @ [t, q]" and link: "linked (get_node r) 0 (xs @ [t]) 0"
  shows "\<exists>r1 r2. get_node r t = Some (last (0 # xs), 0) \<and> set_node (r\<lparr>sk_top := q\<rparr>) q t 0 = Some r1 \<and> sk_top r1 = q \<and>
    set_node r1 t (last (0 # xs)) q = Some r2 \<and> sk_top r2 = q \<and> same_frame r r2 \<and> linked (get_node r2) 0 (xs @ [t, q]) 0"
proof -
  have less: "x < 2 ^ 64" if "x \<in> set ns" for x using ins node_ptr_less [OF _ base] that by blast
  have d: "distinct (xs @ [t, q])" using apart_distinct [OF sorted] ns by simp
  have "last (0 # xs) = 0 \<or> last (0 # xs) \<in> set xs" by auto
  then have lims: "last (0 # xs) < 2 ^ 64" "t < 2 ^ 64" "q < 2 ^ 64" using less ns by auto
  let ?r0 = "r\<lparr>sk_top := q\<rparr>"
  have f0: "same_frame r ?r0" by (simp add: same_frame_def)
  have in0: "\<forall>x \<in> set ns. in_buffer ?r0 x" using ins by (simp add: same_frame_in [OF f0])
  have q: "q \<in> set ns" "t \<in> set ns" using ns by simp_all
  have "\<exists>r1. set_node ?r0 q t 0 = Some r1 \<and> same_frame ?r0 r1 \<and> sk_top r1 = q \<and>
      (\<forall>x \<in> set ns. get_node r1 x = (if x = q then Some (t, 0) else get_node r x))"
    using set_node_at [OF in0 sorted q(1) lims(2), of 0] by (simp add: get_node_top cong: if_cong)
  then obtain r1 where
    r1: "set_node ?r0 q t 0 = Some r1" "same_frame ?r0 r1" "sk_top r1 = q"
    "\<forall>x \<in> set ns. get_node r1 x = (if x = q then Some (t, 0) else get_node r x)" by blast
  have in1: "\<forall>x \<in> set ns. in_buffer r1 x" using in0 same_frame_in [OF r1(2)] by blast
  from set_node_at [OF in1 sorted q(2) lims(1,3)] r1(3) obtain r2 where
    r2: "set_node r1 t (last (0 # xs)) q = Some r2" "same_frame r1 r2" "sk_top r2 = q"
    "\<forall>x \<in> set ns. get_node r2 x = (if x = t then Some (last (0 # xs), q) else get_node r1 x)" by metis
  have "linked (get_node r2) 0 (xs @ [t, q]) 0" using r1(4) r2(4) ns by (intro linked_behind [OF link d]) auto
  moreover have "get_node r t = Some (last (0 # xs), 0)" using link by (simp add: linked_append)
  moreover have "same_frame r r2" using r1(2) r2(2) by (simp add: same_frame_def)
  ultimately show ?thesis using r1(1,3) r2(1,3) by blast
qed

lemma unlink_node:
  assumes ins: "\<forall>x \<in> set ns. in_buffer r x" and sorted: "sorted_wrt (\<lambda>x y. x + 16 \<le> y) ns" and base: "0 < sk_base r"
    and ns: "ns = xs @ [t, q] @ ys" and link: "linked (get_node r) 0 ns 0"
  shows "\<exists>r1 r2. get_node r q = Some (t, hd (ys @ [0])) \<and> get_node r t = Some (last (0 # xs), q) \<and>
    set_node r t (last (0 # xs)) (hd (ys @ [0])) = Some r1 \<and> (hd (ys @ [0]) = 0 \<longleftrightarrow> ys = []) \<and>
    (if ys = [] then r2 = r1\<lparr>sk_top := t\<rparr>
     else \<exists>m. get_node r1 (hd ys) = Some (q, m) \<and> set_node r1 (hd ys) t m = Some r2 \<and> sk_top r2 = sk_top r) \<and>
    same_frame r r2 \<and> linked (get_node r2) 0 (xs @ [t] @ ys) 0"
proof -
  let ?n = "hd (ys @ [0])"
  have less: "x < 2 ^ 64 \<and> 0 < x" if "x \<in> set ns" for x using ins node_ptr_less [OF _ base] that by blast
  have d: "distinct (xs @ [t, q] @ ys)" using apart_distinct [OF sorted] ns by simp
  have "last (0 # xs) = 0 \<or> last (0 # xs) \<in> set xs" by auto
  then have lims: "last (0 # xs) < 2 ^ 64" "?n < 2 ^ 64" "t < 2 ^ 64" using less ns by (auto simp: hd_append)
  have nt: "get_node r t = Some (last (0 # xs), q)" "get_node r q = Some (t, ?n)"
    using link ns by (simp_all add: linked_append)
  have t: "t \<in> set ns" using ns by simp
  from set_node_at [OF ins sorted t lims(1,2)] obtain r1 where
    r1: "set_node r t (last (0 # xs)) ?n = Some r1" "same_frame r r1" "sk_top r1 = sk_top r"
    "\<forall>x \<in> set ns. get_node r1 x = (if x = t then Some (last (0 # xs), ?n) else get_node r x)" by blast
  show ?thesis
  proof (cases ys)
    case Nil
    have "linked (get_node r1) 0 (xs @ [t] @ ys) 0"
      using r1(4) ns Nil by (intro linked_unlink [OF link [unfolded ns] d]) auto
    then show ?thesis using nt r1(1,2) Nil by (simp add: same_frame_def get_node_top)
  next
    case (Cons w zs)
    let ?m = "hd (zs @ [0])"
    have w: "w \<in> set ns" "?n = w" "0 < w" "w \<noteq> t" using ns Cons less d by auto
    have in1: "\<forall>x \<in> set ns. in_buffer r1 x" using ins same_frame_in [OF r1(2)] by blast
    have "?m < 2 ^ 64" using less ns Cons by (auto simp: hd_append)
    from set_node_at [OF in1 sorted w(1) lims(3) this] obtain r2 where
      r2: "set_node r1 w t ?m = Some r2" "same_frame r1 r2" "sk_top r2 = sk_top r1"
      "\<forall>x \<in> set ns. get_node r2 x = (if x = w then Some (t, ?m) else get_node r1 x)" by blast
    have "get_node r1 w = Some (q, ?m)" using link r1(4) w ns Cons by (simp add: linked_append)
    moreover have "linked (get_node r2) 0 (xs @ [t] @ ys) 0"
      using r1(4) r2(4) ns Cons w by (intro linked_unlink [OF link [unfolded ns] d]) auto
    moreover have "same_frame r r2" using r1(2) r2(2) by (simp add: same_frame_def)
    ultimately show ?thesis using nt r1(1,3) r2(1,3) Cons w by auto
  qed
qed

text \<open>The padding, and the test that there is room for it, the block and the node.\<close>

lemma allocate_guard:
  assumes k: "k < 64" and t: "t \<le> hi" "hi < 2 ^ 64" "hi + 2 ^ k \<le> 2 ^ 64"
  defines "pad \<equiv> unat (align_addr (of_nat t) (of_nat (2 ^ k)) - of_nat t)"
  shows "t \<le> align t (2 ^ k)" "pad = align t (2 ^ k) - t" "align t (2 ^ k) < t + 2 ^ k"
    "bytes > hi - t \<or> (pad + node_size) mod 2 ^ 64 > hi - t - bytes \<longleftrightarrow> hi < align t (2 ^ k) + bytes + node_size"
proof -
  have "t + 2 ^ k \<le> 2 ^ 64" using t by linarith
  with padding_eq [OF k this] align_eq [OF k this] align_up [of "2 ^ k" t] show
    up: "t \<le> align t (2 ^ k)" and pad: "pad = align t (2 ^ k) - t" and lt: "align t (2 ^ k) < t + 2 ^ k"
    by (auto simp: pad_def)
  have "(2 :: nat) ^ k \<le> 2 ^ 63" using k by (intro power_increasing) auto
  then have "pad + node_size < 2 ^ 63 + 16" using up lt pad by (simp add: node_size_def)
  then have "(pad + node_size) mod 2 ^ 64 = pad + node_size" by simp
  then show "bytes > hi - t \<or> (pad + node_size) mod 2 ^ 64 > hi - t - bytes \<longleftrightarrow> hi < align t (2 ^ k) + bytes + node_size"
    using pad no_space_iff [OF t(1) up] by simp
qed

lemma stack_allocate_inv:
  assumes inv: "stack_inv r blks" and bytes: "0 < bytes" and k: "k < 64"
    and room: "sk_base r + length (sk_buff r) + 2 ^ k \<le> 2 ^ 64"
  shows "\<exists>res r'. stack_allocate r bytes (2 ^ k) = Some (res, r') \<and> same_frame r r' \<and>
    (case res of
       None \<Rightarrow> r' = r \<and> sk_base r + length (sk_buff r) < align (sk_top r) (2 ^ k) + bytes + node_size
     | Some p \<Rightarrow> p = align (sk_top r) (2 ^ k) \<and> p + bytes + node_size \<le> sk_base r + length (sk_buff r) \<and>
         stack_inv r' (blks @ [(p, bytes)]))"
proof -
  let ?top = "sk_top r" and ?hi = "sk_base r + length (sk_buff r)"
  let ?p = "align ?top (2 ^ k)" and ?q = "align ?top (2 ^ k) + bytes + node_size"
  obtain xs where ns: "nodes r blks = xs @ [?top]"
    using inv by (metis append_butlast_last_id list.distinct(1) nodes_def stack_inv_def)
  have base: "0 < sk_base r" "?hi < 2 ^ 64" and link: "linked (get_node r) 0 (xs @ [?top]) 0"
    and sp: "spaced (first_node r) blks ?hi" using inv ns by (simp_all add: stack_inv_def)
  have in_ns: "\<forall>x \<in> set (xs @ [?top]). in_buffer r x" using nodes_in [OF inv] ns by simp
  then have top: "?top \<le> ?hi" by (auto simp: in_buffer_def)
  have node: "get_node r ?top = Some (last (0 # xs), 0)" using link by (simp add: linked_append)
  note guard = allocate_guard [OF k top base(2) room]
  have space: "free_space r = ?hi - ?top" using size_minus_le [OF top base(2)] by (simp add: free_space_def)
  show ?thesis
  proof (cases "?hi < ?q")
    case True
    then have "stack_allocate r bytes (2 ^ k) = Some (None, r)"
      using node guard(4) [of bytes] by (simp add: stack_allocate_def Let_def space)
    then show ?thesis using True by (simp add: same_frame_def)
  next
    case False
    have q: "?top + 16 \<le> ?q" "in_buffer r ?q" using False guard(1) in_ns by (simp_all add: in_buffer_def node_size_def)
    have sorted: "sorted_wrt (\<lambda>x y. x + 16 \<le> y) (xs @ [?top, ?q])"
      using nodes_sorted [OF inv] ns q(1) by (fastforce simp: sorted_wrt_append)
    have ins: "\<forall>x \<in> set (xs @ [?top, ?q]). in_buffer r x" using in_ns q(2) by simp
    from push_node [OF ins sorted base(1) refl link] obtain r1 r2 where
      r1: "set_node (r\<lparr>sk_top := ?q\<rparr>) ?q ?top 0 = Some r1" "sk_top r1 = ?q"
      and r2: "set_node r1 ?top (last (0 # xs)) ?q = Some r2" "sk_top r2 = ?q"
      and frame: "same_frame r r2" and link2: "linked (get_node r2) 0 (xs @ [?top, ?q]) 0" by blast
    have "?top + (?p - ?top) = ?p" using guard(1) by simp
    then have "stack_allocate r bytes (2 ^ k) = Some (Some ?p, r2)"
      using False node guard(2) guard(4) [of bytes] r1 r2(1) by (simp add: stack_allocate_def Let_def space)
    moreover have "nodes r2 (blks @ [(?p, bytes)]) = xs @ [?top, ?q]"
      using ns same_frame_nodes [OF frame] by (simp add: nodes_def node_of_def)
    moreover have "?top = last (first_node r # map node_of blks)" using ns by (simp add: nodes_def split: if_splits)
    then have "spaced (first_node r) (blks @ [(?p, bytes)]) ?hi"
      using sp False guard(1) spaced_append [of "first_node r" blks "[]" ?hi] by (simp add: spaced_append node_of_def)
    ultimately have "stack_inv r2 (blks @ [(?p, bytes)])" "stack_allocate r bytes (2 ^ k) = Some (Some ?p, r2)"
      using base same_frame_nodes [OF frame] frame r2(2) link2 by (simp_all add: stack_inv_def same_frame_def)
    then show ?thesis using frame False by simp
  qed
qed

text \<open>The blocks are freed in any order: the node of one is taken out of the list.\<close>

lemma stack_deallocate_inv:
  assumes inv: "stack_inv r (us @ (p, bytes) # vs)"
  shows "\<exists>r'. stack_deallocate r p bytes al = Some (True, r') \<and> same_frame r r' \<and> stack_inv r' (us @ vs)"
proof -
  let ?hi = "sk_base r + length (sk_buff r)" and ?q = "node_of (p, bytes)" and ?ys = "map node_of vs"
  obtain xs t where us: "nodes r us = xs @ [t]" by (metis append_butlast_last_id list.distinct(1) nodes_def)
  let ?ns = "xs @ [t, ?q] @ ?ys"
  have ns: "nodes r (us @ (p, bytes) # vs) = ?ns" using us by (simp add: nodes_def)
  have base: "0 < sk_base r" "?hi < 2 ^ 64" and link: "linked (get_node r) 0 ?ns 0"
    and sp: "spaced (first_node r) (us @ (p, bytes) # vs) ?hi" and top: "sk_top r = last ?ns"
    using inv ns by (simp_all add: stack_inv_def)
  have sorted: "sorted_wrt (\<lambda>x y. x + 16 \<le> y) ?ns" using nodes_sorted [OF inv] ns by simp
  from unlink_node [OF _ sorted base(1) refl link] nodes_in [OF inv] ns obtain r1 r2 where
    n: "get_node r ?q = Some (t, hd (?ys @ [0]))" "get_node r t = Some (last (0 # xs), ?q)"
    "set_node r t (last (0 # xs)) (hd (?ys @ [0])) = Some r1" "hd (?ys @ [0]) = 0 \<longleftrightarrow> ?ys = []"
    and r2: "if ?ys = [] then r2 = r1\<lparr>sk_top := t\<rparr>
      else \<exists>m. get_node r1 (hd ?ys) = Some (?q, m) \<and> set_node r1 (hd ?ys) t m = Some r2 \<and> sk_top r2 = sk_top r"
    and frame: "same_frame r r2" and link2: "linked (get_node r2) 0 (xs @ [t] @ ?ys) 0" by metis
  have blk: "sk_base r \<le> p" "p + bytes + node_size \<le> ?hi"
    using spaced_le [OF sp, of "(p, bytes)"] by (auto simp: first_node_def node_of_def)
  have guard: "\<not> (p < sk_base r \<or> p - sk_base r > length (sk_buff r))"
    "\<not> (bytes > length (sk_buff r) - (p - sk_base r) \<or> node_size > length (sk_buff r) - (p - sk_base r) - bytes)"
    using blk by linarith+
  have q: "p + bytes + node_size = ?q" by (simp add: node_of_def)
  have "stack_deallocate r p bytes al = Some (True, r2)"
    using guard n r2 by (cases "vs = []") (auto simp: stack_deallocate_def Let_def q)
  moreover have "sk_top r2 = last (xs @ [t] @ ?ys)" using r2 top by (cases vs) auto
  moreover have t: "t = last (first_node r # map node_of us)" using us by (simp add: nodes_def split: if_splits)
  have "t \<le> ?q" using sorted by (simp add: sorted_wrt_append)
  then have "spaced (first_node r) (us @ vs) ?hi"
    using sp t spaced_weaken [of ?q vs ?hi t] by (simp add: spaced_append)
  moreover have "nodes r (us @ vs) = xs @ [t] @ ?ys" using us by (simp add: nodes_def)
  ultimately show ?thesis
    using base same_frame_nodes [OF frame] frame link2 by (simp add: stack_inv_def same_frame_def)
qed


text \<open>A client that writes to its own blocks changes no node.\<close>

lemma stack_write_inv:
  assumes inv: "stack_inv r blks" and blk: "(p, n) \<in> set blks" and data: "p \<le> a" "a + length bs \<le> p + n"
  shows "\<exists>r'. poke r a bs = Some r' \<and> same_frame r r' \<and> stack_inv r' blks"
proof -
  let ?hi = "sk_base r + length (sk_buff r)"
  have sp: "spaced (first_node r) blks ?hi" using inv by (simp add: stack_inv_def)
  have lims: "first_node r \<le> p" "p + n + node_size \<le> ?hi" using spaced_le [OF sp blk] by (simp_all add: node_of_def)
  then have "sk_base r \<le> a \<and> a + length bs \<le> ?hi" using data unfolding first_node_def by linarith
  then obtain r' where r': "poke r a bs = Some r'" by (simp add: poke_def)
  note frame = poke_frame [OF r']
  have "get_node r' x = get_node r x" if x: "x \<in> set (nodes r blks)" for x
  proof -
    have in_x: "in_buffer r x" using nodes_in [OF inv x] .
    have "x \<le> p \<or> p + n + 16 \<le> x"
      using spaced_apart [OF sp blk] x by (simp add: nodes_def)
    then have "x - 8 + 8 \<le> a \<or> a + length bs \<le> x - 8" "x - 16 + 8 \<le> a \<or> a + length bs \<le> x - 16"
      using data node_ptrs(4,5) [OF in_x] by linarith+
    then have "peek r' (x - 8) 8 = peek r (x - 8) 8" "peek r' (x - 16) 8 = peek r (x - 16) 8"
      using peek_poke_other [OF r'] by blast+
    moreover have "in_buffer r' x" using in_x same_frame_in [of r r' x] frame by simp
    ultimately show ?thesis by (simp only: get_node_eq [OF in_x] get_node_eq)
  qed
  then have "linked (get_node r') 0 (nodes r blks) 0"
    using inv linked_cong [of "nodes r blks" "get_node r'" "get_node r"] by (simp add: stack_inv_def)
  then show ?thesis using r' frame inv same_frame_nodes [of r r' blks] by (simp add: stack_inv_def same_frame_def)
qed

section \<open>The resource\<close>

definition stack_ok :: "nat \<Rightarrow> nat \<Rightarrow> stack_resource \<Rightarrow> (nat \<times> nat) list \<Rightarrow> bool" where
  "stack_ok base cap r live \<longleftrightarrow> stack_inv r live \<and> sk_base r = base \<and> length (sk_buff r) = cap \<and>
     base + cap + 2 ^ max_align_log \<le> 2 ^ 64"

lemma align_dvd: "k < 64 \<Longrightarrow> a + 2 ^ k \<le> 2 ^ 64 \<Longrightarrow> 2 ^ k dvd align a (2 ^ k)"
  using align_up(3) [of "2 ^ k" a] by (simp add: align_eq)

lemma stack_alloc_ok:
  assumes "stack_ok base cap r live" "0 < bytes" "k \<le> max_align_log"
  shows "\<exists>res r'. stack_allocate r bytes (2 ^ k) = Some (res, r') \<and>
    (case res of
       None \<Rightarrow> r' = r
     | Some p \<Rightarrow> 2 ^ k dvd p \<and> (\<exists>us vs. live = us @ vs \<and> stack_ok base cap r' (us @ (p, bytes) # vs)))"
proof -
  let ?hi = "sk_base r + length (sk_buff r)"
  have inv: "stack_inv r live" and "?hi + 2 ^ max_align_log \<le> 2 ^ 64" using assms(1) unfolding stack_ok_def by simp_all
  then have room: "?hi + 2 ^ k \<le> 2 ^ 64"
    using align_log_less(2) [OF assms(3)] by (meson add_le_mono le_refl order_trans)
  have "sk_top r \<in> set (nodes r live)"
    using inv unfolding stack_inv_def nodes_def by (metis last_in_set list.distinct(1))
  then have "in_buffer r (sk_top r)" by (rule nodes_in [OF inv])
  then have "sk_top r + 2 ^ k \<le> 2 ^ 64" using room unfolding in_buffer_def by linarith
  note dvd = align_dvd [OF align_log_less(1) [OF assms(3)] this]
  from stack_allocate_inv [OF inv assms(2) align_log_less(1) [OF assms(3)] room] obtain res r' where
    step: "stack_allocate r bytes (2 ^ k) = Some (res, r')" "same_frame r r'" and
    res: "case res of None \<Rightarrow> r' = r \<and> ?hi < align (sk_top r) (2 ^ k) + bytes + node_size
      | Some p \<Rightarrow> p = align (sk_top r) (2 ^ k) \<and> p + bytes + node_size \<le> ?hi \<and> stack_inv r' (live @ [(p, bytes)])" by blast
  show ?thesis
  proof (cases res)
    case (Some p)
    then have "p = align (sk_top r) (2 ^ k)" "stack_inv r' (live @ [(p, bytes)])" using res by auto
    then have "stack_ok base cap r' (live @ [(p, bytes)])" using step(2) assms(1) unfolding stack_ok_def same_frame_def by simp
    then have "2 ^ k dvd p \<and> (\<exists>us vs. live = us @ vs \<and> stack_ok base cap r' (us @ (p, bytes) # vs))"
      using dvd \<open>p = _\<close> by (metis append_Nil2)
    then show ?thesis unfolding step Some by simp
  next
    case None
    then show ?thesis using res unfolding step by simp
  qed
qed

lemma stack_blocks_disjoint:
  assumes "stack_inv r (us @ a # ws @ b # vs)"
  shows "disjoint_blocks a b"
proof -
  have "spaced (last (first_node r # map node_of us)) (a # ws @ b # vs) (sk_base r + length (sk_buff r))"
    using assms spaced_append [of "first_node r" us "a # ws @ b # vs"] unfolding stack_inv_def by blast
  then have "spaced (node_of a) (ws @ b # vs) (sk_base r + length (sk_buff r))" by simp
  from spaced_le [OF this, of b] show ?thesis by (simp add: disjoint_blocks_def node_of_def)
qed

lemma stack_blocks_in:
  assumes "stack_ok base cap r live" "blk \<in> set live"
  shows "base \<le> fst blk \<and> fst blk + snd blk \<le> base + cap"
  using assms spaced_le [of "first_node r" live "base + cap" blk]
  by (auto simp: stack_ok_def stack_inv_def first_node_def node_of_def)

interpretation stack: memory_resource stack_allocate stack_deallocate "stack_ok base cap" "\<lambda>k. k \<le> max_align_log" base "base + cap" for base cap
proof
  show "\<exists>r'. stack_deallocate r p bytes (2 ^ k) = Some (True, r') \<and> stack_ok base cap r' (us @ vs)"
    if "stack_ok base cap r (us @ (p, bytes) # vs)" for r us p bytes vs k
    using that stack_deallocate_inv [of r us p bytes vs "2 ^ k"] unfolding stack_ok_def same_frame_def by auto
  show "disjoint_blocks a b" if "stack_ok base cap r (us @ a # ws @ b # vs)" for r us a ws b vs
    using that stack_blocks_disjoint [of r us a ws b vs] unfolding stack_ok_def by blast
qed (rule stack_alloc_ok stack_blocks_in; assumption)+

end
