(* ===== verification/SystemResource.thy ===== *)
theory SystemResource
  imports MemoryResource
begin

text \<open>
  \<open>pmr/new_delete_resource.hpp\<close>, \<open>pmr/throw_bad_alloc.hpp\<close> and the \<open>deleter\<close> of \<open>pmr/aliases.hpp\<close>.  The operators
  \<open>new\<close> and \<open>delete\<close> of the language runtime are parameters; what they promise is a locale, from which the promise of a
  \<open>memory_resource\<close> follows for the clients that use one alignment, as an \<open>allocator\<close> does.
\<close>

section \<open>The resource\<close>

text \<open>
  \<open>op_new h bytes alignment\<close> is the block, or \<^const>\<open>None\<close> for the null pointer of \<open>std::nothrow\<close>, and the heap;
  \<open>op_delete h p alignment\<close> is \<^const>\<open>None\<close> where it is undefined.
\<close>

type_synonym 'h new_fn = "'h \<Rightarrow> nat \<Rightarrow> nat \<Rightarrow> nat option \<times> 'h"
type_synonym 'h delete_fn = "'h \<Rightarrow> nat \<Rightarrow> nat \<Rightarrow> 'h option"

definition new_delete_allocate :: "'h new_fn \<Rightarrow> 'h allocate_fn" where
  "new_delete_allocate op_new h bytes alignment = Some (op_new h bytes alignment)"

definition new_delete_deallocate :: "'h delete_fn \<Rightarrow> 'h deallocate_fn" where
  "new_delete_deallocate op_delete h p bytes alignment = map_option (Pair True) (op_delete h p alignment)"

definition new_delete_is_equal :: "nat \<Rightarrow> nat \<Rightarrow> bool" where
  "new_delete_is_equal this other \<longleftrightarrow> this = other"

definition new_delete_is_full :: "'h \<Rightarrow> bool" where
  "new_delete_is_full h = False"

datatype bad_alloc_outcome = Thrown alloc_error | Aborted

definition throw_bad_alloc :: "bool \<Rightarrow> bad_alloc_outcome" where
  "throw_bad_alloc exceptions = (if exceptions then Thrown BadAlloc else Aborted)"

text \<open>The call of a \<open>deleter\<close>: the result of \<open>deallocate\<close> is dropped.  \<open>destroy\<close> is the destructor of the object.\<close>

definition deleter_call ::
  "('s \<Rightarrow> nat \<Rightarrow> 's) \<Rightarrow> 'r deallocate_fn \<Rightarrow> nat \<Rightarrow> nat \<Rightarrow> 's \<times> 'r \<Rightarrow> nat \<Rightarrow> ('s \<times> 'r) option" where
  "deleter_call destroy dealloc sz al sr item = do {
     let s = destroy (fst sr) item;
     (_, r) \<leftarrow> dealloc (snd sr) item sz al;
     Some (s, r)
   }"

section \<open>The operators\<close>

text \<open>\<open>heap h bs\<close>: the blocks \<open>bs\<close> (address, size and alignment) have been given, the youngest first.\<close>

locale operator_new =
  fixes op_new :: "'h new_fn" and op_delete :: "'h delete_fn" and heap :: "'h \<Rightarrow> (nat \<times> nat \<times> nat) list \<Rightarrow> bool"
    and lo hi :: nat
  assumes new_law: "heap h bs \<Longrightarrow> 0 < bytes \<Longrightarrow> k \<le> max_align_log \<Longrightarrow> op_new h bytes (2 ^ k) = (res, h') \<Longrightarrow>
      (case res of None \<Rightarrow> h' = h | Some p \<Rightarrow> 2 ^ k dvd p \<and> heap h' ((p, bytes, 2 ^ k) # bs))"
    and delete_law: "heap h (us @ (p, bytes, al) # vs) \<Longrightarrow> \<exists>h'. op_delete h p al = Some h' \<and> heap h' (us @ vs)"
    and heap_in: "heap h bs \<Longrightarrow> (p, n, al) \<in> set bs \<Longrightarrow> lo \<le> p \<and> p + n \<le> hi"
    and heap_disjoint: "heap h (us @ (p, n, al) # ws @ (q, m, al') # vs) \<Longrightarrow> disjoint_blocks (p, n) (q, m)"
begin

definition aligned_blocks :: "nat \<Rightarrow> 'h \<Rightarrow> (nat \<times> nat) list \<Rightarrow> bool" where
  "aligned_blocks k h live = heap h (map (\<lambda>(p, n). (p, n, 2 ^ k)) live)"

lemma new_delete_alloc_law:
  assumes "aligned_blocks k h live" "0 < bytes" "k \<le> max_align_log"
  shows "\<exists>res h'. new_delete_allocate op_new h bytes (2 ^ k) = Some (res, h') \<and>
    (case res of
       None \<Rightarrow> h' = h
     | Some p \<Rightarrow> 2 ^ k dvd p \<and> (\<exists>us vs. live = us @ vs \<and> aligned_blocks k h' (us @ (p, bytes) # vs)))"
proof -
  obtain res h' where step: "op_new h bytes (2 ^ k) = (res, h')" by fastforce
  note law = new_law [OF assms(1) [unfolded aligned_blocks_def] assms(2,3) step]
  have "case res of None \<Rightarrow> h' = h
     | Some p \<Rightarrow> 2 ^ k dvd p \<and> (\<exists>us vs. live = us @ vs \<and> aligned_blocks k h' (us @ (p, bytes) # vs))"
  proof (cases res)
    case (Some p)
    with law have "2 ^ k dvd p" "live = [] @ live" "aligned_blocks k h' ([] @ (p, bytes) # live)"
      by (simp_all add: aligned_blocks_def)
    with Some show ?thesis by fastforce
  qed (use law in simp)
  with step show ?thesis by (simp add: new_delete_allocate_def)
qed

lemma new_delete_dealloc_law:
  "aligned_blocks k h (us @ (p, bytes) # vs) \<Longrightarrow>
    \<exists>h'. new_delete_deallocate op_delete h p bytes (2 ^ k) = Some (True, h') \<and> aligned_blocks k h' (us @ vs)"
  using delete_law [of h "map (\<lambda>(p, n). (p, n, 2 ^ k)) us" p bytes "2 ^ k" "map (\<lambda>(p, n). (p, n, 2 ^ k)) vs"]
  by (auto simp: aligned_blocks_def new_delete_deallocate_def)

end

sublocale operator_new \<subseteq> aligned: memory_resource "new_delete_allocate op_new" "new_delete_deallocate op_delete"
  "aligned_blocks k" "\<lambda>j. j = k \<and> k \<le> max_align_log" lo hi for k
proof
  show "lo \<le> fst blk \<and> fst blk + snd blk \<le> hi" if "aligned_blocks k h live" "blk \<in> set live" for h live blk
    using that heap_in [of h _ "fst blk" "snd blk" "2 ^ k"] by (force simp: aligned_blocks_def)
  show "disjoint_blocks a b" if "aligned_blocks k h (us @ a # ws @ b # vs)" for h us a ws b vs
    using that heap_disjoint [of h _ "fst a" "snd a" "2 ^ k" _ "fst b" "snd b" "2 ^ k"] by (auto simp: aligned_blocks_def split_beta)
qed (use new_delete_alloc_law new_delete_dealloc_law in blast)+

text \<open>An object that an allocator made and a \<open>unique_ptr\<close> drops: its block is taken back, whatever came between.\<close>

context memory_resource
begin

lemma deleter_takes_back:
  assumes "ok r (us @ (p, sz) # vs)" "0 < sz" "served k"
  shows "\<exists>r'. deleter_call destroy dealloc sz (2 ^ k) (s, r) p = Some (destroy s p, r') \<and> ok r' (us @ vs)"
  using dealloc_law [OF assms] by (auto simp: deleter_call_def)

end

section \<open>A heap that keeps the promise\<close>

record bump_heap =
  bh_next :: nat
  bh_end :: nat
  bh_blocks :: "(nat \<times> nat \<times> nat) list"

definition bump_new :: "bump_heap new_fn" where
  "bump_new h bytes alignment =
     (let p = (bh_next h + alignment - 1) div alignment * alignment
      in if p + bytes \<le> bh_end h
         then (Some p, h\<lparr>bh_next := p + bytes, bh_blocks := (p, bytes, alignment) # bh_blocks h\<rparr>)
         else (None, h))"

definition bump_delete :: "bump_heap delete_fn" where
  "bump_delete h p alignment =
     (case List.extract (\<lambda>(q, _, al). q = p \<and> al = alignment) (bh_blocks h) of
        None \<Rightarrow> None | Some (us, _, vs) \<Rightarrow> Some (h\<lparr>bh_blocks := us @ vs\<rparr>))"

definition bump_ok :: "nat \<Rightarrow> nat \<Rightarrow> bump_heap \<Rightarrow> (nat \<times> nat \<times> nat) list \<Rightarrow> bool" where
  "bump_ok lo hi h bs \<longleftrightarrow> bh_blocks h = bs \<and> bh_end h = hi \<and> lo \<le> bh_next h \<and> bh_next h \<le> hi \<and>
     (\<forall>(p, n, _) \<in> set bs. 0 < n \<and> lo \<le> p \<and> p + n \<le> bh_next h) \<and>
     sorted_wrt (\<lambda>(p, _, _) (q, m, _). q + m \<le> p) bs"

lemma bump_ok_other:
  assumes "bump_ok lo hi h (us @ (p, n, al) # vs)" "(q, m, al') \<in> set us \<union> set vs"
  shows "q \<noteq> p"
proof -
  from assms(1) have all: "\<forall>(q, m, _) \<in> set (us @ (p, n, al) # vs). 0 < m"
    and sorted: "sorted_wrt (\<lambda>(p, _, _) (q, m, _). q + m \<le> p) (us @ (p, n, al) # vs)"
    unfolding bump_ok_def by (auto simp: split_beta)
  show ?thesis
  proof (cases "(q, m, al') \<in> set us")
    case True
    then have "0 < n" "p + n \<le> q" using all sorted by (fastforce simp: sorted_wrt_append)+
    then show ?thesis by simp
  next
    case False
    then have "(q, m, al') \<in> set vs" using assms(2) by simp
    then have "0 < m" "q + m \<le> p" using all sorted by (fastforce simp: sorted_wrt_append)+
    then show ?thesis by simp
  qed
qed

lemma bump_new_ok:
  assumes "bump_ok lo hi h bs" "0 < bytes" "bump_new h bytes (2 ^ k) = (res, h')"
  shows "case res of None \<Rightarrow> h' = h | Some p \<Rightarrow> 2 ^ k dvd p \<and> bump_ok lo hi h' ((p, bytes, 2 ^ k) # bs)"
proof -
  define p where "p = (bh_next h + 2 ^ k - 1) div 2 ^ k * 2 ^ k"
  have pos: "0 < (2 :: nat) ^ k" by simp
  note p = align_up(1,3) [OF pos, of "bh_next h", folded p_def]
  have step: "bump_new h bytes (2 ^ k) =
      (if p + bytes \<le> bh_end h
       then (Some p, h\<lparr>bh_next := p + bytes, bh_blocks := (p, bytes, 2 ^ k) # bh_blocks h\<rparr>) else (None, h))"
    unfolding bump_new_def Let_def p_def by (rule refl)
  show ?thesis
  proof (cases "p + bytes \<le> bh_end h")
    case True
    then have "bump_ok lo hi (h\<lparr>bh_next := p + bytes, bh_blocks := (p, bytes, 2 ^ k) # bh_blocks h\<rparr>) ((p, bytes, 2 ^ k) # bs)"
      using assms(1,2) p(1) unfolding bump_ok_def by fastforce
    then show ?thesis using True step assms(3) p(2) by auto
  qed (use step assms(3) in auto)
qed

lemma bump_delete_ok:
  assumes "bump_ok lo hi h (us @ (p, n, al) # vs)"
  shows "\<exists>h'. bump_delete h p al = Some h' \<and> bump_ok lo hi h' (us @ vs)"
proof -
  have "List.extract (\<lambda>(q, _, al'). q = p \<and> al' = al) (us @ (p, n, al) # vs) = Some (us, (p, n, al), vs)"
    using bump_ok_other [OF assms] by (fastforce simp: extract_Some_iff)
  moreover have "bh_blocks h = us @ (p, n, al) # vs" using assms by (simp add: bump_ok_def)
  moreover have "bump_ok lo hi (h\<lparr>bh_blocks := us @ vs\<rparr>) (us @ vs)"
    using assms by (auto simp: bump_ok_def sorted_wrt_append)
  ultimately show ?thesis by (simp add: bump_delete_def)
qed

interpretation system: operator_new bump_new bump_delete "bump_ok lo hi" lo hi for lo hi
proof
  show "disjoint_blocks (p, n) (q, m)" if "bump_ok lo hi h (us @ (p, n, al) # ws @ (q, m, al') # vs)" for h us p n al ws q m al' vs
    using that by (auto simp: bump_ok_def sorted_wrt_append disjoint_blocks_def)
  show "lo \<le> p \<and> p + n \<le> hi" if "bump_ok lo hi h bs" "(p, n, al) \<in> set bs" for h bs p n al
    using that by (fastforce simp: bump_ok_def)
qed (use bump_new_ok bump_delete_ok in blast)+

text \<open>A client over it, and the deleter.\<close>

lemma system_serves:
  assumes "bump_ok lo hi h []" "0 < sz" "k \<le> max_align_log" "\<forall>n. Allocate n \<in> set rs \<longrightarrow> 0 < n \<and> n * sz < 2 ^ 63"
  shows "\<exists>h' hs. serve (new_delete_allocate bump_new) (new_delete_deallocate bump_delete) sz (2 ^ k) rs (h, []) = Some (h', hs) \<and>
    (\<forall>b \<in> set hs. 2 ^ k dvd fst b \<and> lo \<le> fst b \<and> fst b + snd b * sz \<le> hi) \<and>
    (\<forall>i j. i < j \<longrightarrow> j < length hs \<longrightarrow> disjoint_blocks (block_of sz (hs ! i)) (block_of sz (hs ! j)))"
  using system.aligned.serve_ok [of lo hi k h sz k rs] assms by (simp add: system.aligned_blocks_def)

end
