(* ===== verification/StaticStorage.thy ===== *)
theory StaticStorage
  imports CircularBuffer
begin

text \<open>
  \<open>static_storage.hpp\<close>: the storage of the containers in its two versions, for any element type and for trivial
  ones, and that the second can stand in for the first.  Then what \<open>static_circular_buffer.hpp\<close> does with the first
  beyond \<open>CircularBuffer\<close>: ranges that are moved in, the order of two buffers, and the object of an iterator.
\<close>

section \<open>The storage for any type\<close>

text \<open>As in \<open>CircularBuffer\<close>, a slot is \<^term>\<open>Some x\<close> while an object lives there.  \<open>copy_n\<close> gives the rest of its source.\<close>

definition storage_emplace :: "'a option list \<Rightarrow> nat \<Rightarrow> 'a \<Rightarrow> 'a option list option" where
  "storage_emplace st i x = (if i < length st then Some (st [i := Some x]) else None)"

definition storage_copy_n :: "'a option list \<Rightarrow> nat \<Rightarrow> nat \<Rightarrow> 'a list \<Rightarrow> ('a list \<times> 'a option list) option" where
  "storage_copy_n st i n src =
     (if n \<le> length src then do { st \<leftarrow> store_n st i (take n src); Some (drop n src, st) } else None)"

text \<open>\<open>move_n\<close> leaves behind what a move makes of an object, \<open>moved\<close>; the results are the source, the rest of it and the storage.\<close>

definition storage_move_n ::
  "('a \<Rightarrow> 'a) \<Rightarrow> 'a option list \<Rightarrow> nat \<Rightarrow> nat \<Rightarrow> 'a list \<Rightarrow> ('a list \<times> 'a list \<times> 'a option list) option"
where
  "storage_move_n moved st i n src =
     (if n \<le> length src
      then do { st \<leftarrow> store_n st i (take n src); Some (map moved (take n src), drop n src, st) } else None)"

definition storage_at :: "'a option list \<Rightarrow> nat \<Rightarrow> 'a option" where
  "storage_at st i = (if i < length st then st ! i else None)"

section \<open>The storage for trivial types\<close>

text \<open>An array: its elements have values from the beginning, and destroying them does nothing.\<close>

definition trivial_emplace :: "'a list \<Rightarrow> nat \<Rightarrow> 'a \<Rightarrow> 'a list option" where
  "trivial_emplace st i x = (if i < length st then Some (st [i := x]) else None)"

definition trivial_copy_n :: "'a list \<Rightarrow> nat \<Rightarrow> nat \<Rightarrow> 'a list \<Rightarrow> ('a list \<times> 'a list) option" where
  "trivial_copy_n st i n src =
     (if n \<le> length src \<and> i + n \<le> length st
      then Some (drop n src, take i st @ take n src @ drop (i + n) st) else None)"

definition trivial_delete_n :: "'a list \<Rightarrow> nat \<Rightarrow> nat \<Rightarrow> 'a list option" where
  "trivial_delete_n st i n = Some st"

definition trivial_delete_item :: "'a list \<Rightarrow> nat \<Rightarrow> 'a list option" where
  "trivial_delete_item st i = Some st"

definition trivial_at :: "'a list \<Rightarrow> nat \<Rightarrow> 'a option" where
  "trivial_at st i = (if i < length st then Some (st ! i) else None)"

section \<open>One in the place of the other\<close>

text \<open>What an owner of the storage does with it; the result of a run are the elements that were read.\<close>

datatype 'a storage_step =
    EmplaceItem nat 'a
  | CopyN nat nat "'a list"
  | DeleteN nat nat
  | DeleteItem nat
  | ReadItem nat

fun storage_run :: "'a storage_step list \<Rightarrow> 'a option list \<Rightarrow> ('a list \<times> 'a option list) option" where
  "storage_run [] st = Some ([], st)"
| "storage_run (EmplaceItem i x # ps) st = do { st \<leftarrow> storage_emplace st i x; storage_run ps st }"
| "storage_run (CopyN i n src # ps) st = do { (_, st) \<leftarrow> storage_copy_n st i n src; storage_run ps st }"
| "storage_run (DeleteN i n # ps) st = do { st \<leftarrow> delete_n st i n; storage_run ps st }"
| "storage_run (DeleteItem i # ps) st = do { st \<leftarrow> delete_item st i; storage_run ps st }"
| "storage_run (ReadItem i # ps) st = do {
     x \<leftarrow> storage_at st i; (xs, st) \<leftarrow> storage_run ps st; Some (x # xs, st) }"

fun trivial_run :: "'a storage_step list \<Rightarrow> 'a list \<Rightarrow> ('a list \<times> 'a list) option" where
  "trivial_run [] st = Some ([], st)"
| "trivial_run (EmplaceItem i x # ps) st = do { st \<leftarrow> trivial_emplace st i x; trivial_run ps st }"
| "trivial_run (CopyN i n src # ps) st = do { (_, st) \<leftarrow> trivial_copy_n st i n src; trivial_run ps st }"
| "trivial_run (DeleteN i n # ps) st = do { st \<leftarrow> trivial_delete_n st i n; trivial_run ps st }"
| "trivial_run (DeleteItem i # ps) st = do { st \<leftarrow> trivial_delete_item st i; trivial_run ps st }"
| "trivial_run (ReadItem i # ps) st = do {
     x \<leftarrow> trivial_at st i; (xs, st) \<leftarrow> trivial_run ps st; Some (x # xs, st) }"

text \<open>The array has the value of each object that is alive.\<close>

definition agrees :: "'a option list \<Rightarrow> 'a list \<Rightarrow> bool" where
  "agrees st t \<longleftrightarrow> length t = length st \<and> (\<forall>i < length st. \<forall>x. st ! i = Some x \<longrightarrow> t ! i = x)"

named_theorems storage_simulation

lemma agrees_new: "length raw = N \<Longrightarrow> agrees (replicate N None) raw"
  by (simp add: agrees_def)

lemma agrees_emplace [storage_simulation]:
  "agrees st t \<Longrightarrow> storage_emplace st i x = Some st' \<Longrightarrow> \<exists>t'. trivial_emplace t i x = Some t' \<and> agrees st' t'"
  by (auto simp: agrees_def storage_emplace_def trivial_emplace_def nth_list_update split: if_splits)

lemma agrees_copy_n [storage_simulation]:
  assumes "agrees st t" "storage_copy_n st i n src = Some (rest, st')"
  shows "\<exists>t'. trivial_copy_n t i n src = Some (rest, t') \<and> agrees st' t'"
proof -
  have n: "n \<le> length src" "i + n \<le> length st" "rest = drop n src"
    and st': "st' = take i st @ map Some (take n src) @ drop (i + n) st"
    using assms(2) by (auto simp: storage_copy_n_def store_n_def split: if_splits)
  have len: "length t = length st" using assms(1) by (simp add: agrees_def)
  have "(take i t @ take n src @ drop (i + n) t) ! j = x" if "j < length st" "st' ! j = Some x" for j x
    using that assms(1) n len unfolding st' agrees_def by (auto simp: nth_append split: if_splits)
  then show ?thesis using n len by (auto simp: trivial_copy_n_def agrees_def st')
qed

lemma agrees_delete_item [storage_simulation]:
  "agrees st t \<Longrightarrow> delete_item st i = Some st' \<Longrightarrow> \<exists>t'. trivial_delete_item t i = Some t' \<and> agrees st' t'"
  by (auto simp: agrees_def delete_item_def trivial_delete_item_def nth_list_update split: if_splits)

lemma agrees_delete_n [storage_simulation]:
  "agrees st t \<Longrightarrow> delete_n st i n = Some st' \<Longrightarrow> \<exists>t'. trivial_delete_n t i n = Some t' \<and> agrees st' t'"
proof (induction n arbitrary: st i)
  case (Suc n)
  then obtain st1 where st1: "delete_item st i = Some st1" "delete_n st1 (i + 1) n = Some st'"
    by (auto simp: bind_eq_Some_conv)
  then have "agrees st1 t" using agrees_delete_item [OF Suc.prems(1)] by (simp add: trivial_delete_item_def)
  then show ?case using Suc.IH [OF _ st1(2)] by (simp add: trivial_delete_n_def)
qed (simp add: trivial_delete_n_def)

lemma agrees_at [storage_simulation]:
  "agrees st t \<Longrightarrow> storage_at st i = Some x \<Longrightarrow> trivial_at t i = Some x"
  by (auto simp: agrees_def storage_at_def trivial_at_def split: if_splits)

text \<open>An owner that uses the general storage as it should sees no difference.\<close>

lemma trivial_simulates:
  assumes "agrees st t" "storage_run ps st = Some (xs, st')"
  shows "\<exists>t'. trivial_run ps t = Some (xs, t') \<and> agrees st' t'"
  using assms
proof (induction ps arbitrary: st t xs)
  case (Cons p ps)
  show ?case
  proof (cases p)
    case (EmplaceItem i x)
    with Cons.prems obtain st1 where 1: "storage_emplace st i x = Some st1" "storage_run ps st1 = Some (xs, st')"
      by (auto simp: bind_eq_Some_conv)
    with agrees_emplace [OF Cons.prems(1) 1(1)] Cons.IH [OF _ 1(2)] show ?thesis by (auto simp: EmplaceItem)
  next
    case (CopyN i n src)
    with Cons.prems obtain r st1 where 1: "storage_copy_n st i n src = Some (r, st1)" "storage_run ps st1 = Some (xs, st')"
      by (auto simp: bind_eq_Some_conv)
    with agrees_copy_n [OF Cons.prems(1) 1(1)] Cons.IH [OF _ 1(2)] show ?thesis by (auto simp: CopyN)
  next
    case (DeleteN i n)
    with Cons.prems obtain st1 where 1: "delete_n st i n = Some st1" "storage_run ps st1 = Some (xs, st')"
      by (auto simp: bind_eq_Some_conv)
    with agrees_delete_n [OF Cons.prems(1) 1(1)] Cons.IH [OF _ 1(2)] show ?thesis by (auto simp: DeleteN)
  next
    case (DeleteItem i)
    with Cons.prems obtain st1 where 1: "delete_item st i = Some st1" "storage_run ps st1 = Some (xs, st')"
      by (auto simp: bind_eq_Some_conv)
    with agrees_delete_item [OF Cons.prems(1) 1(1)] Cons.IH [OF _ 1(2)] show ?thesis by (auto simp: DeleteItem)
  next
    case (ReadItem i)
    with Cons.prems obtain x ys where 1: "storage_at st i = Some x" "storage_run ps st = Some (ys, st')" "xs = x # ys"
      by (auto simp: bind_eq_Some_conv)
    with agrees_at [OF Cons.prems(1) 1(1)] Cons.IH [OF Cons.prems(1) 1(2)] show ?thesis by (auto simp: ReadItem)
  qed
qed auto

text \<open>The other direction fails: the array can be read before it is written, and after it is destroyed.\<close>

lemma trivial_reads_more:
  "trivial_run [EmplaceItem 0 x, DeleteItem 0, ReadItem 0] [r] = Some ([x], [x])"
  "storage_run [EmplaceItem 0 x, DeleteItem 0, ReadItem 0] [None] = None"
  by (simp_all add: trivial_emplace_def trivial_delete_item_def trivial_at_def storage_emplace_def delete_item_def storage_at_def)

section \<open>Ranges that are moved into a buffer\<close>

text \<open>The source of the elements afterwards, and the buffer.\<close>

definition cb_move_range_back :: "('a \<Rightarrow> 'a) \<Rightarrow> strategy \<Rightarrow> 'a cbuf \<Rightarrow> 'a list \<Rightarrow> ('a list \<times> 'a cbuf) option" where
  "cb_move_range_back moved S b rng =
     (let idx = st_idx S (cb_to b); capacity = st_max S - idx; n = length rng in do {
        (src, st) \<leftarrow> (if capacity \<ge> n then do {
                (src, iter, st) \<leftarrow> storage_move_n moved (cb_store b) idx n rng;
                Some (src @ iter, st)
              } else do {
                (src, iter, st) \<leftarrow> storage_move_n moved (cb_store b) idx capacity rng;
                (src', iter, st) \<leftarrow> storage_move_n moved st 0 (n - capacity) iter;
                Some (src @ src' @ iter, st)
              });
        Some (src, b\<lparr>cb_store := st, cb_to := st_incr S (cb_to b) n\<rparr>)
      })"

definition cb_capacity :: "nat \<Rightarrow> nat" where
  "cb_capacity N = N"

text \<open>The buffer gets what \<open>copy_range_back\<close> gives it, and each element of the source is moved from once.\<close>

lemma cb_move_range_back_eq:
  "cb_move_range_back moved S b rng = map_option (Pair (map moved rng)) (cb_copy_range_back S b rng)"
proof (cases "length rng \<le> st_max S - st_idx S (cb_to b)")
  case True
  then show ?thesis
    by (cases "store_n (cb_store b) (st_idx S (cb_to b)) rng")
      (simp_all add: cb_move_range_back_def cb_copy_range_back_def storage_move_n_def Let_def)
next
  case False
  define k where "k = st_max S - st_idx S (cb_to b)"
  have k: "k < length rng" using False by (simp add: k_def)
  have src: "map moved (take k rng) @ map moved (drop k rng) = map moved rng" by (metis append_take_drop_id map_append)
  show ?thesis
  proof (cases "store_n (cb_store b) (st_idx S (cb_to b)) (take k rng)")
    case None
    then show ?thesis using k by (simp add: cb_move_range_back_def cb_copy_range_back_def storage_move_n_def k_def [symmetric])
  next
    case (Some st)
    then show ?thesis using k src
      by (cases "store_n st 0 (drop k rng)")
        (simp_all add: cb_move_range_back_def cb_copy_range_back_def storage_move_n_def k_def [symmetric])
  qed
qed

section \<open>The order of two buffers\<close>

datatype three_way = TW_less | TW_equal | TW_greater

text \<open>\<open>std::lexicographical_compare_three_way\<close> on two pairs of iterators.\<close>

primrec compare_walk ::
  "('a \<Rightarrow> 'a \<Rightarrow> three_way) \<Rightarrow> nat \<Rightarrow> 'a option list \<Rightarrow> nat \<Rightarrow> nat \<Rightarrow> 'a option list \<Rightarrow> nat \<Rightarrow> nat \<Rightarrow> three_way option"
where
  "compare_walk cmp 0 st p e st' p' e' =
     (if p = e then Some (if p' = e' then TW_equal else TW_less) else if p' = e' then Some TW_greater else None)"
| "compare_walk cmp (Suc fuel) st p e st' p' e' =
     (if p \<noteq> e \<and> p' \<noteq> e' then do {
        x \<leftarrow> st ! p;
        y \<leftarrow> st' ! p';
        (if cmp x y \<noteq> TW_equal then Some (cmp x y)
         else compare_walk cmp fuel st (iter_next (length st) p) e st' (iter_next (length st') p') e')
      } else Some (if p \<noteq> e then TW_greater else if p' \<noteq> e' then TW_less else TW_equal))"

definition cb_compare :: "('a \<Rightarrow> 'a \<Rightarrow> three_way) \<Rightarrow> strategy \<Rightarrow> 'a cbuf \<Rightarrow> 'a cbuf \<Rightarrow> three_way option" where
  "cb_compare cmp S lh rh =
     compare_walk cmp (st_max S) (cb_store lh) (cb_begin S lh) (cb_end S lh) (cb_store rh) (cb_begin S rh) (cb_end S rh)"

fun list_compare :: "('a \<Rightarrow> 'a \<Rightarrow> three_way) \<Rightarrow> 'a list \<Rightarrow> 'a list \<Rightarrow> three_way" where
  "list_compare cmp [] [] = TW_equal"
| "list_compare cmp [] (_ # _) = TW_less"
| "list_compare cmp (_ # _) [] = TW_greater"
| "list_compare cmp (x # xs) (y # ys) = (if cmp x y \<noteq> TW_equal then cmp x y else list_compare cmp xs ys)"

context index_strategy
begin

lemma queue_compare:
  assumes a: "queue_of S N valid a p" and b: "queue_of S N valid b q"
    and lt: "length p < st_max S" "length q < st_max S"
  shows "cb_compare cmp S a b = Some (list_compare cmp p q)"
proof -
  note da = queue_ofD [OF a] and db = queue_ofD [OF b]
  let ?M = "st_max S"
  let ?p = "\<lambda>i. (st_idx S (cb_from a) + i) mod ?M" and ?q = "\<lambda>i. (st_idx S (cb_from b) + i) mod ?M"
  have at_end: "?p i = ?p (length p) \<longleftrightarrow> i = length p" "?q i = ?q (length q) \<longleftrightarrow> i = length q"
    if "i \<le> length p" "i \<le> length q" for i
    using ring_inject [OF da(6) _ lt(1), of i] ring_inject [OF db(6) _ lt(2), of i] that lt by simp_all
  have "compare_walk cmp fuel (cb_store a) (?p i) (?p (length p)) (cb_store b) (?q i) (?q (length q))
      = Some (list_compare cmp (drop i p) (drop i q))"
    if "length p - i \<le> fuel" "i \<le> length p" "i \<le> length q" for fuel i
    using that
  proof (induction fuel arbitrary: i)
    case 0
    then show ?case using at_end(2) [of i] by (cases "drop i q") auto
  next
    case (Suc fuel)
    note ends = at_end [OF Suc.prems(2,3)]
    consider "i = length p" | "i < length p" "i = length q" | "i < length p" "i < length q" using Suc.prems by linarith
    then show ?case
    proof cases
      case 1
      then show ?thesis using ends Suc.prems(3) by (cases "drop i q") auto
    next
      case 2
      then show ?thesis using ends by (cases "drop i p") auto
    next
      case 3
      then have "list_compare cmp (drop i p) (drop i q) =
          (if cmp (p ! i) (q ! i) \<noteq> TW_equal then cmp (p ! i) (q ! i) else list_compare cmp (drop (Suc i) p) (drop (Suc i) q))"
        by (simp add: Cons_nth_drop_Suc [symmetric])
      then show ?thesis
        using Suc.IH [of "Suc i"] Suc.prems 3 ends da(2,6,8) db(2,6,8) by (simp add: iter_next_ring)
    qed
  qed
  from this [of 0 ?M] show ?thesis
    using lt da(6,7) db(6,7) by (simp add: cb_compare_def cb_begin_def cb_end_def)
qed

end

section \<open>The object of an iterator\<close>

text \<open>Addresses are counted in elements.\<close>

record ring_iterator =
  ri_beg :: nat
  ri_end :: nat
  ri_p :: nat

definition ri_make :: "nat \<Rightarrow> nat \<Rightarrow> nat \<Rightarrow> ring_iterator" where
  "ri_make beg en p = \<lparr>ri_beg = beg, ri_end = en, ri_p = p\<rparr>"

definition ri_deref :: "(nat \<Rightarrow> 'a option) \<Rightarrow> ring_iterator \<Rightarrow> 'a option" where
  "ri_deref mem it = mem (ri_p it)"

definition ri_inc :: "ring_iterator \<Rightarrow> ring_iterator" where
  "ri_inc it = (let it = it\<lparr>ri_p := ri_p it + 1\<rparr> in if ri_p it = ri_end it then it\<lparr>ri_p := ri_beg it\<rparr> else it)"

definition ri_dec :: "ring_iterator \<Rightarrow> ring_iterator" where
  "ri_dec it = (let it = (if ri_p it = ri_beg it then it\<lparr>ri_p := ri_end it\<rparr> else it) in it\<lparr>ri_p := ri_p it - 1\<rparr>)"

definition ri_compare :: "ring_iterator \<Rightarrow> ring_iterator \<Rightarrow> three_way" where
  "ri_compare a b = (if ri_p a < ri_p b then TW_less else if ri_p a = ri_p b then TW_equal else TW_greater)"

definition ri_eq :: "ring_iterator \<Rightarrow> ring_iterator \<Rightarrow> bool" where
  "ri_eq a b \<longleftrightarrow> ri_p a = ri_p b"

definition ri_ok :: "nat \<Rightarrow> ring_iterator \<Rightarrow> bool" where
  "ri_ok m it \<longleftrightarrow> ri_end it = ri_beg it + m \<and> ri_beg it \<le> ri_p it \<and> ri_p it < ri_end it"

definition ri_slot :: "ring_iterator \<Rightarrow> nat" where
  "ri_slot it = ri_p it - ri_beg it"

text \<open>The slots of the theory \<open>CircularBuffer\<close> are these objects; the two steps undo each other.\<close>

lemma ri_refines:
  assumes "ri_ok m it"
  shows "ri_ok m (ri_inc it)" "ri_slot (ri_inc it) = iter_next m (ri_slot it)"
    "ri_ok m (ri_dec it)" "ri_slot (ri_dec it) = iter_prev m (ri_slot it)"
    "ri_dec (ri_inc it) = it" "ri_inc (ri_dec it) = it"
  using assms
  by (auto simp: ri_ok_def ri_slot_def ri_inc_def ri_dec_def iter_next_def iter_prev_def Let_def)

lemma ri_eq_slot: "ri_ok m a \<Longrightarrow> ri_ok m b \<Longrightarrow> ri_beg a = ri_beg b \<Longrightarrow> ri_eq a b \<longleftrightarrow> ri_slot a = ri_slot b"
  by (auto simp: ri_ok_def ri_eq_def ri_slot_def)

text \<open>The order of two iterators is that of their addresses, not of the elements: the last slot is after the first.\<close>

lemma ri_order_wraps:
  assumes "ri_ok m it" "Suc (ri_p it) = ri_end it" "1 < m"
  shows "ri_compare (ri_inc it) it = TW_less"
  using assms by (auto simp: ri_ok_def ri_compare_def ri_inc_def Let_def)

end
