(* ===== verification/CfgCell.thy ===== *)
theory CfgCell
  imports Algorithm Serializer
begin

text \<open>
  \<open>experimental/cfg/base.hpp\<close>, \<open>page.hpp\<close> and the first part of \<open>handler.hpp\<close>: the cells a
  configuration is stored in, and the headers of its pages.  Integers are copied to and from memory as
  they are, on a little-endian machine.
\<close>

section \<open>Cells\<close>

definition cell_size :: nat where
  "cell_size = 8"

definition hcell_size :: nat where
  "hcell_size = 4"

definition key_mask :: "32 word" where
  "key_mask = 0x7FFFFFFF"

definition sin_bit_mask :: "32 word" where
  "sin_bit_mask = 0x80000000"

datatype cell_kind = SINGLE | MULTI

definition closest_multiple_of :: "32 word \<Rightarrow> 32 word \<Rightarrow> 32 word" where
  "closest_multiple_of x r = r * ((x + r - 1) div r)"

definition u64_bytes :: "64 word \<Rightarrow> byte list" where
  "u64_bytes w = bytes_in Little 8 (uint w)"

definition bytes_u64 :: "byte list \<Rightarrow> 64 word" where
  "bytes_u64 bs = word_of_int (be_value (rev bs))"

definition u32_bytes :: "32 word \<Rightarrow> byte list" where
  "u32_bytes w = bytes_in Little 4 (uint w)"

definition bytes_u32 :: "byte list \<Rightarrow> 32 word" where
  "bytes_u32 bs = word_of_int (be_value (rev bs))"

text \<open>\<open>ser_cell\<close> writes the cell \<open>dest\<close>: the result is what it writes, or nothing.\<close>

definition ser_cell :: "32 word \<Rightarrow> byte list \<Rightarrow> (cell_kind \<times> byte list) option" where
  "ser_cell key value =
     (if value = [] \<or> key > sin_bit_mask then None
      else if length value \<le> hcell_size then
        (let val = bytes_u32 (value @ replicate (hcell_size - length value) 0);
             tmp = ucast (key OR sin_bit_mask) :: 64 word;
             tmp = push_bit 32 tmp + ucast val in
         Some (SINGLE, u64_bytes tmp))
      else
        (let size = closest_multiple_of (of_nat (length value)) (of_nat cell_size) div of_nat cell_size;
             tmp = ucast key :: 64 word;
             tmp = push_bit 32 tmp + ucast size in
         Some (MULTI, u64_bytes tmp)))"

record deser_res =
  is_seq :: bool
  dr_key :: "32 word"
  dr_val :: "32 word"

definition deser_cell :: "byte list \<Rightarrow> deser_res option" where
  "deser_cell c =
     (let tmp = bytes_u64 c;
          front = ucast (drop_bit 32 tmp) :: 32 word;
          r = \<lparr>is_seq = (front AND sin_bit_mask = 0), dr_key = front AND key_mask,
               dr_val = ucast (tmp AND 0xFFFFFFFF)\<rparr> in
      if is_seq r \<and> dr_val r = 0 then None else Some r)"

definition is_free_cell :: "byte list \<Rightarrow> bool" where
  "is_free_cell cell = all_of (\<lambda>x. x = 0) cell"

section \<open>Page headers\<close>

datatype hdr_state = StA | StB | StC

fun hdr_byte :: "hdr_state \<Rightarrow> byte" where
  "hdr_byte StA = 0x40"
| "hdr_byte StB = 0x80"
| "hdr_byte StC = 0xC0"

fun next_state :: "hdr_state \<Rightarrow> hdr_state" where
  "next_state StA = StB"
| "next_state StB = StC"
| "next_state StC = StA"

definition byte_to_hdr :: "byte \<Rightarrow> hdr_state option" where
  "byte_to_hdr b = (if b = hdr_byte StA then Some StA else if b = hdr_byte StB then Some StB
     else if b = hdr_byte StC then Some StC else None)"

definition hdr_to_hdr_state :: "byte list \<Rightarrow> hdr_state option" where
  "hdr_to_hdr_state b = (if b ! 0 \<noteq> NOT (b ! 1) then None else byte_to_hdr (b ! 0))"

definition get_hdr :: "hdr_state \<Rightarrow> byte list" where
  "get_hdr hst = [hdr_byte hst, NOT (hdr_byte hst)]"

section \<open>The bytes of integers\<close>

lemma length_u64_bytes [simp]: "length (u64_bytes w) = 8" "length (u32_bytes v) = 4"
  by (simp_all add: u64_bytes_def u32_bytes_def)

lemma bytes_u64_bytes [simp]: "bytes_u64 (u64_bytes w) = w"
  by (rule bit_word_eqI) (simp add: bytes_u64_def u64_bytes_def le_value_bytes bit_simps)

lemma bytes_u32_bytes [simp]: "bytes_u32 (u32_bytes w) = w"
  by (rule bit_word_eqI) (simp add: bytes_u32_def u32_bytes_def le_value_bytes bit_simps)

lemma u32_bytes_of:
  assumes "length bs = 4"
  shows "u32_bytes (bytes_u32 bs) = bs"
proof -
  have "uint (bytes_u32 bs) = be_value (rev bs)"
    using be_value_less [of "rev bs"] be_value_nonneg [of "rev bs"] assms
    by (simp add: bytes_u32_def uint_word_of_int_eq take_bit_int_eq_self)
  then show ?thesis using le_bytes_value [of bs] assms by (simp add: u32_bytes_def)
qed

definition pack :: "32 word \<Rightarrow> 32 word \<Rightarrow> 64 word" where
  "pack hi lo = push_bit 32 (ucast hi) + ucast lo"

lemma pack_or: "pack hi lo = push_bit 32 (ucast hi) OR ucast lo"
  unfolding pack_def
  by (rule disjunctive_add) (auto simp: bit_simps dest: bit_imp_le_length)

lemma pack_high: "ucast (drop_bit 32 (pack hi lo)) = hi"
  unfolding pack_or by (rule bit_word_eqI) (auto simp: bit_simps dest: bit_imp_le_length)

lemma pack_low: "ucast (pack hi lo AND 0xFFFFFFFF) = lo"
proof -
  have m: "(0xFFFFFFFF :: 64 word) = mask 32" by (simp add: mask_eq_exp_minus_1)
  show ?thesis unfolding pack_or m by (rule bit_word_eqI) (auto simp: bit_simps dest: bit_imp_le_length)
qed

lemma masks: "sin_bit_mask = push_bit 31 (1 :: 32 word)" "key_mask = mask 31"
  by (simp_all add: sin_bit_mask_def key_mask_def mask_eq_exp_minus_1)

lemma bit_sin: "bit sin_bit_mask n \<longleftrightarrow> n = 31"
  unfolding masks by (auto simp: bit_simps simp del: push_bit_of_1)

lemma key_bits:
  assumes "key < sin_bit_mask" "bit key n"
  shows "n < 31"
proof -
  have "uint key < 2 ^ 31" using assms(1) by (simp add: sin_bit_mask_def word_less_def)
  then have "take_bit 31 (uint key) = uint key" by (simp add: take_bit_int_eq_self)
  moreover have "bit (uint key) n" using assms(2) by (simp add: bit_simps bit_imp_le_length)
  ultimately show ?thesis by (metis bit_take_bit_iff)
qed

lemma key_or_mask:
  assumes "key < sin_bit_mask"
  shows "(key OR sin_bit_mask) AND key_mask = key" "(key OR sin_bit_mask) AND sin_bit_mask \<noteq> 0"
    "key AND sin_bit_mask = 0" "key AND key_mask = key"
proof -
  note kb = key_bits [OF assms]
  show "(key OR sin_bit_mask) AND key_mask = key" "key AND key_mask = key"
    unfolding masks(2) by (rule bit_word_eqI; auto simp: bit_simps bit_sin dest: kb)+
  show "key AND sin_bit_mask = 0" by (rule bit_word_eqI) (auto simp: bit_simps bit_sin dest: kb)
  have "bit ((key OR sin_bit_mask) AND sin_bit_mask) 31" by (simp add: bit_simps bit_sin)
  then show "(key OR sin_bit_mask) AND sin_bit_mask \<noteq> 0" by (metis bit_0_eq bot_apply bot_bool_def)
qed

section \<open>Cells read back\<close>

lemma deser_pack: "deser_cell (u64_bytes (pack hi lo)) =
    (if hi AND sin_bit_mask = 0 \<and> lo = 0 then None
     else Some \<lparr>is_seq = (hi AND sin_bit_mask = 0), dr_key = hi AND key_mask, dr_val = lo\<rparr>)"
  by (simp add: deser_cell_def Let_def pack_high pack_low)

lemma ser_single:
  assumes "value \<noteq> []" "length value \<le> 4" "key < sin_bit_mask"
  shows "\<exists>c. ser_cell key value = Some (SINGLE, c) \<and> length c = 8 \<and>
    deser_cell c = Some \<lparr>is_seq = False, dr_key = key, dr_val = bytes_u32 (value @ replicate (4 - length value) 0)\<rparr>"
proof -
  let ?v = "bytes_u32 (value @ replicate (4 - length value) 0)"
  have "ser_cell key value = Some (SINGLE, u64_bytes (pack (key OR sin_bit_mask) ?v))"
    using assms by (simp add: ser_cell_def hcell_size_def pack_def)
  then show ?thesis using deser_pack [of "key OR sin_bit_mask" ?v] key_or_mask [OF assms(3)] by auto
qed

text \<open>The number of cells of a longer value, rounded up.\<close>

lemma closest_multiple_eq:
  assumes "0 < r" "r < 2 ^ 32" "x + r \<le> 2 ^ 32"
  shows "unat (closest_multiple_of (of_nat x) (of_nat r)) = r * ((x + r - 1) div r)"
proof -
  let ?m = "x + r - 1"
  have m: "?m < 2 ^ 32" using assms by linarith
  have r: "unat (of_nat r :: 32 word) = r" using assms(2) by (simp add: unat_of_nat)
  have "(of_nat x + of_nat r - 1 :: 32 word) = of_nat ?m" using assms(1) by (simp add: of_nat_diff)
  then have d: "unat ((of_nat x + of_nat r - 1 :: 32 word) div of_nat r) = ?m div r"
    using m r by (simp add: unat_div unat_of_nat)
  have "r * (?m div r) < 2 ^ 32" using m by (metis le_less_trans mult.commute div_times_less_eq_dividend)
  then show ?thesis unfolding closest_multiple_of_def using d r by (simp add: unat_word_ariths)
qed

lemma ser_multi:
  assumes "4 < length value" "length value + 8 \<le> 2 ^ 32" "key < sin_bit_mask"
  shows "\<exists>c. ser_cell key value = Some (MULTI, c) \<and> length c = 8 \<and>
    deser_cell c = Some \<lparr>is_seq = True, dr_key = key, dr_val = of_nat ((length value + 7) div 8)\<rparr>"
proof -
  let ?n = "(length value + 7) div 8"
  let ?s = "closest_multiple_of (of_nat (length value)) (of_nat cell_size) div of_nat cell_size"
  have "unat (closest_multiple_of (of_nat (length value)) (of_nat cell_size)) = 8 * ?n"
    using closest_multiple_eq [of cell_size "length value"] assms(2) by (simp add: cell_size_def)
  then have "unat ?s = ?n" by (simp add: unat_div cell_size_def)
  moreover have n: "0 < ?n" "?n < 2 ^ 32" using assms by auto
  ultimately have s: "?s = of_nat ?n" by (simp add: word_unat_eq_iff unat_of_nat)
  from n have nz: "(of_nat ?n :: 32 word) \<noteq> 0" by (simp add: unat_eq_zero [symmetric] unat_of_nat)
  have "value \<noteq> []" "\<not> length value \<le> hcell_size" "\<not> key > sin_bit_mask" using assms by (auto simp: hcell_size_def)
  then have "ser_cell key value = Some (MULTI, u64_bytes (pack key (of_nat ?n)))"
    unfolding ser_cell_def Let_def s pack_def by simp
  then show ?thesis using deser_pack [of key "of_nat ?n"] key_or_mask [OF assms(3)] nz by auto
qed

text \<open>A free cell is no cell, so the cell of a value is not free.\<close>

lemma is_free_cell_iff: "is_free_cell c \<longleftrightarrow> c = replicate (length c) 0"
proof -
  have "is_free_cell c \<longleftrightarrow> (\<forall>x \<in> set c. x = 0)" by (simp add: is_free_cell_def all_of_iff)
  also have "\<dots> \<longleftrightarrow> c = replicate (length c) 0" by (metis in_set_replicate replicate_eqI)
  finally show ?thesis .
qed

lemma be_value_zeros [simp]: "be_value (replicate n 0) = 0"
  by (induction n) (simp_all add: be_value_def)

lemma deser_free: "is_free_cell c \<Longrightarrow> deser_cell c = None"
proof -
  assume "is_free_cell c"
  then have "bytes_u64 c = 0" unfolding is_free_cell_iff bytes_u64_def
    by (metis be_value_zeros of_int_0 rev_replicate)
  then show ?thesis by (simp add: deser_cell_def)
qed

section \<open>Headers read back\<close>

lemma byte_to_hdr_byte [simp]: "byte_to_hdr (hdr_byte h) = Some h"
  by (cases h) (simp_all add: byte_to_hdr_def)

lemma hdr_round_trip: "hdr_to_hdr_state (get_hdr h @ rest) = Some h"
  by (simp add: hdr_to_hdr_state_def get_hdr_def)

lemma hdr_of_zeros: "hdr_to_hdr_state (replicate 8 0) = None"
  by (simp add: hdr_to_hdr_state_def)

end
