(* ===== verification/CfgHandler.thy ===== *)
theory CfgHandler
  imports CfgCell Handler
begin

text \<open>
  \<open>experimental/cfg/handler.hpp\<close>: the operations on a stored configuration.  The code reaches the memory
  and the values through interfaces with virtual methods; here these are a record of functions over a
  state.  \<open>get_buffer\<close> gives a span of memory of the interface, so the state has a buffer that can be
  read and written.  The option around the results is undefined behaviour.
\<close>

section \<open>Interfaces\<close>

record 's cfg_iface =
  read_cell :: "nat \<Rightarrow> 's \<Rightarrow> byte list option \<times> 's"
  buffer_of :: "'s \<Rightarrow> byte list"
  set_buffer :: "byte list \<Rightarrow> 's \<Rightarrow> 's"
  check_key_cache :: "32 word \<Rightarrow> 's \<Rightarrow> bool \<times> 's" \<comment> \<open>whether the key is \<open>SEEN\<close>\<close>

record 's update_iface = "'s cfg_iface" +
  write_mem :: "nat \<Rightarrow> byte list \<Rightarrow> 's \<Rightarrow> bool \<times> 's"
  value_changed :: "32 word \<Rightarrow> byte list \<Rightarrow> 's \<Rightarrow> bool \<times> 's"
  serialize_value :: "32 word \<Rightarrow> 's \<Rightarrow> nat option \<times> 's" \<comment> \<open>into the buffer; the size of the span\<close>
  reset_keys :: "'s \<Rightarrow> bool \<times> 's"
  take_unseen_key :: "'s \<Rightarrow> 32 word option \<times> 's"
  clear_page :: "nat \<Rightarrow> 's \<Rightarrow> bool \<times> 's"

record 's load_iface = "'s cfg_iface" +
  on_kval :: "32 word \<Rightarrow> byte list \<Rightarrow> 's \<Rightarrow> bool \<times> 's"

datatype status = SUCCESS | FULL | MISSING_PAGE | SERIALIZE_VALUE_ERROR | WRITE_ERROR | READ_ERROR
  | DESER_ERROR | RESET_KEYS_ERROR | CLEAR_ERROR | LOCATE_FAILED_ERROR | ON_KVAL_ERROR
  | MEM_NOT_PAGE_MULTIPLY_ERROR

text \<open>Bytes written into a list at an offset.\<close>

definition splice :: "nat \<Rightarrow> byte list \<Rightarrow> byte list \<Rightarrow> byte list" where
  "splice off bs xs = take off xs @ bs @ drop (off + length bs) xs"

section \<open>Values\<close>

text \<open>
  \<open>store_kval_impl\<close> on the buffer, whose first \<open>n\<close> bytes are the value: offset and length of the span
  that is to be stored, and the buffer.
\<close>

definition store_kval_impl :: "32 word \<Rightarrow> nat \<Rightarrow> byte list \<Rightarrow> (nat \<times> nat \<times> byte list) option" where
  "store_kval_impl key n buffer =
     (if int (length buffer) - int n < int cell_size then None
      else (case ser_cell key (take n buffer) of
          None \<Rightarrow> None
        | Some (MULTI, c) \<Rightarrow> Some (0, n + cell_size, splice n c buffer)
        | Some (SINGLE, c) \<Rightarrow> Some (n, cell_size, splice n c buffer)))"

text \<open>\<open>store_val\<close> and \<open>get_val\<close> of a type with a converter; \<open>store_val\<close> of bytes.\<close>

definition store_val :: "pdef \<Rightarrow> pval \<Rightarrow> byte list \<Rightarrow> byte list option option" where
  "store_val d val buffer =
     (let conv = converter_for d Little in
      if length buffer < max_size conv then Some None
      else do {
        (front, used) \<leftarrow> serialize_at conv (take (max_size conv) buffer) val;
        Some (Some (take used (front @ drop (max_size conv) buffer)))
      })"

definition store_val_bytes :: "byte list \<Rightarrow> byte list \<Rightarrow> byte list option" where
  "store_val_bytes val buffer = (if length buffer < length val then None else Some val)"

definition get_val :: "pdef \<Rightarrow> byte list \<Rightarrow> pval option option" where
  "get_val d data = do {
     (res, v) \<leftarrow> deserialize (converter_for d Little) data (default_val d);
     Some (if error res \<noteq> None then None else Some v)
   }"

section \<open>Pages\<close>

text \<open>
  The loops over the pages, from a list of page numbers; the counter has 32 bits, so there are fewer
  than \<open>2 ^ 32\<close> pages.
\<close>

fun locate_current_loop ::
  "('s, 'x) cfg_iface_scheme \<Rightarrow> nat \<Rightarrow> nat \<Rightarrow> hdr_state option \<Rightarrow> nat list \<Rightarrow> 's \<Rightarrow> (status \<times> nat) \<times> 's" where
  "locate_current_loop I mem_size page_size hdr_st [] s =
     ((case hdr_st of None \<Rightarrow> (MISSING_PAGE, 0) | Some _ \<Rightarrow> (SUCCESS, mem_size - page_size)), s)"
| "locate_current_loop I mem_size page_size hdr_st (i # is) s =
     (let addr = i * page_size in
      case read_cell I addr s of
        (None, s) \<Rightarrow> ((READ_ERROR, 0), s)
      | (Some data, s) \<Rightarrow>
          (case hdr_to_hdr_state data of
             None \<Rightarrow> (case hdr_st of
                 Some _ \<Rightarrow> ((SUCCESS, addr - page_size), s)
               | None \<Rightarrow> locate_current_loop I mem_size page_size hdr_st is s)
           | Some st \<Rightarrow> (case hdr_st of
                 None \<Rightarrow> locate_current_loop I mem_size page_size (Some st) is s
               | Some h \<Rightarrow> if h \<noteq> st then ((SUCCESS, addr - page_size), s)
                   else locate_current_loop I mem_size page_size hdr_st is s)))"

definition locate_current_page ::
  "nat \<Rightarrow> nat \<Rightarrow> ('s, 'x) cfg_iface_scheme \<Rightarrow> 's \<Rightarrow> ((status \<times> nat) \<times> 's) option" where
  "locate_current_page mem_size page_size I s =
     (if page_size = 0 then None
      else if mem_size mod page_size \<noteq> 0 then Some ((MEM_NOT_PAGE_MULTIPLY_ERROR, 0), s)
      else Some (locate_current_loop I mem_size page_size None [0..<mem_size div page_size] s))"

fun locate_next_loop ::
  "('s, 'x) cfg_iface_scheme \<Rightarrow> nat \<Rightarrow> hdr_state option \<Rightarrow> nat list \<Rightarrow> 's \<Rightarrow> (status \<times> nat \<times> hdr_state) \<times> 's" where
  "locate_next_loop I page_size hdr_st [] s =
     ((case hdr_st of None \<Rightarrow> (LOCATE_FAILED_ERROR, 0, StA) | Some h \<Rightarrow> (SUCCESS, 0, next_state h)), s)"
| "locate_next_loop I page_size hdr_st (i # is) s =
     (let addr = i * page_size in
      case read_cell I addr s of
        (None, s) \<Rightarrow> ((READ_ERROR, 0, StA), s)
      | (Some data, s) \<Rightarrow>
          (case hdr_to_hdr_state data of
             None \<Rightarrow> ((SUCCESS, addr, StA), s)
           | Some st \<Rightarrow> (case hdr_st of
                 None \<Rightarrow> locate_next_loop I page_size (Some st) is s
               | Some h \<Rightarrow> if h \<noteq> st then ((SUCCESS, addr, h), s)
                   else locate_next_loop I page_size hdr_st is s)))"

definition locate_next_page ::
  "nat \<Rightarrow> nat \<Rightarrow> ('s, 'x) cfg_iface_scheme \<Rightarrow> 's \<Rightarrow> ((status \<times> nat \<times> hdr_state) \<times> 's) option" where
  "locate_next_page mem_size page_size I s =
     (if page_size = 0 then None
      else if mem_size mod page_size \<noteq> 0 then Some ((MEM_NOT_PAGE_MULTIPLY_ERROR, 0, StA), s)
      else Some (locate_next_loop I page_size None [0..<mem_size div page_size] s))"

section \<open>Walking through a page\<close>

text \<open>\<open>decr_addr\<close> gives whether the address is still in the page, and the address.\<close>

definition decr_addr :: "nat \<Rightarrow> nat \<Rightarrow> nat \<Rightarrow> bool \<times> nat" where
  "decr_addr addr n start_addr =
     (if size_minus addr (cell_size * n) > addr then (False, addr)
      else (let addr = size_minus addr (cell_size * n) in (addr \<ge> start_addr, addr)))"

text \<open>
  \<open>manifest_value\<close>: the loop over the cells of a value, \<open>Suc k\<close> of them to go, and the span that it
  gives, where the empty one stands for a failure.
\<close>

primrec manifest_loop ::
  "('s, 'x) cfg_iface_scheme \<Rightarrow> nat \<Rightarrow> nat \<Rightarrow> nat \<Rightarrow> 's \<Rightarrow> bool \<times> nat \<times> 's" where
  "manifest_loop I 0 start_addr addr s = (True, addr, s)"
| "manifest_loop I (Suc k) start_addr addr s =
     (case decr_addr addr 1 start_addr of
        (False, addr) \<Rightarrow> (False, addr, s)
      | (True, addr) \<Rightarrow>
          (let buffer_offset = k * cell_size in
           if buffer_offset + cell_size > length (buffer_of I s) then (False, addr, s)
           else (case read_cell I addr s of
               (None, s) \<Rightarrow> (False, addr, s)
             | (Some c, s) \<Rightarrow>
                 manifest_loop I k start_addr addr (set_buffer I (splice buffer_offset c (buffer_of I s)) s))))"

definition manifest_value ::
  "('s, 'x) cfg_iface_scheme \<Rightarrow> bool \<Rightarrow> 32 word \<Rightarrow> nat \<Rightarrow> nat \<Rightarrow> 's \<Rightarrow> (byte list \<times> nat \<times> 's) option" where
  "manifest_value I sq cell_val start_addr addr s =
     (if sq then
        (case manifest_loop I (unat cell_val) start_addr addr s of
           (False, addr, s) \<Rightarrow> Some ([], addr, s)
         | (True, addr, s) \<Rightarrow> Some (take (unat (cell_val * 8)) (buffer_of I s), addr, s))
      else if length (buffer_of I s) < 4 then None
      else (let buffer = splice 0 (u32_bytes cell_val) (buffer_of I s) in
        Some (take 4 buffer, addr, set_buffer I buffer s)))"

section \<open>Storing\<close>

definition store_key ::
  "'s update_iface \<Rightarrow> nat \<Rightarrow> nat \<Rightarrow> 32 word \<Rightarrow> 's \<Rightarrow> (status \<times> nat \<times> 's) option" where
  "store_key I addr end_addr key s =
     (let capacity = size_minus end_addr addr in
      case serialize_value I key s of
        (None, s) \<Rightarrow> Some (SERIALIZE_VALUE_ERROR, addr, s)
      | (Some n, s) \<Rightarrow> do {
          (off, len, buffer) \<leftarrow> store_kval_impl key n (buffer_of I s);
          let s = set_buffer I buffer s;
          let data = take len (drop off buffer);
          (if capacity < len then Some (FULL, addr, s)
           else (case write_mem I addr data s of
               (False, s) \<Rightarrow> Some (WRITE_ERROR, addr, s)
             | (True, s) \<Rightarrow> Some (SUCCESS, addr + len, s)))
        })"

lemma store_kval_length: "store_kval_impl key n buffer = Some (off, len, b) \<Longrightarrow> 0 < len"
  by (auto simp: store_kval_impl_def cell_size_def split: if_splits option.splits cell_kind.splits)

lemma size_minus_diff:
  assumes "0 < len" "len \<le> size_minus e a"
  shows "size_minus e (a + len) < size_minus e a"
proof -
  define x where "x = (int e - int a) mod 2 ^ 64"
  have x: "0 \<le> x" "x < 2 ^ 64" "int len \<le> x" using assms(2) by (simp_all add: x_def size_minus_def)
  have "(int e - int (a + len)) mod 2 ^ 64 = (x - int len) mod 2 ^ 64"
    unfolding x_def by (simp add: mod_diff_left_eq algebra_simps)
  also have "\<dots> = x - int len" using x by (intro mod_pos_pos_trivial) auto
  finally have "size_minus e (a + len) = nat (x - int len)" by (simp only: size_minus_def)
  moreover have "size_minus e a = nat x" by (simp only: size_minus_def x_def)
  ultimately show ?thesis using x assms(1) by linarith
qed

lemma size_minus_cell: "\<not> size_minus a cell_size > a \<Longrightarrow> size_minus a cell_size < a"
proof -
  assume le: "\<not> size_minus a cell_size > a"
  have "size_minus a cell_size \<noteq> a"
  proof
    assume "size_minus a cell_size = a"
    then have "(int a - 8) mod 2 ^ 64 = int a" by (simp add: size_minus_def cell_size_def nat_eq_iff)
    moreover from this have "int a mod 2 ^ 64 = int a" by (metis mod_mod_trivial)
    ultimately have "(int a - 8) mod 2 ^ 64 = int a mod 2 ^ 64" by simp
    then show False by (simp only: mod_eq_dvd_iff) simp
  qed
  with le show ?thesis by linarith
qed

lemma store_key_capacity:
  assumes "store_key I addr end_addr key s = Some (SUCCESS, addr', s')"
  shows "size_minus end_addr addr' < size_minus end_addr addr"
proof -
  obtain n s1 where ser: "serialize_value I key s = (Some n, s1)"
    using assms by (cases "serialize_value I key s"; cases "fst (serialize_value I key s)") (auto simp: store_key_def Let_def)
  then obtain off len b where kv: "store_kval_impl key n (buffer_of I s1) = Some (off, len, b)"
    using assms by (cases "store_kval_impl key n (buffer_of I s1)") (auto simp: store_key_def Let_def)
  have "\<not> size_minus end_addr addr < len" "addr' = addr + len"
    using assms ser kv
    by (cases "write_mem I addr (take len (drop off b)) (set_buffer I b s1)";
        auto simp: store_key_def Let_def split: if_splits bool.splits)+
  moreover have "0 < len" using kv by (rule store_kval_length)
  ultimately show ?thesis using size_minus_diff by simp
qed

function dump_unseen_keys :: "'s update_iface \<Rightarrow> nat \<Rightarrow> nat \<Rightarrow> 's \<Rightarrow> (status \<times> 's) option" where
  "dump_unseen_keys I addr end_addr s =
     (case take_unseen_key I s of
        (None, s) \<Rightarrow> Some (SUCCESS, s)
      | (Some k, s) \<Rightarrow>
          (case store_key I addr end_addr k s of
             None \<Rightarrow> None
           | Some (res, addr, s) \<Rightarrow> if res \<noteq> SUCCESS then Some (res, s) else dump_unseen_keys I addr end_addr s))"
  by pat_completeness auto

termination
  by (relation "measure (\<lambda>(I, addr, end_addr, s). size_minus end_addr addr)") (auto intro: store_key_capacity)

declare dump_unseen_keys.simps [simp del]

lemma decr_addr_less: "decr_addr addr 1 start_addr = (True, addr') \<Longrightarrow> addr' < addr"
  by (auto simp: decr_addr_def Let_def split: if_splits intro: size_minus_cell)

lemmas decr_addr_less' = decr_addr_less [OF sym]

text \<open>The first loop of \<open>update_stored_config\<close>: over the free cells at the end of the page.\<close>

function find_last_free ::
  "('s, 'x) cfg_iface_scheme \<Rightarrow> nat \<Rightarrow> nat \<Rightarrow> nat \<Rightarrow> 's \<Rightarrow> (nat \<times> nat) option \<times> 's" where
  "find_last_free I start_addr addr last_free s =
     (case decr_addr addr 1 start_addr of
        (False, addr) \<Rightarrow> (Some (addr, last_free), s)
      | (True, addr) \<Rightarrow>
          (case read_cell I addr s of
             (None, s) \<Rightarrow> (None, s)
           | (Some tmp, s) \<Rightarrow>
               if is_free_cell tmp then find_last_free I start_addr addr addr s
               else (Some (addr + cell_size, last_free), s)))"
  by pat_completeness auto

termination
  by (relation "measure (\<lambda>(I, start_addr, addr, last_free, s). addr)") (auto intro: decr_addr_less' simp flip: One_nat_def)

declare find_last_free.simps [simp del]

text \<open>
  The second loop: over the records from the newest to the oldest, where a changed value is stored at
  \<open>last_free\<close>.  It gives an error, or \<open>last_free\<close>.
\<close>

lemma decr_addr_le: "snd (decr_addr addr n start_addr) \<le> addr"
  by (auto simp: decr_addr_def Let_def)

lemma manifest_loop_le: "manifest_loop I n start_addr addr s = (ok, addr', s') \<Longrightarrow> addr' \<le> addr"
proof (induction n arbitrary: addr s)
  case (Suc n)
  obtain ok1 a where d: "decr_addr addr 1 start_addr = (ok1, a)" by fastforce
  then have "a \<le> addr" using decr_addr_le [of addr 1 start_addr] by simp
  with Suc d show ?case
    by (auto simp: Let_def split: bool.splits if_splits prod.splits option.splits dest!: Suc.IH)
qed simp

lemma manifest_value_le: "manifest_value I sq v start_addr addr s = Some (d, addr', s') \<Longrightarrow> addr' \<le> addr"
  by (auto simp: manifest_value_def Let_def split: if_splits prod.splits bool.splits dest: manifest_loop_le)

lemma snd_decr_less: "a < addr \<Longrightarrow> snd (decr_addr a n start_addr) < addr"
  using decr_addr_le [of a n start_addr] by simp

function update_records ::
  "'s update_iface \<Rightarrow> nat \<Rightarrow> nat \<Rightarrow> nat \<Rightarrow> nat \<Rightarrow> 's \<Rightarrow> ((status + nat) \<times> 's) option" where
  "update_records I start_addr end_addr addr last_free s =
     (case decr_addr addr 1 start_addr of
        (False, addr) \<Rightarrow> Some (Inr last_free, s)
      | (True, addr) \<Rightarrow>
          (case read_cell I addr s of
             (None, s) \<Rightarrow> Some (Inl READ_ERROR, s)
           | (Some tmp, s) \<Rightarrow>
               (case deser_cell tmp of
                  None \<Rightarrow> Some (Inl DESER_ERROR, s)
                | Some c \<Rightarrow>
                    (case check_key_cache I (dr_key c) s of
                       (True, s) \<Rightarrow>
                         update_records I start_addr end_addr
                           (if is_seq c then snd (decr_addr addr (unat (dr_val c)) start_addr) else addr) last_free s
                     | (False, s) \<Rightarrow>
                         (case manifest_value I (is_seq c) (dr_val c) start_addr addr s of
                            None \<Rightarrow> None
                          | Some (val_sp, addr, s) \<Rightarrow>
                              (case value_changed I (dr_key c) val_sp s of
                                 (False, s) \<Rightarrow> update_records I start_addr end_addr addr last_free s
                               | (True, s) \<Rightarrow>
                                   (case store_key I last_free end_addr (dr_key c) s of
                                      None \<Rightarrow> None
                                    | Some (res, last_free, s) \<Rightarrow>
                                        if res \<noteq> SUCCESS then Some (Inl res, s)
                                        else update_records I start_addr end_addr addr last_free s)))))))"
  by pat_completeness auto

termination
proof (relation "measure (\<lambda>(I, start_addr, end_addr, addr, last_free, s). addr)")
qed (auto dest!: decr_addr_less' manifest_value_le simp flip: One_nat_def intro: snd_decr_less)

declare update_records.simps [simp del]

definition update_stored_config :: "nat \<Rightarrow> nat \<Rightarrow> 's update_iface \<Rightarrow> 's \<Rightarrow> (status \<times> 's) option" where
  "update_stored_config start_addr end_addr I s =
     (case find_last_free I start_addr end_addr end_addr s of
        (None, s) \<Rightarrow> Some (READ_ERROR, s)
      | (Some (addr, last_free), s) \<Rightarrow>
          (case update_records I start_addr end_addr addr last_free s of
             None \<Rightarrow> None
           | Some (Inl res, s) \<Rightarrow> Some (res, s)
           | Some (Inr last_free, s) \<Rightarrow> dump_unseen_keys I last_free end_addr s))"

definition update_new_page :: "nat \<Rightarrow> nat \<Rightarrow> 's update_iface \<Rightarrow> 's \<Rightarrow> (status \<times> 's) option" where
  "update_new_page mem_size page_size I s = do {
     ((st, addr, page_st), s) \<leftarrow> locate_next_page mem_size page_size I s;
     (if st \<noteq> SUCCESS then Some (st, s)
      else case reset_keys I s of
        (False, s) \<Rightarrow> Some (RESET_KEYS_ERROR, s)
      | (True, s) \<Rightarrow>
          (case clear_page I addr s of
             (False, s) \<Rightarrow> Some (CLEAR_ERROR, s)
           | (True, s) \<Rightarrow>
               (case write_mem I addr (get_hdr page_st) s of
                  (False, s) \<Rightarrow> Some (WRITE_ERROR, s)
                | (True, s) \<Rightarrow>
                    (let addr = addr + cell_size in dump_unseen_keys I addr (addr + page_size) s))))
   }"

definition update_config :: "nat \<Rightarrow> nat \<Rightarrow> 's update_iface \<Rightarrow> 's \<Rightarrow> (status \<times> 's) option" where
  "update_config mem_size page_size I s = do {
     ((st, addr), s) \<leftarrow> locate_current_page mem_size page_size I s;
     (if st = MISSING_PAGE then update_new_page mem_size page_size I s
      else if st \<noteq> SUCCESS then Some (st, s)
      else do {
        (r, s) \<leftarrow> update_stored_config (addr + cell_size) (addr + page_size) I s;
        (if r \<noteq> FULL then Some (r, s) else update_new_page mem_size page_size I s)
      })
   }"

section \<open>Loading\<close>

function load_stored_config :: "nat \<Rightarrow> nat \<Rightarrow> 's load_iface \<Rightarrow> 's \<Rightarrow> (status \<times> 's) option" where
  "load_stored_config start_addr addr I s =
     (case decr_addr addr 1 start_addr of
        (False, addr) \<Rightarrow> Some (SUCCESS, s)
      | (True, addr) \<Rightarrow>
          (case read_cell I addr s of
             (None, s) \<Rightarrow> Some (READ_ERROR, s)
           | (Some tmp, s) \<Rightarrow>
               (case deser_cell tmp of
                  None \<Rightarrow> load_stored_config start_addr addr I s
                | Some c \<Rightarrow>
                    (case check_key_cache I (dr_key c) s of
                       (True, s) \<Rightarrow>
                         load_stored_config start_addr
                           (if is_seq c then snd (decr_addr addr (unat (dr_val c)) start_addr) else addr) I s
                     | (False, s) \<Rightarrow>
                         (case manifest_value I (is_seq c) (dr_val c) start_addr addr s of
                            None \<Rightarrow> None
                          | Some (val_sp, addr, s) \<Rightarrow>
                              (case on_kval I (dr_key c) val_sp s of
                                 (False, s) \<Rightarrow> Some (ON_KVAL_ERROR, s)
                               | (True, s) \<Rightarrow> load_stored_config start_addr addr I s))))))"
  by pat_completeness auto

termination
proof (relation "measure (\<lambda>(start_addr, addr, I, s). addr)")
qed (auto dest!: decr_addr_less' manifest_value_le simp flip: One_nat_def intro: snd_decr_less)

declare load_stored_config.simps [simp del]

definition load_config :: "nat \<Rightarrow> nat \<Rightarrow> 's load_iface \<Rightarrow> 's \<Rightarrow> (status \<times> 's) option" where
  "load_config mem_size page_size I s = do {
     ((st, addr), s) \<leftarrow> locate_current_page mem_size page_size I s;
     (if st = MISSING_PAGE then Some (SUCCESS, s)
      else if st \<noteq> SUCCESS then Some (st, s)
      else load_stored_config (addr + cell_size) (addr + page_size) I s)
   }"

section \<open>Helpers for callbacks\<close>

definition is_prefix_of_with_zeros :: "byte list \<Rightarrow> byte list \<Rightarrow> bool" where
  "is_prefix_of_with_zeros a b =
     (if length a > length b then False
      else let c = take (length a) b in
        if a \<noteq> c then False else all_of (\<lambda>b. b = 0) (drop (length a) b))"

definition pop_from_container :: "'a list \<Rightarrow> 'a option \<times> 'a list" where
  "pop_from_container cont = (if cont = [] then (None, cont) else (Some (last cont), butlast cont))"

text \<open>\<open>key_check_unseen_container\<close>: whether the key is \<open>SEEN\<close>, and the container.\<close>

definition key_check_unseen_container :: "'a list \<Rightarrow> 'a \<Rightarrow> bool \<times> 'a list" where
  "key_check_unseen_container cont key =
     (let iter = find_item cont key in
      if iter = length cont then (True, cont)
      else (False, butlast (cont [iter := last cont, length cont - 1 := cont ! iter])))"

section \<open>Values read back\<close>

lemma store_get_val:
  assumes "well_formed d" "typed d v" "max_size (converter_for d Little) \<le> length buffer"
  shows "\<exists>data. store_val d v buffer = Some (Some data) \<and> length data \<le> length buffer \<and> get_val d data = Some (Some v)"
proof -
  let ?c = "converter_for d Little" and ?bs = "encoding (converter_for d Little) v"
  note e = encodesD [OF codec.encoding_encodes [OF well_formed_codec [OF assms(1)] assms(2), of Little]]
  note dec = decodes_all [OF codec.encoding_decodes [OF well_formed_codec [OF assms(1)] assms(2), of Little]]
  have "store_val d v buffer = Some (Some ?bs)"
    using e(1) e(4) [of "take (max_size ?c) buffer"] assms(3) by (simp add: store_val_def Let_def)
  moreover have "get_val d ?bs = Some (Some v)"
    using dec init_value_converter_for [OF assms(1), of Little] by (simp add: get_val_def conv_ok_def)
  ultimately show ?thesis using e(1) assms(3) by auto
qed

end
