(* ===== verification/CfgLog.thy ===== *)
theory CfgLog
  imports CfgHandler
begin

text \<open>
  What the operations of \<open>experimental/cfg/handler.hpp\<close> do to a page that holds a log of records: the
  interface of the memory as a locale, and the log as a list.
\<close>

section \<open>The log\<close>

text \<open>The bytes of a value as they are read back: a short one fills half a cell.\<close>

definition stored :: "byte list \<Rightarrow> byte list" where
  "stored v = v @ replicate (4 - length v) 0"

definition rec_bytes :: "32 word \<Rightarrow> byte list \<Rightarrow> byte list" where
  "rec_bytes k v = (case ser_cell k v of None \<Rightarrow> [] | Some (SINGLE, c) \<Rightarrow> c | Some (MULTI, c) \<Rightarrow> v @ c)"

definition enc :: "(32 word \<times> byte list) list \<Rightarrow> byte list" where
  "enc rs = concat (map (\<lambda>(k, v). rec_bytes k v) rs)"

text \<open>
  The values that a page can hold: a long one fills its cells, as the header is written right behind
  the value but read at the address of a cell.  \<open>B\<close> is the size of the buffer.
\<close>

definition value_ok :: "nat \<Rightarrow> byte list \<Rightarrow> bool" where
  "value_ok B v \<longleftrightarrow> v \<noteq> [] \<and> (length v \<le> 4 \<or> 8 dvd length v) \<and> length v + 8 \<le> B \<and> B < 2 ^ 31"

definition rec_ok :: "nat \<Rightarrow> 32 word \<times> byte list \<Rightarrow> bool" where
  "rec_ok B r \<longleftrightarrow> fst r < sin_bit_mask \<and> value_ok B (snd r)"

lemma enc_simps [simp]: "enc [] = []" "enc ((k, v) # rs) = rec_bytes k v @ enc rs" "enc (rs @ rs') = enc rs @ enc rs'"
  by (simp_all add: enc_def)

lemma rec_single:
  assumes "rec_ok B (k, v)" "length v \<le> 4"
  shows "\<exists>val. length (rec_bytes k v) = 8 \<and> u32_bytes val = stored v \<and> ser_cell k v = Some (SINGLE, rec_bytes k v) \<and>
    deser_cell (rec_bytes k v) = Some \<lparr>is_seq = False, dr_key = k, dr_val = val\<rparr>"
proof -
  have "v \<noteq> []" "k < sin_bit_mask" using assms(1) by (simp_all add: rec_ok_def value_ok_def)
  then obtain c where c: "ser_cell k v = Some (SINGLE, c)" "length c = 8"
    "deser_cell c = Some \<lparr>is_seq = False, dr_key = k, dr_val = bytes_u32 (stored v)\<rparr>"
    using ser_single [of v k] assms(2) by (auto simp: stored_def)
  then show ?thesis using u32_bytes_of [of "stored v"] assms(2) by (auto simp: rec_bytes_def stored_def)
qed

lemma rec_multi:
  assumes "rec_ok B (k, v)" "4 < length v"
  shows "\<exists>c val. rec_bytes k v = v @ c \<and> length c = 8 \<and> length v = 8 * unat val \<and> unat (val * 8) = length v \<and>
    ser_cell k v = Some (MULTI, c) \<and> stored v = v \<and>
    deser_cell c = Some \<lparr>is_seq = True, dr_key = k, dr_val = val\<rparr>"
proof -
  have v: "8 dvd length v" "length v + 8 < 2 ^ 31" "k < sin_bit_mask"
    using assms by (auto simp: rec_ok_def value_ok_def)
  let ?n = "(length v + 7) div 8"
  have n: "length v = 8 * ?n" using v(1) by (auto elim!: dvdE)
  obtain c where c: "ser_cell k v = Some (MULTI, c)" "length c = 8"
    "deser_cell c = Some \<lparr>is_seq = True, dr_key = k, dr_val = of_nat ?n\<rparr>"
    using ser_multi [OF assms(2) _ v(3)] v(2) by auto
  have u: "unat (of_nat ?n :: 32 word) = ?n" using n v(2) by (simp add: unat_of_nat)
  then have "unat (of_nat ?n * 8 :: 32 word) = length v" using n v(2) by (simp add: unat_word_ariths)
  then show ?thesis using c u n assms(2) by (auto simp: rec_bytes_def stored_def intro!: exI [of _ "of_nat ?n"])
qed

lemma rec_length: "rec_ok B r \<Longrightarrow> 8 \<le> length (rec_bytes (fst r) (snd r)) \<and> 8 dvd length (rec_bytes (fst r) (snd r))"
proof -
  assume ok: "rec_ok B r"
  obtain k v where r: "r = (k, v)" by fastforce
  show ?thesis
  proof (cases "length v \<le> 4")
    case True
    then show ?thesis using rec_single [of B k v] ok r by auto
  next
    case False
    then have "4 < length v" by simp
    from rec_multi [OF ok [unfolded r] this] obtain c and val :: "32 word" where
      "rec_bytes k v = v @ c" "length c = 8" "length v = 8 * unat val" by blast
    then show ?thesis using r by simp
  qed
qed

section \<open>Addresses\<close>

lemma decr_addr_eq:
  "start \<le> a \<Longrightarrow> a + 8 * n < 2 ^ 64 \<Longrightarrow> decr_addr (a + 8 * n) n start = (True, a)"
  using size_minus_le [of "8 * n" "a + 8 * n"] by (simp add: decr_addr_def cell_size_def Let_def)

lemma decr_addr_start: "fst (decr_addr start 1 start) = False"
  using size_minus_cell [of start] by (auto simp: decr_addr_def Let_def)

section \<open>The memory\<close>

locale cfg_memory =
  fixes I :: "('s, 'x) cfg_iface_scheme" and mem :: "'s \<Rightarrow> byte list"
    and keys :: "'s \<Rightarrow> 32 word set" and aux :: "'s \<Rightarrow> 'a"
  assumes read_law: "a + 8 \<le> length (mem s) \<Longrightarrow> read_cell I a s = (Some (take 8 (drop a (mem s))), s)"
    and buffer_law: "length b = length (buffer_of I s) \<Longrightarrow> buffer_of I (set_buffer I b s) = b \<and>
      mem (set_buffer I b s) = mem s \<and> keys (set_buffer I b s) = keys s \<and> aux (set_buffer I b s) = aux s"
    and check_law: "\<exists>s'. check_key_cache I k s = (k \<notin> keys s, s') \<and> mem s' = mem s \<and> keys s' = keys s - {k} \<and>
      aux s' = aux s \<and> buffer_of I s' = buffer_of I s"
begin

definition frame :: "'s \<Rightarrow> 's \<Rightarrow> bool" where
  "frame s s' \<longleftrightarrow> mem s' = mem s \<and> keys s' = keys s \<and> aux s' = aux s \<and>
     length (buffer_of I s') = length (buffer_of I s)"

lemma read_at:
  assumes "mem s = pre @ c @ tail" "length c = 8"
  shows "read_cell I (length pre) s = (Some c, s)"
  using read_law [of "length pre" s] assms by simp

lemma manifest_loop_eq:
  assumes m: "mem s = pre @ v @ tail" and n: "8 * n \<le> length v" and start: "start \<le> length pre"
    and a: "length pre + 8 * n < 2 ^ 64" and b: "8 * n \<le> length (buffer_of I s)"
  shows "\<exists>s'. manifest_loop I n start (length pre + 8 * n) s = (True, length pre, s') \<and> frame s s' \<and>
    take (8 * n) (buffer_of I s') = take (8 * n) v \<and> drop (8 * n) (buffer_of I s') = drop (8 * n) (buffer_of I s)"
  using assms
proof (induction n arbitrary: s)
  case 0
  then show ?case by (simp add: frame_def)
next
  case (Suc n)
  let ?c = "take 8 (drop (8 * n) v)" and ?b = "buffer_of I s"
  let ?b1 = "splice (n * cell_size) ?c ?b" and ?s1 = "set_buffer I (splice (n * cell_size) (take 8 (drop (8 * n) v)) (buffer_of I s)) s"
  have d: "decr_addr (length pre + 8 * Suc n) 1 start = (True, length pre + 8 * n)"
    using decr_addr_eq [of start "length pre + 8 * n" 1] Suc.prems(3,4) by (simp add: algebra_simps)
  have c: "length ?c = 8" using Suc.prems(2) by simp
  have "mem s = (pre @ take (8 * n) v) @ ?c @ drop 8 (drop (8 * n) v) @ tail"
    using Suc.prems(1) by (metis append.assoc append_take_drop_id)
  from read_at [OF this c] have rd: "read_cell I (length pre + 8 * n) s = (Some ?c, s)"
    using Suc.prems(2) by simp
  have len: "length ?b1 = length ?b" using c Suc.prems(5) by (simp add: splice_def cell_size_def)
  note bl = buffer_law [OF len]
  then have f1: "frame s ?s1" using len by (simp add: frame_def)
  have "8 * n \<le> length v" "length pre + 8 * n < 2 ^ 64" "8 * n \<le> length (buffer_of I ?s1)"
    using Suc.prems bl len by auto
  with Suc.IH [of ?s1] Suc.prems(1,3) bl obtain s' where
    s': "manifest_loop I n start (length pre + 8 * n) ?s1 = (True, length pre, s')" "frame ?s1 s'"
    "take (8 * n) (buffer_of I s') = take (8 * n) v" "drop (8 * n) (buffer_of I s') = drop (8 * n) ?b1" by auto
  have tail: "drop (8 * n) ?b1 = ?c @ drop (8 * Suc n) ?b"
    using c Suc.prems(5) by (simp add: splice_def cell_size_def algebra_simps)
  have "take (8 * Suc n) (buffer_of I s') = take (8 * n) (buffer_of I s') @ take 8 (drop (8 * n) (buffer_of I s'))"
    by (simp add: take_add [symmetric] algebra_simps)
  also have "\<dots> = take (8 * n) v @ ?c" using s'(3,4) tail c by simp
  also have "\<dots> = take (8 * Suc n) v" by (simp add: take_add [symmetric] algebra_simps)
  finally have t: "take (8 * Suc n) (buffer_of I s') = take (8 * Suc n) v" .
  have "drop (8 * Suc n) (buffer_of I s') = drop 8 (drop (8 * n) (buffer_of I s'))" by (simp add: algebra_simps)
  also have "\<dots> = drop (8 * Suc n) ?b" using s'(4) tail c by simp
  finally have "drop (8 * Suc n) (buffer_of I s') = drop (8 * Suc n) ?b" .
  moreover have "manifest_loop I (Suc n) start (length pre + 8 * Suc n) s = (True, length pre, s')"
    using d rd s'(1) Suc.prems(5) by (simp add: Let_def cell_size_def)
  ultimately show ?case using t f1 s'(2) by (auto simp: frame_def)
qed

text \<open>The value of a record is read as it is stored.\<close>

lemma manifest_record:
  assumes m: "mem s = pre @ rec_bytes k v @ tail" and ok: "rec_ok (length (buffer_of I s)) (k, v)"
    and start: "start \<le> length pre" and a: "length pre + length (rec_bytes k v) < 2 ^ 64"
  shows "\<exists>c d. decr_addr (length pre + length (rec_bytes k v)) 1 start = (True, length pre + length (rec_bytes k v) - 8) \<and>
    read_cell I (length pre + length (rec_bytes k v) - 8) s = (Some c, s) \<and> deser_cell c = Some d \<and> dr_key d = k \<and>
    (if is_seq d then snd (decr_addr (length pre + length (rec_bytes k v) - 8) (unat (dr_val d)) start)
     else length pre + length (rec_bytes k v) - 8) = length pre \<and>
    (\<forall>s1. mem s1 = mem s \<longrightarrow> buffer_of I s1 = buffer_of I s \<longrightarrow>
      (\<exists>s2. manifest_value I (is_seq d) (dr_val d) start (length pre + length (rec_bytes k v) - 8) s1
        = Some (stored v, length pre, s2) \<and> frame s1 s2))"
proof (cases "length v \<le> 4")
  case True
  from rec_single [OF ok True] obtain val where r: "length (rec_bytes k v) = 8" "u32_bytes val = stored v"
    "deser_cell (rec_bytes k v) = Some \<lparr>is_seq = False, dr_key = k, dr_val = val\<rparr>" by blast
  let ?b = "splice 0 (u32_bytes val)"
  have B: "4 \<le> length (buffer_of I s)" using ok True by (cases v) (auto simp: rec_ok_def value_ok_def)
  have man: "\<exists>s2. manifest_value I False val start (length pre) s1 = Some (stored v, length pre, s2) \<and> frame s1 s2"
    if "mem s1 = mem s" "buffer_of I s1 = buffer_of I s" for s1
  proof -
    have len: "length (?b (buffer_of I s1)) = length (buffer_of I s1)" using B that by (simp add: splice_def)
    have "take 4 (?b (buffer_of I s1)) = stored v" by (simp add: splice_def r(2) [symmetric])
    then show ?thesis using B that len buffer_law [OF len] by (simp add: manifest_value_def Let_def frame_def)
  qed
  show ?thesis using r read_at [OF m r(1)] decr_addr_eq [of start "length pre" 1] start a man by auto
next
  case False
  then have "4 < length v" by simp
  from rec_multi [OF ok this] obtain c val where r: "rec_bytes k v = v @ c" "length c = 8" "length v = 8 * unat val"
    "unat (val * 8) = length v" "stored v = v" "deser_cell c = Some \<lparr>is_seq = True, dr_key = k, dr_val = val\<rparr>" by blast
  let ?h = "length pre + 8 * unat val"
  have h: "length pre + length (rec_bytes k v) - 8 = ?h" "length pre + length (rec_bytes k v) = ?h + 8 * 1" "?h + 8 * 1 < 2 ^ 64"
    using r a by simp_all
  have d: "decr_addr (?h + 8 * 1) 1 start = (True, ?h)" using decr_addr_eq [of start ?h 1] start h(3) by simp
  have rd: "read_cell I ?h s = (Some c, s)" using read_at [of s "pre @ v" c tail] m r by simp
  have behind: "snd (decr_addr ?h (unat val) start) = length pre"
    using decr_addr_eq [of start "length pre" "unat val"] start h(3) by simp
  have man: "\<exists>s2. manifest_value I True val start ?h s1 = Some (stored v, length pre, s2) \<and> frame s1 s2"
    if "mem s1 = mem s" "buffer_of I s1 = buffer_of I s" for s1
  proof -
    have "8 * unat val \<le> length (buffer_of I s1)" using ok r(3) that by (simp add: rec_ok_def value_ok_def)
    from manifest_loop_eq [OF _ _ start _ this, of v "c @ tail"] m r that h(3) obtain s2 where
      "manifest_loop I (unat val) start ?h s1 = (True, length pre, s2)" "frame s1 s2"
      "take (8 * unat val) (buffer_of I s2) = take (8 * unat val) v" by auto
    then show ?thesis using r by (simp add: manifest_value_def)
  qed
  show ?thesis unfolding h(1) h(2)
    by (intro exI [of _ c] exI [of _ "\<lparr>is_seq = True, dr_key = k, dr_val = val\<rparr>"])
      (use d rd behind man r in auto)
qed

end

section \<open>Loading\<close>

text \<open>What is loaded: of each key that has not been seen the newest record.\<close>

fun visit :: "32 word set \<Rightarrow> (32 word \<times> byte list) list \<Rightarrow> (32 word \<times> byte list) list" where
  "visit K [] = []"
| "visit K ((k, v) # rs) = (if k \<in> K then (k, stored v) # visit (K - {k}) rs else visit K rs)"

lemma visit_set: "(k, d) \<in> set (visit K rs) \<longleftrightarrow> k \<in> K \<and> (\<exists>v. map_of rs k = Some v \<and> d = stored v)"
  by (induction K rs rule: visit.induct) auto

lemma visit_distinct: "distinct (map fst (visit K rs))"
proof (induction K rs rule: visit.induct)
  case (2 K k v rs)
  then show ?case using visit_set [of k _ "K - {k}" rs] by (auto simp: image_iff)
qed simp

locale cfg_loading = cfg_memory I mem keys aux
  for I :: "'s load_iface" and mem keys and aux :: "'s \<Rightarrow> (32 word \<times> byte list) list" +
  assumes on_kval_law: "\<exists>s'. on_kval I k d s = (True, s') \<and> mem s' = mem s \<and> keys s' = keys s \<and>
    buffer_of I s' = buffer_of I s \<and> aux s' = aux s @ [(k, d)]"
begin

lemma load_records:
  assumes "mem s = pre @ enc rs @ tail" "\<forall>r \<in> set rs. rec_ok (length (buffer_of I s)) r"
    "length pre + length (enc rs) < 2 ^ 64"
  shows "\<exists>s'. load_stored_config (length pre) (length pre + length (enc rs)) I s = Some (SUCCESS, s') \<and>
    mem s' = mem s \<and> aux s' = aux s @ visit (keys s) (rev rs)"
  using assms
proof (induction rs arbitrary: s tail rule: rev_induct)
  case Nil
  obtain a where "decr_addr (length pre) 1 (length pre) = (False, a)"
    using decr_addr_start [of "length pre"] by (metis prod.collapse)
  then show ?case by (subst load_stored_config.simps) simp
next
  case (snoc r rs)
  obtain k v where r: "r = (k, v)" by fastforce
  let ?pre = "pre @ enc rs" and ?len = "length (rec_bytes k v)"
  have m: "mem s = ?pre @ rec_bytes k v @ tail" using snoc.prems(1) r by simp
  have ok: "rec_ok (length (buffer_of I s)) (k, v)" using snoc.prems(2) r by simp
  have a: "length pre \<le> length ?pre" "length ?pre + ?len < 2 ^ 64" using snoc.prems(3) r by simp_all
  let ?stop = "length pre + length (enc (rs @ [r]))" and ?a = "length ?pre + ?len - 8"
  have e: "?stop = length ?pre + ?len" using r by simp
  from manifest_record [OF m ok a] obtain c d where
    cell: "decr_addr ?stop 1 (length pre) = (True, ?a)" "read_cell I ?a s = (Some c, s)" "deser_cell c = Some d" "dr_key d = k"
    and behind: "(if is_seq d then snd (decr_addr ?a (unat (dr_val d)) (length pre)) else ?a) = length ?pre"
    and man: "\<forall>s1. mem s1 = mem s \<longrightarrow> buffer_of I s1 = buffer_of I s \<longrightarrow>
      (\<exists>s2. manifest_value I (is_seq d) (dr_val d) (length pre) ?a s1 = Some (stored v, length ?pre, s2) \<and> frame s1 s2)"
    unfolding e by blast
  obtain s1 where s1: "check_key_cache I k s = (k \<notin> keys s, s1)" "mem s1 = mem s" "keys s1 = keys s - {k}"
    "aux s1 = aux s" "buffer_of I s1 = buffer_of I s" using check_law [of k s] by blast
  have rest: "mem s' = pre @ enc rs @ rec_bytes k v @ tail" if "mem s' = mem s" for s' using that m by simp
  have len: "length pre + length (enc rs) < 2 ^ 64" using a(2) by simp
  show ?case
  proof (cases "k \<in> keys s")
    case False
    have oks: "\<forall>r \<in> set rs. rec_ok (length (buffer_of I s1)) r" using snoc.prems(2) s1(5) by simp
    have "load_stored_config (length pre) ?stop I s = load_stored_config (length pre) (length ?pre) I s1"
    proof -
      have "check_key_cache I (dr_key d) s = (True, s1)" using s1(1) False cell(4) by simp
      then show ?thesis
        by (subst load_stored_config.simps) (simp only: cell(1-3) behind prod.case option.case bool.case)
    qed
    then show ?thesis using snoc.IH [OF rest [OF s1(2)] oks len] s1 False r by simp
  next
    case True
    obtain s2 where s2: "manifest_value I (is_seq d) (dr_val d) (length pre) ?a s1 = Some (stored v, length ?pre, s2)"
      "frame s1 s2" using man s1(2,5) by blast
    obtain s3 where s3: "on_kval I k (stored v) s2 = (True, s3)" "mem s3 = mem s2" "keys s3 = keys s2"
      "buffer_of I s3 = buffer_of I s2" "aux s3 = aux s2 @ [(k, stored v)]" using on_kval_law [of k "stored v" s2] by blast
    have m3: "mem s3 = mem s" using s3(2) s2(2) s1(2) by (simp add: frame_def)
    have oks: "\<forall>r \<in> set rs. rec_ok (length (buffer_of I s3)) r"
      using snoc.prems(2) s1(5) s2(2) s3(4) by (simp add: frame_def)
    have "load_stored_config (length pre) ?stop I s = load_stored_config (length pre) (length ?pre) I s3"
    proof -
      have "check_key_cache I (dr_key d) s = (False, s1)" using s1(1) True cell(4) by simp
      then show ?thesis
        by (subst load_stored_config.simps)
          (simp only: cell s2(1) s3(1) prod.case option.case bool.case)
    qed
    then show ?thesis
      using snoc.IH [OF rest [OF m3] oks len] s1 s2(2) s3 m3 True r by (simp add: frame_def)
  qed
qed

text \<open>The free cells behind the log are passed over.\<close>

lemma load_log:
  assumes "mem s = pre @ enc rs @ replicate (8 * n) 0 @ tail" "\<forall>r \<in> set rs. rec_ok (length (buffer_of I s)) r"
    "length pre + length (enc rs) + 8 * n < 2 ^ 64"
  shows "\<exists>s'. load_stored_config (length pre) (length pre + length (enc rs) + 8 * n) I s = Some (SUCCESS, s') \<and>
    mem s' = mem s \<and> aux s' = aux s @ visit (keys s) (rev rs)"
  using assms
proof (induction n arbitrary: tail)
  case 0
  then show ?case using load_records [of s pre rs tail] by simp
next
  case (Suc n)
  let ?a = "length pre + length (enc rs) + 8 * n"
  have m: "mem s = (pre @ enc rs @ replicate (8 * n) 0) @ replicate 8 0 @ tail"
    using Suc.prems(1) replicate_add [of "8 * n" 8 "0 :: byte"] by (simp add: add.commute)
  have "decr_addr (?a + 8 * 1) 1 (length pre) = (True, ?a)"
    using decr_addr_eq [of "length pre" ?a 1] Suc.prems(3) by simp
  moreover have "read_cell I ?a s = (Some (replicate 8 0), s)" using read_at [OF m] by (simp add: add.assoc)
  moreover have "deser_cell (replicate 8 0) = None" by (rule deser_free) (simp add: is_free_cell_iff)
  moreover have "length pre + length (enc rs) + 8 * Suc n = ?a + 8 * 1" by simp
  ultimately have "load_stored_config (length pre) (length pre + length (enc rs) + 8 * Suc n) I s
      = load_stored_config (length pre) ?a I s"
    by (subst load_stored_config.simps) (simp only: prod.case option.case bool.case)
  then show ?case using Suc.IH [of "replicate 8 0 @ tail"] m Suc.prems by simp
qed

end

end
