(* ===== verification/CfgUpdate.thy ===== *)
theory CfgUpdate
  imports CfgLog
begin

text \<open>
  The updating side of \<open>experimental/cfg/handler.hpp\<close>: what \<open>update_stored_config\<close> and
  \<open>dump_unseen_keys\<close> append to the log of a page.
\<close>

lemma is_prefix_iff: "is_prefix_of_with_zeros a b \<longleftrightarrow> (\<exists>n. b = a @ replicate n 0)"
proof
  assume p: "is_prefix_of_with_zeros a b"
  then have a: "take (length a) b = a" and z: "\<forall>x \<in> set (drop (length a) b). x = 0"
    by (auto simp: is_prefix_of_with_zeros_def Let_def all_of_iff split: if_splits)
  have "drop (length a) b = replicate (length b - length a) 0" using z by (intro replicate_eqI) auto
  then have "b = a @ replicate (length b - length a) 0" using a by (metis append_take_drop_id)
  then show "\<exists>n. b = a @ replicate n 0" by blast
qed (auto simp: is_prefix_of_with_zeros_def Let_def all_of_iff)

lemma prefix_stored: "is_prefix_of_with_zeros v (stored v)"
  by (auto simp: is_prefix_iff stored_def)

text \<open>The log gives the value of a key when its newest record represents it.\<close>

definition current :: "(32 word \<Rightarrow> byte list option) \<Rightarrow> (32 word \<times> byte list) list \<Rightarrow> 32 word \<Rightarrow> bool" where
  "current vals rs k \<longleftrightarrow> (\<exists>v d. vals k = Some v \<and> map_of (rev rs) k = Some d \<and> is_prefix_of_with_zeros v (stored d))"

lemma current_append: "k \<notin> fst ` set post \<Longrightarrow> current vals (rs @ post) k = current vals rs k"
proof -
  assume "k \<notin> fst ` set post"
  then have "map_of (rev (rs @ post)) k = map_of (rev rs) k"
    by (simp add: map_add_def map_of_eq_None_iff [THEN iffD2] split: option.split)
  then show ?thesis by (simp only: current_def)
qed

lemma current_snoc: "vals k = Some v \<Longrightarrow> current vals (rs @ [(k, v)]) k"
  using prefix_stored by (simp add: current_def)

text \<open>The bytes that the records of all keys of a set need.\<close>

definition total :: "(32 word \<Rightarrow> byte list option) \<Rightarrow> 32 word set \<Rightarrow> nat" where
  "total vals K = (\<Sum>k \<in> K. length (rec_bytes k (the (vals k))))"

lemma total_remove: "k \<in> K \<Longrightarrow> vals k = Some v \<Longrightarrow> total vals K = length (rec_bytes k v) + total vals (K - {k})"
  unfolding total_def by (subst sum.remove [of K k]) auto

locale cfg_updating = cfg_memory I mem keys vals
  for I :: "'s update_iface" and mem keys and vals :: "'s \<Rightarrow> 32 word \<Rightarrow> byte list option" +
  fixes psize :: nat
  assumes write_law: "a + length d \<le> length (mem s) \<Longrightarrow> \<exists>s'. write_mem I a d s = (True, s') \<and>
      mem s' = splice a d (mem s) \<and> keys s' = keys s \<and> vals s' = vals s \<and> buffer_of I s' = buffer_of I s"
    and changed_law: "\<exists>s'. value_changed I k d s = (\<not> (\<exists>v. vals s k = Some v \<and> is_prefix_of_with_zeros v d), s') \<and>
      frame s s'"
    and serialize_law: "vals s k = Some v \<Longrightarrow> length v \<le> length (buffer_of I s) \<Longrightarrow>
      \<exists>s'. serialize_value I k s = (Some (length v), s') \<and> frame s s' \<and> take (length v) (buffer_of I s') = v"
    and take_law: "\<exists>r s'. take_unseen_key I s = (r, s') \<and> mem s' = mem s \<and> vals s' = vals s \<and>
      buffer_of I s' = buffer_of I s \<and>
      (case r of None \<Rightarrow> keys s = {} \<and> keys s' = {} | Some k \<Rightarrow> k \<in> keys s \<and> keys s' = keys s - {k})"
    and reset_law: "\<exists>s'. reset_keys I s = (True, s') \<and> mem s' = mem s \<and> keys s' = dom (vals s) \<and>
      vals s' = vals s \<and> buffer_of I s' = buffer_of I s"
    and clear_law: "a + psize \<le> length (mem s) \<Longrightarrow> \<exists>s'. clear_page I a s = (True, s') \<and>
      mem s' = splice a (replicate psize 0) (mem s) \<and> keys s' = keys s \<and> vals s' = vals s \<and> buffer_of I s' = buffer_of I s"
begin

text \<open>The state has values that a page can hold, and its keys are those of values.\<close>

definition vals_ok :: "'s \<Rightarrow> bool" where
  "vals_ok s \<longleftrightarrow> (\<forall>k v. vals s k = Some v \<longrightarrow> rec_ok (length (buffer_of I s)) (k, v)) \<and> keys s \<subseteq> dom (vals s)"

text \<open>A log with \<open>m\<close> free bytes behind it.\<close>

definition log_at :: "byte list \<Rightarrow> (32 word \<times> byte list) list \<Rightarrow> nat \<Rightarrow> byte list \<Rightarrow> 's \<Rightarrow> bool" where
  "log_at pre rs m tail s \<longleftrightarrow> mem s = pre @ enc rs @ replicate m 0 @ tail \<and>
     (\<forall>r \<in> set rs. rec_ok (length (buffer_of I s)) r)"

lemma splice_free: "splice (length xs) d (xs @ replicate m 0 @ tail) = xs @ d @ replicate (m - length d) 0 @ tail"
  if "length d \<le> m"
  using that by (simp add: splice_def)

lemma store_record:
  assumes s: "log_at pre rs m tail s" and v: "vals s k = Some v" and ok: "rec_ok (length (buffer_of I s)) (k, v)"
    and lim: "length pre + length (enc rs) + m \<le> e" "e < 2 ^ 64"
  shows "length (rec_bytes k v) \<le> m \<Longrightarrow> \<exists>s'. store_key I (length pre + length (enc rs)) e k s
      = Some (SUCCESS, length pre + length (enc (rs @ [(k, v)])), s') \<and>
      log_at pre (rs @ [(k, v)]) (m - length (rec_bytes k v)) tail s' \<and> keys s' = keys s \<and> vals s' = vals s \<and>
      length (buffer_of I s') = length (buffer_of I s)"
    "m < length (rec_bytes k v) \<Longrightarrow> e = length pre + length (enc rs) + m \<Longrightarrow>
      \<exists>a s'. store_key I (length pre + length (enc rs)) e k s = Some (FULL, a, s') \<and> frame s s'"
proof -
  let ?a = "length pre + length (enc rs)"
  have vl: "length v + 8 \<le> length (buffer_of I s)" using ok by (simp add: rec_ok_def value_ok_def)
  obtain s1 where s1: "serialize_value I k s = (Some (length v), s1)" "frame s s1" "take (length v) (buffer_of I s1) = v"
    using serialize_law [OF v] vl by auto
  have bl: "length (buffer_of I s1) = length (buffer_of I s)" using s1(2) by (simp add: frame_def)
  have "\<exists>off b. store_kval_impl k (length v) (buffer_of I s1) = Some (off, length (rec_bytes k v), b) \<and>
      take (length (rec_bytes k v)) (drop off b) = rec_bytes k v \<and> length b = length (buffer_of I s1)"
  proof (cases "length v \<le> 4")
    case True
    from rec_single [OF ok True] have "length (rec_bytes k v) = 8" "ser_cell k v = Some (SINGLE, rec_bytes k v)" by auto
    then show ?thesis using s1(3) vl bl by (simp add: store_kval_impl_def cell_size_def splice_def)
  next
    case False
    then have "4 < length v" by simp
    from rec_multi [OF ok this] obtain c where c: "rec_bytes k v = v @ c" "length c = 8" "ser_cell k v = Some (MULTI, c)" by blast
    have "splice (length v) c (buffer_of I s1) = v @ c @ drop (length v + 8) (buffer_of I s1)"
      using s1(3) c(2) by (simp add: splice_def)
    then show ?thesis using s1(3) vl bl c by (simp add: store_kval_impl_def cell_size_def)
  qed
  then obtain off b where kv: "store_kval_impl k (length v) (buffer_of I s1) = Some (off, length (rec_bytes k v), b)"
    "take (length (rec_bytes k v)) (drop off b) = rec_bytes k v" "length b = length (buffer_of I s1)" by blast
  let ?s2 = "set_buffer I b s1"
  have s2: "mem ?s2 = mem s" "keys ?s2 = keys s" "vals ?s2 = vals s" "length (buffer_of I ?s2) = length (buffer_of I s)"
    using buffer_law [OF kv(3)] s1(2) kv(3) by (auto simp: frame_def)
  have cap: "size_minus e ?a = e - ?a" using lim by (simp add: size_minus_le)
  {
    assume fit: "length (rec_bytes k v) \<le> m"
    have m2: "mem ?s2 = (pre @ enc rs) @ replicate m 0 @ tail" using s s2(1) by (simp add: log_at_def)
    then have "?a + length (rec_bytes k v) \<le> length (mem ?s2)" using fit by simp
    from write_law [OF this] obtain s3 where s3: "write_mem I ?a (rec_bytes k v) ?s2 = (True, s3)"
      "mem s3 = splice ?a (rec_bytes k v) (mem ?s2)" "keys s3 = keys s" "vals s3 = vals s"
      "length (buffer_of I s3) = length (buffer_of I s)" using s2 by auto
    have "mem s3 = pre @ enc (rs @ [(k, v)]) @ replicate (m - length (rec_bytes k v)) 0 @ tail"
      using s3(2) splice_free [OF fit, of "pre @ enc rs" tail] unfolding m2 by simp
    then have "log_at pre (rs @ [(k, v)]) (m - length (rec_bytes k v)) tail s3"
      using s ok s3(5) by (simp add: log_at_def)
    moreover have "store_key I ?a e k s = Some (SUCCESS, ?a + length (rec_bytes k v), s3)"
      using s1(1) kv s3(1) cap fit lim by (simp add: store_key_def Let_def)
    ultimately show "\<exists>s'. store_key I ?a e k s
      = Some (SUCCESS, length pre + length (enc (rs @ [(k, v)])), s') \<and>
      log_at pre (rs @ [(k, v)]) (m - length (rec_bytes k v)) tail s' \<and> keys s' = keys s \<and> vals s' = vals s \<and>
      length (buffer_of I s') = length (buffer_of I s)" using s3 by simp
  next
    assume "m < length (rec_bytes k v)" "e = ?a + m"
    then have "store_key I ?a e k s = Some (FULL, ?a, ?s2)"
      using s1(1) kv cap by (simp add: store_key_def Let_def)
    then show "\<exists>a s'. store_key I ?a e k s = Some (FULL, a, s') \<and> frame s s'" using s2 by (auto simp: frame_def)
  }
qed

text \<open>What is appended to a log, whether or not all of it fits.\<close>

definition extends :: "byte list \<Rightarrow> (32 word \<times> byte list) list \<Rightarrow> nat \<Rightarrow> byte list \<Rightarrow> 32 word set \<Rightarrow> 's \<Rightarrow>
    (32 word \<times> byte list) list \<Rightarrow> nat \<Rightarrow> 's \<Rightarrow> bool" where
  "extends pre rs m tail K s rs' m' s' \<longleftrightarrow> log_at pre (rs @ rs') m' tail s' \<and>
     length (enc (rs @ rs')) + m' = length (enc rs) + m \<and> (8 dvd m \<longrightarrow> 8 dvd m') \<and>
     vals s' = vals s \<and> length (buffer_of I s') = length (buffer_of I s) \<and> fst ` set rs' \<subseteq> K"

lemma extends_refl: "log_at pre rs m tail s' \<Longrightarrow> vals s' = vals s \<Longrightarrow>
    length (buffer_of I s') = length (buffer_of I s) \<Longrightarrow> extends pre rs m tail K s [] m s'"
  by (simp add: extends_def)

lemma extends_cong: "vals s1 = vals s \<Longrightarrow> length (buffer_of I s1) = length (buffer_of I s) \<Longrightarrow>
    extends pre rs m tail K s1 = extends pre rs m tail K s"
  by (intro ext) (simp add: extends_def)

lemma extends_step:
  assumes "log_at pre (rs @ [(k, v)]) (m - length (rec_bytes k v)) tail s1" "length (rec_bytes k v) \<le> m" "k \<in> K"
    "vals s1 = vals s" "length (buffer_of I s1) = length (buffer_of I s)" "rec_ok B (k, v)"
    "extends pre (rs @ [(k, v)]) (m - length (rec_bytes k v)) tail (K - {k}) s1 rs' m' s'"
  shows "extends pre rs m tail K s ((k, v) # rs') m' s'"
  using assms rec_length [OF assms(6)] by (auto simp: extends_def)

lemma log_at_frame: "log_at pre rs m tail s \<Longrightarrow> mem s' = mem s \<Longrightarrow> length (buffer_of I s') = length (buffer_of I s) \<Longrightarrow>
    log_at pre rs m tail s'"
  by (simp add: log_at_def)

text \<open>What writing the unseen keys leaves: when the log has room for all of them they are current.\<close>

definition dumped :: "byte list \<Rightarrow> (32 word \<times> byte list) list \<Rightarrow> nat \<Rightarrow> byte list \<Rightarrow> 's \<Rightarrow> (status \<times> 's) option \<Rightarrow> bool" where
  "dumped pre log m tail s out \<longleftrightarrow>
     (\<exists>st s' new m'. out = Some (st, s') \<and> (st = SUCCESS \<or> st = FULL) \<and> (total (vals s) (keys s) \<le> m \<longrightarrow> st = SUCCESS) \<and>
       extends pre log m tail (keys s) s new m' s' \<and>
       (st = SUCCESS \<longrightarrow> (\<forall>k \<in> keys s. current (vals s) (log @ new) k)))"

lemma dumped_append:
  assumes dumped: "dumped pre (log @ [(k, v)]) (m - length (rec_bytes k v)) tail s2 out"
    and log: "log_at pre (log @ [(k, v)]) (m - length (rec_bytes k v)) tail s2"
    and fits: "length (rec_bytes k v) \<le> m" and k: "k \<in> keys s" "keys s2 = keys s - {k}"
    and v: "vals s k = Some v" "rec_ok (length (buffer_of I s)) (k, v)"
    and same: "vals s2 = vals s" "length (buffer_of I s2) = length (buffer_of I s)"
  shows "dumped pre log m tail s out"
proof -
  obtain st s' new m' where out: "out = Some (st, s')" "st = SUCCESS \<or> st = FULL"
    "total (vals s2) (keys s2) \<le> m - length (rec_bytes k v) \<longrightarrow> st = SUCCESS"
    and ext: "extends pre (log @ [(k, v)]) (m - length (rec_bytes k v)) tail (keys s2) s2 new m' s'"
    and cur: "st = SUCCESS \<longrightarrow> (\<forall>x \<in> keys s2. current (vals s2) ((log @ [(k, v)]) @ new) x)"
    using dumped unfolding dumped_def by blast
  have "extends pre log m tail (keys s) s ((k, v) # new) m' s'"
    using extends_step [OF log fits k(1) _ _ v(2), of s new m' s'] ext k(2) same by simp
  moreover have "k \<notin> fst ` set new" using ext k(2) by (auto simp: extends_def)
  then have "current (vals s) ((log @ [(k, v)]) @ new) k"
    using current_append current_snoc [of "vals s" k v, OF v(1)] by blast
  then have "st = SUCCESS \<longrightarrow> (\<forall>x \<in> keys s. current (vals s) (log @ (k, v) # new) x)" using cur k(2) same(1) by auto
  moreover have "total (vals s) (keys s) \<le> m \<longrightarrow> st = SUCCESS"
    using out(3) total_remove [of k _ "vals s" v, OF k(1) v(1)] k(2) same(1) by auto
  ultimately show ?thesis unfolding dumped_def using out(1,2) by blast
qed

lemma dump_eq:
  assumes "log_at pre rs m tail s" "vals_ok s" "finite (keys s)"
    "length pre + length (enc rs) + m \<le> e" "e < 2 ^ 64"
    "e = length pre + length (enc rs) + m \<or> total (vals s) (keys s) \<le> m"
  shows "dumped pre rs m tail s (dump_unseen_keys I (length pre + length (enc rs)) e s)"
  using assms
proof (induction "card (keys s)" arbitrary: s rs m rule: less_induct)
  case less
  let ?a = "length pre + length (enc rs)"
  obtain r s1 where s1: "take_unseen_key I s = (r, s1)" "mem s1 = mem s" "vals s1 = vals s" "buffer_of I s1 = buffer_of I s"
    and r: "case r of None \<Rightarrow> keys s = {} \<and> keys s1 = {} | Some k \<Rightarrow> k \<in> keys s \<and> keys s1 = keys s - {k}"
    using take_law [of s] by blast
  have log1: "log_at pre rs m tail s1" using log_at_frame [OF less.prems(1) s1(2)] s1(4) by simp
  show ?case
  proof (cases r)
    case None
    then have "dump_unseen_keys I ?a e s = Some (SUCCESS, s1)" using s1(1) by (subst dump_unseen_keys.simps) simp
    moreover have "extends pre rs m tail (keys s) s [] m s1" using extends_refl [OF log1 s1(3)] s1(4) by simp
    ultimately show ?thesis unfolding dumped_def using None r by (intro exI [of _ SUCCESS]) auto
  next
    case (Some k)
    with r have k: "k \<in> keys s" "keys s1 = keys s - {k}" by simp_all
    then obtain v where v: "vals s k = Some v" using less.prems(2) by (auto simp: vals_ok_def)
    have ok: "rec_ok (length (buffer_of I s)) (k, v)" using less.prems(2) v by (simp add: vals_ok_def)
    let ?l = "length (rec_bytes k v)"
    have tot: "total (vals s) (keys s) = ?l + total (vals s) (keys s - {k})" by (rule total_remove [of k _ "vals s" v, OF k(1) v])
    note store = store_record [OF log1 _ _ less.prems(4,5), of k v]
    show ?thesis
    proof (cases "?l \<le> m")
      case True
      then obtain s2 where s2: "store_key I ?a e k s1 = Some (SUCCESS, length pre + length (enc (rs @ [(k, v)])), s2)"
        "log_at pre (rs @ [(k, v)]) (m - ?l) tail s2" "keys s2 = keys s1" "vals s2 = vals s1"
        "length (buffer_of I s2) = length (buffer_of I s1)" using store(1) v ok s1(3,4) by auto
      have lt: "card (keys s2) < card (keys s)" by (simp only: s2(3) k(2) card_Diff1_less [OF less.prems(3) k(1)])
      have ok2: "vals_ok s2" using less.prems(2) s1(3,4) s2(3-5) k(2) by (auto simp: vals_ok_def)
      have lim2: "length pre + length (enc (rs @ [(k, v)])) + (m - ?l) \<le> e"
        "e = length pre + length (enc (rs @ [(k, v)])) + (m - ?l) \<or> total (vals s2) (keys s2) \<le> m - ?l"
      proof -
        have l: "length (enc (rs @ [(k, v)])) = length (enc rs) + ?l" by simp
        then show "length pre + length (enc (rs @ [(k, v)])) + (m - ?l) \<le> e" using less.prems(4) True by linarith
        have "total (vals s2) (keys s2) = total (vals s) (keys s - {k})" using k(2) s1(3) s2(3,4) by simp
        then show "e = length pre + length (enc (rs @ [(k, v)])) + (m - ?l) \<or> total (vals s2) (keys s2) \<le> m - ?l"
          using less.prems(6) True tot l by linarith
      qed
      have fin: "finite (keys s2)" using less.prems(3) k(2) s2(3) by simp
      note less.hyps [OF lt s2(2) ok2 fin lim2(1) less.prems(5) lim2(2)]
      then have "dumped pre rs m tail s (dump_unseen_keys I (length pre + length (enc (rs @ [(k, v)]))) e s2)"
        using s1(3,4) s2(3-5) k v ok by (intro dumped_append [OF _ s2(2) True]) simp_all
      moreover have "dump_unseen_keys I ?a e s = dump_unseen_keys I (length pre + length (enc (rs @ [(k, v)]))) e s2"
        using s1(1) Some s2(1) by (subst dump_unseen_keys.simps) simp
      ultimately show ?thesis by simp
    next
      case False
      then have e: "e = ?a + m" using less.prems(6) tot by auto
      from store(2) v ok s1(3,4) False e obtain a s2 where
        s2: "store_key I ?a e k s1 = Some (FULL, a, s2)" "frame s1 s2" by auto
      have "dump_unseen_keys I ?a e s = Some (FULL, s2)"
        using s1(1) Some s2(1) by (subst dump_unseen_keys.simps) simp
      moreover have "extends pre rs m tail (keys s) s [] m s2"
        using extends_refl [OF log_at_frame [OF log1]] s2(2) s1(3,4) by (simp add: frame_def)
      moreover have "\<not> total (vals s) (keys s) \<le> m" using False tot by simp
      ultimately show ?thesis unfolding dumped_def by (intro exI [of _ FULL]) blast
    qed
  qed
qed

text \<open>The walk over the free cells stops behind the newest record.\<close>

lemma decr_addr_below: "a \<le> start \<Longrightarrow> fst (decr_addr a 1 start) = False"
  using size_minus_cell [of a] by (auto simp: decr_addr_def Let_def)

lemma find_last_free_eq:
  assumes "mem s = pre @ enc rs @ replicate (8 * n) 0 @ tail" "\<forall>r \<in> set rs. rec_ok (length (buffer_of I s)) r"
    "length pre + length (enc rs) + 8 * n < 2 ^ 64"
  shows "\<exists>a. find_last_free I (length pre) (length pre + length (enc rs) + 8 * n)
      (length pre + length (enc rs) + 8 * n) s = (Some (a, length pre + length (enc rs)), s) \<and>
    (if rs = [] then a \<le> length pre else a = length pre + length (enc rs))"
  using assms
proof (induction n arbitrary: tail)
  case 0
  show ?case
  proof (cases rs rule: rev_cases)
    case Nil
    obtain a where "decr_addr (length pre) 1 (length pre) = (False, a)"
      using decr_addr_start [of "length pre"] by (metis prod.collapse)
    moreover from this have "a \<le> length pre" using decr_addr_le by (metis snd_conv)
    ultimately show ?thesis using Nil by (subst find_last_free.simps) simp
  next
    case (snoc rs1 r)
    obtain k v where r: "r = (k, v)" by fastforce
    let ?pre = "pre @ enc rs1" and ?len = "length (rec_bytes k v)"
    have m: "mem s = ?pre @ rec_bytes k v @ tail" using "0.prems"(1) snoc r by simp
    have ok: "rec_ok (length (buffer_of I s)) (k, v)" using "0.prems"(2) snoc r by simp
    have a: "length pre \<le> length ?pre" "length ?pre + ?len < 2 ^ 64" using "0.prems"(3) snoc r by simp_all
    have e: "length pre + length (enc rs) + 8 * 0 = length ?pre + ?len" "length pre + length (enc rs) = length ?pre + ?len"
      using snoc r by simp_all
    from manifest_record [OF m ok a] obtain c d where
      c: "decr_addr (length ?pre + ?len) 1 (length pre) = (True, length ?pre + ?len - 8)"
      "read_cell I (length ?pre + ?len - 8) s = (Some c, s)" "deser_cell c = Some d" by blast
    have "\<not> is_free_cell c" using c(3) deser_free by auto
    moreover have "8 \<le> ?len" using rec_length [OF ok] by simp
    ultimately have "find_last_free I (length pre) (length ?pre + ?len) (length ?pre + ?len) s
        = (Some (length ?pre + ?len, length ?pre + ?len), s)"
      using c(1,2) by (subst find_last_free.simps) (simp add: cell_size_def)
    then show ?thesis unfolding e using snoc by simp
  qed
next
  case (Suc n)
  let ?a = "length pre + length (enc rs) + 8 * n"
  have m: "mem s = (pre @ enc rs @ replicate (8 * n) 0) @ replicate 8 0 @ tail"
    using Suc.prems(1) replicate_add [of "8 * n" 8 "0 :: byte"] by (simp add: add.commute)
  have d: "decr_addr (?a + 8 * 1) 1 (length pre) = (True, ?a)"
    using decr_addr_eq [of "length pre" ?a 1] Suc.prems(3) by simp
  have r: "read_cell I ?a s = (Some (replicate 8 0), s)" using read_at [OF m] by (simp add: add.assoc)
  have f: "is_free_cell (replicate 8 0)" by (simp add: is_free_cell_iff)
  have e: "length pre + length (enc rs) + 8 * Suc n = ?a + 8 * 1" by simp
  have "find_last_free I (length pre) (?a + 8 * 1) (?a + 8 * 1) s = find_last_free I (length pre) ?a ?a s"
    by (subst find_last_free.simps) (simp only: d r f prod.case option.case bool.case if_True)
  then show ?case unfolding e using Suc.IH [of "replicate 8 0 @ tail"] m Suc.prems by simp
qed

text \<open>What the walk over the records leaves: it has appended to the log, and unless the page is full the keys it has seen are current.\<close>

definition updated :: "byte list \<Rightarrow> (32 word \<times> byte list) list \<Rightarrow> nat \<Rightarrow> byte list \<Rightarrow> 's \<Rightarrow> ((status + nat) \<times> 's) option \<Rightarrow> bool" where
  "updated pre log m tail s out \<longleftrightarrow>
     (\<exists>res s' new m'. out = Some (res, s') \<and> extends pre log m tail (dom (vals s)) s new m' s' \<and> keys s' \<subseteq> keys s \<and>
       (res = Inl FULL \<or> res = Inr (length pre + length (enc (log @ new))) \<and>
         (\<forall>k \<in> dom (vals s) - keys s'. current (vals s) (log @ new) k)))"

lemma updatedI:
  assumes "out = Some (res, s')" "extends pre log m tail (dom (vals s)) s new m' s'" "keys s' \<subseteq> keys s"
    and "res = Inl FULL \<or> res = Inr (length pre + length (enc (log @ new))) \<and>
      (\<forall>k \<in> dom (vals s) - keys s'. current (vals s) (log @ new) k)"
  shows "updated pre log m tail s out"
  unfolding updated_def using assms by blast

lemma updated_frame:
  assumes "updated pre log m tail s1 out" "vals s1 = vals s" "length (buffer_of I s1) = length (buffer_of I s)" "keys s1 \<subseteq> keys s"
  shows "updated pre log m tail s out"
proof -
  obtain res s' new m' where out: "out = Some (res, s')"
    and ext: "extends pre log m tail (dom (vals s1)) s1 new m' s'" and ks: "keys s' \<subseteq> keys s1"
    and fin: "res = Inl FULL \<or> res = Inr (length pre + length (enc (log @ new))) \<and>
      (\<forall>x \<in> dom (vals s1) - keys s'. current (vals s1) (log @ new) x)"
    using assms(1) unfolding updated_def by blast
  show ?thesis
  proof (rule updatedI [OF out])
    show "extends pre log m tail (dom (vals s)) s new m' s'" using ext assms(2,3) by (simp add: extends_def)
    show "keys s' \<subseteq> keys s" using ks assms(4) by (rule subset_trans)
  qed (use fin assms(2) in simp)
qed

lemma updated_append:
  assumes "updated pre (log @ [(k, w)]) (m - length (rec_bytes k w)) tail s1 out" "length (rec_bytes k w) \<le> m"
    and "vals s k = Some w" "rec_ok B (k, w)" "vals s1 = vals s" "length (buffer_of I s1) = length (buffer_of I s)" "keys s1 \<subseteq> keys s"
  shows "updated pre log m tail s out"
proof -
  obtain res s' new m' where out: "out = Some (res, s')"
    and ext: "extends pre (log @ [(k, w)]) (m - length (rec_bytes k w)) tail (dom (vals s1)) s1 new m' s'"
    and ks: "keys s' \<subseteq> keys s1"
    and fin: "res = Inl FULL \<or> res = Inr (length pre + length (enc ((log @ [(k, w)]) @ new))) \<and>
      (\<forall>x \<in> dom (vals s1) - keys s'. current (vals s1) ((log @ [(k, w)]) @ new) x)"
    using assms(1) unfolding updated_def by blast
  have "extends pre log m tail (dom (vals s)) s ((k, w) # new) m' s'"
    using ext assms(2,3,5,6) rec_length [OF assms(4)] by (auto simp: extends_def)
  moreover have "keys s' \<subseteq> keys s" using ks assms(7) by blast
  moreover have "(log @ [(k, w)]) @ new = log @ (k, w) # new" by simp
  ultimately show ?thesis using updatedI [OF out, of pre log m tail s "(k, w) # new" m'] fin assms(5) by simp
qed

text \<open>One record: its key is not new any more, and when the value differs from that of the record it is stored.\<close>

definition outdated :: "'s \<Rightarrow> 32 word \<Rightarrow> byte list \<Rightarrow> bool" where
  "outdated s k v \<longleftrightarrow> k \<in> keys s \<and> \<not> is_prefix_of_with_zeros (the (vals s k)) (stored v)"

lemma not_outdated_current:
  assumes "vals_ok s" "k \<in> keys s" "\<not> outdated s k v" "k \<notin> fst ` set post"
  shows "current (vals s) (rs @ (k, v) # post) k"
proof -
  obtain w where w: "vals s k = Some w" using assms(1,2) by (auto simp: vals_ok_def)
  have "map_of (rev (rs @ (k, v) # post)) k = Some v"
    using assms(4) by (simp add: map_add_def map_of_eq_None_iff [THEN iffD2] split: option.split)
  then show ?thesis using w assms(2,3) by (auto simp: current_def outdated_def)
qed

lemma updated_full:
  assumes "log_at pre log m tail s3" "frame s3 s4" "vals s3 = vals s" "length (buffer_of I s3) = length (buffer_of I s)"
    "keys s4 \<subseteq> keys s"
  shows "updated pre log m tail s (Some (Inl FULL, s4))"
proof (rule updatedI [where new = "[]" and res = "Inl FULL" and s' = s4])
  show "extends pre log m tail (dom (vals s)) s [] m s4"
    using extends_refl [OF log_at_frame [OF assms(1)]] assms(2-4) by (simp add: frame_def)
qed (use assms(5) in simp_all)

lemma update_records_step:
  assumes m: "mem s = pre @ rec_bytes k v @ tail" and ok: "rec_ok (length (buffer_of I s)) (k, v)" and vals: "vals_ok s"
    and a: "start \<le> length pre" "length pre + length (rec_bytes k v) < 2 ^ 64"
  shows "\<exists>s'. mem s' = mem s \<and> keys s' = keys s - {k} \<and> vals s' = vals s \<and> length (buffer_of I s') = length (buffer_of I s) \<and>
    update_records I start e (length pre + length (rec_bytes k v)) lf s =
      (if outdated s k v
       then (case store_key I lf e k s' of
               None \<Rightarrow> None
             | Some (res, lf, s) \<Rightarrow> if res \<noteq> SUCCESS then Some (Inl res, s) else update_records I start e (length pre) lf s)
       else update_records I start e (length pre) lf s')"
proof -
  let ?stop = "length pre + length (rec_bytes k v)"
  let ?a = "?stop - 8"
  from manifest_record [OF m ok a] obtain c d where
    cell: "decr_addr ?stop 1 start = (True, ?a)" "read_cell I ?a s = (Some c, s)" "deser_cell c = Some d" "dr_key d = k"
    and behind: "(if is_seq d then snd (decr_addr ?a (unat (dr_val d)) start) else ?a) = length pre"
    and man: "\<forall>s1. mem s1 = mem s \<longrightarrow> buffer_of I s1 = buffer_of I s \<longrightarrow>
      (\<exists>s2. manifest_value I (is_seq d) (dr_val d) start ?a s1 = Some (stored v, length pre, s2) \<and> frame s1 s2)"
    by blast
  obtain s1 where s1: "check_key_cache I k s = (k \<notin> keys s, s1)" "mem s1 = mem s" "keys s1 = keys s - {k}"
    "vals s1 = vals s" "buffer_of I s1 = buffer_of I s" using check_law [of k s] by blast
  show ?thesis
  proof (cases "k \<in> keys s")
    case False
    then have chk: "check_key_cache I (dr_key d) s = (True, s1)" using s1(1) cell(4) by simp
    have "update_records I start e ?stop lf s = update_records I start e (length pre) lf s1"
      by (subst update_records.simps) (simp only: cell(1-3) chk behind prod.case option.case bool.case)
    then show ?thesis using False s1 by (intro exI [of _ s1]) (simp add: outdated_def)
  next
    case True
    then have chk: "check_key_cache I (dr_key d) s = (False, s1)" using s1(1) cell(4) by simp
    obtain s2 where s2: "manifest_value I (is_seq d) (dr_val d) start ?a s1 = Some (stored v, length pre, s2)" "frame s1 s2"
      using man s1(2,5) by blast
    obtain w where w: "vals s k = Some w" using vals True by (auto simp: vals_ok_def)
    obtain s3 where s3: "value_changed I k (stored v) s2 = (outdated s k v, s3)" "frame s2 s3"
      using changed_law [of k "stored v" s2] w True s1(4) s2(2) by (auto simp: frame_def outdated_def)
    have chg: "value_changed I (dr_key d) (stored v) s2 = (outdated s k v, s3)" using s3(1) cell(4) by simp
    have "update_records I start e ?stop lf s =
      (if outdated s k v
       then (case store_key I lf e (dr_key d) s3 of
               None \<Rightarrow> None
             | Some (res, lf, s) \<Rightarrow> if res \<noteq> SUCCESS then Some (Inl res, s) else update_records I start e (length pre) lf s)
       else update_records I start e (length pre) lf s3)"
      by (subst update_records.simps)
        (cases "outdated s k v"; simp only: cell(1-3) chk s2(1) chg prod.case option.case bool.case if_True if_False)
    then show ?thesis using cell(4) s1 s2(2) s3(2) by (intro exI [of _ s3]) (auto simp: frame_def)
  qed
qed

text \<open>
  The walk over the records.  \<open>rs\<close> are the ones still ahead, \<open>post\<close> those behind, with what the walk
  has appended: all keys of \<open>post\<close> have been seen, and the log is current for the keys that have.
\<close>

lemma update_records_eq:
  assumes "log_at pre (rs @ post) m tail s" "vals_ok s"
    "e = length pre + length (enc (rs @ post)) + m" "e < 2 ^ 64"
    "fst ` set post \<inter> keys s = {}" "\<forall>k \<in> dom (vals s) - keys s. current (vals s) (rs @ post) k"
  shows "updated pre (rs @ post) m tail s
    (update_records I (length pre) e (length pre + length (enc rs)) (length pre + length (enc (rs @ post))) s)"
  using assms
proof (induction rs arbitrary: post m s rule: rev_induct)
  case Nil
  obtain a where "decr_addr (length pre) 1 (length pre) = (False, a)"
    using decr_addr_start [of "length pre"] by (metis prod.collapse)
  then have "update_records I (length pre) e (length pre) (length pre + length (enc post)) s
      = Some (Inr (length pre + length (enc post)), s)" by (subst update_records.simps) simp
  moreover have "extends pre post m tail (dom (vals s)) s [] m s" using Nil(1) by (intro extends_refl) simp_all
  ultimately show ?case using Nil(6) by (intro updatedI [where new = "[]"]) auto
next
  case (snoc r rs)
  obtain k v where r: "r = (k, v)" by fastforce
  let ?pre = "pre @ enc rs" and ?log = "rs @ (k, v) # post"
  have log_eq: "(rs @ [r]) @ post = ?log" using r by simp
  note prems = snoc.prems [unfolded log_eq]
  have m: "mem s = ?pre @ rec_bytes k v @ enc post @ replicate m 0 @ tail" and
    ok: "rec_ok (length (buffer_of I s)) (k, v)" using prems(1) by (simp_all add: log_at_def)
  have a: "length pre \<le> length ?pre" "length ?pre + length (rec_bytes k v) < 2 ^ 64" using prems(3,4) by simp_all
  let ?lf = "length pre + length (enc ?log)"
  have stop: "length pre + length (enc (rs @ [r])) = length ?pre + length (rec_bytes k v)"
    "length pre + length (enc rs) = length ?pre" using r by simp_all
  obtain s3 where f3: "mem s3 = mem s" "keys s3 = keys s - {k}" "vals s3 = vals s" "length (buffer_of I s3) = length (buffer_of I s)"
    and step: "update_records I (length pre) e (length pre + length (enc (rs @ [r]))) ?lf s =
      (if outdated s k v
       then (case store_key I ?lf e k s3 of
               None \<Rightarrow> None
             | Some (res, lf, s) \<Rightarrow>
                 if res \<noteq> SUCCESS then Some (Inl res, s) else update_records I (length pre) e (length pre + length (enc rs)) lf s)
       else update_records I (length pre) e (length pre + length (enc rs)) ?lf s3)"
    using update_records_step [OF m ok prems(2) a, of e ?lf] unfolding stop by blast
  have sub: "keys s3 \<subseteq> keys s" using f3(2) by blast
  have ok3: "vals_ok s3" using prems(2) f3 by (auto simp: vals_ok_def)
  note log3 = log_at_frame [OF prems(1) f3(1,4)]
  have disj: "fst ` set ((k, v) # post) \<inter> keys s3 = {}" using prems(5) f3(2) by auto
  show ?case unfolding log_eq
  proof (cases "outdated s k v")
    case False
    have "current (vals s) ?log k" if "k \<in> keys s"
      using prems(5) that by (intro not_outdated_current [OF prems(2) that False]) auto
    then have "\<forall>x \<in> dom (vals s3) - keys s3. current (vals s3) ?log x" using prems(6) f3(2,3) by auto
    from updated_frame [OF snoc.IH [OF log3 ok3 prems(3,4) disj this] f3(3,4) sub]
    show "updated pre ?log m tail s (update_records I (length pre) e (length pre + length (enc (rs @ [r]))) ?lf s)"
      unfolding step using False by simp
  next
    case True
    then have k: "k \<in> keys s" by (simp add: outdated_def)
    obtain w where w: "vals s k = Some w" using prems(2) k by (auto simp: vals_ok_def)
    have okw: "rec_ok (length (buffer_of I s3)) (k, w)" using prems(2) w f3(4) by (simp add: vals_ok_def)
    have w3: "vals s3 k = Some w" using w f3(3) by simp
    have lim: "?lf + m \<le> e" using prems(3) by simp
    note store = store_record [OF log3 w3 okw lim prems(4)]
    show "updated pre ?log m tail s (update_records I (length pre) e (length pre + length (enc (rs @ [r]))) ?lf s)"
    proof (cases "length (rec_bytes k w) \<le> m")
      case fits: True
      from store(1) [OF this] obtain s4 where s4:
        "store_key I ?lf e k s3 = Some (SUCCESS, length pre + length (enc (?log @ [(k, w)])), s4)"
        "log_at pre (?log @ [(k, w)]) (m - length (rec_bytes k w)) tail s4" "keys s4 = keys s3" "vals s4 = vals s3"
        "length (buffer_of I s4) = length (buffer_of I s3)" by blast
      let ?post = "((k, v) # post) @ [(k, w)]"
      have ok4: "vals_ok s4" using ok3 s4(3-5) by (simp add: vals_ok_def)
      have e4: "e = length pre + length (enc (rs @ ?post)) + (m - length (rec_bytes k w))" using prems(3) fits by simp
      have disj4: "fst ` set ?post \<inter> keys s4 = {}" using disj s4(3) f3(2) by auto
      have "current (vals s) (?log @ [(k, w)]) x" if "x \<in> dom (vals s) - keys s3" for x
        using that prems(6) f3(2) current_snoc [of "vals s" k w ?log, OF w] current_append [of x "[(k, w)]" "vals s" ?log]
        by (cases "x = k") auto
      then have "\<forall>x \<in> dom (vals s4) - keys s4. current (vals s4) (rs @ ?post) x" using f3(3) s4(3,4) by simp
      from snoc.IH [OF _ ok4 e4 prems(4) disj4 this] s4(2)
      have "updated pre (?log @ [(k, w)]) (m - length (rec_bytes k w)) tail s4
        (update_records I (length pre) e (length pre + length (enc rs)) (length pre + length (enc (?log @ [(k, w)]))) s4)" by simp
      from updated_append [OF this fits w okw] f3 sub s4(3-5) show ?thesis unfolding step using True s4(1) by simp
    next
      case False
      then have "m < length (rec_bytes k w)" by simp
      from store(2) [OF this prems(3)] obtain b s4 where s4: "store_key I ?lf e k s3 = Some (FULL, b, s4)" "frame s3 s4" by blast
      have "updated pre ?log m tail s (Some (Inl FULL, s4))"
        using s4(2) f3 sub by (intro updated_full [OF log3]) (simp_all add: frame_def)
      then show ?thesis unfolding step using True s4(1) by simp
    qed
  qed
qed

lemma update_stored_eq:
  assumes log: "log_at pre rs (8 * n) tail s" and vals: "vals_ok s" and keys: "keys s = dom (vals s)"
    and fin: "finite (dom (vals s))" and lim: "length pre + length (enc rs) + 8 * n < 2 ^ 64"
  shows "\<exists>st s' rs' m'. update_stored_config (length pre) (length pre + length (enc rs) + 8 * n) I s = Some (st, s') \<and>
    (st = SUCCESS \<or> st = FULL) \<and> extends pre rs (8 * n) tail (dom (vals s)) s rs' m' s' \<and>
    (st = SUCCESS \<longrightarrow> (\<forall>k \<in> dom (vals s). current (vals s) (rs @ rs') k))"
proof -
  let ?lf = "length pre + length (enc rs)" and ?e = "length pre + length (enc rs) + 8 * n"
  have mem: "mem s = pre @ enc rs @ replicate (8 * n) 0 @ tail" and oks: "\<forall>r \<in> set rs. rec_ok (length (buffer_of I s)) r"
    using log by (simp_all add: log_at_def)
  obtain a where a: "find_last_free I (length pre) ?e ?e s = (Some (a, ?lf), s)"
    "if rs = [] then a \<le> length pre else a = ?lf" using find_last_free_eq [OF mem oks lim] by blast
  have "\<exists>res s1 new m1. update_records I (length pre) ?e a ?lf s = Some (res, s1) \<and>
      extends pre rs (8 * n) tail (dom (vals s)) s new m1 s1 \<and> keys s1 \<subseteq> keys s \<and>
      (res = Inl FULL \<or> res = Inr (length pre + length (enc (rs @ new))) \<and>
        (\<forall>k \<in> dom (vals s) - keys s1. current (vals s) (rs @ new) k))"
  proof (cases "rs = []")
    case True
    obtain b where "decr_addr a 1 (length pre) = (False, b)"
      using decr_addr_below [of a "length pre"] a(2) True by (metis prod.collapse)
    then have "update_records I (length pre) ?e a ?lf s = Some (Inr ?lf, s)" by (subst update_records.simps) simp
    moreover have "extends pre rs (8 * n) tail (dom (vals s)) s [] (8 * n) s" using log by (intro extends_refl) simp_all
    ultimately show ?thesis using keys
      by (intro exI [of _ "Inr ?lf"] exI [of _ s] exI [of _ "[]"] exI [of _ "8 * n"]) auto
  next
    case False
    have "log_at pre (rs @ []) (8 * n) tail s" "?e = length pre + length (enc (rs @ [])) + 8 * n" using log by simp_all
    from update_records_eq [OF this(1) vals this(2) lim] keys show ?thesis
      using a(2) False by (simp add: updated_def)
  qed
  then obtain res s1 new m1 where ur: "update_records I (length pre) ?e a ?lf s = Some (res, s1)"
    and ext: "extends pre rs (8 * n) tail (dom (vals s)) s new m1 s1" and k1: "keys s1 \<subseteq> keys s"
    and res: "res = Inl FULL \<or> res = Inr (length pre + length (enc (rs @ new))) \<and>
      (\<forall>k \<in> dom (vals s) - keys s1. current (vals s) (rs @ new) k)" by blast
  show ?thesis
  proof (cases "res = Inl FULL")
    case True
    then have "update_stored_config (length pre) ?e I s = Some (FULL, s1)"
      using a(1) ur by (simp add: update_stored_config_def)
    then show ?thesis using ext by blast
  next
    case False
    with res have r: "res = Inr (length pre + length (enc (rs @ new)))"
      and cur: "\<forall>k \<in> dom (vals s) - keys s1. current (vals s) (rs @ new) k" by auto
    have s1: "log_at pre (rs @ new) m1 tail s1" "length (enc (rs @ new)) + m1 = length (enc rs) + 8 * n" "8 dvd m1"
      "vals s1 = vals s" "length (buffer_of I s1) = length (buffer_of I s)" using ext by (auto simp: extends_def)
    have ok1: "vals_ok s1" using vals k1 keys s1(4,5) by (auto simp: vals_ok_def)
    have fin1: "finite (keys s1)" using fin k1 keys by (auto intro: finite_subset)
    have e: "?e = length pre + length (enc (rs @ new)) + m1" using s1(2) by simp
    from dump_eq [OF s1(1) ok1 fin1 _ lim disjI1 [OF e], unfolded dumped_def] e obtain st s2 rs2 m2 where
      d: "dump_unseen_keys I (length pre + length (enc (rs @ new))) ?e s1 = Some (st, s2)" "st = SUCCESS \<or> st = FULL"
      and ext2: "extends pre (rs @ new) m1 tail (keys s1) s1 rs2 m2 s2"
      and cur2: "st = SUCCESS \<longrightarrow> (\<forall>k \<in> keys s1. current (vals s1) ((rs @ new) @ rs2) k)" by auto
    have "extends pre rs (8 * n) tail (dom (vals s)) s (new @ rs2) m2 s2"
      using ext ext2 k1 keys by (auto simp: extends_def)
    moreover have "current (vals s) (rs @ new @ rs2) k" if "st = SUCCESS" "k \<in> dom (vals s)" for k
    proof (cases "k \<in> keys s1")
      case True
      then show ?thesis using cur2 that(1) s1(4) by simp
    next
      case out: False
      then have "k \<notin> fst ` set rs2" using ext2 by (auto simp: extends_def)
      then show ?thesis using cur out that(2) current_append [of k rs2 "vals s" "rs @ new"] by simp
    qed
    moreover have "update_stored_config (length pre) ?e I s = Some (st, s2)"
      using a(1) ur r d(1) by (simp add: update_stored_config_def)
    ultimately show ?thesis using d(2) by blast
  qed
qed

end

end
