(* ===== verification/CfgPages.thy ===== *)
theory CfgPages
  imports CfgUpdate
begin

text \<open>
  The pages of \<open>experimental/cfg/handler.hpp\<close>: which one is the current one and which one comes next,
  and the whole of \<open>update\<close> and \<open>load\<close> over a memory of pages.
\<close>

section \<open>The ring of pages\<close>

text \<open>The two loops over the states of the headers, without the reading.\<close>

fun current_from :: "hdr_state option \<Rightarrow> hdr_state option list \<Rightarrow> nat \<Rightarrow> nat option" where
  "current_from hst [] i = (if hst = None then None else Some (i - 1))"
| "current_from hst (x # xs) i =
     (case x of
        None \<Rightarrow> (if hst \<noteq> None then Some (i - 1) else current_from hst xs (i + 1))
      | Some st \<Rightarrow> (case hst of
            None \<Rightarrow> current_from (Some st) xs (i + 1)
          | Some h \<Rightarrow> if h \<noteq> st then Some (i - 1) else current_from hst xs (i + 1)))"

fun next_from :: "hdr_state option \<Rightarrow> hdr_state option list \<Rightarrow> nat \<Rightarrow> (nat \<times> hdr_state) option" where
  "next_from hst [] i = (case hst of None \<Rightarrow> None | Some h \<Rightarrow> Some (0, next_state h))"
| "next_from hst (x # xs) i =
     (case x of
        None \<Rightarrow> Some (i, StA)
      | Some st \<Rightarrow> (case hst of
            None \<Rightarrow> next_from (Some st) xs (i + 1)
          | Some h \<Rightarrow> if h \<noteq> st then Some (i, h) else next_from hst xs (i + 1)))"

text \<open>
  The states that come to be: the pages of this round in front of those of the previous one, or of
  pages that have not been used yet.
\<close>

definition ring :: "hdr_state option list \<Rightarrow> bool" where
  "ring hs \<longleftrightarrow> (\<forall>h \<in> set hs. h = None) \<or>
     (\<exists>st k m x. 0 < k \<and> hs = replicate k (Some st) @ replicate m x \<and>
       (m = 0 \<or> x = None \<and> st = StA \<or> (\<exists>old. x = Some old \<and> next_state old = st)))"

lemma next_state_neq: "next_state h \<noteq> h"
  by (cases h) simp_all

lemma current_run: "current_from (Some st) (replicate k (Some st) @ xs) i = current_from (Some st) xs (i + k)"
  by (induction k arbitrary: i) simp_all

lemma next_run: "next_from (Some st) (replicate k (Some st) @ xs) i = next_from (Some st) xs (i + k)"
  by (induction k arbitrary: i) simp_all

lemma current_shape:
  assumes "0 < k" "m = 0 \<or> x \<noteq> Some st"
  shows "current_from None (replicate k (Some st) @ replicate m x) 0 = Some (k - 1)"
proof -
  obtain k' where k: "k = Suc k'" using assms(1) by (cases k) auto
  have "current_from (Some st) (replicate k' (Some st)) 1 = Some k'" using current_run [of st k' "[]" 1] by simp
  then show ?thesis using assms(2) by (cases m; cases x) (auto simp: k current_run)
qed

lemma next_shape:
  assumes "0 < k"
  shows "next_from None (replicate k (Some st) @ replicate m x) 0 =
    (if m = 0 then Some (0, next_state st) else case x of None \<Rightarrow> Some (k, StA)
     | Some old \<Rightarrow> if old = st then Some (0, next_state st) else Some (k, st))"
proof -
  obtain k' where k: "k = Suc k'" using assms(1) by (cases k) auto
  have all: "next_from (Some st) (replicate m (Some st)) i = Some (0, next_state st)" for i
    using next_run [of st m "[]" i] by simp
  have "next_from (Some st) (replicate k' (Some st)) 1 = Some (0, next_state st)"
    using next_run [of st k' "[]" 1] by simp
  then show ?thesis using all by (cases m; cases x) (auto simp: k next_run)
qed

lemma current_empty: "\<forall>h \<in> set hs. h = None \<Longrightarrow> current_from None hs i = None"
  by (induction hs arbitrary: i) auto

text \<open>The next page is in the ring, and once it has its state it is the current one.\<close>

lemma ring_next:
  assumes "ring hs" "hs \<noteq> []"
  shows "\<exists>j st. next_from None hs 0 = Some (j, st) \<and> j < length hs \<and> ring (hs [j := Some st]) \<and>
    current_from None (hs [j := Some st]) 0 = Some j"
proof (cases "\<forall>h \<in> set hs. h = None")
  case True
  then obtain n where hs: "hs = replicate (Suc n) None" using assms(2) by (metis Suc_pred length_greater_0_conv replicate_eqI)
  have u: "hs [0 := Some StA] = replicate 1 (Some StA) @ replicate n None" by (simp add: hs)
  have "ring (hs [0 := Some StA])" unfolding ring_def u by blast
  moreover have "current_from None (hs [0 := Some StA]) 0 = Some 0" unfolding u by (subst current_shape) simp_all
  ultimately show ?thesis by (simp add: hs)
next
  case False
  then obtain st k m x where k: "0 < k" and hs: "hs = replicate k (Some st) @ replicate m x"
    and x: "m = 0 \<or> x = None \<and> st = StA \<or> (\<exists>old. x = Some old \<and> next_state old = st)"
    using assms(1) unfolding ring_def by blast
  show ?thesis
  proof (cases "m = 0")
    case True
    obtain k' where k': "k = Suc k'" using k by (cases k) auto
    have u: "hs [0 := Some (next_state st)] = replicate 1 (Some (next_state st)) @ replicate k' (Some st)"
      by (simp add: hs True k')
    have "ring (hs [0 := Some (next_state st)])" unfolding ring_def u by blast
    moreover have "current_from None (hs [0 := Some (next_state st)]) 0 = Some 0"
      unfolding u by (subst current_shape) (use next_state_neq [of st] in auto)
    ultimately show ?thesis using next_shape [OF k, of st m x] True k hs by auto
  next
    case m: False
    then obtain m' where m': "m = Suc m'" by (cases m) auto
    have ne: "x \<noteq> Some st" using x m next_state_neq by auto
    have u: "hs [k := Some st] = replicate (Suc k) (Some st) @ replicate m' x"
      by (simp add: hs m' list_update_append replicate_app_Cons_same)
    have "ring (hs [k := Some st])" unfolding ring_def u using x m by blast
    moreover have "current_from None (hs [k := Some st]) 0 = Some k"
      unfolding u by (subst current_shape) (use ne in auto)
    moreover have "next_from None hs 0 = Some (k, st)"
      using next_shape [OF k, of st m x] m x ne unfolding hs by (auto split: option.splits)
    ultimately show ?thesis using m hs by auto
  qed
qed

lemma ring_current:
  assumes "ring hs"
  shows "(current_from None hs 0 = None \<longleftrightarrow> (\<forall>h \<in> set hs. h = None)) \<and>
    (\<forall>j. current_from None hs 0 = Some j \<longrightarrow> j < length hs \<and> hs ! j \<noteq> None)"
proof (cases "\<forall>h \<in> set hs. h = None")
  case True
  then show ?thesis by (simp add: current_empty)
next
  case False
  then obtain st k m x where k: "0 < k" and hs: "hs = replicate k (Some st) @ replicate m x"
    and x: "m = 0 \<or> x = None \<and> st = StA \<or> (\<exists>old. x = Some old \<and> next_state old = st)"
    using assms unfolding ring_def by blast
  have "m = 0 \<or> x \<noteq> Some st" using x next_state_neq by auto
  from current_shape [OF k this] show ?thesis using k hs False by (auto simp: nth_append)
qed

section \<open>Pages in memory\<close>

lemma concat_split: "i < length ps \<Longrightarrow> concat ps = concat (take i ps) @ ps ! i @ concat (drop (Suc i) ps)"
  by (metis concat.simps(2) concat_append id_take_nth_drop)

lemma length_concat_pages: "\<forall>p \<in> set ps. length p = psize \<Longrightarrow> length (concat ps) = length ps * psize"
  by (induction ps) auto

definition header_of :: "byte list \<Rightarrow> hdr_state option" where
  "header_of p = hdr_to_hdr_state (take 8 p)"

definition pages_in :: "nat \<Rightarrow> byte list list \<Rightarrow> byte list \<Rightarrow> bool" where
  "pages_in psize ps m \<longleftrightarrow> m = concat ps \<and> (\<forall>p \<in> set ps. length p = psize) \<and> 8 < psize \<and> length m + 8 < 2 ^ 64"

lemma pages_before: "pages_in psize ps m \<Longrightarrow> i < length ps \<Longrightarrow> length (concat (take i ps)) = i * psize"
  using length_concat_pages [of "take i ps" psize] by (auto simp: pages_in_def dest: in_set_takeD)

lemma pages_size: "pages_in psize ps m \<Longrightarrow> length m = length ps * psize"
  using length_concat_pages [of ps psize] by (auto simp: pages_in_def)

context cfg_memory
begin

lemma read_header:
  assumes "pages_in psize ps (mem s)" "i < length ps"
  shows "read_cell I (i * psize) s = (Some (take 8 (ps ! i)), s)"
proof -
  have p: "length (ps ! i) = psize" "8 < psize" using assms by (auto simp: pages_in_def)
  have "mem s = concat (take i ps) @ take 8 (ps ! i) @ (drop 8 (ps ! i) @ concat (drop (Suc i) ps))"
    using concat_split [OF assms(2)] assms(1) by (simp add: pages_in_def)
  from read_at [OF this] show ?thesis using p pages_before [OF assms] by simp
qed

lemma current_loop_eq:
  assumes "pages_in psize ps (mem s)" "i \<le> length ps" "i = 0 \<longrightarrow> hst = None"
  shows "locate_current_loop I (length ps * psize) psize hst [i..<length ps] s =
    ((case current_from hst (map header_of (drop i ps)) i of None \<Rightarrow> (MISSING_PAGE, 0) | Some j \<Rightarrow> (SUCCESS, j * psize)), s)"
  using assms(2,3)
proof (induction "length ps - i" arbitrary: i hst)
  case 0
  then have "i = length ps" by simp
  then show ?case by (cases hst) (simp_all add: diff_mult_distrib)
next
  case (Suc n)
  then have i: "i < length ps" by simp
  have up: "[i..<length ps] = i # [Suc i..<length ps]" using i by (rule upt_conv_Cons)
  have dr: "drop i ps = ps ! i # drop (Suc i) ps" using i by (simp add: Cons_nth_drop_Suc)
  have IH: "locate_current_loop I (length ps * psize) psize h [Suc i..<length ps] s =
    ((case current_from h (map header_of (drop (Suc i) ps)) (Suc i) of None \<Rightarrow> (MISSING_PAGE, 0) | Some j \<Rightarrow> (SUCCESS, j * psize)), s)" for h
    using Suc.hyps(1) [of "Suc i" h] Suc.hyps(2) i by simp
  show ?case using IH Suc.prems(2) unfolding up dr
    by (cases "header_of (ps ! i)"; cases hst)
      (auto simp: read_header [OF assms(1) i] header_of_def diff_mult_distrib)
qed

lemma next_loop_eq:
  assumes "pages_in psize ps (mem s)" "i \<le> length ps"
  shows "locate_next_loop I psize hst [i..<length ps] s =
    ((case next_from hst (map header_of (drop i ps)) i of None \<Rightarrow> (LOCATE_FAILED_ERROR, 0, StA)
      | Some (j, st) \<Rightarrow> (SUCCESS, j * psize, st)), s)"
  using assms(2)
proof (induction "length ps - i" arbitrary: i hst)
  case 0
  then have "i = length ps" by simp
  then show ?case by (cases hst) simp_all
next
  case (Suc n)
  then have i: "i < length ps" by simp
  have up: "[i..<length ps] = i # [Suc i..<length ps]" using i by (rule upt_conv_Cons)
  have dr: "drop i ps = ps ! i # drop (Suc i) ps" using i by (simp add: Cons_nth_drop_Suc)
  have IH: "locate_next_loop I psize h [Suc i..<length ps] s =
    ((case next_from h (map header_of (drop (Suc i) ps)) (Suc i) of None \<Rightarrow> (LOCATE_FAILED_ERROR, 0, StA)
      | Some (j, st) \<Rightarrow> (SUCCESS, j * psize, st)), s)" for h
    using Suc.hyps(1) [of "Suc i" h] Suc.hyps(2) i by simp
  show ?case using IH unfolding up dr
    by (cases "header_of (ps ! i)"; cases hst) (auto simp: read_header [OF assms(1) i] header_of_def)
qed

lemma locate_current_eq:
  assumes "pages_in psize ps (mem s)"
  shows "locate_current_page (length (mem s)) psize I s = Some
    ((case current_from None (map header_of ps) 0 of None \<Rightarrow> (MISSING_PAGE, 0) | Some j \<Rightarrow> (SUCCESS, j * psize)), s)"
  using current_loop_eq [OF assms, of 0 None] pages_size [OF assms] assms
  by (simp add: locate_current_page_def pages_in_def)

lemma locate_next_eq:
  assumes "pages_in psize ps (mem s)"
  shows "locate_next_page (length (mem s)) psize I s = Some
    ((case next_from None (map header_of ps) 0 of None \<Rightarrow> (LOCATE_FAILED_ERROR, 0, StA)
      | Some (j, st) \<Rightarrow> (SUCCESS, j * psize, st)), s)"
  using next_loop_eq [OF assms, of 0 None] pages_size [OF assms] assms
  by (simp add: locate_next_page_def pages_in_def)

end

section \<open>Update and load\<close>

text \<open>A memory of pages whose current one has the log \<open>rs\<close>; without a current page the log is empty.\<close>

definition config_holds :: "nat \<Rightarrow> nat \<Rightarrow> byte list \<Rightarrow> (32 word \<times> byte list) list \<Rightarrow> bool" where
  "config_holds psize B m rs \<longleftrightarrow> (\<forall>r \<in> set rs. rec_ok B r) \<and> 8 dvd psize \<and>
     (\<exists>ps. pages_in psize ps m \<and> ps \<noteq> [] \<and> ring (map header_of ps) \<and>
       (case current_from None (map header_of ps) 0 of
          None \<Rightarrow> rs = []
        | Some c \<Rightarrow> \<exists>h n. ps ! c = h @ enc rs @ replicate (8 * n) 0 \<and> length h = 8))"

lemma concat_update: "j < length ps \<Longrightarrow> concat (ps [j := p]) = concat (take j ps) @ p @ concat (drop (Suc j) ps)"
  by (simp add: upd_conv_take_nth_drop)

lemma pages_update:
  assumes "pages_in psize ps m" "j < length ps" "length p = psize"
  shows "pages_in psize (ps [j := p]) (concat (take j ps) @ p @ concat (drop (Suc j) ps))"
proof -
  have "length (concat (ps [j := p])) = length (concat ps)"
    using concat_update [OF assms(2), of p] concat_split [OF assms(2)] assms by (simp add: pages_in_def)
  moreover have "\<forall>q \<in> set (ps [j := p]). length q = psize"
    using assms by (auto simp: pages_in_def dest!: set_update_subset_insert [THEN subsetD])
  ultimately show ?thesis using assms(1) concat_update [OF assms(2), of p] unfolding pages_in_def by auto
qed

text \<open>The page of a header and a log.\<close>

lemma config_page:
  assumes ps: "pages_in psize ps m" "j < length ps" "8 dvd psize" and ring: "ring ((map header_of ps) [j := header_of (h @ enc rs @ replicate n 0)])"
    and cur: "current_from None ((map header_of ps) [j := header_of (h @ enc rs @ replicate n 0)]) 0 = Some j"
    and p: "length h = 8" "8 dvd n" "8 + length (enc rs) + n = psize" and ok: "\<forall>r \<in> set rs. rec_ok B r"
  shows "config_holds psize B (concat (take j ps) @ (h @ enc rs @ replicate n 0) @ concat (drop (Suc j) ps)) rs"
proof -
  let ?p = "h @ enc rs @ replicate n 0"
  have "pages_in psize (ps [j := ?p]) (concat (take j ps) @ ?p @ concat (drop (Suc j) ps))"
    using pages_update [OF ps(1,2), of ?p] p by simp
  moreover have "map header_of (ps [j := ?p]) = (map header_of ps) [j := header_of ?p]" by (simp add: map_update)
  moreover have "ps [j := ?p] \<noteq> []" using ps(2) by auto
  moreover obtain i where "n = 8 * i" using p(2) by blast
  ultimately show ?thesis using ring cur ok ps(2,3) p(1) unfolding config_holds_def
    by (intro conjI exI [of _ "ps [j := ?p]"]) auto
qed

context cfg_updating
begin

lemma update_new_page_eq:
  assumes ps: "pages_in psize ps (mem s)" "ps \<noteq> []" "8 dvd psize" and ring: "ring (map header_of ps)"
    and vals: "\<forall>k v. vals s k = Some v \<longrightarrow> rec_ok (length (buffer_of I s)) (k, v)"
    and fin: "finite (dom (vals s))" and tot: "total (vals s) (dom (vals s)) \<le> psize - 8"
  shows "\<exists>s' rs. update_new_page (length (mem s)) psize I s = Some (SUCCESS, s') \<and>
    config_holds psize (length (buffer_of I s)) (mem s') rs \<and> vals s' = vals s \<and> length (mem s') = length (mem s) \<and>
    length (buffer_of I s') = length (buffer_of I s) \<and> (\<forall>k \<in> dom (vals s). current (vals s) rs k)"
proof -
  obtain j st where j: "next_from None (map header_of ps) 0 = Some (j, st)" "j < length ps"
    and ring': "ring ((map header_of ps) [j := Some st])" "current_from None ((map header_of ps) [j := Some st]) 0 = Some j"
    using ring_next [OF ring] ps(2) by auto
  let ?a = "j * psize" and ?pre = "concat (take j ps)" and ?post = "concat (drop (Suc j) ps)"
  have loc: "locate_next_page (length (mem s)) psize I s = Some ((SUCCESS, ?a, st), s)"
    using locate_next_eq [OF ps(1)] j(1) by simp
  have pre: "length ?pre = ?a" by (rule pages_before [OF ps(1) j(2)])
  have p8: "8 < psize" "length (mem s) + 8 < 2 ^ 64" using ps(1) by (auto simp: pages_in_def)
  have mem: "mem s = ?pre @ ps ! j @ ?post" and pj: "length (ps ! j) = psize"
    using concat_split [OF j(2)] ps(1) j(2) by (auto simp: pages_in_def)
  then have room: "?a + psize \<le> length (mem s)" using pre by simp
  obtain s1 where s1: "reset_keys I s = (True, s1)" "mem s1 = mem s" "keys s1 = dom (vals s)" "vals s1 = vals s"
    "buffer_of I s1 = buffer_of I s" using reset_law [of s] by blast
  obtain s2 where s2: "clear_page I ?a s1 = (True, s2)" "mem s2 = splice ?a (replicate psize 0) (mem s1)"
    "keys s2 = keys s1" "vals s2 = vals s1" "buffer_of I s2 = buffer_of I s1"
    using clear_law [of ?a s1] room s1(2) by auto
  have mem2: "mem s2 = ?pre @ replicate psize 0 @ ?post" using s2(2) s1(2) mem pre pj by (simp add: splice_def)
  have hl: "length (get_hdr st) = 2" by (simp add: get_hdr_def)
  then have "?a + length (get_hdr st) \<le> length (mem s2)" using mem2 pre p8(1) by simp
  from write_law [OF this] obtain s3 where s3: "write_mem I ?a (get_hdr st) s2 = (True, s3)"
    "mem s3 = splice ?a (get_hdr st) (mem s2)" "keys s3 = keys s2" "vals s3 = vals s2" "buffer_of I s3 = buffer_of I s2" by blast
  let ?h = "get_hdr st @ replicate 6 0" and ?m = "psize - 8"
  have z: "psize - 2 = 6 + ?m" using p8(1) by simp
  have "mem s3 = ?pre @ get_hdr st @ replicate (psize - 2) 0 @ ?post"
    using s3(2) hl p8(1) splice_free [of "get_hdr st" psize ?pre ?post] pre unfolding mem2 by simp
  also have "\<dots> = ?pre @ get_hdr st @ (replicate 6 0 @ replicate ?m 0) @ ?post" unfolding z replicate_add ..
  finally have mem3: "mem s3 = (?pre @ ?h) @ enc [] @ replicate ?m 0 @ ?post" by simp
  then have log: "log_at (?pre @ ?h) [] ?m ?post s3" by (simp add: log_at_def)
  have v3: "vals s3 = vals s" "keys s3 = dom (vals s)" "buffer_of I s3 = buffer_of I s"
    using s1 s2 s3 by simp_all
  have ok3: "vals_ok s3" using vals v3 by (simp add: vals_ok_def)
  have la: "length (?pre @ ?h) = ?a + 8" using pre hl by simp
  have lim: "length (?pre @ ?h) + length (enc []) + ?m \<le> ?a + 8 + psize" "?a + 8 + psize < 2 ^ 64"
    using la p8 room by simp_all
  have fin3: "finite (keys s3)" using fin v3 by simp
  have tot3: "total (vals s3) (keys s3) \<le> ?m" using tot v3 by simp
  from dump_eq [OF log ok3 fin3 lim disjI2 [OF tot3], unfolded dumped_def] tot3 obtain s4 rs m' where
    d: "dump_unseen_keys I (length (?pre @ ?h) + length (enc [])) (?a + 8 + psize) s3 = Some (SUCCESS, s4)"
    and ext: "extends (?pre @ ?h) [] ?m ?post (keys s3) s3 rs m' s4"
    and cur: "\<forall>k \<in> keys s3. current (vals s3) ([] @ rs) k" by blast
  have d': "dump_unseen_keys I (?a + 8) (?a + 8 + psize) s3 = Some (SUCCESS, s4)"
    using d unfolding la enc_simps(1) list.size(3) add_0_right .
  have upd: "update_new_page (length (mem s)) psize I s = Some (SUCCESS, s4)"
    using loc s1(1) s2(1) s3(1) d' by (simp add: update_new_page_def cell_size_def Let_def)
  have e: "mem s4 = ?pre @ (?h @ enc rs @ replicate m' 0) @ ?post" "length (enc rs) + m' = ?m" "8 dvd ?m \<longrightarrow> 8 dvd m'"
    "\<forall>r \<in> set rs. rec_ok (length (buffer_of I s4)) r" "vals s4 = vals s" "length (buffer_of I s4) = length (buffer_of I s)"
    using ext v3 unfolding extends_def log_at_def by auto
  have hd: "header_of (?h @ enc rs @ replicate m' 0) = Some st"
    using hdr_round_trip [of st "replicate 6 0"] hl by (simp add: header_of_def)
  have "8 dvd ?m" using ps(3) by (simp add: dvd_diff_nat)
  then have "config_holds psize (length (buffer_of I s)) (mem s4) rs"
    unfolding e(1) using e hd ring' p8(1) hl
    by (intro config_page [OF ps(1) j(2) ps(3)]) (simp_all only: hd, auto)
  moreover have "length (mem s4) = length (mem s)" using e(1,2) mem pj hl p8(1) by simp
  ultimately show ?thesis using upd e(5,6) cur v3 by auto
qed

text \<open>What the attempt to store in the current page leaves: the page with a longer log.\<close>

lemma update_stored_page:
  assumes ps: "pages_in psize ps (mem s)" and c: "c < length ps"
    and page: "ps ! c = h @ enc rs @ replicate (8 * n) 0" "length h = 8"
    and ok: "\<forall>r \<in> set rs. rec_ok (length (buffer_of I s)) r" and vals: "vals_ok s"
    and keys: "keys s = dom (vals s)" and fin: "finite (dom (vals s))"
  shows "\<exists>st s1 rs1 m1. update_stored_config (c * psize + cell_size) (c * psize + psize) I s = Some (st, s1) \<and>
    (st = SUCCESS \<or> st = FULL) \<and>
    mem s1 = concat (take c ps) @ (h @ enc (rs @ rs1) @ replicate m1 0) @ concat (drop (Suc c) ps) \<and>
    (\<forall>r \<in> set (rs @ rs1). rec_ok (length (buffer_of I s)) r) \<and> 8 + length (enc (rs @ rs1)) + m1 = psize \<and> 8 dvd m1 \<and>
    vals s1 = vals s \<and> length (buffer_of I s1) = length (buffer_of I s) \<and> length (mem s1) = length (mem s) \<and>
    (st = SUCCESS \<longrightarrow> (\<forall>k \<in> dom (vals s). current (vals s) (rs @ rs1) k))"
proof -
  let ?pre = "concat (take c ps)" and ?post = "concat (drop (Suc c) ps)" and ?a = "c * psize"
  have pre: "length ?pre = ?a" by (rule pages_before [OF ps c])
  have mem: "mem s = ?pre @ ps ! c @ ?post" and pc: "length (ps ! c) = psize"
    using concat_split [OF c] ps c by (auto simp: pages_in_def)
  have size: "8 + length (enc rs) + 8 * n = psize" using pc page by simp
  have log: "log_at (?pre @ h) rs (8 * n) ?post s" using mem page ok by (simp add: log_at_def)
  have len: "length (?pre @ h) = ?a + cell_size" using pre page(2) by (simp add: cell_size_def)
  have e: "length (?pre @ h) + length (enc rs) + 8 * n = ?a + psize" using pre page(2) size by simp
  have "length (mem s) + 8 < 2 ^ 64" using ps by (auto simp: pages_in_def)
  then have "?a + psize < 2 ^ 64" using mem pre pc by simp
  then have lim: "length (?pre @ h) + length (enc rs) + 8 * n < 2 ^ 64" unfolding e .
  from update_stored_eq [OF log vals keys fin lim] obtain st s1 rs1 m1 where
    upd: "update_stored_config (?a + cell_size) (?a + psize) I s = Some (st, s1)" "st = SUCCESS \<or> st = FULL"
    and ext: "extends (?pre @ h) rs (8 * n) ?post (dom (vals s)) s rs1 m1 s1"
    and cur: "st = SUCCESS \<longrightarrow> (\<forall>k \<in> dom (vals s). current (vals s) (rs @ rs1) k)"
    unfolding e unfolding len by blast
  have s1: "mem s1 = ?pre @ (h @ enc (rs @ rs1) @ replicate m1 0) @ ?post"
    "\<forall>r \<in> set (rs @ rs1). rec_ok (length (buffer_of I s)) r"
    "length (enc (rs @ rs1)) + m1 = length (enc rs) + 8 * n" "8 dvd m1" "vals s1 = vals s"
    "length (buffer_of I s1) = length (buffer_of I s)"
    using ext unfolding extends_def log_at_def by auto
  have full: "8 + length (enc (rs @ rs1)) + m1 = psize" using s1(3) size by simp
  then have "length (h @ enc (rs @ rs1) @ replicate m1 0) = length (ps ! c)" using pc page(2) by simp
  then have "length (mem s1) = length (mem s)" unfolding s1(1) mem by (simp only: length_append)
  then show ?thesis using upd cur s1 full by blast
qed

text \<open>
  The whole of \<open>update\<close>: when the values fit in a page it succeeds, in the current page or in the next
  one, and the log then has all values.
\<close>

lemma update_config_eq:
  assumes holds: "config_holds psize (length (buffer_of I s)) (mem s) rs" and vals: "vals_ok s"
    and keys: "keys s = dom (vals s)" and fin: "finite (dom (vals s))" and tot: "total (vals s) (dom (vals s)) \<le> psize - 8"
  shows "\<exists>s' rs'. update_config (length (mem s)) psize I s = Some (SUCCESS, s') \<and>
    config_holds psize (length (buffer_of I s)) (mem s') rs' \<and> vals s' = vals s \<and> length (mem s') = length (mem s) \<and>
    length (buffer_of I s') = length (buffer_of I s) \<and> (\<forall>k \<in> dom (vals s). current (vals s) rs' k)"
proof -
  from holds obtain ps where ok: "\<forall>r \<in> set rs. rec_ok (length (buffer_of I s)) r" and d8: "8 dvd psize"
    and ps: "pages_in psize ps (mem s)" "ps \<noteq> []" and ring: "ring (map header_of ps)"
    and cur: "case current_from None (map header_of ps) 0 of None \<Rightarrow> rs = []
      | Some c \<Rightarrow> \<exists>h n. ps ! c = h @ enc rs @ replicate (8 * n) 0 \<and> length h = 8"
    unfolding config_holds_def by blast
  show ?thesis
  proof (cases "current_from None (map header_of ps) 0")
    case None
    have "locate_current_page (length (mem s)) psize I s = Some ((MISSING_PAGE, 0), s)"
      using locate_current_eq [OF ps(1)] None by simp
    then have "update_config (length (mem s)) psize I s = update_new_page (length (mem s)) psize I s"
      by (simp add: update_config_def)
    then show ?thesis using update_new_page_eq [OF ps d8 ring _ fin tot] vals by (auto simp: vals_ok_def)
  next
    case (Some c)
    then have c: "c < length ps" using ring_current [OF ring] by auto
    obtain h n where page: "ps ! c = h @ enc rs @ replicate (8 * n) 0" "length h = 8" using cur Some by auto
    let ?pre = "concat (take c ps)" and ?post = "concat (drop (Suc c) ps)" and ?a = "c * psize"
    have loc: "locate_current_page (length (mem s)) psize I s = Some ((SUCCESS, ?a), s)"
      using locate_current_eq [OF ps(1)] Some by simp
    from update_stored_page [OF ps(1) c page ok vals keys fin] obtain st s1 rs1 m1 where
      upd: "update_stored_config (?a + cell_size) (?a + psize) I s = Some (st, s1)" "st = SUCCESS \<or> st = FULL"
      and s1: "mem s1 = ?pre @ (h @ enc (rs @ rs1) @ replicate m1 0) @ ?post"
        "\<forall>r \<in> set (rs @ rs1). rec_ok (length (buffer_of I s)) r"
        "8 + length (enc (rs @ rs1)) + m1 = psize" "8 dvd m1" "vals s1 = vals s"
        "length (buffer_of I s1) = length (buffer_of I s)"
      and len1: "length (mem s1) = length (mem s)"
      and cur1: "st = SUCCESS \<longrightarrow> (\<forall>k \<in> dom (vals s). current (vals s) (rs @ rs1) k)" by metis
    let ?p = "h @ enc (rs @ rs1) @ replicate m1 0"
    have hd: "header_of ?p = header_of (ps ! c)" using page by (simp add: header_of_def)
    have same: "(map header_of ps) [c := header_of ?p] = map header_of ps" unfolding hd using c by (simp flip: map_update)
    have plen: "length ?p = psize" using s1(3) page(2) by simp
    show ?thesis
    proof (cases "st = SUCCESS")
      case True
      then have "update_config (length (mem s)) psize I s = Some (SUCCESS, s1)"
        using loc upd(1) by (simp add: update_config_def)
      moreover have "config_holds psize (length (buffer_of I s)) (mem s1) (rs @ rs1)"
        unfolding s1(1)
        by (rule config_page [OF ps(1) c d8]) (use same ring Some s1(2-4) page(2) in simp_all)
      ultimately show ?thesis using cur1 True s1(5,6) len1 by blast
    next
      case False
      then have full: "st = FULL" using upd(2) by simp
      have "update_config (length (mem s)) psize I s = update_new_page (length (mem s1)) psize I s1"
        using loc upd(1) full len1 by (simp add: update_config_def)
      moreover have "pages_in psize (ps [c := ?p]) (mem s1)"
        unfolding s1(1) by (rule pages_update [OF ps(1) c plen])
      moreover have "ps [c := ?p] \<noteq> []" using ps(2) by simp
      moreover have "ring (map header_of (ps [c := ?p]))" using ring same by (simp add: map_update)
      moreover have "\<forall>k v. vals s1 k = Some v \<longrightarrow> rec_ok (length (buffer_of I s1)) (k, v)"
        using vals s1(5,6) by (simp add: vals_ok_def)
      ultimately show ?thesis
        using update_new_page_eq [of "ps [c := ?p]" s1] d8 fin tot s1(5,6) len1 by auto
    qed
  qed
qed

end

context cfg_loading
begin

text \<open>\<open>load\<close> visits the log of the current page.\<close>

lemma load_config_eq:
  assumes "config_holds psize (length (buffer_of I s)) (mem s) rs"
  shows "\<exists>s'. load_config (length (mem s)) psize I s = Some (SUCCESS, s') \<and> mem s' = mem s \<and>
    aux s' = aux s @ visit (keys s) (rev rs)"
proof -
  from assms obtain ps where ok: "\<forall>r \<in> set rs. rec_ok (length (buffer_of I s)) r"
    and ps: "pages_in psize ps (mem s)" "ps \<noteq> []" and ring: "ring (map header_of ps)"
    and cur: "case current_from None (map header_of ps) 0 of None \<Rightarrow> rs = []
      | Some c \<Rightarrow> \<exists>h n. ps ! c = h @ enc rs @ replicate (8 * n) 0 \<and> length h = 8"
    unfolding config_holds_def by blast
  show ?thesis
  proof (cases "current_from None (map header_of ps) 0")
    case None
    then have "load_config (length (mem s)) psize I s = Some (SUCCESS, s)" "rs = []"
      using locate_current_eq [OF ps(1)] cur by (simp_all add: load_config_def)
    then show ?thesis by simp
  next
    case (Some c)
    then have c: "c < length ps" using ring_current [OF ring] by auto
    obtain h n where page: "ps ! c = h @ enc rs @ replicate (8 * n) 0" "length h = 8" using cur Some by auto
    let ?pre = "concat (take c ps)" and ?post = "concat (drop (Suc c) ps)" and ?a = "c * psize"
    have pre: "length ?pre = ?a" by (rule pages_before [OF ps(1) c])
    have mem: "mem s = ?pre @ ps ! c @ ?post" and pc: "length (ps ! c) = psize"
      using concat_split [OF c] ps(1) c by (auto simp: pages_in_def)
    have m: "mem s = (?pre @ h) @ enc rs @ replicate (8 * n) 0 @ ?post" using mem page by simp
    have len: "length (?pre @ h) = ?a + cell_size" using pre page(2) by (simp add: cell_size_def)
    have e: "length (?pre @ h) + length (enc rs) + 8 * n = ?a + psize" using pre page pc by simp
    have "length (mem s) + 8 < 2 ^ 64" using ps(1) by (auto simp: pages_in_def)
    then have "?a + psize < 2 ^ 64" using mem pre pc by simp
    then have lim: "length (?pre @ h) + length (enc rs) + 8 * n < 2 ^ 64" unfolding e .
    have "load_config (length (mem s)) psize I s = load_stored_config (?a + cell_size) (?a + psize) I s"
      using locate_current_eq [OF ps(1)] Some by (simp add: load_config_def)
    then show ?thesis using load_log [OF m ok lim] unfolding e unfolding len by simp
  qed
qed

end

end
