(* ===== verification/CfgRam.thy ===== *)
theory CfgRam
  imports CfgPages "HOL-Library.Multiset"
begin

text \<open>
  The interfaces of \<open>experimental/cfg/handler.hpp\<close> over a memory that is an array of bytes, with the
  helpers that the header has for the callbacks: the keys that have not been seen are a container,
  from which duplicates are dropped, a value has changed unless it is a prefix of what is stored.
\<close>

section \<open>The callbacks\<close>

record cfg_ram =
  ram_mem :: "byte list"
  ram_buf :: "byte list"
  ram_keys :: "32 word list"
  ram_vals :: "(32 word \<times> byte list) list"
  ram_loaded :: "(32 word \<times> byte list) list"

definition ram_read :: "nat \<Rightarrow> cfg_ram \<Rightarrow> byte list option \<times> cfg_ram" where
  "ram_read a s = (if a + cell_size > length (ram_mem s) then (None, s)
     else (Some (take cell_size (drop a (ram_mem s))), s))"

definition ram_write :: "nat \<Rightarrow> byte list \<Rightarrow> cfg_ram \<Rightarrow> bool \<times> cfg_ram" where
  "ram_write a d s = (if a + length d > length (ram_mem s) then (False, s)
     else (True, s\<lparr>ram_mem := splice a d (ram_mem s)\<rparr>))"

definition ram_check :: "32 word \<Rightarrow> cfg_ram \<Rightarrow> bool \<times> cfg_ram" where
  "ram_check k s = (case key_check_unseen_container (remdups (ram_keys s)) k of
     (seen, ks) \<Rightarrow> (seen, s\<lparr>ram_keys := ks\<rparr>))"

definition ram_changed :: "32 word \<Rightarrow> byte list \<Rightarrow> cfg_ram \<Rightarrow> bool \<times> cfg_ram" where
  "ram_changed k d s = ((case map_of (ram_vals s) k of None \<Rightarrow> True | Some v \<Rightarrow> \<not> is_prefix_of_with_zeros v d), s)"

definition ram_serialize :: "32 word \<Rightarrow> cfg_ram \<Rightarrow> nat option \<times> cfg_ram" where
  "ram_serialize k s = (case map_of (ram_vals s) k of
      None \<Rightarrow> (None, s)
    | Some v \<Rightarrow> if length (ram_buf s) < length v then (None, s)
        else (Some (length v), s\<lparr>ram_buf := splice 0 v (ram_buf s)\<rparr>))"

definition ram_take :: "cfg_ram \<Rightarrow> 32 word option \<times> cfg_ram" where
  "ram_take s = (case pop_from_container (remdups (ram_keys s)) of (r, ks) \<Rightarrow> (r, s\<lparr>ram_keys := ks\<rparr>))"

definition ram_reset :: "cfg_ram \<Rightarrow> bool \<times> cfg_ram" where
  "ram_reset s = (True, s\<lparr>ram_keys := map fst (ram_vals s)\<rparr>)"

definition ram_clear :: "nat \<Rightarrow> nat \<Rightarrow> cfg_ram \<Rightarrow> bool \<times> cfg_ram" where
  "ram_clear psize a s = ram_write a (replicate psize 0) s"

definition ram_kval :: "32 word \<Rightarrow> byte list \<Rightarrow> cfg_ram \<Rightarrow> bool \<times> cfg_ram" where
  "ram_kval k d s = (True, s\<lparr>ram_loaded := ram_loaded s @ [(k, d)]\<rparr>)"

definition ram_update :: "nat \<Rightarrow> cfg_ram update_iface" where
  "ram_update psize = \<lparr>read_cell = ram_read, buffer_of = ram_buf, set_buffer = (\<lambda>b s. s\<lparr>ram_buf := b\<rparr>),
     check_key_cache = ram_check, write_mem = ram_write, value_changed = ram_changed,
     serialize_value = ram_serialize, reset_keys = ram_reset, take_unseen_key = ram_take,
     clear_page = ram_clear psize\<rparr>"

definition ram_load :: "cfg_ram load_iface" where
  "ram_load = \<lparr>read_cell = ram_read, buffer_of = ram_buf, set_buffer = (\<lambda>b s. s\<lparr>ram_buf := b\<rparr>),
     check_key_cache = ram_check, on_kval = ram_kval\<rparr>"

section \<open>The container of the keys\<close>

lemma key_check_mset:
  "k \<in> set ks \<Longrightarrow> mset (snd (key_check_unseen_container ks k)) = mset ks - {#k#}"
  "key_check_unseen_container ks k = (k \<notin> set ks, snd (key_check_unseen_container ks k))"
proof -
  let ?i = "find_item ks k" and ?n = "length ks - 1"
  have in_iff: "?i = length ks \<longleftrightarrow> k \<notin> set ks"
    using contains_item_iff [of ks k] by (auto simp: contains_item_def)
  then show "key_check_unseen_container ks k = (k \<notin> set ks, snd (key_check_unseen_container ks k))"
    by (simp add: key_check_unseen_container_def Let_def)
  assume k: "k \<in> set ks"
  then have i: "?i < length ks" using in_iff find_if_le [of "\<lambda>x. x = k" ks] by (simp add: find_item_def)
  then have at: "ks ! ?i = k" using find_if_first(1) [of "\<lambda>x. x = k" ks] by (simp add: find_item_def)
  have "ks \<noteq> []" using k by auto
  then have n: "?n < length ks" "last ks = ks ! ?n" by (simp_all add: last_conv_nth)
  let ?ks = "ks [?i := ks ! ?n, ?n := ks ! ?i]"
  have "mset ?ks = mset ks" using mset_swap [OF n(1) i] .
  moreover have ne: "?ks \<noteq> []" using k by auto
  moreover have "last ?ks = k" using n(1) at unfolding last_conv_nth [OF ne] by simp
  ultimately have "mset (butlast ?ks) = mset ks - {#k#}"
    by (metis add_mset_remove_trivial append_butlast_last_id mset.simps(1) mset.simps(2) union_mset_add_mset_right
        add.right_neutral mset_append)
  then show "mset (snd (key_check_unseen_container ks k)) = mset ks - {#k#}"
    using in_iff k n(2) by (simp add: key_check_unseen_container_def Let_def)
qed

lemma ram_check_eq: "\<exists>s'. ram_check k s = (k \<notin> set (ram_keys s), s') \<and>
    set (ram_keys s') = set (ram_keys s) - {k} \<and>
    s' = s\<lparr>ram_keys := ram_keys s'\<rparr>"
proof -
  let ?ks = "remdups (ram_keys s)" and ?c = "snd (key_check_unseen_container (remdups (ram_keys s)) k)"
  have "set ?c = set ?ks - {k}"
  proof (cases "k \<in> set ?ks")
    case True
    have "mset ?c = mset (remove1 k ?ks)" using key_check_mset(1) [OF True] by simp
    then have "set ?c = set (remove1 k ?ks)" by (metis set_mset_mset)
    then show ?thesis by simp
  next
    case False
    then have "find_item ?ks k = length ?ks"
      using contains_item_iff [of ?ks k] by (simp add: contains_item_def)
    then show ?thesis using False by (simp add: key_check_unseen_container_def Let_def)
  qed
  then show ?thesis using key_check_mset(2) [of ?ks k]
    by (cases "key_check_unseen_container ?ks k") (simp add: ram_check_def)
qed

lemma ram_take_eq: "\<exists>r s'. ram_take s = (r, s') \<and> s' = s\<lparr>ram_keys := ram_keys s'\<rparr> \<and>
    (case r of
       None \<Rightarrow> set (ram_keys s) = {} \<and> set (ram_keys s') = {}
     | Some k \<Rightarrow> k \<in> set (ram_keys s) \<and>
         set (ram_keys s') = set (ram_keys s) - {k})"
proof (cases "remdups (ram_keys s)" rule: rev_cases)
  case (snoc xs x)
  then have "distinct (xs @ [x])" "set (ram_keys s) = set (xs @ [x])"
    by (metis distinct_remdups, metis set_remdups)
  then show ?thesis using snoc by (auto simp: ram_take_def pop_from_container_def)
qed (simp add: ram_take_def pop_from_container_def)

section \<open>The interpretations\<close>

abbreviation ram_unseen :: "cfg_ram \<Rightarrow> 32 word set" where
  "ram_unseen s \<equiv> set (ram_keys s)"

lemma ram_fields [simp]:
  "read_cell (ram_update psize) = ram_read" "buffer_of (ram_update psize) = ram_buf"
  "set_buffer (ram_update psize) = (\<lambda>b s. s\<lparr>ram_buf := b\<rparr>)" "check_key_cache (ram_update psize) = ram_check"
  "write_mem (ram_update psize) = ram_write" "value_changed (ram_update psize) = ram_changed"
  "serialize_value (ram_update psize) = ram_serialize" "reset_keys (ram_update psize) = ram_reset"
  "take_unseen_key (ram_update psize) = ram_take" "clear_page (ram_update psize) = ram_clear psize"
  "read_cell ram_load = ram_read" "buffer_of ram_load = ram_buf"
  "set_buffer ram_load = (\<lambda>b s. s\<lparr>ram_buf := b\<rparr>)" "check_key_cache ram_load = ram_check"
  "on_kval ram_load = ram_kval"
  by (simp_all add: ram_update_def ram_load_def)

lemma ram_read_eq: "a + 8 \<le> length (ram_mem s) \<Longrightarrow> ram_read a s = (Some (take 8 (drop a (ram_mem s))), s)"
  by (simp add: ram_read_def cell_size_def)

text \<open>What a step that only changes the keys leaves alone.\<close>

lemma keys_only:
  assumes "s' = s\<lparr>ram_keys := ks\<rparr>"
  shows "ram_mem s' = ram_mem s" "ram_vals s' = ram_vals s" "ram_buf s' = ram_buf s" "ram_loaded s' = ram_loaded s"
  using assms by simp_all

lemma ram_check_frame: "\<exists>s'. ram_check k s = (k \<notin> ram_unseen s, s') \<and> ram_mem s' = ram_mem s \<and>
    ram_unseen s' = ram_unseen s - {k} \<and> ram_vals s' = ram_vals s \<and> ram_loaded s' = ram_loaded s \<and> ram_buf s' = ram_buf s"
proof -
  obtain s' where s': "ram_check k s = (k \<notin> ram_unseen s, s')" "ram_unseen s' = ram_unseen s - {k}"
    "s' = s\<lparr>ram_keys := ram_keys s'\<rparr>" using ram_check_eq [of k s] by blast
  then show ?thesis using keys_only [OF s'(3)] by (intro exI [of _ s'] conjI) assumption+
qed

interpretation ram_memory: cfg_memory "ram_update psize" ram_mem ram_unseen "\<lambda>s. map_of (ram_vals s)" for psize
proof
  show "\<exists>s'. check_key_cache (ram_update psize) k s = (k \<notin> ram_unseen s, s') \<and> ram_mem s' = ram_mem s \<and>
      ram_unseen s' = ram_unseen s - {k} \<and> map_of (ram_vals s') = map_of (ram_vals s) \<and>
      buffer_of (ram_update psize) s' = buffer_of (ram_update psize) s" for k s
    using ram_check_frame [of k s] by auto
qed (simp_all add: ram_read_eq)

interpretation ram_updating: cfg_updating "ram_update psize" ram_mem ram_unseen "\<lambda>s. map_of (ram_vals s)" psize
  for psize
proof
  fix s :: cfg_ram
  show "\<exists>s'. write_mem (ram_update psize) a d s = (True, s') \<and> ram_mem s' = splice a d (ram_mem s) \<and>
      ram_unseen s' = ram_unseen s \<and> map_of (ram_vals s') = map_of (ram_vals s) \<and>
      buffer_of (ram_update psize) s' = buffer_of (ram_update psize) s" if "a + length d \<le> length (ram_mem s)" for a d
    using that by (simp add: ram_write_def)
  show "\<exists>s'. value_changed (ram_update psize) k d s =
      (\<not> (\<exists>v. map_of (ram_vals s) k = Some v \<and> is_prefix_of_with_zeros v d), s') \<and> ram_memory.frame psize s s'" for k d
    by (auto simp: ram_changed_def ram_memory.frame_def split: option.split)
  show "\<exists>s'. serialize_value (ram_update psize) k s = (Some (length v), s') \<and> ram_memory.frame psize s s' \<and>
      take (length v) (buffer_of (ram_update psize) s') = v"
    if "map_of (ram_vals s) k = Some v" "length v \<le> length (buffer_of (ram_update psize) s)" for k v
    using that by (auto simp: ram_serialize_def ram_memory.frame_def splice_def)
  show "\<exists>r s'. take_unseen_key (ram_update psize) s = (r, s') \<and> ram_mem s' = ram_mem s \<and>
      map_of (ram_vals s') = map_of (ram_vals s) \<and> buffer_of (ram_update psize) s' = buffer_of (ram_update psize) s \<and>
      (case r of None \<Rightarrow> ram_unseen s = {} \<and> ram_unseen s' = {}
       | Some k \<Rightarrow> k \<in> ram_unseen s \<and> ram_unseen s' = ram_unseen s - {k})"
  proof -
    obtain r s' where s': "ram_take s = (r, s')" "s' = s\<lparr>ram_keys := ram_keys s'\<rparr>"
      "case r of None \<Rightarrow> ram_unseen s = {} \<and> ram_unseen s' = {}
       | Some k \<Rightarrow> k \<in> ram_unseen s \<and> ram_unseen s' = ram_unseen s - {k}"
      using ram_take_eq [of s] by blast
    then show ?thesis using keys_only [OF s'(2)] by (intro exI [of _ r] exI [of _ s']) simp
  qed
  show "\<exists>s'. reset_keys (ram_update psize) s = (True, s') \<and> ram_mem s' = ram_mem s \<and>
      ram_unseen s' = dom (map_of (ram_vals s)) \<and> map_of (ram_vals s') = map_of (ram_vals s) \<and>
      buffer_of (ram_update psize) s' = buffer_of (ram_update psize) s"
    by (simp add: ram_reset_def dom_map_of_conv_image_fst)
  show "\<exists>s'. clear_page (ram_update psize) a s = (True, s') \<and>
      ram_mem s' = splice a (replicate psize 0) (ram_mem s) \<and> ram_unseen s' = ram_unseen s \<and>
      map_of (ram_vals s') = map_of (ram_vals s) \<and> buffer_of (ram_update psize) s' = buffer_of (ram_update psize) s"
    if "a + psize \<le> length (ram_mem s)" for a
    using that by (simp add: ram_clear_def ram_write_def)
qed

interpretation ram_loading: cfg_loading ram_load ram_mem ram_unseen ram_loaded
proof
  show "\<exists>s'. check_key_cache ram_load k s = (k \<notin> ram_unseen s, s') \<and> ram_mem s' = ram_mem s \<and>
      ram_unseen s' = ram_unseen s - {k} \<and> ram_loaded s' = ram_loaded s \<and> buffer_of ram_load s' = buffer_of ram_load s" for k s
    using ram_check_frame [of k s] by auto
  show "\<exists>s'. on_kval ram_load k d s = (True, s') \<and> ram_mem s' = ram_mem s \<and> ram_unseen s' = ram_unseen s \<and>
      buffer_of ram_load s' = buffer_of ram_load s \<and> ram_loaded s' = ram_loaded s @ [(k, d)]" for k d s
    by (simp add: ram_kval_def)
qed (simp_all add: ram_read_eq)

section \<open>A page that is too small\<close>

text \<open>
  \<open>update\<close> gives \<open>dump_unseen_keys\<close> the end \<open>addr + page_size\<close> after it has moved \<open>addr\<close> behind the
  header: one cell too many.  Two pages of two cells: the second value is stored over the header of the
  page that follows, and the result is a success.
\<close>

definition overrun_start :: cfg_ram where
  "overrun_start = \<lparr>ram_mem = replicate 32 0, ram_buf = replicate 16 0, ram_keys = [1, 2],
     ram_vals = [(1, [10]), (2, [20])], ram_loaded = []\<rparr>"

lemma overrun: "map_option (\<lambda>(st, s). (st, take 8 (drop 16 (ram_mem s)))) (update_config 32 16 (ram_update 16) overrun_start)
    = Some (SUCCESS, [10, 0, 0, 0, 1, 0, 0, 128])"
  by code_simp

text \<open>
  A value of five bytes: its header is written at an address that is no multiple of the size of a cell
  and is not found again.  \<open>update\<close> and \<open>load\<close> both report a success.
\<close>

definition unpadded_start :: cfg_ram where
  "unpadded_start = \<lparr>ram_mem = replicate 32 0, ram_buf = replicate 16 0, ram_keys = [0],
     ram_vals = [(0, [0, 0, 0, 0, 5])], ram_loaded = []\<rparr>"

lemma unpadded_lost: "do { (st, s) \<leftarrow> update_config 32 32 (ram_update 32) unpadded_start;
    (st', s') \<leftarrow> load_config 32 32 ram_load (s\<lparr>ram_keys := [0]\<rparr>); Some (st, st', ram_loaded s') }
  = Some (SUCCESS, SUCCESS, [])"
  by code_simp

text \<open>\<open>ser_cell\<close> accepts the key that is just the bit of short values: it reads back as the key zero.\<close>

lemma key_alias: "ser_cell sin_bit_mask [7] = ser_cell 0 [7]"
  by code_simp

end
