(* ===== verification/Matrix.thy ===== *)
theory Matrix
  imports Indices
begin

text \<open>
  \<open>experimental/matrix.hpp\<close>: matrices of fixed dimensions, views of them, and the arithmetic on anything
  that can be indexed like one.  The type \<open>T\<close> of the entries is a commutative ring or a field here: the
  rounding of \<open>float\<close> is left out.
\<close>

section \<open>Matrices and views\<close>

text \<open>
  An object of the concept \<open>matrix_like\<close> is its static dimensions and the access \<open>m[i][j]\<close>; \<open>matrix\<close>
  stores an array of rows, the other classes compute the access.
\<close>

record 'a matrix_like =
  rows :: nat
  cols :: nat
  entry :: "nat \<Rightarrow> nat \<Rightarrow> 'a"

type_synonym 'a matrix = "'a list list"

definition matrix_init :: "nat \<Rightarrow> nat \<Rightarrow> ('a :: zero) matrix" where
  "matrix_init N M = replicate N (replicate M 0)"

definition is_matrix :: "nat \<Rightarrow> nat \<Rightarrow> 'a matrix \<Rightarrow> bool" where
  "is_matrix N M data \<longleftrightarrow> length data = N \<and> (\<forall>row \<in> set data. length row = M)"

definition mat :: "nat \<Rightarrow> nat \<Rightarrow> 'a matrix \<Rightarrow> 'a matrix_like" where
  "mat N M data = \<lparr>rows = N, cols = M, entry = \<lambda>i j. data ! i ! j\<rparr>"

definition set_entry :: "'a matrix \<Rightarrow> nat \<Rightarrow> nat \<Rightarrow> 'a \<Rightarrow> 'a matrix" where
  "set_entry res i j v = res[i := (res ! i)[j := v]]"

definition transposed_matrix :: "'a matrix_like \<Rightarrow> 'a matrix_like" where
  "transposed_matrix m = \<lparr>rows = cols m, cols = rows m, entry = \<lambda>i j. entry m j i\<rparr>"

definition identity_matrix :: "nat \<Rightarrow> ('a :: zero_neq_one) matrix_like" where
  "identity_matrix N = \<lparr>rows = N, cols = N, entry = \<lambda>i j. if i = j then 1 else 0\<rparr>"

definition rowcol_submatrix :: "'a matrix_like \<Rightarrow> nat \<Rightarrow> nat \<Rightarrow> 'a matrix_like" where
  "rowcol_submatrix m I J =
     \<lparr>rows = rows m - 1, cols = cols m - 1,
      entry = \<lambda>i j. entry m (if i < I then i else i + 1) (if j < J then j else j + 1)\<rparr>"

section \<open>Operations\<close>

text \<open>The two loops over all entries, with what the body writes into \<open>res[i][j]\<close>.\<close>

definition fill_loop :: "nat \<Rightarrow> nat \<Rightarrow> (nat \<Rightarrow> nat \<Rightarrow> 'a \<Rightarrow> 'a) \<Rightarrow> 'a matrix \<Rightarrow> 'a matrix" where
  "fill_loop N M body res =
     fold (\<lambda>i res. fold (\<lambda>j res. set_entry res i j (body i j (res ! i ! j))) [0..<M] res) [0..<N] res"

definition transposed_to_matrix :: "('a :: zero) matrix_like \<Rightarrow> 'a matrix" where
  "transposed_to_matrix m = fill_loop (cols m) (rows m) (\<lambda>i j _. entry m j i) (matrix_init (cols m) (rows m))"

definition identity_to_matrix :: "nat \<Rightarrow> ('a :: zero_neq_one) matrix" where
  "identity_to_matrix N = fill_loop N N (\<lambda>i j _. if i = j then 1 else 0) (matrix_init N N)"

text \<open>\<open>transpose\<close> of a matrix that stays, and of a temporary one.\<close>

definition transpose_view :: "'a matrix_like \<Rightarrow> 'a matrix_like" where
  "transpose_view m = transposed_matrix m"

definition transpose_temporary :: "('a :: zero) matrix_like \<Rightarrow> 'a matrix" where
  "transpose_temporary m = transposed_to_matrix m"

text \<open>The stream output, over the text of an entry.\<close>

definition matrix_text :: "('a \<Rightarrow> string) \<Rightarrow> 'a matrix_like \<Rightarrow> string" where
  "matrix_text text_of m =
     fold (\<lambda>i os. fold (\<lambda>j os. os @ text_of (entry m i j) @ [CHR 0x09]) [0..<cols m] os @ [CHR 0x0A]) [0..<rows m] []"

definition mat_eq :: "'a matrix_like \<Rightarrow> 'a matrix_like \<Rightarrow> bool" where
  "mat_eq lh rh = list_all (\<lambda>i. list_all (\<lambda>j. entry lh i j = entry rh i j) [0..<cols lh]) [0..<rows lh]"

definition mat_mul :: "('a :: comm_ring_1) matrix_like \<Rightarrow> 'a matrix_like \<Rightarrow> 'a matrix" where
  "mat_mul lh rh =
     fill_loop (rows lh) (cols rh) (\<lambda>i j _. fold (\<lambda>k v. v + entry lh i k * entry rh k j) [0..<cols lh] 0)
       (matrix_init (rows lh) (cols rh))"

text \<open>\<open>auto res = lh\<close> copies a \<open>matrix\<close>; of a \<open>transposed_matrix\<close> it copies the reference.\<close>

definition mat_scale :: "nat \<Rightarrow> nat \<Rightarrow> ('a :: comm_ring_1) matrix \<Rightarrow> 'a \<Rightarrow> 'a matrix" where
  "mat_scale N M lh val = fill_loop N M (\<lambda>_ _ x. x * val) lh"

definition transposed_scale :: "nat \<Rightarrow> nat \<Rightarrow> ('a :: comm_ring_1) matrix \<Rightarrow> 'a \<Rightarrow> 'a matrix \<times> 'a matrix" where
  "transposed_scale N M m val =
     (let m' = fold (\<lambda>i m. fold (\<lambda>j m. set_entry m j i (m ! j ! i * val)) [0..<N] m) [0..<M] m
      in (transposed_to_matrix (mat N M m'), m'))"

definition mat_add :: "('a :: comm_ring_1) matrix_like \<Rightarrow> 'a matrix_like \<Rightarrow> 'a matrix" where
  "mat_add lh rh =
     fill_loop (rows lh) (cols lh) (\<lambda>i j _. entry lh i j + entry rh i j) (matrix_init (rows lh) (cols lh))"

definition mat_sub :: "('a :: comm_ring_1) matrix_like \<Rightarrow> 'a matrix_like \<Rightarrow> 'a matrix" where
  "mat_sub lh rh =
     fill_loop (rows lh) (cols lh) (\<lambda>i j _. entry lh i j - entry rh i j) (matrix_init (rows lh) (cols lh))"

text \<open>The determinant has overloads for two rows and for more.\<close>

fun determinant :: "nat \<Rightarrow> ('a :: comm_ring_1) matrix_like \<Rightarrow> 'a" where
  "determinant (Suc (Suc 0)) m = entry m 0 0 * entry m 1 1 - entry m 0 1 * entry m 1 0"
| "determinant (Suc (Suc (Suc n))) m =
     for_each_index (Suc (Suc (Suc n)))
       (\<lambda>I res. res + (if I mod 2 = 0 then 1 else - 1) * entry m I 0 *
          determinant (Suc (Suc n)) (rowcol_submatrix m I 0)) 0"

definition inverse1 :: "('a :: field) matrix_like \<Rightarrow> 'a matrix" where
  "inverse1 m = set_entry (matrix_init 1 1) 0 0 (1 / entry m 0 0)"

definition inverse2 :: "('a :: field) matrix_like \<Rightarrow> 'a matrix" where
  "inverse2 m =
     (let v = 1 / determinant 2 m;
          res = matrix_init 2 2;
          res = res[0 := [entry m 1 1, - entry m 0 1]];
          res = res[1 := [- entry m 1 0, entry m 0 0]]
      in mat_scale 2 2 res v)"

section \<open>What the loops compute\<close>

lemma set_entry_matrix: "is_matrix N M res \<Longrightarrow> is_matrix N M (set_entry res i j v)"
  by (cases "i < length res")
    (auto simp: is_matrix_def list_update_beyond set_entry_def dest: set_update_subset_insert [THEN subsetD])

lemma nth_set_entry:
  assumes "is_matrix N M res" "i < N" "j < M" "i' < N" "j' < M"
  shows "set_entry res i j v ! i' ! j' = (if i' = i \<and> j' = j then v else res ! i' ! j')"
  using assms by (auto simp: is_matrix_def set_entry_def nth_list_update)

lemma row_loop:
  assumes "is_matrix N M res" "i < N" "n \<le> M"
  shows "is_matrix N M (fold (\<lambda>j res. set_entry res i j (body i j (res ! i ! j))) [0..<n] res) \<and>
    (\<forall>i' < N. \<forall>j' < M. fold (\<lambda>j res. set_entry res i j (body i j (res ! i ! j))) [0..<n] res ! i' ! j' =
      (if i' = i \<and> j' < n then body i j' (res ! i ! j') else res ! i' ! j'))"
  using assms(3)
proof (induction n)
  case (Suc n)
  let ?r = "fold (\<lambda>j res. set_entry res i j (body i j (res ! i ! j))) [0..<n] res"
  have IH: "is_matrix N M ?r" "\<forall>i' < N. \<forall>j' < M. ?r ! i' ! j' =
      (if i' = i \<and> j' < n then body i j' (res ! i ! j') else res ! i' ! j')" using Suc by auto
  have "?r ! i ! n = res ! i ! n" using IH(2) assms(2) Suc.prems by simp
  then show ?case using IH Suc.prems assms(2) set_entry_matrix [OF IH(1)]
    by (auto simp: nth_set_entry [OF IH(1) assms(2), of n] less_Suc_eq)
qed (use assms(1) in simp)

lemma fill_loop_rows:
  assumes "is_matrix N M res" "n \<le> N"
  shows "is_matrix N M (fill_loop n M body res) \<and> (\<forall>i < N. \<forall>j < M. fill_loop n M body res ! i ! j =
    (if i < n then body i j (res ! i ! j) else res ! i ! j))"
  using assms(2)
proof (induction n)
  case (Suc n)
  then have IH: "is_matrix N M (fill_loop n M body res)" "\<forall>i < N. \<forall>j < M. fill_loop n M body res ! i ! j =
    (if i < n then body i j (res ! i ! j) else res ! i ! j)" by auto
  have step: "fill_loop (Suc n) M body res =
      fold (\<lambda>j r. set_entry r n j (body n j (r ! n ! j))) [0..<M] (fill_loop n M body res)"
    by (simp add: fill_loop_def)
  show ?case
    using row_loop [OF IH(1), of n M body] IH(2) Suc.prems unfolding step by (auto simp: less_Suc_eq)
qed (use assms(1) in \<open>simp add: fill_loop_def\<close>)

lemma matrix_eqI:
  assumes "is_matrix N M a" "is_matrix N M b" "\<And>i j. i < N \<Longrightarrow> j < M \<Longrightarrow> a ! i ! j = b ! i ! j"
  shows "a = b"
  using assms by (auto simp: is_matrix_def intro!: nth_equalityI)

definition of_entries :: "nat \<Rightarrow> nat \<Rightarrow> (nat \<Rightarrow> nat \<Rightarrow> 'a) \<Rightarrow> 'a matrix" where
  "of_entries N M f = map (\<lambda>i. map (f i) [0..<M]) [0..<N]"

lemma of_entries [simp]: "is_matrix N M (of_entries N M f)" "i < N \<Longrightarrow> j < M \<Longrightarrow> of_entries N M f ! i ! j = f i j"
  by (auto simp: is_matrix_def of_entries_def)

lemma is_matrix_init [simp]: "is_matrix N M (matrix_init N M)"
  by (auto simp: is_matrix_def matrix_init_def)

lemma fill_loop_eq:
  assumes "is_matrix N M res"
  shows "fill_loop N M body res = of_entries N M (\<lambda>i j. body i j (res ! i ! j))"
  using fill_loop_rows [OF assms order_refl, of body] by (intro matrix_eqI [of N M]) auto

lemma fold_plus_sum: "fold (\<lambda>k v. v + f k) [0..<n] (0 :: 'a :: comm_monoid_add) = (\<Sum>k < n. f k)"
  by (induction n) auto

lemma mat_sel [simp]: "rows (mat N M a) = N" "cols (mat N M a) = M" "entry (mat N M a) i j = a ! i ! j"
    "rows (transposed_matrix m) = cols m" "cols (transposed_matrix m) = rows m"
    "entry (transposed_matrix m) i j = entry m j i"
    "rows (identity_matrix N) = N" "cols (identity_matrix N) = N"
    "entry (identity_matrix N) i j = (if i = j then 1 else 0)"
  by (simp_all add: mat_def transposed_matrix_def identity_matrix_def)

lemma mat_mul_eq: "mat_mul lh rh = of_entries (rows lh) (cols rh) (\<lambda>i j. \<Sum>k < cols lh. entry lh i k * entry rh k j)"
  by (simp add: mat_mul_def fill_loop_eq fold_plus_sum)

lemma mat_add_eq: "mat_add lh rh = of_entries (rows lh) (cols lh) (\<lambda>i j. entry lh i j + entry rh i j)"
  by (simp add: mat_add_def fill_loop_eq)

lemma mat_sub_eq: "mat_sub lh rh = of_entries (rows lh) (cols lh) (\<lambda>i j. entry lh i j - entry rh i j)"
  by (simp add: mat_sub_def fill_loop_eq)

lemma mat_scale_eq: "is_matrix N M m \<Longrightarrow> mat_scale N M m v = of_entries N M (\<lambda>i j. m ! i ! j * v)"
  by (simp add: mat_scale_def fill_loop_eq)

lemma transposed_to_matrix_eq: "transposed_to_matrix m = of_entries (cols m) (rows m) (\<lambda>i j. entry m j i)"
  by (simp add: transposed_to_matrix_def fill_loop_eq)

lemma identity_to_matrix_eq: "identity_to_matrix N = of_entries N N (\<lambda>i j. if i = j then 1 else 0)"
  by (simp add: identity_to_matrix_def fill_loop_eq)

lemma mat_eq_iff: "mat_eq lh rh \<longleftrightarrow> (\<forall>i < rows lh. \<forall>j < cols lh. entry lh i j = entry rh i j)"
  by (auto simp: mat_eq_def list_all_iff)

lemma mat_eq_matrix: "is_matrix N M a \<Longrightarrow> is_matrix N M b \<Longrightarrow> mat_eq (mat N M a) (mat N M b) \<longleftrightarrow> a = b"
  by (auto simp: mat_eq_iff intro: matrix_eqI)

section \<open>The algebra of the operators\<close>

lemma of_entries_cong: "(\<And>i j. i < N \<Longrightarrow> j < M \<Longrightarrow> f i j = g i j) \<Longrightarrow> of_entries N M f = of_entries N M g"
  by (auto simp: of_entries_def)

lemma mat_mul_assoc:
  assumes "cols a = rows b" "cols b = rows c"
  shows "mat_mul (mat (rows a) (cols b) (mat_mul a b)) c = mat_mul a (mat (rows b) (cols c) (mat_mul b c))"
proof -
  have "(\<Sum>k < cols b. (\<Sum>l < cols a. entry a i l * entry b l k) * entry c k j)
      = (\<Sum>l < cols a. entry a i l * (\<Sum>k < cols b. entry b l k * entry c k j))" for i j
    by (simp add: sum_distrib_left sum_distrib_right mult.assoc) (rule sum.swap)
  with assms show ?thesis unfolding mat_mul_eq mat_sel by (intro of_entries_cong) simp
qed

lemma mat_mul_distrib:
  assumes "rows b = rows c" "cols b = cols c" "cols a = rows b"
  shows "mat_mul a (mat (rows b) (cols b) (mat_add b c)) =
    mat_add (mat (rows a) (cols b) (mat_mul a b)) (mat (rows a) (cols b) (mat_mul a c))"
  using assms unfolding mat_mul_eq mat_add_eq
  by (auto intro!: of_entries_cong simp: distrib_left sum.distrib)

lemma mat_mul_identity:
  assumes "is_matrix N M a"
  shows "mat_mul (identity_matrix N) (mat N M a) = a" "mat_mul (mat N M a) (identity_matrix M) = a"
  unfolding mat_mul_eq using assms
  by (auto intro!: matrix_eqI [of N M] simp: if_distrib [of "\<lambda>x. x * _"] if_distrib [of "\<lambda>x. _ * x"] sum.delta
      cong: if_cong)

lemma mat_mul_transposed:
  assumes "cols a = rows b"
  shows "transposed_to_matrix (mat (rows a) (cols b) (mat_mul a b)) =
    mat_mul (transposed_matrix b) (transposed_matrix a)"
  unfolding mat_mul_eq transposed_to_matrix_eq using assms
  by (auto intro!: of_entries_cong sum.cong simp: mult.commute)

lemma mat_add_sub:
  assumes "is_matrix N M a" "is_matrix N M b"
  shows "mat_sub (mat N M (mat_add (mat N M a) (mat N M b))) (mat N M b) = a"
  unfolding mat_add_eq mat_sub_eq using assms by (auto intro!: matrix_eqI [of N M])

section \<open>The determinant\<close>

text \<open>The sum over the first column, for dimensions that \<open>for_each_index\<close> visits completely.\<close>

lemma fold_add_sum: "fold (\<lambda>I res. res + f I) [0..<n] (0 :: 'a :: comm_ring_1) = (\<Sum>I < n. f I)"
  by (induction n) auto

lemma determinant_step:
  assumes "2 < n" "n \<le> 64"
  shows "determinant n m = (\<Sum>I < n. (-1) ^ I * entry m I 0 * determinant (n - 1) (rowcol_submatrix m I 0))"
proof -
  obtain k where n: "n = Suc (Suc (Suc k))" using assms(1) less_iff_Suc_add [of 2 n] by auto
  have "(if I mod 2 = 0 then 1 else - 1) = ((-1) ^ I :: 'a)" for I by (auto simp: even_iff_mod_2_eq_zero minus_one_power_iff)
  then show ?thesis using assms(2) unfolding n
    by (simp add: for_each_index_def index_seq_eq fold_add_sum del: sum.lessThan_Suc upt_Suc)
qed

lemma determinant_two: "determinant 2 m = entry m 0 0 * entry m 1 1 - entry m 0 1 * entry m 1 0"
  by (simp add: numeral_2_eq_2)

lemma submatrix_entry: "entry (rowcol_submatrix m I 0) i j = entry m (if i < I then i else i + 1) (j + 1)"
  by (simp add: rowcol_submatrix_def)

text \<open>Only the entries inside of the dimensions count.\<close>

lemma determinant_cong:
  assumes "2 \<le> n" "n \<le> 64" "\<And>i j. i < n \<Longrightarrow> j < n \<Longrightarrow> entry f i j = entry g i j"
  shows "determinant n f = determinant n g"
  using assms
proof (induction n arbitrary: f g rule: nat_induct_at_least)
  case (Suc n)
  have "determinant n (rowcol_submatrix f I 0) = determinant n (rowcol_submatrix g I 0)" if "I < Suc n" for I
    using Suc.prems that by (intro Suc.IH) (auto simp: submatrix_entry)
  then show ?case using Suc.prems Suc.hyps by (simp add: determinant_step cong: sum.cong_simp)
qed (simp add: determinant_two)

text \<open>It is linear in each row.\<close>

lemma determinant_linear:
  assumes "2 \<le> n" "n \<le> 64" "r < n"
    and "\<And>i j. i < n \<Longrightarrow> j < n \<Longrightarrow> i \<noteq> r \<Longrightarrow> entry f i j = entry g i j \<and> entry f i j = entry h i j"
    and "\<And>j. j < n \<Longrightarrow> entry f r j = a * entry g r j + b * entry h r j"
  shows "determinant n f = a * determinant n g + b * determinant n h"
  using assms
proof (induction n arbitrary: f g h r rule: nat_induct_at_least)
  case base
  then consider "r = 0" | "r = 1" by force
  moreover have "entry f i j = entry g i j" "entry h i j = entry g i j" if "i < 2" "j < 2" "i \<noteq> r" for i j
    using base(3) [OF that] by auto
  ultimately show ?case using base(4) by cases (simp_all add: determinant_two algebra_simps)
next
  case (Suc n)
  let ?t = "\<lambda>f I. (-1) ^ I * entry f I 0 * determinant n (rowcol_submatrix f I 0)"
  have "?t f I = a * ?t g I + b * ?t h I" if I: "I < Suc n" for I
  proof (cases "I = r")
    case True
    have eq: "entry g i j = entry f i j" "entry h i j = entry f i j" if "i < Suc n" "j < Suc n" "i \<noteq> r" for i j
      using Suc.prems(3) [OF that] by auto
    have "determinant n (rowcol_submatrix g I 0) = determinant n (rowcol_submatrix f I 0)"
      "determinant n (rowcol_submatrix h I 0) = determinant n (rowcol_submatrix f I 0)"
      using eq Suc.prems(1) Suc.hyps True by (intro determinant_cong; auto simp: submatrix_entry)+
    moreover have "entry f I 0 = a * entry g I 0 + b * entry h I 0" using Suc.prems True by simp
    ultimately show ?thesis by (simp add: algebra_simps)
  next
    case False
    let ?r = "if r < I then r else r - 1"
    have "determinant n (rowcol_submatrix f I 0)
        = a * determinant n (rowcol_submatrix g I 0) + b * determinant n (rowcol_submatrix h I 0)"
    proof (rule Suc.IH [of ?r])
      fix j assume j: "j < n"
      have r: "(if ?r < I then ?r else ?r + 1) = r" using False by auto
      show "entry (rowcol_submatrix f I 0) ?r j = a * entry (rowcol_submatrix g I 0) ?r j + b * entry (rowcol_submatrix h I 0) ?r j"
        using Suc.prems(4) [of "j + 1"] j unfolding submatrix_entry r by simp
    next
      fix i j assume ij: "i < n" "j < n" "i \<noteq> ?r"
      then have "(if i < I then i else i + 1) \<noteq> r" "(if i < I then i else i + 1) < Suc n"
        using False by (auto split: if_splits)
      then show "entry (rowcol_submatrix f I 0) i j = entry (rowcol_submatrix g I 0) i j \<and>
          entry (rowcol_submatrix f I 0) i j = entry (rowcol_submatrix h I 0) i j"
        unfolding submatrix_entry using ij(2) by (intro Suc.prems(3)) simp_all
    qed (use Suc.prems Suc.hyps I False in auto)
    moreover have "entry f I 0 = entry g I 0" "entry f I 0 = entry h I 0" using Suc.prems(3) [of I 0] I False by auto
    ultimately show ?thesis by (simp add: algebra_simps)
  qed
  then show ?case using Suc.prems Suc.hyps
    by (simp add: determinant_step sum_distrib_left sum.distrib del: sum.lessThan_Suc cong: sum.cong_simp)
qed

text \<open>It changes its sign when two adjacent rows are exchanged.\<close>

definition swap_row :: "nat \<Rightarrow> nat \<Rightarrow> nat" where
  "swap_row p i = (if i = p then p + 1 else if i = p + 1 then p else i)"

lemma determinant_swap:
  assumes "2 \<le> n" "n \<le> 64" "p + 1 < n"
    and "\<And>i j. i < n \<Longrightarrow> j < n \<Longrightarrow> entry g i j = entry f (swap_row p i) j"
  shows "determinant n g = - determinant n f"
  using assms
proof (induction n arbitrary: f g p rule: nat_induct_at_least)
  case base
  then have "p = 0" by simp
  then show ?case using base by (simp add: determinant_two swap_row_def algebra_simps)
next
  case (Suc n)
  let ?t = "\<lambda>f I. (-1) ^ I * entry f I 0 * determinant n (rowcol_submatrix f I 0)"
  have t: "?t g I = - ?t f (swap_row p I)" if I: "I < Suc n" for I
  proof (cases "I = p \<or> I = p + 1")
    case True
    have sub: "determinant n (rowcol_submatrix g I 0) = determinant n (rowcol_submatrix f (swap_row p I) 0)"
      using Suc.prems Suc.hyps True I
      by (intro determinant_cong) (auto simp: submatrix_entry swap_row_def)
    have "(-1) ^ I = - ((-1) ^ swap_row p I :: 'a)" using True by (auto simp: swap_row_def)
    moreover have "entry g I 0 = entry f (swap_row p I) 0" using Suc.prems I by simp
    ultimately show ?thesis using sub by simp
  next
    case False
    let ?p = "if p < I then p else p - 1"
    have "determinant n (rowcol_submatrix g I 0) = - determinant n (rowcol_submatrix f I 0)"
      using Suc.prems Suc.hyps I False
      by (intro Suc.IH [of ?p]) (auto simp: submatrix_entry swap_row_def)
    moreover have "swap_row p I = I" using False by (simp add: swap_row_def)
    ultimately show ?thesis using Suc.prems I by simp
  qed
  have perm: "(\<Sum>I < Suc n. ?t f (swap_row p I)) = (\<Sum>I < Suc n. ?t f I)"
    by (rule sum.reindex_bij_witness [of _ "swap_row p" "swap_row p"]) (use Suc.prems in \<open>auto simp: swap_row_def\<close>)
  have "(\<Sum>I < Suc n. ?t g I) = - (\<Sum>I < Suc n. ?t f I)"
    unfolding perm [symmetric] sum_negf [symmetric] using t by (intro sum.cong) auto
  then show ?case using Suc.prems Suc.hyps by (simp add: determinant_step del: sum.lessThan_Suc)
qed

text \<open>The determinant of an upper triangular matrix, the identity for one, is the product of its diagonal.\<close>

lemma determinant_triangular:
  assumes "2 \<le> n" "n \<le> 64" "\<And>i j. j < i \<Longrightarrow> i < n \<Longrightarrow> entry m i j = 0"
  shows "determinant n m = (\<Prod>i < n. entry m i i)"
  using assms
proof (induction n arbitrary: m rule: nat_induct_at_least)
  case base
  then show ?case by (simp add: determinant_two numeral_2_eq_2)
next
  case (Suc n)
  have "entry m (Suc I) 0 = 0" if "I < n" for I using Suc.prems(2) [of 0 "Suc I"] that by simp
  then have "(\<Sum>I < Suc n. (-1) ^ I * entry m I 0 * determinant n (rowcol_submatrix m I 0)) =
      (\<Sum>I < Suc n. if I = 0 then entry m 0 0 * determinant n (rowcol_submatrix m 0 0) else 0)"
    by (intro sum.cong) (auto simp: less_Suc_eq_0_disj)
  then have "determinant (Suc n) m = (\<Sum>I < Suc n. if I = 0 then entry m 0 0 * determinant n (rowcol_submatrix m 0 0) else 0)"
    using Suc.prems Suc.hyps by (simp add: determinant_step del: sum.lessThan_Suc)
  also have "\<dots> = entry m 0 0 * determinant n (rowcol_submatrix m 0 0)" by (subst sum.delta) auto
  also have "determinant n (rowcol_submatrix m 0 0) = (\<Prod>i < n. entry m (i + 1) (i + 1))"
    using Suc.prems by (subst Suc.IH) (auto simp: submatrix_entry)
  finally show ?case by (simp add: prod.lessThan_Suc_shift del: prod.lessThan_Suc)
qed

lemma inverse1_eq: "entry m 0 0 \<noteq> 0 \<Longrightarrow> rows m = 1 \<Longrightarrow> cols m = 1 \<Longrightarrow>
    mat_mul m (mat 1 1 (inverse1 m)) = identity_to_matrix 1"
  unfolding mat_mul_eq identity_to_matrix_eq
  by (simp add: inverse1_def set_entry_def matrix_init_def of_entries_def)

lemma inverse2_eq:
  assumes "determinant 2 m \<noteq> 0" "rows m = 2" "cols m = 2"
  shows "mat_mul m (mat 2 2 (inverse2 m)) = identity_to_matrix 2" "mat_mul (mat 2 2 (inverse2 m)) m = identity_to_matrix 2"
proof -
  let ?v = "1 / determinant 2 m"
  have inv: "inverse2 m = [[entry m 1 1 * ?v, - entry m 0 1 * ?v], [- entry m 1 0 * ?v, entry m 0 0 * ?v]]"
    unfolding inverse2_def Let_def by (subst mat_scale_eq)
      (simp_all add: is_matrix_def matrix_init_def of_entries_def numeral_2_eq_2 upt_rec)
  have "?v * (entry m 0 0 * entry m (Suc 0) (Suc 0) - entry m 0 (Suc 0) * entry m (Suc 0) 0) = 1"
    using assms(1) by (simp add: determinant_two)
  then have d: "\<And>v. v = ?v \<Longrightarrow> v * (entry m 0 0 * entry m (Suc 0) (Suc 0) - entry m 0 (Suc 0) * entry m (Suc 0) 0) = 1"
    by simp
  show "mat_mul m (mat 2 2 (inverse2 m)) = identity_to_matrix 2" "mat_mul (mat 2 2 (inverse2 m)) m = identity_to_matrix 2"
    unfolding mat_mul_eq identity_to_matrix_eq inv
    using assms(2,3) d [OF refl] unfolding right_diff_distrib
    by (simp_all add: of_entries_def numeral_2_eq_2 upt_rec algebra_simps del: times_divide_eq_left times_divide_eq_right)
qed

section \<open>Scaling a view\<close>

text \<open>Scaling a transposed view of a matrix scales the matrix that it refers to as well.\<close>

lemma transposed_loop:
  assumes "is_matrix N M m" "n \<le> M"
  shows "is_matrix N M (fold (\<lambda>i m. fold (\<lambda>j m. set_entry m j i (m ! j ! i * val)) [0..<N] m) [0..<n] m) \<and>
    (\<forall>i < N. \<forall>j < M. fold (\<lambda>i m. fold (\<lambda>j m. set_entry m j i (m ! j ! i * val)) [0..<N] m) [0..<n] m ! i ! j =
      (if j < n then m ! i ! j * val else m ! i ! j))"
  using assms(2)
proof (induction n)
  case (Suc n)
  let ?m = "fold (\<lambda>i m. fold (\<lambda>j m. set_entry m j i (m ! j ! i * val)) [0..<N] m) [0..<n] m"
  have "is_matrix N M (fold (\<lambda>j m. set_entry m j n (m ! j ! n * val)) [0..<k] ?m) \<and>
    (\<forall>i < N. \<forall>j < M. fold (\<lambda>j m. set_entry m j n (m ! j ! n * val)) [0..<k] ?m ! i ! j =
      (if j = n \<and> i < k then ?m ! i ! j * val else ?m ! i ! j))" if "k \<le> N" for k
    using that
  proof (induction k)
    case (Suc k)
    let ?r = "fold (\<lambda>j m. set_entry m j n (m ! j ! n * val)) [0..<k] ?m"
    have IH: "is_matrix N M ?r" "\<forall>i < N. \<forall>j < M. ?r ! i ! j = (if j = n \<and> i < k then ?m ! i ! j * val else ?m ! i ! j)"
      using Suc by auto
    have n: "n < M" using \<open>Suc n \<le> M\<close> by simp
    have "?r ! k ! n = ?m ! k ! n" using IH(2) n Suc.prems by simp
    then show ?case using IH n Suc.prems set_entry_matrix [OF IH(1)]
      by (auto simp: nth_set_entry [OF IH(1), of k n] less_Suc_eq)
  qed (use Suc in simp)
  from this [of N] show ?case using Suc by (auto simp: less_Suc_eq)
qed (use assms(1) in simp)

lemma transposed_scale_eq:
  assumes "is_matrix N M m"
  shows "transposed_scale N M m val =
    (of_entries M N (\<lambda>i j. m ! j ! i * val), of_entries N M (\<lambda>i j. m ! i ! j * val))"
proof -
  let ?m = "fold (\<lambda>i m. fold (\<lambda>j m. set_entry m j i (m ! j ! i * val)) [0..<N] m) [0..<M] m"
  have m: "is_matrix N M ?m" "\<forall>i < N. \<forall>j < M. ?m ! i ! j = m ! i ! j * val"
    using transposed_loop [OF assms order_refl, of val] by auto
  then have "?m = of_entries N M (\<lambda>i j. m ! i ! j * val)" by (intro matrix_eqI [of N M]) auto
  then show ?thesis
    by (simp add: transposed_scale_def Let_def transposed_to_matrix_eq) (intro of_entries_cong, simp)
qed

end
