(* ===== verification/Quantity.thy ===== *)
theory Quantity
  imports Algorithm
begin

text \<open>
  \<open>quantity.hpp\<close> and \<open>physical_quantity.hpp\<close>: numbers with a type of their own, and the types of
  physical units, of which multiplication and division compute the exponents.  The numbers are those of
  an ordered field: the rounding of \<open>float\<close> and the wrap-around of integral quantities are left out.  A
  sum of quantities of two types does not compile; the model has one type of quantities and keeps the
  unit of a physical quantity with it.
\<close>

section \<open>Quantities\<close>

datatype 'a quantity = Quantity (val_of: 'a)

definition q_zero :: "('a :: linordered_field) quantity" where
  "q_zero = Quantity 0"

definition q_add_assign :: "('a :: linordered_field) quantity \<Rightarrow> 'a quantity \<Rightarrow> 'a quantity" where
  "q_add_assign q other = Quantity (val_of q + val_of other)"

definition q_sub_assign :: "('a :: linordered_field) quantity \<Rightarrow> 'a quantity \<Rightarrow> 'a quantity" where
  "q_sub_assign q other = Quantity (val_of q - val_of other)"

definition q_div_assign :: "('a :: linordered_field) quantity \<Rightarrow> 'a \<Rightarrow> 'a quantity" where
  "q_div_assign q v = Quantity (val_of q / v)"

definition q_mul_assign :: "('a :: linordered_field) quantity \<Rightarrow> 'a \<Rightarrow> 'a quantity" where
  "q_mul_assign q v = Quantity (val_of q * v)"

definition q_plus :: "('a :: linordered_field) quantity \<Rightarrow> 'a quantity \<Rightarrow> 'a quantity" where
  "q_plus lhs rhs = q_add_assign lhs rhs"

definition q_minus :: "('a :: linordered_field) quantity \<Rightarrow> 'a quantity \<Rightarrow> 'a quantity" where
  "q_minus lhs rhs = q_sub_assign lhs rhs"

definition q_uminus :: "('a :: linordered_field) quantity \<Rightarrow> 'a quantity" where
  "q_uminus q = Quantity (- val_of q)"

definition q_less_value :: "('a :: linordered_field) quantity \<Rightarrow> 'a \<Rightarrow> bool" where
  "q_less_value lhs rhs \<longleftrightarrow> val_of lhs < rhs"

definition value_less_q :: "('a :: linordered_field) \<Rightarrow> 'a quantity \<Rightarrow> bool" where
  "value_less_q lhs rhs \<longleftrightarrow> lhs < val_of rhs"

definition q_scale :: "('a :: linordered_field) quantity \<Rightarrow> 'a \<Rightarrow> 'a quantity" where
  "q_scale q v = q_mul_assign q v"

definition q_divide :: "('a :: linordered_field) quantity \<Rightarrow> 'a \<Rightarrow> 'a quantity" where
  "q_divide q v = q_div_assign q v"

definition q_abs :: "('a :: linordered_field) quantity \<Rightarrow> 'a quantity" where
  "q_abs q = Quantity \<bar>val_of q\<bar>"

definition q_max :: "('a :: linordered_field) quantity \<Rightarrow> 'a quantity \<Rightarrow> 'a quantity" where
  "q_max lh rh = Quantity (if val_of lh < val_of rh then val_of rh else val_of lh)"

definition q_min :: "('a :: linordered_field) quantity \<Rightarrow> 'a quantity \<Rightarrow> 'a quantity" where
  "q_min lh rh = Quantity (if val_of rh < val_of lh then val_of rh else val_of lh)"

definition value_over_q :: "('a :: linordered_field) \<Rightarrow> 'a quantity \<Rightarrow> 'a" where
  "value_over_q v q = v / val_of q"

text \<open>The comparison \<open><=>\<close> is that of the values.\<close>

instantiation quantity :: (linordered_field) linorder
begin

definition less_eq_quantity :: "'a quantity \<Rightarrow> 'a quantity \<Rightarrow> bool" where
  "less_eq_quantity a b \<longleftrightarrow> val_of a \<le> val_of b"

definition less_quantity :: "'a quantity \<Rightarrow> 'a quantity \<Rightarrow> bool" where
  "less_quantity a b \<longleftrightarrow> val_of a < val_of b"

instance
  by standard (auto simp: less_eq_quantity_def less_quantity_def intro: quantity.expand)

end

lemmas q_defs = q_zero_def q_add_assign_def q_sub_assign_def q_div_assign_def q_mul_assign_def q_plus_def q_minus_def
  q_uminus_def q_less_value_def value_less_q_def q_scale_def q_divide_def q_abs_def q_max_def q_min_def value_over_q_def
  less_eq_quantity_def less_quantity_def

lemma q_max_min: "q_max a b = max a b" "q_min a b = min a b"
  by (cases a; cases b; auto simp: q_defs max_def min_def)+

lemma q_group:
  "q_plus a (q_plus b c) = q_plus (q_plus a b) c" "q_plus a b = q_plus b a" "q_plus a q_zero = a"
  "q_minus a b = q_plus a (q_uminus b)" "q_plus a (q_uminus a) = q_zero"
  by (cases a; cases b; cases c; simp add: q_defs)+

lemma q_scaling:
  "q_scale (q_plus a b) v = q_plus (q_scale a v) (q_scale b v)" "v \<noteq> 0 \<Longrightarrow> q_divide (q_scale a v) v = a"
  "v \<noteq> 0 \<Longrightarrow> val_of a \<noteq> 0 \<Longrightarrow> value_over_q v a * val_of a = v"
  by (cases a; cases b; simp add: q_defs algebra_simps)+

lemma q_order: "a \<le> b \<Longrightarrow> q_plus a c \<le> q_plus b c" "q_zero \<le> q_abs a" "q_max (q_uminus a) a = q_abs a"
  by (cases a; cases b; cases c; auto simp: q_defs)+

section \<open>Units\<close>

record dims =
  Len :: int
  Mass :: int
  Time :: int
  Current :: int
  Temp :: int
  Mol :: int
  Li :: int
  Angle :: int
  Byte :: int

record 'a physical =
  units :: dims
  quant :: "'a quantity"

definition map2_dims :: "(int \<Rightarrow> int \<Rightarrow> int) \<Rightarrow> dims \<Rightarrow> dims \<Rightarrow> dims" where
  "map2_dims f a b =
     \<lparr>Len = f (Len a) (Len b), Mass = f (Mass a) (Mass b), Time = f (Time a) (Time b),
      Current = f (Current a) (Current b), Temp = f (Temp a) (Temp b), Mol = f (Mol a) (Mol b),
      Li = f (Li a) (Li b), Angle = f (Angle a) (Angle b), Byte = f (Byte a) (Byte b)\<rparr>"

definition all_dims :: "(int \<Rightarrow> bool) \<Rightarrow> dims \<Rightarrow> bool" where
  "all_dims P d \<longleftrightarrow> P (Len d) \<and> P (Mass d) \<and> P (Time d) \<and> P (Current d) \<and> P (Temp d) \<and> P (Mol d) \<and>
     P (Li d) \<and> P (Angle d) \<and> P (Byte d)"

definition physical_mul :: "('a :: linordered_field) physical \<Rightarrow> 'a physical \<Rightarrow> 'a physical" where
  "physical_mul lh rh =
     \<lparr>units = map2_dims (+) (units lh) (units rh), quant = Quantity (val_of (quant lh) * val_of (quant rh))\<rparr>"

definition physical_div :: "('a :: linordered_field) physical \<Rightarrow> 'a physical \<Rightarrow> 'a physical" where
  "physical_div lh rh =
     \<lparr>units = map2_dims (-) (units lh) (units rh), quant = Quantity (val_of (quant lh) / val_of (quant rh))\<rparr>"

text \<open>\<open>sqrt\<close> does not compile unless all exponents are even; \<open>sqrtf\<close> is \<open>std::sqrt\<close>.\<close>

definition physical_sqrt :: "('a \<Rightarrow> 'a) \<Rightarrow> ('a :: linordered_field) physical \<Rightarrow> 'a physical option" where
  "physical_sqrt sqrtf v =
     (if all_dims even (units v)
      then Some \<lparr>units = map2_dims (\<lambda>x _. x div 2) (units v) (units v), quant = Quantity (sqrtf (val_of (quant v)))\<rparr>
      else None)"

definition physical_pow :: "int \<Rightarrow> ('a :: linordered_field) physical \<Rightarrow> 'a physical" where
  "physical_pow p v =
     \<lparr>units = map2_dims (\<lambda>x _. x * p) (units v) (units v), quant = Quantity (val_of (quant v) powi p)\<rparr>"

section \<open>The text of a unit\<close>

definition get_single_unit :: "int \<Rightarrow> string \<Rightarrow> string" where
  "get_single_unit Exp u =
     (if Exp = 0 then []
      else if Exp = 1 then u
      else u @ ''^'' @ (if Exp < 0 then ''-'' @ [char_of (nat (- Exp + 48))] else [char_of (nat (Exp + 48))]))"

definition get_unit :: "dims \<Rightarrow> string" where
  "get_unit d =
     concat [get_single_unit (Len d) ''m'', get_single_unit (Mass d) ''kg'', get_single_unit (Time d) ''s'',
             get_single_unit (Current d) ''A'', get_single_unit (Temp d) ''K'', get_single_unit (Mol d) ''mol'',
             get_single_unit (Li d) ''cd'', get_single_unit (Angle d) ''rad'', get_single_unit (Byte d) ''B'']"

lemma map2_dims_assoc:
  "map2_dims (+) a (map2_dims (+) b c) = map2_dims (+) (map2_dims (+) a b) c"
  "map2_dims (+) a b = map2_dims (+) b a" "map2_dims (-) (map2_dims (+) a b) b = a"
  "map2_dims (\<lambda>x _. x div 2) (map2_dims (+) a a) e = a" "all_dims even (map2_dims (+) a a)"
  "map2_dims (+) (map2_dims (\<lambda>x _. x * p) a a) (map2_dims (\<lambda>x _. x * q) a a) = map2_dims (\<lambda>x _. x * (p + q)) a a"
  by (simp_all add: map2_dims_def all_dims_def algebra_simps)

lemma physical_mul_div: "val_of (quant b) \<noteq> 0 \<Longrightarrow> physical_div (physical_mul a b) b = a"
  by (cases a; cases "quant a") (simp add: physical_mul_def physical_div_def map2_dims_assoc)

lemma physical_pow_add: "val_of (quant a) \<noteq> 0 \<Longrightarrow>
    physical_mul (physical_pow p a) (physical_pow q a) = physical_pow (p + q) a"
  by (simp add: physical_mul_def physical_pow_def map2_dims_assoc power_int_add)

lemma physical_sqrt_square:
  assumes "sqrtf (val_of (quant a) * val_of (quant a)) = val_of (quant a)"
  shows "physical_sqrt sqrtf (physical_mul a a) = Some a"
  using assms by (cases a; cases "quant a") (simp add: physical_mul_def physical_sqrt_def map2_dims_assoc)

text \<open>
  A unit is read off its text from the left: what follows a piece begins with the first letter of one of
  the other base units, and \<open>mol\<close> is not \<open>m\<close> before one of them.
\<close>

definition unit_starts :: "char set" where
  "unit_starts = set ''mksAKcrB''"

definition starts_ok :: "string \<Rightarrow> bool" where
  "starts_ok r \<longleftrightarrow> r = [] \<or> hd r \<in> unit_starts"

definition not_again :: "string \<Rightarrow> string \<Rightarrow> bool" where
  "not_again u r \<longleftrightarrow> (\<forall>t. r = u @ t \<longrightarrow> t \<noteq> [] \<and> hd t \<notin> insert CHR ''^'' unit_starts)"

lemma digit_eq: "0 \<le> a \<Longrightarrow> a < 10 \<Longrightarrow> 0 \<le> b \<Longrightarrow> b < 10 \<Longrightarrow>
    (char_of (nat (a + 48)) :: char) = char_of (nat (b + 48)) \<longleftrightarrow> a = b"
  by (simp add: char_of_eq_iff take_bit_eq_mod eq_nat_nat_iff)

lemma digit_minus: "0 \<le> a \<Longrightarrow> a < 10 \<Longrightarrow> char_of (nat (a + 48)) \<noteq> CHR ''-''"
  by (simp add: char_of_eq_iff take_bit_eq_mod)

lemma caret_not_start: "CHR ''^'' \<notin> unit_starts"
  by (simp add: unit_starts_def)

text \<open>A piece with a nonzero exponent is the name and something that is no start of a unit.\<close>

lemma piece_not_nothing:
  assumes "r = get_single_unit e u @ r'" "e \<noteq> 0" "starts_ok r'" "not_again u r"
  shows False
proof (cases "e = 1")
  case True
  then have "r = u @ r'" using assms(1) by (simp add: get_single_unit_def)
  then show False using assms(3,4) by (auto simp: not_again_def starts_ok_def)
next
  case False
  then obtain t where "r = u @ CHR ''^'' # t" using assms(1,2) by (auto simp: get_single_unit_def split: if_splits)
  then show False using assms(4) by (auto simp: not_again_def)
qed

lemma single_unit_eq:
  assumes eq: "get_single_unit e u @ r = get_single_unit e' u @ r'"
    and e: "- 10 < e" "e < 10" and e': "- 10 < e'" "e' < 10" and st: "starts_ok r" "starts_ok r'"
    and again: "not_again u r" "not_again u r'"
  shows "e = e' \<and> r = r'"
proof (cases "e = 0 \<or> e' = 0")
  case True
  then have "e = 0 \<and> e' = 0"
    using piece_not_nothing [of r e' u r'] piece_not_nothing [of r' e u r] eq st again
    by (cases "e = 0"; cases "e' = 0") (simp_all add: get_single_unit_def [of 0])
  then show ?thesis using eq by simp
next
  case False
  define suf where "suf x = (if x = 1 then [] else ''^'' @ (if x < 0 then ''-'' @ [char_of (nat (- x + 48))]
    else [char_of (nat (x + 48))]))" for x :: int
  have "suf e @ r = suf e' @ r'" using eq False by (auto simp: get_single_unit_def suf_def)
  moreover have "hd r \<noteq> CHR ''^'' \<or> r = []" "hd r' \<noteq> CHR ''^'' \<or> r' = []"
    using st caret_not_start by (auto simp: starts_ok_def)
  ultimately show ?thesis
    using False e e' digit_eq [of e e'] digit_eq [of "- e" "- e'"] digit_minus [of e] digit_minus [of e']
    by (cases r; cases r'; auto simp: suf_def split: if_splits)
qed

text \<open>The rest of a text after each piece.\<close>

lemma starts_ok_piece: "u \<noteq> [] \<Longrightarrow> hd u \<in> unit_starts \<Longrightarrow> starts_ok r \<Longrightarrow> starts_ok (get_single_unit e u @ r)"
  by (auto simp: get_single_unit_def starts_ok_def hd_append)

definition told_apart :: "string \<Rightarrow> string \<Rightarrow> bool" where
  "told_apart u v \<longleftrightarrow> (\<forall>t x. v @ t = u @ x \<longrightarrow> x \<noteq> [] \<and> hd x \<notin> insert CHR ''^'' unit_starts)"

fun names_ok :: "string list \<Rightarrow> bool" where
  "names_ok [] \<longleftrightarrow> True"
| "names_ok (u # us) \<longleftrightarrow> u \<noteq> [] \<and> hd u \<in> unit_starts \<and> list_all (told_apart u) us \<and> names_ok us"

fun pieces :: "int list \<Rightarrow> string list \<Rightarrow> string" where
  "pieces (e # es) (u # us) = get_single_unit e u @ pieces es us"
| "pieces _ _ = []"

lemma pieces_starts: "names_ok us \<Longrightarrow> starts_ok (pieces es us)"
  by (induction es us rule: pieces.induct) (simp_all add: starts_ok_piece, simp_all add: starts_ok_def)

lemma pieces_not_again: "list_all (told_apart u) us \<Longrightarrow> u \<noteq> [] \<Longrightarrow> not_again u (pieces es us)"
  by (induction es us rule: pieces.induct) (auto simp: get_single_unit_def not_again_def told_apart_def)

lemma pieces_inject:
  "pieces es us = pieces es' us \<Longrightarrow> names_ok us \<Longrightarrow> length es = length us \<Longrightarrow> length es' = length us \<Longrightarrow>
   \<forall>e \<in> set es \<union> set es'. - 10 < e \<and> e < 10 \<Longrightarrow> es = es'"
proof (induction es us arbitrary: es' rule: pieces.induct)
  case (1 e es u us)
  then obtain e' es'' where es': "es' = e' # es''" by (cases es') auto
  have "e = e' \<and> pieces es us = pieces es'' us"
    using 1 es' by (intro single_unit_eq [of e u _ e']) (auto intro: pieces_starts pieces_not_again)
  then show ?case using 1 es' by auto
qed auto

definition unit_names :: "string list" where
  "unit_names = [''m'', ''kg'', ''s'', ''A'', ''K'', ''mol'', ''cd'', ''rad'', ''B'']"

lemma unit_names_ok: "names_ok unit_names"
  by (auto simp: unit_names_def told_apart_def unit_starts_def)

text \<open>Two units have the same text only if they are the same.\<close>

lemma get_unit_inject:
  assumes "get_unit d = get_unit d'" "all_dims (\<lambda>x. - 10 < x \<and> x < 10) d" "all_dims (\<lambda>x. - 10 < x \<and> x < 10) d'"
  shows "d = d'"
proof -
  let ?es = "\<lambda>d. [Len d, Mass d, Time d, Current d, Temp d, Mol d, Li d, Angle d, Byte d]"
  have "get_unit d = pieces (?es d) unit_names" for d by (simp add: get_unit_def unit_names_def)
  then have "?es d = ?es d'"
    using pieces_inject [OF _ unit_names_ok, of "?es d" "?es d'"] assms by (simp add: all_dims_def unit_names_def)
  then show ?thesis by (intro dims.equality) auto
qed

end
