(* ===== verification/Iterators.thy ===== *)
theory Iterators
  imports Complex_Main Algorithm Serializer
begin

text \<open>
  \<open>iterator.hpp\<close>, \<open>iterators/numeric.hpp\<close>, \<open>iterators/convert.hpp\<close>, \<open>view.hpp\<close>, \<open>range.hpp\<close>,
  \<open>convert_view.hpp\<close>, \<open>zip.hpp\<close>, \<open>enumerate.hpp\<close> and \<open>experimental/bounded_view.hpp\<close>: iterators and
  the views between two of them.  The type of an iterator is a type variable and its operators are a
  record of functions.
\<close>

section \<open>Iterators\<close>

text \<open>
  The operators that a class of iterators defines: \<open>*it\<close>, \<open>it += n\<close>, \<open>it -= n\<close>, \<open>a == b\<close>, \<open>a - b\<close>.
  A dereference outside of what the iterator runs over is undefined, \<^const>\<open>None\<close>.
\<close>

record ('it, 'v) iter_class =
  deref :: "'it \<Rightarrow> 'v option"
  add_assign :: "'it \<Rightarrow> int \<Rightarrow> 'it"
  sub_assign :: "'it \<Rightarrow> int \<Rightarrow> 'it"
  it_eq :: "'it \<Rightarrow> 'it \<Rightarrow> bool"
  it_diff :: "'it \<Rightarrow> 'it \<Rightarrow> int"

text \<open>What \<open>generic_iterator\<close> adds; a postfix operator gives the copy and the new iterator.\<close>

definition pre_inc :: "('it, 'v) iter_class \<Rightarrow> 'it \<Rightarrow> 'it" where
  "pre_inc C it = add_assign C it 1"

definition post_inc :: "('it, 'v) iter_class \<Rightarrow> 'it \<Rightarrow> 'it \<times> 'it" where
  "post_inc C it = (let copy = it in (copy, add_assign C it 1))"

definition pre_dec :: "('it, 'v) iter_class \<Rightarrow> 'it \<Rightarrow> 'it" where
  "pre_dec C it = sub_assign C it 1"

definition post_dec :: "('it, 'v) iter_class \<Rightarrow> 'it \<Rightarrow> 'it \<times> 'it" where
  "post_dec C it = (let copy = it in (copy, sub_assign C it 1))"

definition it_plus :: "('it, 'v) iter_class \<Rightarrow> 'it \<Rightarrow> int \<Rightarrow> 'it" where
  "it_plus C it v = (let copy = it in add_assign C copy v)"

definition it_minus :: "('it, 'v) iter_class \<Rightarrow> 'it \<Rightarrow> int \<Rightarrow> 'it" where
  "it_minus C it v = (let copy = it in sub_assign C copy v)"

text \<open>A pointer into an array is an index of it.\<close>

definition pointer :: "'v list \<Rightarrow> (int, 'v) iter_class" where
  "pointer xs =
     \<lparr>deref = \<lambda>i. if 0 \<le> i \<and> i < int (length xs) then Some (xs ! nat i) else None,
      add_assign = (+), sub_assign = (-), it_eq = (=), it_diff = (-)\<rparr>"

definition ptrdiff :: base_type where
  "ptrdiff = BSInt 8"

definition numeric_iterator :: "base_type \<Rightarrow> (int, int) iter_class" where
  "numeric_iterator T =
     \<lparr>deref = Some,
      add_assign = (\<lambda>val offset. cast_to T (val + cast_to T offset)),
      sub_assign = (\<lambda>val offset. cast_to T (val - cast_to T offset)),
      it_eq = (=),
      it_diff = (\<lambda>a b. cast_to ptrdiff a - cast_to ptrdiff b)\<rparr>"

definition convert_iterator :: "('v \<Rightarrow> 't) \<Rightarrow> ('it, 'v) iter_class \<Rightarrow> ('it, 't) iter_class" where
  "convert_iterator conv C =
     \<lparr>deref = (\<lambda>it. map_option conv (deref C it)),
      add_assign = (\<lambda>it offset. add_assign C it offset),
      sub_assign = (\<lambda>it offset. add_assign C it (- offset)),
      it_eq = it_eq C, it_diff = it_diff C\<rparr>"

text \<open>\<open>std::reverse_iterator\<close>.\<close>

definition reverse_iterator :: "('it, 'v) iter_class \<Rightarrow> ('it, 'v) iter_class" where
  "reverse_iterator C =
     \<lparr>deref = (\<lambda>it. deref C (add_assign C it (- 1))),
      add_assign = (\<lambda>it n. add_assign C it (- n)), sub_assign = add_assign C,
      it_eq = it_eq C, it_diff = (\<lambda>a b. it_diff C b a)\<rparr>"

section \<open>Views\<close>

record 'it view =
  v_begin :: 'it
  v_end :: 'it

definition view_size :: "('it, 'v) iter_class \<Rightarrow> 'it view \<Rightarrow> nat" where
  "view_size C v = nat (it_diff C (v_end v) (v_begin v) mod 2 ^ 64)"

definition view_empty :: "('it, 'v) iter_class \<Rightarrow> 'it view \<Rightarrow> bool" where
  "view_empty C v = it_eq C (v_begin v) (v_end v)"

definition view_nth :: "('it, 'v) iter_class \<Rightarrow> 'it view \<Rightarrow> nat \<Rightarrow> 'v option" where
  "view_nth C v i = deref C (it_plus C (v_begin v) (int i))"

definition view_front :: "('it, 'v) iter_class \<Rightarrow> 'it view \<Rightarrow> 'v option" where
  "view_front C v = deref C (v_begin v)"

definition view_back :: "('it, 'v) iter_class \<Rightarrow> 'it view \<Rightarrow> 'v option" where
  "view_back C v = deref C (add_assign C (v_end v) (- 1))"

text \<open>A loop over a view; it may never get to the end.\<close>

partial_function (option) view_items :: "('it, 'v) iter_class \<Rightarrow> 'it \<Rightarrow> 'it \<Rightarrow> 'v list option" where
  "view_items C it stop =
     (if it_eq C it stop then Some []
      else do { x \<leftarrow> deref C it; xs \<leftarrow> view_items C (pre_inc C it) stop; Some (x # xs) })"

definition view_list :: "('it, 'v) iter_class \<Rightarrow> 'it view \<Rightarrow> 'v list option" where
  "view_list C v = view_items C (v_begin v) (v_end v)"

partial_function (option) eq_loop ::
  "('i, 'v) iter_class \<Rightarrow> ('j, 'v) iter_class \<Rightarrow> 'i \<Rightarrow> 'j \<Rightarrow> 'i \<Rightarrow> bool option" where
  "eq_loop C D lhiter rhiter stop =
     (if it_eq C lhiter stop then Some True
      else do {
        x \<leftarrow> deref C lhiter;
        y \<leftarrow> deref D rhiter;
        (if x \<noteq> y then Some False else eq_loop C D (pre_inc C lhiter) (pre_inc D rhiter) stop)
      })"

definition view_eq :: "('i, 'v) iter_class \<Rightarrow> ('j, 'v) iter_class \<Rightarrow> 'i view \<Rightarrow> 'j view \<Rightarrow> bool option" where
  "view_eq C D lh rh =
     (if view_size C lh \<noteq> view_size D rh then Some False
      else eq_loop C D (v_begin lh) (v_begin rh) (v_end lh))"

definition view_n :: "('it, 'v) iter_class \<Rightarrow> 'it \<Rightarrow> nat \<Rightarrow> 'it view" where
  "view_n C b n = \<lparr>v_begin = b, v_end = add_assign C b (int n)\<rparr>"

definition data_view :: "'v list \<Rightarrow> int view" where
  "data_view xs = view_n (pointer xs) 0 (length xs)"

text \<open>The number of items that \<open>trim_view\<close> leaves out at either end.\<close>

definition trim_step :: "nat \<Rightarrow> rat \<Rightarrow> nat" where
  "trim_step n r = nat \<lfloor>of_nat n * (1 - r) / 2\<rfloor>"

definition trim_view :: "'v list \<Rightarrow> rat \<Rightarrow> int view" where
  "trim_view xs r =
     (let step = int (trim_step (length xs) r) in \<lparr>v_begin = 0 + step, v_end = int (length xs) - step\<rparr>)"

definition reversed :: "'v list \<Rightarrow> int view" where
  "reversed xs = \<lparr>v_begin = int (length xs), v_end = 0\<rparr>"

text \<open>What \<open>string_serialize_view\<close> gives to its callback: items, and commas as \<^const>\<open>None\<close>.\<close>

fun serialize_items :: "bool \<Rightarrow> 'v list \<Rightarrow> 'v option list" where
  "serialize_items first [] = []"
| "serialize_items first (x # xs) = (if first then [] else [None]) @ Some x # serialize_items False xs"

definition string_serialize_view :: "('it, 'v) iter_class \<Rightarrow> 'it view \<Rightarrow> 'v option list option" where
  "string_serialize_view C v = map_option (serialize_items True) (view_list C v)"

definition range_view :: "int \<Rightarrow> int \<Rightarrow> int view" where
  "range_view from to = \<lparr>v_begin = from, v_end = to\<rparr>"

definition range_to :: "int \<Rightarrow> int view" where
  "range_to to = range_view 0 to"

definition convert_view :: "'v list \<Rightarrow> int view" where
  "convert_view xs = \<lparr>v_begin = 0, v_end = int (length xs)\<rparr>"

definition convert_view_n :: "('v \<Rightarrow> 't) \<Rightarrow> ('it, 'v) iter_class \<Rightarrow> 'it \<Rightarrow> nat \<Rightarrow> 'it view" where
  "convert_view_n conv C b n = view_n (convert_iterator conv C) b n"

section \<open>Zipping\<close>

text \<open>
  A \<open>zip_iterator\<close> has an iterator of each class, its value one of each; its decrement increments, and
  two are equal as soon as two of their iterators are.
\<close>

definition zip_inc :: "('it, 'v) iter_class list \<Rightarrow> 'it list \<Rightarrow> 'it list" where
  "zip_inc Cs its = map2 (\<lambda>C it. pre_inc C it) Cs its"

definition zip_dec :: "('it, 'v) iter_class list \<Rightarrow> 'it list \<Rightarrow> 'it list" where
  "zip_dec Cs its = map2 (\<lambda>C it. pre_inc C it) Cs its"

definition zip_add_assign :: "('it, 'v) iter_class list \<Rightarrow> 'it list \<Rightarrow> int \<Rightarrow> 'it list" where
  "zip_add_assign Cs its m = map2 (\<lambda>C it. add_assign C it m) Cs its"

definition zip_diff :: "('it, 'v) iter_class list \<Rightarrow> 'it list \<Rightarrow> 'it list \<Rightarrow> int" where
  "zip_diff Cs its other = it_diff (hd Cs) (hd its) (hd other)"

definition zip_deref :: "('it, 'v) iter_class list \<Rightarrow> 'it list \<Rightarrow> 'v list option" where
  "zip_deref Cs its = those (map2 deref Cs its)"

definition zip_eq :: "('it, 'v) iter_class list \<Rightarrow> 'it list \<Rightarrow> 'it list \<Rightarrow> bool" where
  "zip_eq Cs its other = list_ex (\<lambda>(C, it, o'). it_eq C it o') (zip Cs (zip its other))"

definition zip_iterator :: "('it, 'v) iter_class list \<Rightarrow> ('it list, 'v list) iter_class" where
  "zip_iterator Cs =
     \<lparr>deref = zip_deref Cs, add_assign = zip_add_assign Cs, sub_assign = (\<lambda>its _. zip_dec Cs its),
      it_eq = zip_eq Cs, it_diff = zip_diff Cs\<rparr>"

definition zip_view :: "'it view list \<Rightarrow> 'it list view" where
  "zip_view vs = \<lparr>v_begin = map v_begin vs, v_end = map v_end vs\<rparr>"

text \<open>The two iterators of \<open>enumerate\<close> have values of two types.\<close>

definition enumerate_classes :: "'v list \<Rightarrow> (int, int + 'v) iter_class list" where
  "enumerate_classes xs = [convert_iterator Inl (numeric_iterator (BUInt 8)), convert_iterator Inr (pointer xs)]"

definition enumerate_view :: "'v list \<Rightarrow> int list view" where
  "enumerate_view xs = zip_view [range_to (int (length xs)), \<lparr>v_begin = 0, v_end = int (length xs)\<rparr>]"

text \<open>\<open>zip\<close> of tuples of the same size.\<close>

definition tuple_zip :: "'a list list \<Rightarrow> 'a list list" where
  "tuple_zip tpls = map (\<lambda>i. map (\<lambda>t. t ! i) tpls) [0..<length (hd tpls)]"

section \<open>Bounded views\<close>

definition bounded_view_make :: "('it, 'v) iter_class \<Rightarrow> nat \<Rightarrow> nat \<Rightarrow> 'it view \<Rightarrow> 'it view option" where
  "bounded_view_make C lo hi v =
     (if view_size C v < lo then None else if view_size C v > hi then None else Some v)"

definition bounded_view_first :: "('it, 'v) iter_class \<Rightarrow> nat \<Rightarrow> 'it view \<Rightarrow> 'it view" where
  "bounded_view_first C N v = \<lparr>v_begin = v_begin v, v_end = it_plus C (v_begin v) (int N)\<rparr>"

definition bounded_view_offset :: "('it, 'v) iter_class \<Rightarrow> nat \<Rightarrow> 'it view \<Rightarrow> 'it view" where
  "bounded_view_offset C N v = \<lparr>v_begin = it_plus C (v_begin v) (int N), v_end = v_end v\<rparr>"

text \<open>The order of iterators is that of their distance.\<close>

definition bounded_view_opt_offset ::
  "('it, 'v) iter_class \<Rightarrow> nat \<Rightarrow> nat \<Rightarrow> nat \<Rightarrow> 'it view \<Rightarrow> 'it view option" where
  "bounded_view_opt_offset C lo hi n v =
     (let new_beg = it_plus C (v_begin v) (int n) in
      if it_diff C (it_plus C new_beg (int lo)) (v_end v) > 0 then None
      else let new_end = it_plus C new_beg (int hi) in
        if it_diff C new_end (v_end v) \<le> 0 then Some \<lparr>v_begin = new_beg, v_end = new_end\<rparr>
        else Some \<lparr>v_begin = new_beg, v_end = v_end v\<rparr>)"

section \<open>Iterators that run over a list\<close>

text \<open>
  What views rely on: \<open>pos i\<close> is the iterator of the \<open>i\<close>-th item of \<open>xs\<close>, from 0 to one past the last.
\<close>

definition span_of :: "(nat \<Rightarrow> 'it) \<Rightarrow> nat \<Rightarrow> 'it view" where
  "span_of pos n = \<lparr>v_begin = pos 0, v_end = pos n\<rparr>"

locale iterates =
  fixes C :: "('it, 'v) iter_class" and pos :: "nat \<Rightarrow> 'it" and xs :: "'v list"
  assumes deref_pos: "i < length xs \<Longrightarrow> deref C (pos i) = Some (xs ! i)"
    and inc_pos: "i < length xs \<Longrightarrow> pre_inc C (pos i) = pos (Suc i)"
    and eq_pos: "i \<le> length xs \<Longrightarrow> it_eq C (pos i) (pos (length xs)) \<longleftrightarrow> i = length xs"
begin

text \<open>The loop over the view ends, and visits the items of the list.\<close>

lemma items_drop: "i \<le> length xs \<Longrightarrow> view_items C (pos i) (pos (length xs)) = Some (drop i xs)"
proof (induction "length xs - i" arbitrary: i)
  case 0
  then show ?case using eq_pos [of i] by (subst view_items.simps) simp
next
  case (Suc n)
  then have i: "i < length xs" by simp
  then have "view_items C (pos (Suc i)) (pos (length xs)) = Some (drop (Suc i) xs)" using Suc by simp
  then show ?case using i
    by (subst view_items.simps) (simp add: eq_pos deref_pos inc_pos Cons_nth_drop_Suc)
qed

lemma view_list_whole: "view_list C (span_of pos (length xs)) = Some xs"
  using items_drop [of 0] by (simp add: view_list_def span_of_def)

lemma view_empty_whole: "view_empty C (span_of pos (length xs)) \<longleftrightarrow> xs = []"
  using eq_pos [of 0] by (auto simp: view_empty_def span_of_def)

lemma view_front_whole: "xs \<noteq> [] \<Longrightarrow> view_front C (span_of pos (length xs)) = Some (hd xs)"
  using deref_pos [of 0] by (simp add: view_front_def span_of_def hd_conv_nth)

end

text \<open>Random access: jumps and distances.\<close>

locale random_access = iterates C pos xs
  for C :: "('it, 'v) iter_class" and pos :: "nat \<Rightarrow> 'it" and xs :: "'v list" +
  assumes add_pos: "i \<le> length xs \<Longrightarrow> 0 \<le> int i + n \<Longrightarrow> int i + n \<le> int (length xs) \<Longrightarrow>
      add_assign C (pos i) n = pos (nat (int i + n))"
    and sub_pos: "i \<le> length xs \<Longrightarrow> 0 \<le> int i - n \<Longrightarrow> int i - n \<le> int (length xs) \<Longrightarrow>
      sub_assign C (pos i) n = pos (nat (int i - n))"
    and diff_pos: "i \<le> length xs \<Longrightarrow> j \<le> length xs \<Longrightarrow> it_diff C (pos i) (pos j) = int i - int j"
    and eq_iff_pos: "i \<le> length xs \<Longrightarrow> j \<le> length xs \<Longrightarrow> it_eq C (pos i) (pos j) \<longleftrightarrow> i = j"
begin

lemma view_size_part: "i \<le> j \<Longrightarrow> j \<le> length xs \<Longrightarrow> length xs < 2 ^ 63 \<Longrightarrow> view_size C \<lparr>v_begin = pos i, v_end = pos j\<rparr> = j - i"
  by (simp add: view_size_def diff_pos nat_mod_distrib flip: of_nat_diff)

lemma view_size_whole: "length xs < 2 ^ 63 \<Longrightarrow> view_size C (span_of pos (length xs)) = length xs"
  using view_size_part [of 0 "length xs"] by (simp add: span_of_def)

lemma view_nth_whole: "i < length xs \<Longrightarrow> view_nth C (span_of pos (length xs)) i = Some (xs ! i)"
  using add_pos [of 0 "int i"] by (simp add: view_nth_def span_of_def it_plus_def deref_pos)

lemma view_back_whole: "xs \<noteq> [] \<Longrightarrow> view_back C (span_of pos (length xs)) = Some (last xs)"
  using add_pos [of "length xs" "- 1"]
  by (cases "length xs") (auto simp: view_back_def span_of_def deref_pos last_conv_nth)

lemma increments: "i < length xs \<Longrightarrow> post_inc C (pos i) = (pos i, pos (Suc i))"
    "0 < i \<Longrightarrow> i \<le> length xs \<Longrightarrow> pre_dec C (pos i) = pos (i - 1)"
    "0 < i \<Longrightarrow> i \<le> length xs \<Longrightarrow> post_dec C (pos i) = (pos i, pos (i - 1))"
  using inc_pos [of i] sub_pos [of i 1]
  by (auto simp: post_inc_def pre_inc_def pre_dec_def post_dec_def nat_diff_distrib)

lemma view_n_part: "i + n \<le> length xs \<Longrightarrow> view_n C (pos i) n = \<lparr>v_begin = pos i, v_end = pos (i + n)\<rparr>"
  by (simp add: view_n_def add_pos nat_add_distrib)

end

text \<open>A part of a range, the range with the other end first, and with converted items.\<close>

lemma part_iterates:
  assumes "random_access C pos xs" "j \<le> length xs" "i \<le> j"
  shows "random_access C (\<lambda>k. pos (i + k)) (take (j - i) (drop i xs))"
proof -
  have len: "length (take (j - i) (drop i xs)) = j - i" using assms(2,3) by simp
  note L = random_access.axioms(1) [OF assms(1)]
  show ?thesis
    unfolding random_access_def iterates_def random_access_axioms_def len
    using assms(2,3)
    by (auto simp: iterates.deref_pos [OF L] iterates.inc_pos [OF L] random_access.eq_iff_pos [OF assms(1)]
      random_access.diff_pos [OF assms(1)] random_access.add_pos [OF assms(1)] random_access.sub_pos [OF assms(1)]
      intro!: arg_cong [where f = pos])
qed

lemma reverse_iterates:
  assumes "random_access C pos xs"
  shows "random_access (reverse_iterator C) (\<lambda>k. pos (length xs - k)) (rev xs)"
proof -
  note L = random_access.axioms(1) [OF assms]
  show ?thesis
    unfolding random_access_def iterates_def random_access_axioms_def length_rev
    by (auto simp: reverse_iterator_def pre_inc_def iterates.deref_pos [OF L] random_access.eq_iff_pos [OF assms]
      random_access.diff_pos [OF assms] random_access.add_pos [OF assms] rev_nth nat_diff_distrib
      intro!: arg_cong [where f = pos])
qed

lemma convert_iterates:
  assumes "random_access C pos xs"
  shows "random_access (convert_iterator conv C) pos (map conv xs)"
proof -
  note L = random_access.axioms(1) [OF assms]
  show ?thesis
    unfolding random_access_def iterates_def random_access_axioms_def length_map
    using iterates.inc_pos [OF L]
    by (auto simp: convert_iterator_def pre_inc_def iterates.deref_pos [OF L] random_access.eq_iff_pos [OF assms]
      random_access.diff_pos [OF assms] random_access.add_pos [OF assms])
qed

text \<open>Pointers into an array, and the numbers of a range that a type holds.\<close>

interpretation pointers: random_access "pointer xs" int xs for xs
  by unfold_locales (auto simp: pointer_def pre_inc_def)

definition numeric_type :: "base_type \<Rightarrow> bool" where
  "numeric_type T \<longleftrightarrow> (\<exists>n. 0 < n \<and> n \<le> 8 \<and> (T = BUInt n \<or> T = BSInt n))"

lemma take_bit_sum_cong: "take_bit m y = take_bit m z \<Longrightarrow> take_bit m (x + y) = take_bit m (x + z)" for x :: int
  by (metis take_bit_add)

lemma take_bit_diff_cong: "take_bit m y = take_bit m z \<Longrightarrow> take_bit m (x - y) = take_bit m (x - z)" for x :: int
  by (metis take_bit_diff)

lemma numeric_iterates:
  assumes T: "numeric_type T" and r: "int_in T from" "int_in T to" "from \<le> to" "- (2 ^ 63) \<le> from" "to < 2 ^ 63"
  shows "random_access (numeric_iterator T) (\<lambda>i. from + int i) [from..to - 1]"
proof -
  have between: "cast_to T x = x" if "from \<le> x" "x \<le> to" for x
    using that r T by (auto simp: numeric_type_def int_in_unsigned int_in_signed simp flip: int_in_def)
  have add: "cast_to T (x + cast_to T n) = cast_to T (x + n)" "cast_to T (x - cast_to T n) = cast_to T (x - n)" for x n
    using T by (auto simp: numeric_type_def signed_take_bit_eq_iff_take_bit_eq take_bit_signed_take_bit
        intro!: take_bit_sum_cong take_bit_diff_cong)
  have p: "cast_to ptrdiff x = x" if "from \<le> x" "x \<le> to" for x
  proof -
    have "int_in ptrdiff x" unfolding ptrdiff_def using that r by (subst int_in_signed) auto
    then show ?thesis by (simp add: int_in_def)
  qed
  show ?thesis
    by unfold_locales (use r(3) in \<open>auto simp: numeric_iterator_def pre_inc_def add between p\<close>)
qed

text \<open>The views that the code builds.\<close>

lemma range_items:
  assumes "numeric_type T" "int_in T from" "int_in T to" "from \<le> to" "- (2 ^ 63) \<le> from" "to < 2 ^ 63"
  shows "view_list (numeric_iterator T) (range_view from to) = Some [from..to - 1]"
  using iterates.view_list_whole [OF random_access.axioms(1) [OF numeric_iterates [OF assms]]] assms(4)
  by (simp add: span_of_def range_view_def)

lemma pointer_items:
  assumes "i \<le> j" "j \<le> length xs"
  shows "view_list (pointer xs) \<lparr>v_begin = int i, v_end = int j\<rparr> = Some (take (j - i) (drop i xs))"
  using iterates.view_list_whole [OF random_access.axioms(1) [OF part_iterates [OF pointers.random_access_axioms assms(2,1)]]]
    assms by (simp add: span_of_def)

lemma data_view_items: "view_list (pointer xs) (data_view xs) = Some xs"
  using pointer_items [of 0 "length xs" xs] by (simp add: data_view_def view_n_def pointer_def)

lemma trim_view_items:
  assumes "2 * trim_step (length xs) r \<le> length xs"
  shows "view_list (pointer xs) (trim_view xs r) =
    Some (take (length xs - 2 * trim_step (length xs) r) (drop (trim_step (length xs) r) xs))"
  using pointer_items [of "trim_step (length xs) r" "length xs - trim_step (length xs) r" xs] assms
  by (simp add: trim_view_def Let_def of_nat_diff mult_2 diff_diff_eq)

lemma reversed_items: "view_list (reverse_iterator (pointer xs)) (reversed xs) = Some (rev xs)"
  using iterates.view_list_whole [OF random_access.axioms(1) [OF reverse_iterates [OF pointers.random_access_axioms]], of xs]
  by (simp add: span_of_def reversed_def)

lemma convert_view_items: "view_list (convert_iterator conv (pointer xs)) (convert_view xs) = Some (map conv xs)"
  using iterates.view_list_whole [OF random_access.axioms(1) [OF convert_iterates [OF pointers.random_access_axioms [of xs], of conv]]]
  by (simp add: span_of_def convert_view_def)

text \<open>Equality of views is that of their items.\<close>

lemma eq_loop_drop:
  assumes "iterates C p xs" "iterates D q ys" "length xs = length ys" "i \<le> length xs"
  shows "eq_loop C D (p i) (q i) (p (length xs)) = Some (drop i xs = drop i ys)"
  using assms(4)
proof (induction "length xs - i" arbitrary: i)
  case 0
  then show ?case using iterates.eq_pos [OF assms(1), of i] assms(3) by (subst eq_loop.simps) simp
next
  case (Suc n)
  then have i: "i < length xs" by simp
  have "eq_loop C D (p (Suc i)) (q (Suc i)) (p (length xs)) = Some (drop (Suc i) xs = drop (Suc i) ys)"
    using Suc i by simp
  moreover have "drop i xs = xs ! i # drop (Suc i) xs" "drop i ys = ys ! i # drop (Suc i) ys"
    using i assms(3) by (simp_all add: Cons_nth_drop_Suc)
  ultimately show ?case
    using i assms(3) iterates.eq_pos [OF assms(1), of i]
    by (subst eq_loop.simps)
      (simp add: iterates.deref_pos [OF assms(1)] iterates.deref_pos [OF assms(2)] iterates.inc_pos [OF assms(1)]
        iterates.inc_pos [OF assms(2)])
qed

lemma view_eq_iff:
  assumes "random_access C p xs" "random_access D q ys" "length xs < 2 ^ 63" "length ys < 2 ^ 63"
  shows "view_eq C D (span_of p (length xs)) (span_of q (length ys)) = Some (xs = ys)"
  using random_access.view_size_whole [OF assms(1,3)] random_access.view_size_whole [OF assms(2,4)]
    eq_loop_drop [OF random_access.axioms(1) [OF assms(1)] random_access.axioms(1) [OF assms(2)], of 0]
  by (auto simp: view_eq_def span_of_def)

section \<open>Zipped ranges\<close>

text \<open>
  A list of ranges, of any lengths: the loop over them ends at the shortest one, as two zip iterators are
  equal when any of their iterators are.
\<close>

definition ranges_ok :: "(('it, 'v) iter_class \<times> (nat \<Rightarrow> 'it) \<times> 'v list) list \<Rightarrow> bool" where
  "ranges_ok rs \<longleftrightarrow> rs \<noteq> [] \<and> (\<forall>(C, p, xs) \<in> set rs. iterates C p xs)"

definition shortest :: "'v list list \<Rightarrow> nat" where
  "shortest xss = Min (length ` set xss)"

definition columns :: "'v list list \<Rightarrow> 'v list list" where
  "columns xss = map (\<lambda>i. map (\<lambda>xs. xs ! i) xss) [0..<shortest xss]"

lemma shortest_le: "xs \<in> set xss \<Longrightarrow> shortest xss \<le> length xs"
  by (simp add: shortest_def)

lemma shortest_in: "xss \<noteq> [] \<Longrightarrow> \<exists>xs \<in> set xss. length xs = shortest xss"
proof -
  assume "xss \<noteq> []"
  then have "shortest xss \<in> length ` set xss" unfolding shortest_def by (intro Min_in) auto
  then show ?thesis by (metis imageE)
qed

lemma zip_deref_pos:
  "\<forall>(C, p, xs) \<in> set rs. iterates C p xs \<and> i < length xs \<Longrightarrow>
   zip_deref (map fst rs) (map (\<lambda>(C, p, xs). p i) rs) = Some (map (\<lambda>(C, p, xs). xs ! i) rs)"
  by (induction rs) (auto simp: zip_deref_def iterates.deref_pos)

lemma zip_inc_pos:
  "\<forall>(C, p, xs) \<in> set rs. iterates C p xs \<and> i < length xs \<Longrightarrow>
   zip_add_assign (map fst rs) (map (\<lambda>(C, p, xs). p i) rs) 1 = map (\<lambda>(C, p, xs). p (Suc i)) rs"
  using iterates.inc_pos unfolding pre_inc_def by (induction rs) (fastforce simp: zip_add_assign_def)+

lemma zip_eq_pos:
  "\<forall>(C, p, xs) \<in> set rs. iterates C p xs \<and> i \<le> length xs \<Longrightarrow>
   zip_eq (map fst rs) (map (\<lambda>(C, p, xs). p i) rs) (map (\<lambda>(C, p, xs). p (length xs)) rs)
     \<longleftrightarrow> (\<exists>(C, p, xs) \<in> set rs. length xs = i)"
  by (induction rs) (auto simp: zip_eq_def iterates.eq_pos)

lemma zip_items_drop:
  fixes rs :: "(('it, 'v) iter_class \<times> (nat \<Rightarrow> 'it) \<times> 'v list) list"
  defines "xss \<equiv> map (\<lambda>(C, p, xs). xs) rs"
  assumes ok: "ranges_ok rs" and i: "i \<le> shortest xss"
  shows "view_items (zip_iterator (map fst rs)) (map (\<lambda>(C, p, xs). p i) rs) (map (\<lambda>(C, p, xs). p (length xs)) rs)
    = Some (drop i (columns xss))"
  using i
proof (induction "shortest xss - i" arbitrary: i)
  case 0
  then have i: "i = shortest xss" by simp
  have le: "\<forall>(C, p, xs) \<in> set rs. iterates C p xs \<and> i \<le> length xs"
    using ok shortest_le [of _ xss] i by (force simp: ranges_ok_def xss_def)
  have "xss \<noteq> []" using ok by (simp add: ranges_ok_def xss_def)
  then obtain xs where "xs \<in> set xss" "length xs = i" using shortest_in i by blast
  then have "\<exists>(C, p, xs) \<in> set rs. length xs = i" by (force simp: xss_def)
  then show ?case using zip_eq_pos [OF le] i
    by (subst view_items.simps) (simp add: zip_iterator_def columns_def)
next
  case (Suc n)
  then have i: "i < shortest xss" by simp
  have lt: "\<forall>(C, p, xs) \<in> set rs. iterates C p xs \<and> i < length xs"
    using ok shortest_le [of _ xss] i by (force simp: ranges_ok_def xss_def)
  then have le: "\<forall>(C, p, xs) \<in> set rs. iterates C p xs \<and> i \<le> length xs" by auto
  have "\<not> (\<exists>(C, p, xs) \<in> set rs. length xs = i)" using lt by auto
  moreover have "drop i (columns xss) = map (\<lambda>(C, p, xs). xs ! i) rs # drop (Suc i) (columns xss)"
    using i by (subst Cons_nth_drop_Suc [symmetric]) (auto simp: columns_def xss_def)
  moreover have "view_items (zip_iterator (map fst rs)) (map (\<lambda>(C, p, xs). p (Suc i)) rs) (map (\<lambda>(C, p, xs). p (length xs)) rs)
      = Some (drop (Suc i) (columns xss))" using Suc by simp
  ultimately show ?case using zip_eq_pos [OF le] zip_deref_pos [OF lt] zip_inc_pos [OF lt]
    by (subst view_items.simps) (simp add: zip_iterator_def pre_inc_def)
qed

lemma zip_items:
  assumes "ranges_ok rs"
  shows "view_list (zip_iterator (map fst rs)) (zip_view (map (\<lambda>(C, p, xs). span_of p (length xs)) rs))
    = Some (columns (map (\<lambda>(C, p, xs). xs) rs))"
  using zip_items_drop [OF assms, of 0]
  by (simp add: view_list_def zip_view_def span_of_def comp_def case_prod_unfold)

lemma enumerate_items:
  assumes "length xs < 2 ^ 63"
  shows "view_list (zip_iterator (enumerate_classes xs)) (enumerate_view xs) =
    Some (map (\<lambda>i. [Inl (int i), Inr (xs ! i)]) [0..<length xs])"
proof -
  let ?T = "BUInt 8" and ?n = "int (length xs)"
  have "numeric_type ?T" by (simp add: numeric_type_def)
  then have num: "random_access (numeric_iterator ?T) (\<lambda>i. 0 + int i) [0..?n - 1]"
    using assms by (intro numeric_iterates) (simp_all add: int_in_unsigned)
  have len: "length [0..?n - 1] = length xs" by simp
  let ?rs = "[(convert_iterator Inl (numeric_iterator ?T), \<lambda>i. 0 + int i, map Inl [0..?n - 1]),
      (convert_iterator Inr (pointer xs), int, map Inr xs)]"
  have "ranges_ok ?rs"
    unfolding ranges_ok_def using num
    by (auto intro!: random_access.axioms(1) [OF convert_iterates] pointers.random_access_axioms)
  from zip_items [OF this] have "view_list (zip_iterator (enumerate_classes xs)) (enumerate_view xs) =
      Some (columns [map Inl [0..?n - 1], map Inr xs])"
    by (simp add: enumerate_classes_def enumerate_view_def range_to_def range_view_def span_of_def)
  also have "columns [map Inl [0..?n - 1], map Inr xs] = map (\<lambda>i. [Inl (int i), Inr (xs ! i)]) [0..<length xs]"
    by (simp add: columns_def shortest_def nth_upto)
  finally show ?thesis .
qed

lemma tuple_zip_nth: "i < length (hd tpls) \<Longrightarrow> j < length tpls \<Longrightarrow> tuple_zip tpls ! i ! j = tpls ! j ! i"
  by (simp add: tuple_zip_def)

section \<open>Sizes of bounded views\<close>

text \<open>Every operation gives a view whose size is within the bounds of its type, and which is a part of the view.\<close>

lemma bounded_view_ops:
  assumes ra: "random_access C pos xs" and n: "length xs < 2 ^ 63" and ij: "i \<le> j" "j \<le> length xs"
  defines "v \<equiv> \<lparr>v_begin = pos i, v_end = pos j\<rparr>"
  shows "bounded_view_make C lo hi v = (if lo \<le> j - i \<and> j - i \<le> hi then Some v else None)"
    and "N \<le> j - i \<Longrightarrow> bounded_view_first C N v = \<lparr>v_begin = pos i, v_end = pos (i + N)\<rparr>"
    and "N \<le> j - i \<Longrightarrow> bounded_view_offset C N v = \<lparr>v_begin = pos (i + N), v_end = pos j\<rparr>"
    and "i + k + hi \<le> length xs \<Longrightarrow> lo \<le> hi \<Longrightarrow> bounded_view_opt_offset C lo hi k v =
      (if k + lo \<le> j - i then Some \<lparr>v_begin = pos (i + k), v_end = pos (min (i + k + hi) j)\<rparr> else None)"
proof -
  note rs = random_access.add_pos [OF ra] random_access.diff_pos [OF ra]
  have sz: "view_size C v = j - i" using random_access.view_size_part [OF ra ij n] by (simp add: v_def)
  show "bounded_view_make C lo hi v = (if lo \<le> j - i \<and> j - i \<le> hi then Some v else None)"
    by (auto simp: bounded_view_make_def sz)
  show "N \<le> j - i \<Longrightarrow> bounded_view_first C N v = \<lparr>v_begin = pos i, v_end = pos (i + N)\<rparr>"
    using ij by (simp add: bounded_view_first_def v_def it_plus_def rs nat_add_distrib)
  show "N \<le> j - i \<Longrightarrow> bounded_view_offset C N v = \<lparr>v_begin = pos (i + N), v_end = pos j\<rparr>"
    using ij by (simp add: bounded_view_offset_def v_def it_plus_def rs nat_add_distrib)
  show "bounded_view_opt_offset C lo hi k v =
      (if k + lo \<le> j - i then Some \<lparr>v_begin = pos (i + k), v_end = pos (min (i + k + hi) j)\<rparr> else None)"
    if "i + k + hi \<le> length xs" "lo \<le> hi"
    using that ij by (auto simp: bounded_view_opt_offset_def v_def it_plus_def rs nat_add_distrib min_def Let_def)
qed

end
