(* ===== verification/Rpc.thy ===== *)
theory Rpc
  imports EdgeCases
begin

text \<open>
  \<open>experimental/rpc.hpp\<close>: calls of functions on another device.  The controller sends a message with the
  id of the call and its arguments; the reactor calls the function and sends its result back, or the
  error with which it could not read the message.  The functions change a state, and so does the
  exchange of messages.  All messages are big endian, as \<open>handler\<close> is by default.
\<close>

section \<open>The protocol of a list of calls\<close>

record rpc_call =
  call_id :: int
  call_request :: pdef
  call_reply :: pdef

datatype rpc_error =
    Reactor_error error_record
  | Record_error error_record
  | Reply_error nat nat

definition void_return_type :: pdef where
  "void_return_type = DStruct []"

definition reactor_error :: pdef where
  "reactor_error = DStruct [DErrorRecord]"

definition request_group :: "base_type \<Rightarrow> rpc_call list \<Rightarrow> pdef" where
  "request_group b calls = DTagGroup b (map call_id calls) (map (\<lambda>c. DDef (call_request c)) calls)"

definition reply_group :: "base_type \<Rightarrow> rpc_call list \<Rightarrow> pdef" where
  "reply_group b calls = DTagGroup b (map call_id calls) (map (\<lambda>c. DDef (call_reply c)) calls)"

definition outter_reply_group :: "base_type \<Rightarrow> rpc_call list \<Rightarrow> pdef" where
  "outter_reply_group b calls = DVariant [reply_group b calls, reactor_error]"

definition get_call_index :: "rpc_call list \<Rightarrow> int \<Rightarrow> nat" where
  "get_call_index calls ID = find_if_index (length calls) (\<lambda>I. call_id (calls ! I) = ID)"

section \<open>The reactor\<close>

definition error_val :: "error_record \<Rightarrow> pval" where
  "error_val r = VStruct [VErrorRecord (error_mark r) (int (error_offset r))]"

definition on_message ::
  "base_type \<Rightarrow> rpc_call list \<Rightarrow> byte list \<Rightarrow> (nat \<Rightarrow> pval \<Rightarrow> 's \<Rightarrow> (pval \<times> 's) option) \<Rightarrow> byte list \<Rightarrow> 's
    \<Rightarrow> (byte list \<times> 's) option" where
  "on_message b calls raw h msg s = do {
     req \<leftarrow> handler_extract (request_group b calls) Big msg;
     (case req of
        Inl req_var \<Rightarrow>
          (case req_var of
             VVariant J x \<Rightarrow> do {
               I \<leftarrow> index_switch 0 (length calls) J;
               (val, s) \<leftarrow> h I x s;
               reply \<leftarrow> handler_serialize (outter_reply_group b calls) Big raw (VVariant 0 (VVariant I val));
               Some (reply, s)
             }
           | _ \<Rightarrow> None)
      | Inr rec \<Rightarrow> do {
          reply \<leftarrow> handler_serialize (outter_reply_group b calls) Big raw (VVariant 1 (error_val rec));
          Some (reply, s)
        })
   }"

section \<open>The controller\<close>

definition make_call_msg :: "base_type \<Rightarrow> rpc_call list \<Rightarrow> byte list \<Rightarrow> int \<Rightarrow> pval list \<Rightarrow> byte list option" where
  "make_call_msg b calls raw ID args =
     (let req = VTuple args
      in handler_serialize (request_group b calls) Big raw (VVariant (get_call_index calls ID) req))"

definition on_reply_msg :: "base_type \<Rightarrow> rpc_call list \<Rightarrow> int \<Rightarrow> byte list \<Rightarrow> (pval + rpc_error) option" where
  "on_reply_msg b calls ID reply_msg = do {
     tmp \<leftarrow> handler_extract (outter_reply_group b calls) Big reply_msg;
     (case tmp of
        Inr err \<Rightarrow> Some (Inr (Record_error err))
      | Inl var \<Rightarrow>
          (case var of
             VVariant k x \<Rightarrow>
               (if k = 1 then
                  (case x of
                     VStruct [VErrorRecord m off] \<Rightarrow>
                       Some (Inr (Reactor_error \<lparr>error_mark = m, error_offset = nat off\<rparr>))
                   | _ \<Rightarrow> None)
                else
                  (case x of
                     VVariant j val \<Rightarrow>
                       (if j \<noteq> get_call_index calls ID then Some (Inr (Reply_error (get_call_index calls ID) j))
                        else Some (Inl val))
                   | _ \<Rightarrow> None))
           | _ \<Rightarrow> None))
   }"

text \<open>\<open>cb\<close> sends the message and receives the reply.\<close>

definition controller_call ::
  "base_type \<Rightarrow> rpc_call list \<Rightarrow> byte list \<Rightarrow> int \<Rightarrow> (byte list \<Rightarrow> 's \<Rightarrow> (byte list \<times> 's) option) \<Rightarrow> pval list \<Rightarrow> 's
    \<Rightarrow> ((pval + rpc_error) \<times> 's) option" where
  "controller_call b calls raw ID cb args s = do {
     req_msg \<leftarrow> make_call_msg b calls raw ID args;
     (reply_msg, s) \<leftarrow> cb req_msg s;
     res \<leftarrow> on_reply_msg b calls ID reply_msg;
     Some (res, s)
   }"

section \<open>Wrappers\<close>

text \<open>
  A function of the wrapped object, or a callback, gets the arguments and the object; \<^const>\<open>None\<close> is the
  result of a function that returns nothing.
\<close>

type_synonym 'o callee = "pval list \<Rightarrow> 'o \<Rightarrow> pval option \<times> 'o"

definition derive_handle :: "'o callee \<Rightarrow> pval list \<Rightarrow> 'o \<Rightarrow> pval \<times> 'o" where
  "derive_handle f args obj =
     (case f args obj of (None, obj) \<Rightarrow> (VStruct [], obj) | (Some v, obj) \<Rightarrow> (v, obj))"

definition class_wrapper_apply :: "'o callee list \<Rightarrow> nat \<Rightarrow> pval \<Rightarrow> 'o \<Rightarrow> (pval \<times> 'o) option" where
  "class_wrapper_apply bindings I req obj =
     (case req of VTuple args \<Rightarrow> Some (derive_handle (bindings ! I) args obj) | _ \<Rightarrow> None)"

definition class_wrapper_on_message ::
  "base_type \<Rightarrow> rpc_call list \<Rightarrow> 'o callee list \<Rightarrow> byte list \<Rightarrow> byte list \<Rightarrow> 'o \<Rightarrow> (byte list \<times> 'o) option" where
  "class_wrapper_on_message b calls bindings raw msg obj =
     on_message b calls raw (class_wrapper_apply bindings) msg obj"

text \<open>\<open>bind_wrapper\<close> has a callback for each call, which is empty until \<open>bind\<close> sets it.\<close>

definition bind_callback :: "rpc_call list \<Rightarrow> int \<Rightarrow> 'o callee \<Rightarrow> 'o callee option list \<Rightarrow> 'o callee option list" where
  "bind_callback calls ID cb cbs = cbs[get_call_index calls ID := Some cb]"

definition bind_wrapper_apply :: "'o callee option list \<Rightarrow> nat \<Rightarrow> pval \<Rightarrow> 'o \<Rightarrow> (pval \<times> 'o) option" where
  "bind_wrapper_apply cbs I req obj =
     (case req of
        VTuple args \<Rightarrow> (case cbs ! I of None \<Rightarrow> None | Some f \<Rightarrow> Some (derive_handle f args obj))
      | _ \<Rightarrow> None)"

definition bind_wrapper_on_message ::
  "base_type \<Rightarrow> rpc_call list \<Rightarrow> 'o callee option list \<Rightarrow> byte list \<Rightarrow> byte list \<Rightarrow> 'o \<Rightarrow> (byte list \<times> 'o) option" where
  "bind_wrapper_on_message b calls cbs raw msg obj = on_message b calls raw (bind_wrapper_apply cbs) msg obj"

section \<open>Well-formed calls\<close>

definition calls_ok :: "base_type \<Rightarrow> rpc_call list \<Rightarrow> bool" where
  "calls_ok b calls \<longleftrightarrow>
     length calls \<le> 64 \<and> distinct (map call_id calls) \<and> base_ok b \<and>
     (\<forall>c \<in> set calls. base_typed b (VInt (call_id c)) \<and> well_formed (call_request c) \<and> well_formed (call_reply c))"

lemma groups_well_formed:
  assumes "calls_ok b calls"
  shows "well_formed (request_group b calls)" "well_formed (reply_group b calls)"
  using assms by (auto simp: calls_ok_def request_group_def reply_group_def list_all_iff)

lemma get_call_index_eq:
  assumes "calls_ok b calls" "i < length calls"
  shows "get_call_index calls (call_id (calls ! i)) = i"
proof -
  have u: "j = i" if "j < length calls" "call_id (calls ! j) = call_id (calls ! i)" for j
    using assms that nth_eq_iff_index_eq [of "map call_id calls" j i] by (simp add: calls_ok_def)
  have "find_if (\<lambda>I. call_id (calls ! I) = call_id (calls ! i)) [0..<length calls] = i"
    by (rule find_if_upt [where N = "length calls"]) (use assms(2) u in auto)
  then show ?thesis
    using assms by (auto simp: get_call_index_def find_if_index_eq calls_ok_def)
qed

lemma request_typed:
  "i < length calls \<Longrightarrow> typed (request_group b calls) (VVariant i x) \<longleftrightarrow> typed (call_request (calls ! i)) x"
  "i < length calls \<Longrightarrow> typed (reply_group b calls) (VVariant i x) \<longleftrightarrow> typed (call_reply (calls ! i)) x"
  by (simp_all add: request_group_def reply_group_def variant_typed_def)

text \<open>The outer variant keeps the contract on its first alternative.\<close>

lemma outter_codec:
  assumes "well_formed d"
  shows "codec (converter_for (DVariant [d, reactor_error]) e)
    (variant_typed [typed d, \<lambda>_. False]) (greedy d)"
  unfolding converter_for.simps traits_for.simps
proof (rule codec_variant)
  fix i assume "i < length (map (\<lambda>d. converter_for d e) [d, reactor_error])"
  then consider "i = 0" | "i = 1" by force
  then show "codec (map (\<lambda>d. converter_for d e) [d, reactor_error] ! i) ([typed d, \<lambda>_. False] ! i) (greedy d)"
    using well_formed_codec [OF assms] by cases (auto intro: codecI)
qed (use variant_sizes [of _ "[d, reactor_error]" e] in \<open>auto simp: nth_Cons' less_Suc_eq numeral_2_eq_2\<close>)

lemma outter_reply:
  assumes "well_formed d" "typed d v" "length raw = max_size (converter_for (DVariant [d, reactor_error]) e)"
  shows "\<exists>m. handler_serialize (DVariant [d, reactor_error]) e raw (VVariant 0 v) = Some m \<and>
    handler_extract (DVariant [d, reactor_error]) e m = Some (Inl (VVariant 0 v))"
proof -
  let ?c = "converter_for (DVariant [d, reactor_error]) e"
  have T: "variant_typed [typed d, \<lambda>_. False] (VVariant 0 v)" using assms(2) by (simp add: variant_typed_def)
  note enc = codec.encoding_encodes [OF outter_codec [OF assms(1)] T, of e]
  note dec = codec.encoding_decodes [OF outter_codec [OF assms(1)] T, of e]
  have "init_value ?c = default_val (DVariant [d, reactor_error])"
    using init_value_converter_for [OF assms(1), of e] by (simp add: converter_simps init_variant_def)
  then have "handler_extract (DVariant [d, reactor_error]) e (encoding ?c (VVariant 0 v)) = Some (Inl (VVariant 0 v))"
    using decodes_all [OF dec] by (simp add: handler_extract_def)
  then show ?thesis
    using encodesD(1,4) [OF enc] assms(3) by (simp add: handler_serialize_def)
qed

section \<open>Errors of the reactor\<close>

text \<open>
  An error record fills its 26 bytes, the text in front and the offset at the end; what is between them
  keeps what the memory held.
\<close>

lemma error_record_bytes:
  assumes m: "sb_canonical mark_size m" and off: "off < 2 ^ 64" and raw: "length raw = 26"
  shows "\<exists>bs. serialize_at (converter_for DErrorRecord e) raw (VErrorRecord m (int off)) = Some (bs, 26) \<and> length bs = 26 \<and>
    (\<forall>rest. deserialize (converter_for DErrorRecord e) (bs @ rest) (VErrorRecord (sb_empty mark_size) 0)
      = Some (conv_ok 8, VErrorRecord m (int off)))"
proof -
  let ?markc = "conv_string e mark_size (string_traits mark_size)" and ?offc = "conv_base e (BUInt 8)"
  have T: "string_typed mark_size (VString m)" using m by (simp add: string_typed_def)
  have c: "codec ?markc (string_typed mark_size) False"
    by (rule codec_string) (simp_all add: mark_size_def string_traits_def base_traits_def)
  note enc = codec.encoding_encodes [OF c T] and dec = codec.encoding_decodes [OF c T]
  let ?a = "encoding ?markc (VString m)" and ?b = "bytes_in e 8 (int off)"
  have sz: "max_size ?markc = 18" "max_size ?offc = 8"
    by (simp_all add: converter_simps string_traits_def base_traits_def mark_size_def)
  have la: "length ?a \<le> 18" using encodesD(1) [OF enc] sz by simp
  have o': "int_in (BUInt 8) (int off)" using off by (simp add: int_in_unsigned)
  have encb: "encodes ?offc (VInt (int off)) ?b"
    using conv_base_encodes_int [of "BUInt 8" "int off" e] o' by simp
  have decb: "deserialize ?offc (?b @ rest) w = Some (conv_ok 8, VInt (int off))" for rest w
    using conv_base_deserialize_int [of "BUInt 8" "int off" e] o' by simp
  let ?pre = "take 18 (?a @ drop (length ?a) raw)"
  have s1: "with_span 0 18 raw (\<lambda>b. serialize_at ?markc b (VString m)) = Some (?a @ drop (length ?a) raw, length ?a)"
    using with_span_encodes_first [OF enc, of raw] sz raw by simp
  have lp: "length ?pre = 18" using la raw by simp
  have "with_span 18 8 z (\<lambda>b. serialize_at ?offc b (VInt (int off))) = Some (take 18 z @ ?b, 8)" if "length z = 26" for z
    using with_span_encodes [OF encb, of "drop 18 z" "take 18 z"] sz that by simp
  then have s2: "with_span 18 8 (?a @ drop (length ?a) raw) (\<lambda>b. serialize_at ?offc b (VInt (int off))) = Some (?pre @ ?b, 8)"
    using la raw by simp
  have ser: "serialize_at (converter_for DErrorRecord e) raw (VErrorRecord m (int off)) = Some (?pre @ ?b, 26)"
    using s1 s2 la raw sz
    by (simp add: conv_error_record_def Let_def error_record_traits_def string_traits_def base_traits_def mark_size_def
        converter_simps)
  have pre: "?pre = ?a @ take (18 - length ?a) (drop (length ?a) raw)" using la by simp
  have "deserialize (converter_for DErrorRecord e) ((?pre @ ?b) @ rest) (VErrorRecord (sb_empty mark_size) 0)
      = Some (conv_ok 8, VErrorRecord m (int off))" for rest
  proof -
    have "deserialize ?markc ((?pre @ ?b) @ rest) (VString (sb_empty mark_size)) = Some (conv_ok (length ?a), VString m)"
      using decodesD [OF dec, of "take (18 - length ?a) (drop (length ?a) raw) @ ?b @ rest"] unfolding pre
      by (simp add: converter_simps)
    moreover have "subspan 18 ((?pre @ ?b) @ rest) = Some (?b @ rest)" using lp by (simp add: subspan_def)
    ultimately show ?thesis
      using decb sz by (simp add: conv_error_record_def Let_def has_error_def conv_ok_def)
  qed
  then show ?thesis using ser lp by (intro exI [of _ "?pre @ ?b"]) simp
qed

lemma max_error_sizes: "max_size (converter_for reactor_error e) = 26" "max_size (converter_for DErrorRecord e) = 26"
    "max_size (conv_error_record e error_record_traits) = 26"
  by (simp_all add: reactor_error_def max_size_converter_for converter_simps struct_traits_def tuple_traits_def
      error_record_traits_def string_traits_def base_traits_def mark_size_def)

lemma reactor_error_bytes:
  assumes "sb_canonical mark_size m" "off < 2 ^ 64" "length raw = 26"
  shows "\<exists>bs. serialize_at (converter_for reactor_error e) raw (VStruct [VErrorRecord m (int off)]) = Some (bs, 26) \<and>
    length bs = 26 \<and> (\<forall>v. deserialize (converter_for reactor_error e) bs v
      = Some (conv_ok 8, VStruct [VErrorRecord m (int off)]))"
proof -
  obtain bs where bs: "serialize_at (converter_for DErrorRecord e) raw (VErrorRecord m (int off)) = Some (bs, 26)"
    "length bs = 26" and de: "\<forall>rest. deserialize (converter_for DErrorRecord e) (bs @ rest) (VErrorRecord (sb_empty mark_size) 0)
      = Some (conv_ok 8, VErrorRecord m (int off))"
    using error_record_bytes [OF assms] by blast
  have tr: "traits_for (DTuple [DErrorRecord]) = \<lparr>tr_max = 26, tr_min = 10\<rparr>"
    by (simp add: tuple_traits_def error_record_traits_def string_traits_def base_traits_def mark_size_def)
  have "with_span 0 26 raw (\<lambda>b. serialize_at (converter_for DErrorRecord e) b (VErrorRecord m (int off))) = Some (bs, 26)"
    using with_span_first [of 26 raw] bs assms(3) by (simp add: with_span_def)
  then have ser: "serialize_at (converter_for reactor_error e) raw (VStruct [VErrorRecord m (int off)]) = Some (bs, 26)"
    using max_error_sizes(2) tr
    by (simp add: reactor_error_def conv_struct_def conv_tuple_def make_size_def del: traits_for.simps)
  have "deserialize (converter_for reactor_error e) bs v = Some (conv_ok 8, VStruct [VErrorRecord m (int off)])" for v
    using de [THEN spec, of "[]"] tr
    by (simp add: reactor_error_def conv_struct_def conv_tuple_def has_error_def conv_ok_def add_used_def converter_simps
        conv_error_record_simps del: traits_for.simps)
  then show ?thesis using ser bs(2) by blast
qed

text \<open>The reply to a message that could not be read arrives as the same error.\<close>

lemma outter_error:
  assumes "sb_canonical mark_size m" "off < 2 ^ 64"
    and "length raw = max_size (converter_for (DVariant [d, reactor_error]) e)"
  shows "\<exists>msg. handler_serialize (DVariant [d, reactor_error]) e raw (VVariant 1 (VStruct [VErrorRecord m (int off)])) = Some msg \<and>
    handler_extract (DVariant [d, reactor_error]) e msg = Some (Inl (VVariant 1 (VStruct [VErrorRecord m (int off)])))"
proof -
  let ?c = "converter_for (DVariant [d, reactor_error]) e" and ?idc = "conv_base e (BUInt 1)"
  have mx: "27 \<le> max_size ?c" using variant_sizes(1) [of reactor_error "[d, reactor_error]" e] max_error_sizes
    by (simp add: converter_simps)
  have id: "encodes ?idc (VInt 1) (bytes_in e 1 1)" using conv_base_encodes_int [of "BUInt 1" 1 e] by (simp add: int_in_unsigned)
  have idd: "deserialize ?idc (bytes_in e 1 1 @ rest) w = Some (conv_ok 1, VInt 1)" for rest w
    using conv_base_deserialize_int [of "BUInt 1" 1 e] by (simp add: int_in_unsigned)
  have l26: "length (take 26 (drop 1 raw)) = 26" using mx assms(3) by simp
  obtain bs where bs: "serialize_at (converter_for reactor_error e) (take 26 (drop 1 raw)) (VStruct [VErrorRecord m (int off)])
      = Some (bs, 26)" "length bs = 26"
    and de: "\<forall>v. deserialize (converter_for reactor_error e) bs v = Some (conv_ok 8, VStruct [VErrorRecord m (int off)])"
    using reactor_error_bytes [OF assms(1,2) l26] by blast
  have "with_span 1 26 (bytes_in e 1 1 @ drop 1 raw) (\<lambda>b. serialize_at (converter_for reactor_error e) b (VStruct [VErrorRecord m (int off)]))
      = Some (bytes_in e 1 1 @ bs @ drop 27 raw, 26)"
    using bs mx assms(3) by (simp add: with_span_def min_def)
  then have "serialize_at ?c raw (VVariant 1 (VStruct [VErrorRecord m (int off)])) = Some (bytes_in e 1 1 @ bs @ drop 27 raw, 27)"
    using with_span_encodes_first [OF id, of raw] mx assms(3) max_error_sizes
    by (simp add: conv_variant_def converter_simps Let_def base_traits_def)
  then have ser: "handler_serialize (DVariant [d, reactor_error]) e raw (VVariant 1 (VStruct [VErrorRecord m (int off)]))
      = Some (bytes_in e 1 1 @ bs)"
    using mx bs(2) by (simp add: handler_serialize_def)
  have "handler_extract (DVariant [d, reactor_error]) e (bytes_in e 1 1 @ bs)
      = Some (Inl (VVariant 1 (VStruct [VErrorRecord m (int off)])))"
    using idd [of bs] de bs(2)
    by (simp add: handler_extract_def conv_variant_def Let_def subspan_def has_error_def conv_ok_def add_used_def
        converter_simps base_traits_def)
  with ser show ?thesis by blast
qed

section \<open>Calls\<close>

lemma extract_mark_canonical: "handler_extract d e msg = Some (Inr r) \<Longrightarrow> sb_canonical mark_size (error_mark r)"
  by (auto simp: handler_extract_def mark_text_canonical bind_Some_iff split: option.splits)

text \<open>The reactor calls the function with the index of the message, once, and sends its result.\<close>

lemma on_message_eq:
  assumes ok: "calls_ok b calls" and i: "i < length calls" and x: "typed (call_request (calls ! i)) x"
    and raw: "length raw = max_size (converter_for (outter_reply_group b calls) Big)"
    and h: "h i x s = Some (val, s')" and val: "typed (call_reply (calls ! i)) val"
  shows "\<exists>m. on_message b calls raw h (encoding (converter_for (request_group b calls) Big) (VVariant i x)) s = Some (m, s') \<and>
    handler_extract (outter_reply_group b calls) Big m = Some (Inl (VVariant 0 (VVariant i val)))"
proof -
  note wf = groups_well_formed [OF ok]
  have "handler_extract (request_group b calls) Big (encoding (converter_for (request_group b calls) Big) (VVariant i x))
      = Some (Inl (VVariant i x))"
    using handler_extract_eq [OF wf(1), of "VVariant i x" "[]" Big] x i by (simp add: request_typed)
  moreover have "index_switch 0 (length calls) i = Some i" using ok i by (intro index_switch_eq) (simp_all add: calls_ok_def)
  moreover obtain m where "handler_serialize (outter_reply_group b calls) Big raw (VVariant 0 (VVariant i val)) = Some m"
    "handler_extract (outter_reply_group b calls) Big m = Some (Inl (VVariant 0 (VVariant i val)))"
    using outter_reply [OF wf(2), of "VVariant i val" raw Big] val i raw by (auto simp: outter_reply_group_def request_typed)
  ultimately show ?thesis using h by (simp add: on_message_def)
qed

lemma controller_call_eq:
  assumes ok: "calls_ok b calls" and i: "i < length calls" and args: "typed (call_request (calls ! i)) (VTuple args)"
    and raw: "length raw = max_size (converter_for (request_group b calls) Big)"
      "length raw' = max_size (converter_for (outter_reply_group b calls) Big)"
    and h: "h i (VTuple args) s = Some (val, s')" and val: "typed (call_reply (calls ! i)) val"
  shows "controller_call b calls raw (call_id (calls ! i)) (on_message b calls raw' h) args s = Some (Inl val, s')"
proof -
  have "make_call_msg b calls raw (call_id (calls ! i)) args
      = Some (encoding (converter_for (request_group b calls) Big) (VVariant i (VTuple args)))"
    using handler_serialize_eq [OF groups_well_formed(1) [OF ok], of "VVariant i (VTuple args)" raw Big] args i raw(1)
      get_call_index_eq [OF ok i]
    by (simp add: make_call_msg_def request_typed)
  then show ?thesis
    using on_message_eq [where h = h, OF ok i args raw(2) h val] get_call_index_eq [OF ok i]
    by (auto simp: controller_call_def on_reply_msg_def)
qed

text \<open>A message that cannot be read changes nothing, and the controller gets its error.\<close>

lemma on_message_error:
  assumes bad: "handler_extract (request_group b calls) Big msg = Some (Inr r)" and off: "error_offset r < 2 ^ 64"
    and raw: "length raw = max_size (converter_for (outter_reply_group b calls) Big)"
  shows "\<exists>m. on_message b calls raw h msg s = Some (m, s) \<and> on_reply_msg b calls ID m = Some (Inr (Reactor_error r))"
proof -
  obtain m where m: "handler_serialize (outter_reply_group b calls) Big raw (VVariant 1 (error_val r)) = Some m"
    "handler_extract (outter_reply_group b calls) Big m = Some (Inl (VVariant 1 (error_val r)))"
    using outter_error [OF extract_mark_canonical [OF bad] off, of raw "reply_group b calls" Big] raw
    by (auto simp: outter_reply_group_def error_val_def)
  then have "on_message b calls raw h msg s = Some (m, s)" using bad by (simp add: on_message_def)
  moreover have "on_reply_msg b calls ID m = Some (Inr (Reactor_error r))" using m by (simp add: on_reply_msg_def error_val_def)
  ultimately show ?thesis by blast
qed

text \<open>A message with an id of no call, or too short for an id, is taken for the first call, with default arguments.\<close>

lemma on_message_unknown:
  assumes b: "int_base b"
    and unknown: "base_size b \<le> length msg \<Longrightarrow> deserialize_int Big b (take (base_size b) msg) \<notin> set (map call_id calls)"
    and calls: "calls \<noteq> []" "length calls \<le> 64"
  shows "on_message b calls raw h msg s = do {
     (val, s) \<leftarrow> h 0 (default_val (call_request (hd calls))) s;
     reply \<leftarrow> handler_serialize (outter_reply_group b calls) Big raw (VVariant 0 (VVariant 0 val));
     Some (reply, s) }"
proof -
  have "handler_extract (request_group b calls) Big msg = Some (Inl (VVariant 0 (default_val (call_request (hd calls)))))"
    using tag_group_unmatched_succeeds [OF b unknown, of "map (\<lambda>c. DDef (call_request c)) calls"] calls(1)
    by (cases calls) (simp_all add: request_group_def)
  moreover have "index_switch 0 (length calls) 0 = Some 0" using calls by (intro index_switch_eq) auto
  ultimately show ?thesis by (simp add: on_message_def)
qed

text \<open>The wrappers: a call runs the method of the object, or the callback that was bound to its id.\<close>

lemma class_wrapper_apply_eq:
  "class_wrapper_apply bindings I (VTuple args) obj = Some (derive_handle (bindings ! I) args obj)"
  by (simp add: class_wrapper_apply_def)

lemma bind_wrapper_apply_eq:
  assumes "calls_ok b calls" "i < length calls" "length cbs = length calls"
  shows "bind_wrapper_apply (bind_callback calls (call_id (calls ! i)) cb cbs) i (VTuple args) obj
      = Some (derive_handle cb args obj)"
    and "j \<noteq> i \<Longrightarrow> bind_wrapper_apply (bind_callback calls (call_id (calls ! i)) cb cbs) j req obj = bind_wrapper_apply cbs j req obj"
proof -
  note i = get_call_index_eq [OF assms(1,2)]
  show "bind_wrapper_apply (bind_callback calls (call_id (calls ! i)) cb cbs) i (VTuple args) obj
      = Some (derive_handle cb args obj)"
    using assms i by (simp add: bind_wrapper_apply_def bind_callback_def)
  have "bind_callback calls (call_id (calls ! i)) cb cbs ! j = cbs ! j" if "j \<noteq> i"
    using i that by (simp add: bind_callback_def)
  then show "bind_wrapper_apply (bind_callback calls (call_id (calls ! i)) cb cbs) j req obj = bind_wrapper_apply cbs j req obj"
    if "j \<noteq> i" unfolding bind_wrapper_apply_def using that by metis
qed

end
