(* ===== verification/Pid.thy ===== *)
theory Pid
  imports Bounded
begin

text \<open>
  \<open>pid.hpp\<close>: a PID regulator, called with the time, the measured and the desired value.  \<open>float\<close> is an
  ordered field here, so rounding and the values that are no numbers are left out; the type of the time
  is a parameter, and \<open>elapsed\<close> the difference of two times as a number.
\<close>

section \<open>The regulator\<close>

record 'a pid_coefficients =
  coeff_p :: 'a
  coeff_i :: 'a
  coeff_d :: 'a

record 'a pid_config =
  coefficients :: "'a pid_coefficients"
  limits :: "'a min_max"

record ('t, 'a) pid =
  cfg :: "'a pid_config"
  i_sum :: 'a
  last_measured :: 'a
  last_time :: 't
  pid_output :: 'a

definition default_config :: "('a :: linordered_field) pid_config" where
  "default_config =
     \<lparr>coefficients = \<lparr>coeff_p = 1, coeff_i = 0, coeff_d = 0\<rparr>, limits = \<lparr>mm_min = 0, mm_max = 100\<rparr>\<rparr>"

definition pid_make :: "'t \<Rightarrow> ('a :: linordered_field) pid_config \<Rightarrow> ('t, 'a) pid" where
  "pid_make now conf =
     \<lparr>cfg = conf, i_sum = 0, last_measured = 0, last_time = now, pid_output = mm_clamp 0 (limits conf)\<rparr>"

definition update_limits :: "('t, 'a :: linordered_field) pid \<Rightarrow> 'a min_max \<Rightarrow> ('t, 'a) pid" where
  "update_limits r lim =
     (let r = r\<lparr>cfg := (cfg r)\<lparr>limits := lim\<rparr>\<rparr>;
          r = r\<lparr>pid_output := mm_clamp (pid_output r) (limits (cfg r))\<rparr>
      in r\<lparr>i_sum := mm_clamp (i_sum r) (limits (cfg r))\<rparr>)"

definition update_output :: "('t, 'a :: linordered_field) pid \<Rightarrow> 'a \<Rightarrow> ('t, 'a) pid" where
  "update_output r out = r\<lparr>pid_output := mm_clamp out (limits (cfg r))\<rparr>"

definition pid_update ::
  "('t \<Rightarrow> 't \<Rightarrow> 'a) \<Rightarrow> ('t, 'a :: linordered_field) pid \<Rightarrow> 't \<Rightarrow> 'a \<Rightarrow> 'a \<Rightarrow> 'a \<times> ('t, 'a) pid" where
  "pid_update elapsed r now measured desired =
     (if now = last_time r then (pid_output r, r)
      else
        let t_diff = elapsed now (last_time r);
            coeff = coefficients (cfg r);
            error = desired - measured;
            r = r\<lparr>i_sum := i_sum r + coeff_i coeff * (error * t_diff)\<rparr>;
            r = r\<lparr>i_sum := mm_clamp (i_sum r) (limits (cfg r))\<rparr>;
            measured_diff = (measured - last_measured r) / t_diff;
            r = r\<lparr>pid_output := coeff_p coeff * error + i_sum r - coeff_d coeff * measured_diff\<rparr>;
            r = r\<lparr>pid_output := mm_clamp (pid_output r) (limits (cfg r))\<rparr>;
            r = r\<lparr>last_measured := measured\<rparr>;
            r = r\<lparr>last_time := now\<rparr>
        in (pid_output r, r))"

definition pid_reset :: "('t, 'a :: linordered_field) pid \<Rightarrow> 't \<Rightarrow> 'a \<Rightarrow> ('t, 'a) pid" where
  "pid_reset r now measured =
     r\<lparr>i_sum := 0, pid_output := mm_clamp 0 (limits (cfg r)), last_time := now, last_measured := measured\<rparr>"

section \<open>Its runs\<close>

text \<open>Any sequence of the operations, with limits that are a range.\<close>

inductive pid_step :: "('t \<Rightarrow> 't \<Rightarrow> 'a) \<Rightarrow> ('t, 'a :: linordered_field) pid \<Rightarrow> ('t, 'a) pid \<Rightarrow> bool" for elapsed where
  limits: "mm_min lim \<le> mm_max lim \<Longrightarrow> pid_step elapsed r (update_limits r lim)"
| out: "pid_step elapsed r (update_output r out)"
| update: "pid_step elapsed r (snd (pid_update elapsed r now measured desired))"
| reset: "pid_step elapsed r (pid_reset r now measured)"

inductive pid_run :: "('t \<Rightarrow> 't \<Rightarrow> 'a) \<Rightarrow> ('t, 'a :: linordered_field) pid \<Rightarrow> bool" for elapsed where
  make: "mm_min (limits conf) \<le> mm_max (limits conf) \<Longrightarrow> pid_run elapsed (pid_make now conf)"
| step: "pid_run elapsed r \<Longrightarrow> pid_step elapsed r r' \<Longrightarrow> pid_run elapsed r'"

definition pid_inv :: "('t, 'a :: linordered_field) pid \<Rightarrow> bool" where
  "pid_inv r \<longleftrightarrow> mm_min (limits (cfg r)) \<le> mm_max (limits (cfg r)) \<and> mm_contains (limits (cfg r)) (pid_output r) \<and>
     (i_sum r = 0 \<or> mm_contains (limits (cfg r)) (i_sum r))"

lemma update_skips: "pid_update elapsed r (last_time r) measured desired = (pid_output r, r)"
  by (simp add: pid_update_def)

lemma update_values:
  fixes elapsed :: "'t \<Rightarrow> 't \<Rightarrow> 'a :: linordered_field"
  assumes "now \<noteq> last_time r"
  defines "lim \<equiv> limits (cfg r)" and "coeff \<equiv> coefficients (cfg r)" and "dt \<equiv> elapsed now (last_time r)"
  shows "i_sum (snd (pid_update elapsed r now m w)) = mm_clamp (i_sum r + coeff_i coeff * ((w - m) * dt)) lim"
    and "fst (pid_update elapsed r now m w) = pid_output (snd (pid_update elapsed r now m w))"
    and "pid_output (snd (pid_update elapsed r now m w)) =
      mm_clamp (coeff_p coeff * (w - m) + i_sum (snd (pid_update elapsed r now m w)) - coeff_d coeff * ((m - last_measured r) / dt)) lim"
    and "last_measured (snd (pid_update elapsed r now m w)) = m" "last_time (snd (pid_update elapsed r now m w)) = now"
    and "cfg (snd (pid_update elapsed r now m w)) = cfg r"
  using assms by (simp_all add: pid_update_def Let_def)

lemma pid_inv_update: "pid_inv r \<Longrightarrow> pid_inv (snd (pid_update elapsed r now m w))"
  using update_values [of now r elapsed m w]
  by (cases "now = last_time r") (auto simp: pid_inv_def update_skips mm_clamp_contains)

lemma pid_inv_step:
  assumes "pid_step elapsed r r'" "pid_inv r"
  shows "pid_inv r'"
  using assms(1)
proof (cases rule: pid_step.cases)
  case (limits lim)
  then show ?thesis by (simp add: pid_inv_def update_limits_def Let_def mm_clamp_contains)
next
  case (out val)
  then show ?thesis using assms(2) by (simp add: pid_inv_def update_output_def mm_clamp_contains)
next
  case (update now m w)
  then show ?thesis using pid_inv_update [OF assms(2)] by simp
next
  case (reset now m)
  then show ?thesis using assms(2) by (simp add: pid_inv_def pid_reset_def mm_clamp_contains)
qed

lemma pid_inv_run: "pid_run elapsed r \<Longrightarrow> pid_inv r"
proof (induction rule: pid_run.induct)
  case (make conf now)
  then show ?case by (simp add: pid_inv_def pid_make_def mm_clamp_contains)
qed (rule pid_inv_step)

section \<open>The integral\<close>

text \<open>
  Anti-windup: from its upper limit the sum decreases with the first error that is negative, by the full
  amount unless it meets the lower limit; however long the error has been positive before.
\<close>

lemma integral_leaves_limit:
  assumes "pid_inv r" "now \<noteq> last_time r" "0 < coeff_i (coefficients (cfg r))" "0 < elapsed now (last_time r)"
    and "w < m" "i_sum r = mm_max (limits (cfg r))"
  shows "i_sum (snd (pid_update elapsed r now m w)) =
    max (mm_min (limits (cfg r))) (i_sum r - coeff_i (coefficients (cfg r)) * ((m - w) * elapsed now (last_time r)))"
proof -
  let ?s = "coeff_i (coefficients (cfg r)) * ((m - w) * elapsed now (last_time r))"
  have "0 < ?s" using assms(3-5) by simp
  moreover have "coeff_i (coefficients (cfg r)) * ((w - m) * elapsed now (last_time r)) = - ?s" by (simp add: algebra_simps)
  ultimately show ?thesis
    using update_values(1) [OF assms(2), of elapsed m w] assms(1,6) by (auto simp: mm_clamp_def max_def pid_inv_def)
qed

text \<open>
  A change of the desired value alone moves the pid_output by no more than the proportional and the integral
  part: the derivative is that of the measured value.
\<close>

lemma no_derivative_kick:
  assumes "now \<noteq> last_time r" "mm_min (limits (cfg r)) \<le> mm_max (limits (cfg r))"
  shows "\<bar>fst (pid_update elapsed r now m w) - fst (pid_update elapsed r now m w')\<bar>
    \<le> (\<bar>coeff_p (coefficients (cfg r))\<bar> + \<bar>coeff_i (coefficients (cfg r)) * elapsed now (last_time r)\<bar>) * \<bar>w - w'\<bar>"
proof -
  let ?lim = "limits (cfg r)" and ?p = "coeff_p (coefficients (cfg r))" and ?dt = "elapsed now (last_time r)"
  let ?i = "coeff_i (coefficients (cfg r))"
  have lip: "\<bar>mm_clamp x ?lim - mm_clamp y ?lim\<bar> \<le> \<bar>x - y\<bar>" for x y
    using assms(2) by (auto simp: mm_clamp_def abs_if)
  let ?s = "\<lambda>w. mm_clamp (i_sum r + ?i * ((w - m) * ?dt)) ?lim"
  have "\<bar>?s w - ?s w'\<bar> \<le> \<bar>(i_sum r + ?i * ((w - m) * ?dt)) - (i_sum r + ?i * ((w' - m) * ?dt))\<bar>" by (rule lip)
  also have "\<dots> = \<bar>?i * ?dt * (w - w')\<bar>" by (simp add: algebra_simps)
  finally have s: "\<bar>?s w - ?s w'\<bar> \<le> \<bar>?i * ?dt\<bar> * \<bar>w - w'\<bar>" by (simp add: abs_mult)
  let ?o = "\<lambda>w. ?p * (w - m) + ?s w - coeff_d (coefficients (cfg r)) * ((m - last_measured r) / ?dt)"
  have "\<bar>mm_clamp (?o w) ?lim - mm_clamp (?o w') ?lim\<bar> \<le> \<bar>?o w - ?o w'\<bar>" by (rule lip)
  also have "?o w - ?o w' = ?p * (w - w') + (?s w - ?s w')" by (simp add: algebra_simps)
  also have "\<bar>\<dots>\<bar> \<le> \<bar>?p\<bar> * \<bar>w - w'\<bar> + \<bar>?s w - ?s w'\<bar>" using abs_triangle_ineq abs_mult by metis
  finally have "\<bar>mm_clamp (?o w) ?lim - mm_clamp (?o w') ?lim\<bar> \<le> \<bar>?p\<bar> * \<bar>w - w'\<bar> + \<bar>?i * ?dt\<bar> * \<bar>w - w'\<bar>" using s by linarith
  then show ?thesis
    using update_values(1-3) [OF assms(1), of elapsed m w] update_values(1-3) [OF assms(1), of elapsed m w']
    by (simp add: distrib_right)
qed

end
