(* ===== verification/StaticFunction.thy ===== *)
theory StaticFunction
  imports MemoryResource
begin

text \<open>
  \<open>static_function.hpp\<close>: a variable that holds a callable of any type in a buffer of its own, and
  \<open>experimental/function_view.hpp\<close>, which refers to one.  The variables of a program are numbered, so that
  a variable can be assigned to itself; \<open>base v\<close> is the address of the buffer of \<open>v\<close>.  Undefined are the
  use of an object that is not alive, a place outside of the buffer and a call without a callable, and
  so is here the construction of an object over one that is alive, which would never be destroyed.
\<close>

section \<open>Callables\<close>

text \<open>
  The vtable of a type of callables: the size and the alignment of \<open>static_function_storage< T >\<close>, the call,
  which may change the object, and what a move leaves behind.  \<open>'s\<close> are the states of the objects.
\<close>

record ('s, 'x, 'r) vtable =
  vt_size :: nat
  vt_align :: nat
  vt_invoke :: "'s \<Rightarrow> 'x \<Rightarrow> 'r \<times> 's"
  vt_moved :: "'s \<Rightarrow> 's"

record ('s, 'x, 'r) static_function =
  vtable_ptr :: "('s, 'x, 'r) vtable option"
  obj_ptr :: "nat option"
  contents :: "'s option"

datatype static_function_operations = OP_COPY | OP_MOVE | OP_DESTROY

definition sf_empty :: "('s, 'x, 'r) static_function" where
  "sf_empty = \<lparr>vtable_ptr = None, obj_ptr = None, contents = None\<rparr>"

definition required_space :: "nat \<Rightarrow> nat \<Rightarrow> nat \<Rightarrow> nat" where
  "required_space Align sz algn = (if algn > Align then sz + (algn - Align) else sz)"

text \<open>The aligned place in a buffer, and the construction of an object there.\<close>

definition place :: "nat \<Rightarrow> nat \<Rightarrow> ('s, 'x, 'r) vtable \<Rightarrow> nat option" where
  "place base Capacity vt =
     (let ptr = align base (vt_align vt)
      in if base \<le> ptr \<and> ptr + vt_size vt \<le> base + Capacity then Some ptr else None)"

definition construct_at ::
  "nat \<Rightarrow> nat \<Rightarrow> ('s, 'x, 'r) vtable \<Rightarrow> 's \<Rightarrow> ('s, 'x, 'r) static_function \<Rightarrow> ('s, 'x, 'r) static_function option" where
  "construct_at base Capacity vt item f =
     (if contents f = None then do { ptr \<leftarrow> place base Capacity vt; Some (f\<lparr>obj_ptr := Some ptr, contents := Some item\<rparr>) }
      else None)"

section \<open>The variable\<close>

text \<open>\<open>handle( source, target, op )\<close>: the source after it, and the target.\<close>

definition vt_handle ::
  "nat \<Rightarrow> nat \<Rightarrow> ('s, 'x, 'r) vtable \<Rightarrow> static_function_operations \<Rightarrow> ('s, 'x, 'r) static_function
    \<Rightarrow> ('s, 'x, 'r) static_function \<Rightarrow> (('s, 'x, 'r) static_function \<times> ('s, 'x, 'r) static_function) option" where
  "vt_handle base Capacity vt op source target = do {
     item \<leftarrow> contents source;
     (case op of
        OP_DESTROY \<Rightarrow> Some (source\<lparr>contents := None\<rparr>, target)
      | OP_COPY \<Rightarrow> do { target \<leftarrow> construct_at base Capacity vt item target; Some (source, target) }
      | OP_MOVE \<Rightarrow> do {
          target \<leftarrow> construct_at base Capacity vt item target;
          Some (source\<lparr>contents := Some (vt_moved vt item)\<rparr>, target)
        })
   }"

definition sf_clear :: "('s, 'x, 'r) static_function \<Rightarrow> ('s, 'x, 'r) static_function option" where
  "sf_clear f =
     (case obj_ptr f of
        None \<Rightarrow> Some f
      | Some _ \<Rightarrow> do {
          vtbl \<leftarrow> vtable_ptr f;
          let f = f\<lparr>obj_ptr := None, vtable_ptr := None\<rparr>;
          (f, _) \<leftarrow> vt_handle 0 0 vtbl OP_DESTROY f sf_empty;
          Some f
        })"

definition sf_bool :: "('s, 'x, 'r) static_function \<Rightarrow> bool" where
  "sf_bool f \<longleftrightarrow> obj_ptr f \<noteq> None"

type_synonym ('s, 'x, 'r) variables = "nat \<Rightarrow> ('s, 'x, 'r) static_function"

definition sf_assign ::
  "(nat \<Rightarrow> nat) \<Rightarrow> nat \<Rightarrow> static_function_operations \<Rightarrow> ('s, 'x, 'r) variables \<Rightarrow> nat \<Rightarrow> nat
    \<Rightarrow> ('s, 'x, 'r) variables option" where
  "sf_assign base Capacity op fs this other =
     (if this = other then Some fs
      else do {
        f \<leftarrow> sf_clear (fs this);
        let fs = fs(this := f);
        (if sf_bool (fs other) then do {
           vt \<leftarrow> vtable_ptr (fs other);
           (source, f) \<leftarrow> vt_handle (base this) Capacity vt op (fs other) (fs this);
           Some (fs(other := source, this := f\<lparr>vtable_ptr := Some vt\<rparr>))
         } else Some fs)
      })"

definition sf_copy_assign where
  "sf_copy_assign base Capacity fs this other = sf_assign base Capacity OP_COPY fs this other"

definition sf_move_assign where
  "sf_move_assign base Capacity fs this other = sf_assign base Capacity OP_MOVE fs this other"

definition sf_copy_construct where
  "sf_copy_construct base Capacity fs this other =
     (if this = other then None else sf_copy_assign base Capacity (fs(this := sf_empty)) this other)"

definition sf_move_construct where
  "sf_move_construct base Capacity fs this other =
     (if this = other then None else sf_move_assign base Capacity (fs(this := sf_empty)) this other)"

definition sf_assign_null :: "('s, 'x, 'r) variables \<Rightarrow> nat \<Rightarrow> ('s, 'x, 'r) variables option" where
  "sf_assign_null fs this = do { f \<leftarrow> sf_clear (fs this); Some (fs(this := f)) }"

text \<open>A callable that does not fit does not compile, \<^const>\<open>None\<close>.\<close>

definition sf_set ::
  "(nat \<Rightarrow> nat) \<Rightarrow> nat \<Rightarrow> nat \<Rightarrow> ('s, 'x, 'r) vtable \<Rightarrow> 's \<Rightarrow> ('s, 'x, 'r) variables \<Rightarrow> nat \<Rightarrow> ('s, 'x, 'r) variables option" where
  "sf_set base Capacity Align vt c fs this = do {
     f \<leftarrow> sf_clear (fs this);
     (if required_space Align (vt_size vt) (vt_align vt) \<le> Capacity then do {
        f \<leftarrow> construct_at (base this) Capacity vt c f;
        Some (fs(this := f\<lparr>vtable_ptr := Some vt\<rparr>))
      } else None)
   }"

definition sf_call :: "('s, 'x, 'r) variables \<Rightarrow> nat \<Rightarrow> 'x \<Rightarrow> ('r \<times> ('s, 'x, 'r) variables) option" where
  "sf_call fs this args = do {
     vt \<leftarrow> vtable_ptr (fs this);
     item \<leftarrow> contents (fs this);
     (case vt_invoke vt item args of (res, item) \<Rightarrow> Some (res, fs(this := (fs this)\<lparr>contents := Some item\<rparr>)))
   }"

definition sf_destroy :: "('s, 'x, 'r) variables \<Rightarrow> nat \<Rightarrow> ('s, 'x, 'r) variables option" where
  "sf_destroy fs this = do { f \<leftarrow> sf_clear (fs this); Some (fs(this := f)) }"

section \<open>Views of functions\<close>

text \<open>
  A \<open>function_view\<close> is a pointer to a function, to a callable object or to the object of a member function,
  with the handler that casts it back.
\<close>

datatype ('f, 'x, 'r, 's) function_view =
    of_function "'x \<Rightarrow> 'r"
  | of_callable 'f "'s \<Rightarrow> 'x \<Rightarrow> 'r \<times> 's"
  | of_member 'f "'s \<Rightarrow> 'x \<Rightarrow> 'r \<times> 's"

definition fv_call :: "('f, 'x, 'r, 's) function_view \<Rightarrow> ('f \<Rightarrow> 's option) \<Rightarrow> 'x \<Rightarrow> ('r \<times> ('f \<Rightarrow> 's option)) option" where
  "fv_call v mem args =
     (case v of
        of_function f \<Rightarrow> Some (f args, mem)
      | of_callable p f \<Rightarrow> do { s \<leftarrow> mem p; (case f s args of (r, s) \<Rightarrow> Some (r, mem(p := Some s))) }
      | of_member p f \<Rightarrow> do { s \<leftarrow> mem p; (case f s args of (r, s) \<Rightarrow> Some (r, mem(p := Some s))) })"

section \<open>Placement\<close>

text \<open>
  The buffer is aligned to \<open>Align\<close>, and the assertion on \<open>required_space\<close> is enough for the aligned object
  to lie in it.
\<close>

definition buffer_ok :: "nat \<Rightarrow> nat \<Rightarrow> nat \<Rightarrow> bool" where
  "buffer_ok base Capacity Align \<longleftrightarrow> (\<exists>a. Align = 2 ^ a) \<and> Align dvd base \<and> base + Capacity < 2 ^ 62"

definition callable_fits :: "nat \<Rightarrow> nat \<Rightarrow> ('s, 'x, 'r) vtable \<Rightarrow> bool" where
  "callable_fits Capacity Align vt \<longleftrightarrow>
     (\<exists>k < 62. vt_align vt = 2 ^ k) \<and> required_space Align (vt_size vt) (vt_align vt) \<le> Capacity"

lemma align_up_multiple:
  assumes "0 < (b :: nat)" "a dvd b" "a dvd x"
  shows "(x + b - 1) div b * b \<le> x + (b - a)"
proof -
  let ?u = "(x + b - 1) div b * b"
  have u: "x \<le> ?u" "?u < x + b" "b dvd ?u"
    using align_up [OF assms(1), of x] by auto
  have "a dvd x + b - ?u" using u(3) assms(2,3) by (meson dvd_add dvd_diff_nat dvd_trans)
  moreover have "0 < x + b - ?u" using u(2) by simp
  ultimately have "a \<le> x + b - ?u" by (rule dvd_imp_le)
  then show ?thesis using u by linarith
qed

lemma place_fits:
  assumes "buffer_ok base Capacity Align" "callable_fits Capacity Align vt"
  shows "\<exists>p. place base Capacity vt = Some p \<and> base \<le> p \<and> p + vt_size vt \<le> base + Capacity \<and> vt_align vt dvd p"
proof -
  obtain a where A: "Align = 2 ^ a" "Align dvd base" "base + Capacity < 2 ^ 62" using assms(1) by (auto simp: buffer_ok_def)
  obtain k where K: "k < 62" "vt_align vt = 2 ^ k" and sp: "required_space Align (vt_size vt) (vt_align vt) \<le> Capacity"
    using assms(2) by (auto simp: callable_fits_def)
  have "(2 :: nat) ^ k \<le> 2 ^ 62" using K(1) by (intro power_increasing) auto
  then have al: "align base (vt_align vt) = (base + 2 ^ k - 1) div 2 ^ k * 2 ^ k"
    using align_eq [of k base] K A(3) by simp
  note up = align_up [of "2 ^ k" base]
  have "(base + 2 ^ k - 1) div 2 ^ k * 2 ^ k + vt_size vt \<le> base + Capacity"
  proof (cases "k \<le> a")
    case True
    then have "(2 :: nat) ^ k dvd base" using A by (metis dvd_trans le_imp_power_dvd)
    then have "(base + 2 ^ k - 1) div 2 ^ k * 2 ^ k \<le> base"
      using align_up_multiple [of "2 ^ k" "2 ^ k" base] by simp
    moreover have "\<not> vt_align vt > Align" using True K(2) A(1) by (simp add: power_increasing)
    ultimately show ?thesis using sp by (simp add: required_space_def)
  next
    case False
    then have "Align dvd 2 ^ k" "Align < 2 ^ k" using A(1) by (simp_all add: le_imp_power_dvd)
    then show ?thesis using align_up_multiple [of "2 ^ k" Align base] A(2) sp K(2) by (simp add: required_space_def)
  qed
  then show ?thesis using up al K(2) by (simp add: place_def Let_def)
qed

section \<open>The invariant\<close>

text \<open>
  A variable holds nothing, or an object at the aligned place of its buffer with the vtable of its type.
\<close>

definition sf_ok :: "nat \<Rightarrow> nat \<Rightarrow> nat \<Rightarrow> ('s, 'x, 'r) static_function \<Rightarrow> bool" where
  "sf_ok base Capacity Align f \<longleftrightarrow>
     (case vtable_ptr f of
        None \<Rightarrow> obj_ptr f = None \<and> contents f = None
      | Some vt \<Rightarrow> callable_fits Capacity Align vt \<and> obj_ptr f = place base Capacity vt \<and> contents f \<noteq> None)"

definition variables_ok :: "(nat \<Rightarrow> nat) \<Rightarrow> nat \<Rightarrow> nat \<Rightarrow> ('s, 'x, 'r) variables \<Rightarrow> bool" where
  "variables_ok base Capacity Align fs \<longleftrightarrow>
     (\<forall>v. buffer_ok (base v) Capacity Align \<and> sf_ok (base v) Capacity Align (fs v))"

text \<open>What the program sees of a variable: nothing, or a callable and its state.\<close>

definition callable :: "('s, 'x, 'r) static_function \<Rightarrow> (('s, 'x, 'r) vtable \<times> 's) option" where
  "callable f = do { vt \<leftarrow> vtable_ptr f; s \<leftarrow> contents f; Some (vt, s) }"

definition callables :: "('s, 'x, 'r) variables \<Rightarrow> nat \<Rightarrow> (('s, 'x, 'r) vtable \<times> 's) option" where
  "callables fs = (\<lambda>v. callable (fs v))"

lemma variables_okD:
  assumes "variables_ok base Capacity Align fs"
  shows "buffer_ok (base v) Capacity Align" "sf_ok (base v) Capacity Align (fs v)"
  using assms by (auto simp: variables_ok_def)

lemma variables_ok_upd [intro]:
  "variables_ok base Capacity Align fs \<Longrightarrow> sf_ok (base v) Capacity Align f \<Longrightarrow> variables_ok base Capacity Align (fs(v := f))"
  by (simp add: variables_ok_def)

lemma callables_upd [simp]: "callables (fs(v := f)) = (callables fs)(v := callable f)"
  by (auto simp: callables_def)

lemma sf_empty_ok [simp]: "sf_ok base Capacity Align sf_empty" "callable sf_empty = None"
  by (simp_all add: sf_ok_def sf_empty_def callable_def)

lemma sf_cases [consumes 1, case_names empty holds]:
  assumes "sf_ok base Capacity Align f"
  obtains "f = sf_empty"
    | vt s where "callable_fits Capacity Align vt" "f = \<lparr>vtable_ptr = Some vt, obj_ptr = place base Capacity vt, contents = Some s\<rparr>"
  using assms by (cases f) (auto simp: sf_ok_def sf_empty_def split: option.splits)

lemma sf_clear_empties:
  assumes "buffer_ok base Capacity Align" "sf_ok base Capacity Align f"
  shows "sf_clear f = Some sf_empty"
  using assms(2)
proof (cases rule: sf_cases)
  case empty
  then show ?thesis by (simp add: sf_clear_def sf_empty_def)
next
  case (holds vt s)
  then show ?thesis using place_fits [OF assms(1) holds(1)]
    by (auto simp: sf_clear_def vt_handle_def sf_empty_def)
qed

lemma construct_in_empty:
  assumes "buffer_ok base Capacity Align" "callable_fits Capacity Align vt"
  shows "\<exists>f. construct_at base Capacity vt s sf_empty = Some f \<and> sf_ok base Capacity Align (f\<lparr>vtable_ptr := Some vt\<rparr>) \<and>
    callable (f\<lparr>vtable_ptr := Some vt\<rparr>) = Some (vt, s)"
  using place_fits [OF assms] assms(2) by (auto simp: construct_at_def sf_empty_def sf_ok_def callable_def)

lemma sf_bool_callable:
  assumes "buffer_ok base Capacity Align" "sf_ok base Capacity Align f"
  shows "sf_bool f \<longleftrightarrow> callable f \<noteq> None"
  using assms(2)
proof (cases rule: sf_cases)
  case (holds vt s)
  then show ?thesis using place_fits [OF assms(1) holds(1)] by (auto simp: sf_bool_def callable_def)
qed (simp add: sf_bool_def sf_empty_def callable_def)

lemma sf_obj_place:
  assumes "variables_ok base Capacity Align fs" "callables fs v = Some (vt, s)"
  shows "\<exists>p. obj_ptr (fs v) = Some p \<and> base v \<le> p \<and> p + vt_size vt \<le> base v + Capacity \<and> vt_align vt dvd p"
  using variables_okD(2) [OF assms(1), of v]
proof (cases rule: sf_cases)
  case empty
  then show ?thesis using assms(2) by (simp add: callables_def)
next
  case (holds vt' s')
  then show ?thesis using place_fits [OF variables_okD(1) [OF assms(1), of v] holds(1)] assms(2)
    by (auto simp: callables_def callable_def)
qed

section \<open>The operations\<close>

lemma sf_set_refines:
  assumes "variables_ok base Capacity Align fs" "callable_fits Capacity Align vt"
  shows "\<exists>fs'. sf_set base Capacity Align vt c fs v = Some fs' \<and> variables_ok base Capacity Align fs' \<and>
    callables fs' = (callables fs)(v := Some (vt, c))"
  using construct_in_empty [OF variables_okD(1) [OF assms(1)] assms(2), of v c] assms
  by (auto simp: sf_set_def sf_clear_empties [OF variables_okD [OF assms(1)]] callable_fits_def)

lemma sf_clear_refines:
  assumes "variables_ok base Capacity Align fs"
  shows "\<exists>fs'. sf_assign_null fs v = Some fs' \<and> variables_ok base Capacity Align fs' \<and> callables fs' = (callables fs)(v := None)"
  using assms by (auto simp: sf_assign_null_def sf_clear_empties [OF variables_okD [OF assms]])

definition moved :: "static_function_operations \<Rightarrow> (('s, 'x, 'r) vtable \<times> 's) option \<Rightarrow> (('s, 'x, 'r) vtable \<times> 's) option" where
  "moved op = (if op = OP_MOVE then map_option (\<lambda>(vt, s). (vt, vt_moved vt s)) else (\<lambda>c. c))"

lemma sf_assign_refines:
  assumes ok: "variables_ok base Capacity Align fs" and "op \<noteq> OP_DESTROY" and ne: "v \<noteq> w"
  shows "\<exists>fs'. sf_assign base Capacity op fs v w = Some fs' \<and> variables_ok base Capacity Align fs' \<and>
    callables fs' = (callables fs)(w := moved op (callables fs w), v := callables fs w)"
proof -
  note clear = sf_clear_empties [OF variables_okD [OF ok]]
  from variables_okD(2) [OF ok, of w] show ?thesis
  proof (cases rule: sf_cases)
    case empty
    then have "sf_assign base Capacity op fs v w = Some (fs(v := sf_empty))"
      using ne by (simp add: sf_assign_def clear sf_bool_def) (simp add: sf_empty_def)
    moreover have "callables fs w = None" using empty by (simp add: callables_def)
    then have "(callables fs)(w := moved op (callables fs w), v := callables fs w) = callables (fs(v := sf_empty))"
      by (auto simp: moved_def)
    ultimately show ?thesis using ok by auto
  next
    case (holds vt s)
    obtain f where f: "construct_at (base v) Capacity vt s sf_empty = Some f"
        "sf_ok (base v) Capacity Align (f\<lparr>vtable_ptr := Some vt\<rparr>)" "callable (f\<lparr>vtable_ptr := Some vt\<rparr>) = Some (vt, s)"
      using construct_in_empty [OF variables_okD(1) [OF ok] holds(1)] by blast
    obtain p where p: "place (base w) Capacity vt = Some p" using place_fits [OF variables_okD(1) [OF ok] holds(1)] by blast
    define src where "src = (fs w)\<lparr>contents := Some (if op = OP_MOVE then vt_moved vt s else s)\<rparr>"
    have h: "vt_handle (base v) Capacity vt op (fs w) sf_empty = Some (src, f)"
      using assms(2) f(1) holds(2) by (cases op) (auto simp: vt_handle_def src_def)
    have src: "sf_ok (base w) Capacity Align src" "callable src = moved op (callables fs w)"
      using holds p by (auto simp: src_def sf_ok_def callable_def moved_def callables_def)
    have "sf_assign base Capacity op fs v w = Some (fs(w := src, v := f\<lparr>vtable_ptr := Some vt\<rparr>))"
      using ne h holds(2) p by (simp add: sf_assign_def clear sf_bool_def fun_upd_twist)
    moreover have "callables fs w = Some (vt, s)" using holds by (simp add: callables_def callable_def)
    ultimately show ?thesis using f(2,3) src ok by auto
  qed
qed

lemma sf_call_refines:
  assumes ok: "variables_ok base Capacity Align fs" and "callables fs v = Some (vt, s)"
  shows "\<exists>fs'. sf_call fs v x = Some (fst (vt_invoke vt s x), fs') \<and> variables_ok base Capacity Align fs' \<and>
    callables fs' = (callables fs)(v := Some (vt, snd (vt_invoke vt s x)))"
  using variables_okD(2) [OF ok, of v]
proof (cases rule: sf_cases)
  case empty
  then show ?thesis using assms(2) by (simp add: callables_def)
next
  case (holds vt' s')
  then show ?thesis using assms
    by (auto simp: sf_call_def callables_def callable_def sf_ok_def split: prod.split intro!: variables_ok_upd)
qed

lemma sf_copy_refines:
  assumes "variables_ok base Capacity Align fs"
  shows "\<exists>fs'. sf_copy_assign base Capacity fs v w = Some fs' \<and> variables_ok base Capacity Align fs' \<and>
    callables fs' = (callables fs)(v := callables fs w)"
proof (cases "v = w")
  case True
  then show ?thesis using assms by (simp add: sf_copy_assign_def sf_assign_def)
next
  case False
  then show ?thesis using sf_assign_refines [OF assms _ False, of OP_COPY] by (simp add: sf_copy_assign_def moved_def)
qed

lemma sf_move_refines:
  assumes "variables_ok base Capacity Align fs"
  shows "\<exists>fs'. sf_move_assign base Capacity fs v w = Some fs' \<and> variables_ok base Capacity Align fs' \<and>
    callables fs' = (if v = w then callables fs else (callables fs)(w := moved OP_MOVE (callables fs w), v := callables fs w))"
  using assms sf_assign_refines [OF assms, of OP_MOVE v w] by (cases "v = w") (auto simp: sf_move_assign_def sf_assign_def)

section \<open>Programs\<close>

text \<open>
  The specification is a map of variables to callables; a program is allowed to construct a variable
  that holds nothing and to call one that holds a callable.
\<close>

datatype ('s, 'x, 'r) sf_op =
    Assign nat "('s, 'x, 'r) vtable" 's
  | Copy nat nat
  | Move nat nat
  | CopyConstruct nat nat
  | MoveConstruct nat nat
  | Null nat
  | Destroy nat
  | Call nat 'x

fun sf_exec ::
  "(nat \<Rightarrow> nat) \<Rightarrow> nat \<Rightarrow> nat \<Rightarrow> ('s, 'x, 'r) sf_op \<Rightarrow> ('s, 'x, 'r) variables \<Rightarrow> ('r option \<times> ('s, 'x, 'r) variables) option" where
  "sf_exec base Capacity Align (Assign v vt c) fs = map_option (Pair None) (sf_set base Capacity Align vt c fs v)"
| "sf_exec base Capacity Align (Copy v w) fs = map_option (Pair None) (sf_copy_assign base Capacity fs v w)"
| "sf_exec base Capacity Align (Move v w) fs = map_option (Pair None) (sf_move_assign base Capacity fs v w)"
| "sf_exec base Capacity Align (CopyConstruct v w) fs = map_option (Pair None) (sf_copy_construct base Capacity fs v w)"
| "sf_exec base Capacity Align (MoveConstruct v w) fs = map_option (Pair None) (sf_move_construct base Capacity fs v w)"
| "sf_exec base Capacity Align (Null v) fs = map_option (Pair None) (sf_assign_null fs v)"
| "sf_exec base Capacity Align (Destroy v) fs = map_option (Pair None) (sf_destroy fs v)"
| "sf_exec base Capacity Align (Call v x) fs = map_option (\<lambda>(r, fs). (Some r, fs)) (sf_call fs v x)"

type_synonym ('s, 'x, 'r) callable_map = "nat \<Rightarrow> (('s, 'x, 'r) vtable \<times> 's) option"

fun allowed :: "nat \<Rightarrow> nat \<Rightarrow> ('s, 'x, 'r) sf_op \<Rightarrow> ('s, 'x, 'r) callable_map \<Rightarrow> bool" where
  "allowed Capacity Align (Assign v vt c) m \<longleftrightarrow> callable_fits Capacity Align vt"
| "allowed Capacity Align (CopyConstruct v w) m \<longleftrightarrow> m v = None \<and> v \<noteq> w"
| "allowed Capacity Align (MoveConstruct v w) m \<longleftrightarrow> m v = None \<and> v \<noteq> w"
| "allowed Capacity Align (Call v x) m \<longleftrightarrow> m v \<noteq> None"
| "allowed Capacity Align _ m \<longleftrightarrow> True"

fun spec_exec :: "('s, 'x, 'r) sf_op \<Rightarrow> ('s, 'x, 'r) callable_map \<Rightarrow> 'r option \<times> ('s, 'x, 'r) callable_map" where
  "spec_exec (Assign v vt c) m = (None, m(v := Some (vt, c)))"
| "spec_exec (Copy v w) m = (None, m(v := m w))"
| "spec_exec (Move v w) m = (None, if v = w then m else m(w := moved OP_MOVE (m w), v := m w))"
| "spec_exec (CopyConstruct v w) m = (None, m(v := m w))"
| "spec_exec (MoveConstruct v w) m = (None, m(w := moved OP_MOVE (m w), v := m w))"
| "spec_exec (Null v) m = (None, m(v := None))"
| "spec_exec (Destroy v) m = (None, m(v := None))"
| "spec_exec (Call v x) m =
     (case m v of
        None \<Rightarrow> (None, m)
      | Some (vt, s) \<Rightarrow> (case vt_invoke vt s x of (r, s) \<Rightarrow> (Some r, m(v := Some (vt, s)))))"

lemma empty_for_construct:
  assumes "variables_ok base Capacity Align fs" "callables fs v = None"
  shows "fs(v := sf_empty) = fs"
  using variables_okD(2) [OF assms(1), of v] assms(2)
  by (cases rule: sf_cases) (auto simp: callables_def callable_def)

lemma sf_exec_refines:
  assumes "variables_ok base Capacity Align fs" "allowed Capacity Align op (callables fs)"
  shows "\<exists>fs'. sf_exec base Capacity Align op fs = Some (fst (spec_exec op (callables fs)), fs') \<and>
    variables_ok base Capacity Align fs' \<and> callables fs' = snd (spec_exec op (callables fs))"
proof (cases op)
  case (Assign v vt c)
  then show ?thesis using sf_set_refines [OF assms(1), of vt c v] assms(2) by auto
next
  case (Copy v w)
  then show ?thesis using sf_copy_refines [OF assms(1), of v w] by auto
next
  case (Move v w)
  then show ?thesis using sf_move_refines [OF assms(1), of v w] by auto
next
  case (CopyConstruct v w)
  then show ?thesis using sf_copy_refines [OF assms(1), of v w] assms(2)
    by (auto simp: sf_copy_construct_def empty_for_construct [OF assms(1)])
next
  case (MoveConstruct v w)
  then show ?thesis using sf_move_refines [OF assms(1), of v w] assms(2)
    by (auto simp: sf_move_construct_def empty_for_construct [OF assms(1)])
next
  case (Null v)
  then show ?thesis using sf_clear_refines [OF assms(1), of v] by auto
next
  case (Destroy v)
  then show ?thesis using sf_clear_refines [OF assms(1), of v] by (auto simp: sf_destroy_def sf_assign_null_def)
next
  case (Call v x)
  then obtain vt s where "callables fs v = Some (vt, s)" using assms(2) by auto
  from sf_call_refines [OF assms(1) this, of x] this Call show ?thesis by (auto split: prod.split)
qed

fun sf_program ::
  "(nat \<Rightarrow> nat) \<Rightarrow> nat \<Rightarrow> nat \<Rightarrow> ('s, 'x, 'r) sf_op list \<Rightarrow> ('s, 'x, 'r) variables
    \<Rightarrow> ('r option list \<times> ('s, 'x, 'r) variables) option" where
  "sf_program base Capacity Align [] fs = Some ([], fs)"
| "sf_program base Capacity Align (op # ops) fs = do {
     (r, fs) \<leftarrow> sf_exec base Capacity Align op fs;
     (rs, fs) \<leftarrow> sf_program base Capacity Align ops fs;
     Some (r # rs, fs)
   }"

fun spec_program :: "('s, 'x, 'r) sf_op list \<Rightarrow> ('s, 'x, 'r) callable_map \<Rightarrow> 'r option list \<times> ('s, 'x, 'r) callable_map" where
  "spec_program [] m = ([], m)"
| "spec_program (op # ops) m =
     (case spec_exec op m of (r, m) \<Rightarrow> (case spec_program ops m of (rs, m) \<Rightarrow> (r # rs, m)))"

fun all_allowed :: "nat \<Rightarrow> nat \<Rightarrow> ('s, 'x, 'r) sf_op list \<Rightarrow> ('s, 'x, 'r) callable_map \<Rightarrow> bool" where
  "all_allowed Capacity Align [] m \<longleftrightarrow> True"
| "all_allowed Capacity Align (op # ops) m \<longleftrightarrow>
     allowed Capacity Align op m \<and> all_allowed Capacity Align ops (snd (spec_exec op m))"

lemma sf_program_refines:
  assumes "variables_ok base Capacity Align fs" "all_allowed Capacity Align ops (callables fs)"
  shows "\<exists>fs'. sf_program base Capacity Align ops fs = Some (fst (spec_program ops (callables fs)), fs') \<and>
    variables_ok base Capacity Align fs' \<and> callables fs' = snd (spec_program ops (callables fs))"
  using assms
proof (induction ops arbitrary: fs)
  case (Cons op ops)
  obtain fs' where *: "sf_exec base Capacity Align op fs = Some (fst (spec_exec op (callables fs)), fs')"
      "variables_ok base Capacity Align fs'" "callables fs' = snd (spec_exec op (callables fs))"
    using sf_exec_refines [OF Cons.prems(1), of op] Cons.prems(2) by auto
  then show ?case using Cons.IH [OF *(2)] Cons.prems(2) by (auto split: prod.split)
qed simp

lemma no_callables: "callables (\<lambda>_. sf_empty) = (\<lambda>_. None)"
  by (simp add: callables_def)

text \<open>All the calls of one view, and of its copies, are calls of the one object it refers to.\<close>

fun fv_calls :: "('f, 'x, 'r, 's) function_view \<Rightarrow> 'x list \<Rightarrow> ('f \<Rightarrow> 's option) \<Rightarrow> ('r list \<times> ('f \<Rightarrow> 's option)) option" where
  "fv_calls v [] mem = Some ([], mem)"
| "fv_calls v (x # xs) mem = do { (r, mem) \<leftarrow> fv_call v mem x; (rs, mem) \<leftarrow> fv_calls v xs mem; Some (r # rs, mem) }"

fun object_calls :: "('s \<Rightarrow> 'x \<Rightarrow> 'r \<times> 's) \<Rightarrow> 'x list \<Rightarrow> 's \<Rightarrow> 'r list \<times> 's" where
  "object_calls f [] s = ([], s)"
| "object_calls f (x # xs) s = (case f s x of (r, s) \<Rightarrow> (case object_calls f xs s of (rs, s) \<Rightarrow> (r # rs, s)))"

lemma fv_calls_object:
  assumes "v = of_callable p f \<or> v = of_member p f" "mem p = Some s"
  shows "fv_calls v xs mem = Some (fst (object_calls f xs s), mem(p := Some (snd (object_calls f xs s))))"
  using assms(2)
proof (induction xs arbitrary: s mem)
  case (Cons x xs)
  obtain r s' where "f s x = (r, s')" by fastforce
  moreover from this have "fv_call v mem x = Some (r, mem(p := Some s'))"
    using Cons.prems assms(1) by (auto simp: fv_call_def)
  moreover have "fv_calls v xs (mem(p := Some s')) =
      Some (fst (object_calls f xs s'), mem(p := Some (snd (object_calls f xs s'))))"
    using Cons.IH [of "mem(p := Some s')" s'] by (simp only: fun_upd_upd fun_upd_same simp_thms)
  ultimately show ?case by (simp add: case_prod_unfold fun_eq_iff)
qed (simp add: fun_upd_idem)

end
