(* ===== verification/Coroutine.thy ===== *)
theory Coroutine
  imports MemoryResource "HOL-Library.While_Combinator"
begin

text \<open>
  \<open>experimental/coro/recursive.hpp\<close>: coroutines that await other coroutines and objects with a
  \<open>wait_interface\<close>, \<open>owning_coroutine_handle.hpp\<close> and \<open>data_promise.hpp\<close>.  The body of a coroutine is the
  tree of what it does until it is suspended, by the value that it is resumed with.  An awaited object
  is a temporary of the expression that awaits it: it is gone once the body has been resumed, and a pointer
  to it dangles.  The types of the values are one type \<open>'v\<close>; a coroutine of \<open>void\<close> gives \<^const>\<open>None\<close>.
\<close>

section \<open>The interface\<close>

datatype wait_state = WAITING | READY | ERRORED

text \<open>A class derived from \<open>wait_interface\<close> whose \<open>await_suspend\<close> registers itself, over its states \<open>'a\<close>.\<close>

record ('a, 'v) wait_interface =
  wi_state :: "'a \<Rightarrow> wait_state"
  wi_tick :: "'a \<Rightarrow> 'a"
  wi_resume :: "'a \<Rightarrow> 'v option"

datatype ('a, 'v) cor_body =
    CoReturn 'v
  | CoThrow
  | CoAwait "('a, 'v) awaited" "'v option \<Rightarrow> ('a, 'v) cor_body"
and ('a, 'v) awaited =
    AwCoroutine bool "('a, 'v) cor_body"
  | AwUnallocated bool
  | AwInterface 'a
  | AwNoop
  | AwError

section \<open>The coroutine\<close>

text \<open>
  A frame is where the body is and the \<open>iface\<close> of its promise.  A suspended body waits for the object
  that \<open>iface\<close> points to, or for one that did not register.  At the end the promise holds the value, unless
  an exception has been thrown.
\<close>

datatype ('a, 'v) cor_point =
    Initial "('a, 'v) cor_body"
  | Suspended bool "'v option \<Rightarrow> ('a, 'v) cor_body"
  | Final "'v option"

datatype ('a, 'v) cor = NoHandle | Handle "('a, 'v) cor_point" "('a, 'v) cor_iface"
and ('a, 'v) cor_iface = NoIface | ToCor bool "('a, 'v) cor" | ToAwaiter 'a | Dangling

definition cor_start :: "('a, 'v) cor_body \<Rightarrow> ('a, 'v) cor" where
  "cor_start b = Handle (Initial b) NoIface"

text \<open>The move assignment of the handle is a swap.\<close>

definition handle_assign :: "('a, 'v) cor \<Rightarrow> ('a, 'v) cor \<Rightarrow> ('a, 'v) cor \<times> ('a, 'v) cor" where
  "handle_assign h other = (other, h)"

fun handle_done :: "('a, 'v) cor_point \<Rightarrow> bool" where
  "handle_done (Final _) = True"
| "handle_done _ = False"

definition cor_done :: "('a, 'v) cor \<Rightarrow> bool" where
  "cor_done c = (case c of Handle p _ \<Rightarrow> handle_done p | NoHandle \<Rightarrow> True)"

definition cor_state :: "('a, 'v) cor \<Rightarrow> wait_state" where
  "cor_state c = (if cor_done c then READY else WAITING)"

text \<open>
  \<open>h_.promise().value\<close>; before the end, and after an exception, it is the value that \<open>T\<close> was default
  initialised with, here undefined.
\<close>

definition promise_value :: "('a, 'v) cor \<Rightarrow> 'v option" where
  "promise_value c = (case c of Handle (Final v) _ \<Rightarrow> v | _ \<Rightarrow> None)"

definition await_resume :: "bool \<Rightarrow> ('a, 'v) cor \<Rightarrow> 'v option option" where
  "await_resume void c = (if void then Some None else map_option Some (promise_value c))"

text \<open>The body up to its next suspension.\<close>

fun cor_suspend :: "('a, 'v) cor_body \<Rightarrow> ('a, 'v) cor_iface \<Rightarrow> ('a, 'v) cor" where
  "cor_suspend (CoReturn v) i = Handle (Final (Some v)) i"
| "cor_suspend CoThrow i = Handle (Final None) i"
| "cor_suspend (CoAwait (AwCoroutine void b) k) i = Handle (Suspended True k) (ToCor void (cor_start b))"
| "cor_suspend (CoAwait (AwUnallocated void) k) i = Handle (Suspended True k) (ToCor void NoHandle)"
| "cor_suspend (CoAwait (AwInterface a) k) i = Handle (Suspended True k) (ToAwaiter a)"
| "cor_suspend (CoAwait AwNoop k) i = Handle (Suspended False k) i"
| "cor_suspend (CoAwait AwError k) i = Handle (Suspended False k) i"

fun cor_resume ::
  "('a, 'v) wait_interface \<Rightarrow> ('a, 'v) cor_point \<Rightarrow> ('a, 'v) cor_iface \<Rightarrow> ('a, 'v) cor option" where
  "cor_resume W (Initial b) i = Some (cor_suspend b i)"
| "cor_resume W (Suspended False k) i = Some (cor_suspend (k None) i)"
| "cor_resume W (Suspended True k) (ToCor void c) = do { v \<leftarrow> await_resume void c; Some (cor_suspend (k v) Dangling) }"
| "cor_resume W (Suspended True k) (ToAwaiter a) = Some (cor_suspend (k (wi_resume W a)) Dangling)"
| "cor_resume W (Suspended True k) _ = None"
| "cor_resume W (Final _) _ = None"

fun cor_tick :: "('a, 'v) wait_interface \<Rightarrow> ('a, 'v) cor \<Rightarrow> ('a, 'v) cor option" where
  "cor_tick W NoHandle = Some NoHandle"
| "cor_tick W (Handle p i) =
     (let resume = (if \<not> handle_done p then cor_resume W p i else Some (Handle p i))
      in case i of
        NoIface \<Rightarrow> resume
      | ToCor void c \<Rightarrow>
          (case cor_state c of
             WAITING \<Rightarrow> do { c \<leftarrow> cor_tick W c; Some (Handle p (ToCor void c)) }
           | ERRORED \<Rightarrow> Some (fst (handle_assign (Handle p i) NoHandle))
           | READY \<Rightarrow> resume)
      | ToAwaiter a \<Rightarrow>
          (case wi_state W a of
             WAITING \<Rightarrow> Some (Handle p (ToAwaiter (wi_tick W a)))
           | ERRORED \<Rightarrow> Some (fst (handle_assign (Handle p i) NoHandle))
           | READY \<Rightarrow> resume)
      | Dangling \<Rightarrow> None)"

text \<open>\<open>run\<close>, which may not return; \<^const>\<open>None\<close> is that too.\<close>

partial_function (option) cor_run :: "('a, 'v) wait_interface \<Rightarrow> bool \<Rightarrow> ('a, 'v) cor \<Rightarrow> 'v option option" where
  "cor_run W void c = (if cor_done c then await_resume void c else do { c \<leftarrow> cor_tick W c; cor_run W void c })"

section \<open>The value of a body\<close>

text \<open>
  The specification: to await is to call.  The result is \<^const>\<open>None\<close> where it is not defined, and
  \<^term>\<open>Some None\<close> for a body that ends without a value: thrown, or abandoned because of an error.  An
  awaiter is ticked until it waits no more.  The flag is whether the promise of the coroutine has no
  \<open>iface\<close> yet.
\<close>

definition settled :: "('a, 'v) wait_interface \<Rightarrow> 'a \<Rightarrow> 'a option" where
  "settled W a = while_option (\<lambda>a. wi_state W a = WAITING) (wi_tick W) a"

datatype 'v awaited_result = Value "'v option" bool | Abandoned

primrec body_value :: "('a, 'v) wait_interface \<Rightarrow> ('a, 'v) cor_body \<Rightarrow> bool \<Rightarrow> 'v option option"
    and awaited_value :: "('a, 'v) wait_interface \<Rightarrow> ('a, 'v) awaited \<Rightarrow> bool \<Rightarrow> 'v awaited_result option" where
  "body_value W (CoReturn v) = (\<lambda>fresh. Some (Some v))"
| "body_value W CoThrow = (\<lambda>fresh. Some None)"
| "body_value W (CoAwait w k) = (\<lambda>fresh.
     (case awaited_value W w fresh of
        None \<Rightarrow> None
      | Some Abandoned \<Rightarrow> Some None
      | Some (Value u fresh) \<Rightarrow> body_value W (k u) fresh))"
| "awaited_value W (AwCoroutine void b) = (\<lambda>fresh.
     (case body_value W b True of
        None \<Rightarrow> None
      | Some v \<Rightarrow> if void then Some (Value None False) else map_option (\<lambda>v. Value (Some v) False) v))"
| "awaited_value W (AwUnallocated void) = (\<lambda>fresh. if void then Some (Value None False) else None)"
| "awaited_value W (AwInterface a) = (\<lambda>fresh.
     (case settled W a of
        None \<Rightarrow> None
      | Some a \<Rightarrow> Some (if wi_state W a = READY then Value (wi_resume W a) False else Abandoned)))"
| "awaited_value W AwNoop = (\<lambda>fresh. if fresh then Some (Value None True) else None)"
| "awaited_value W AwError = (\<lambda>fresh. if fresh then Some (Value None True) else None)"

section \<open>Ticks\<close>

inductive ticks_to :: "('a, 'v) wait_interface \<Rightarrow> ('a, 'v) cor \<Rightarrow> ('a, 'v) cor \<Rightarrow> bool" for W where
  here: "ticks_to W c c"
| tick: "\<not> cor_done c \<Longrightarrow> cor_tick W c = Some c' \<Longrightarrow> ticks_to W c' c'' \<Longrightarrow> ticks_to W c c''"

lemma ticks_to_trans: "ticks_to W a b \<Longrightarrow> ticks_to W b c \<Longrightarrow> ticks_to W a c"
  by (induction rule: ticks_to.induct) (auto intro: ticks_to.tick)

lemma ticks_to_run: "ticks_to W c c' \<Longrightarrow> cor_run W void c = cor_run W void c'"
proof (induction rule: ticks_to.induct)
  case (tick c c' c'')
  then show ?case by (subst cor_run.simps) simp
qed simp

lemma run_done: "cor_done c \<Longrightarrow> cor_run W void c = await_resume void c"
  by (subst cor_run.simps) simp

lemma cor_done_simps [simp]: "cor_done NoHandle" "cor_done (Handle p i) = handle_done p" "\<not> cor_done (cor_start b)"
  by (simp_all add: cor_done_def cor_start_def)

lemma await_resume_simps [simp]:
  "await_resume True c = Some None" "await_resume False (Handle (Final v) i) = map_option Some v" "await_resume False NoHandle = None"
  by (simp_all add: await_resume_def promise_value_def)

text \<open>A coroutine that awaits another one ticks it to its end.\<close>

lemma ticks_to_inner:
  "ticks_to W c c' \<Longrightarrow> \<not> handle_done p \<Longrightarrow> ticks_to W (Handle p (ToCor void c)) (Handle p (ToCor void c'))"
proof (induction rule: ticks_to.induct)
  case (tick c c' c'')
  then show ?case
    using ticks_to.tick [of "Handle p (ToCor void c)" W "Handle p (ToCor void c')"] by (simp add: cor_state_def)
qed (rule ticks_to.here)

lemma ticks_to_settled:
  assumes "settled W a = Some a'" "\<not> handle_done p"
  shows "ticks_to W (Handle p (ToAwaiter a)) (Handle p (ToAwaiter a')) \<and> wi_state W a' \<noteq> WAITING"
  unfolding settled_def
proof (rule while_option_rule [OF _ assms(1) [unfolded settled_def], of "\<lambda>x. ticks_to W (Handle p (ToAwaiter a)) (Handle p (ToAwaiter x))", THEN conjI])
  fix x assume "ticks_to W (Handle p (ToAwaiter a)) (Handle p (ToAwaiter x))" "wi_state W x = WAITING"
  moreover from this(2) have "ticks_to W (Handle p (ToAwaiter x)) (Handle p (ToAwaiter (wi_tick W x)))"
    using assms(2) by (auto intro: ticks_to.tick [OF _ _ ticks_to.here])
  ultimately show "ticks_to W (Handle p (ToAwaiter a)) (Handle p (ToAwaiter (wi_tick W x)))" using ticks_to_trans by blast
next
  show "ticks_to W (Handle p (ToAwaiter a)) (Handle p (ToAwaiter a))" by (rule ticks_to.here)
  show "wi_state W a' \<noteq> WAITING" using while_option_stop [OF assms(1) [unfolded settled_def]] by simp
qed

lemma start_ticks: "ticks_to W (cor_suspend b NoIface) c \<Longrightarrow> ticks_to W (cor_start b) c"
  by (rule ticks_to.tick) (simp_all add: cor_start_def)

text \<open>What a tick does once the awaited object waits no more.\<close>

lemma resume_inner:
  assumes "cor_done c" "await_resume void c = Some u"
  shows "ticks_to W (cor_suspend (k u) Dangling) c' \<Longrightarrow> ticks_to W (Handle (Suspended True k) (ToCor void c)) c'"
  using assms ticks_to.tick [of "Handle (Suspended True k) (ToCor void c)" W "cor_suspend (k u) Dangling"]
  by (simp add: cor_state_def)

lemma resume_awaiter:
  assumes "wi_state W a = READY"
  shows "ticks_to W (cor_suspend (k (wi_resume W a)) Dangling) c' \<Longrightarrow> ticks_to W (Handle (Suspended True k) (ToAwaiter a)) c'"
  using assms ticks_to.tick [of "Handle (Suspended True k) (ToAwaiter a)" W "cor_suspend (k (wi_resume W a)) Dangling"]
  by simp

lemma resume_unregistered:
  "ticks_to W (cor_suspend (k None) NoIface) c' \<Longrightarrow> ticks_to W (Handle (Suspended False k) NoIface) c'"
  using ticks_to.tick [of "Handle (Suspended False k) NoIface" W "cor_suspend (k None) NoIface"] by simp

definition iface_of :: "bool \<Rightarrow> ('a, 'v) cor_iface" where
  "iface_of fresh = (if fresh then NoIface else Dangling)"

definition ends_with :: "('a, 'v) wait_interface \<Rightarrow> ('a, 'v) cor \<Rightarrow> 'v option \<Rightarrow> bool" where
  "ends_with W c v \<longleftrightarrow> (\<exists>c'. ticks_to W c c' \<and> cor_done c' \<and> promise_value c' = v)"

lemma ends_with_from: "ends_with W c' v \<Longrightarrow> (\<And>c''. ticks_to W c' c'' \<Longrightarrow> ticks_to W c c'') \<Longrightarrow> ends_with W c v"
  by (auto simp: ends_with_def)

text \<open>How a coroutine that awaits goes on, for what it may await.\<close>

lemma ends_coroutine:
  assumes b: "ends_with W (cor_suspend b NoIface) u" and r: "void \<or> u \<noteq> None"
    and ends: "ends_with W (cor_suspend (k (if void then None else u)) Dangling) v"
  shows "ends_with W (cor_suspend (CoAwait (AwCoroutine void b) k) i) v"
proof -
  obtain c where c: "ticks_to W (cor_suspend b NoIface) c" "cor_done c" "promise_value c = u"
    using b by (auto simp: ends_with_def)
  define x where "x = (if void then None else u)"
  have res: "await_resume void c = Some x" using r c(3) by (auto simp: await_resume_def x_def)
  have "ticks_to W (cor_suspend (CoAwait (AwCoroutine void b) k) i) c''" if "ticks_to W (cor_suspend (k x) Dangling) c''" for c''
    using ticks_to_trans [OF ticks_to_inner [OF start_ticks [OF c(1)], of "Suspended True k" void]
        resume_inner [where k = k, OF c(2) res that]] by simp
  with ends [folded x_def] show ?thesis by (rule ends_with_from)
qed

lemma ends_ready:
  assumes a: "settled W a = Some a'" and ready: "wi_state W a' = READY"
    and ends: "ends_with W (cor_suspend (k (wi_resume W a')) Dangling) v"
  shows "ends_with W (cor_suspend (CoAwait (AwInterface a) k) i) v"
proof -
  have "ticks_to W (cor_suspend (CoAwait (AwInterface a) k) i) c"
    if "ticks_to W (cor_suspend (k (wi_resume W a')) Dangling) c" for c
    using ticks_to_trans [OF conjunct1 [OF ticks_to_settled [OF a, of "Suspended True k"]]
        resume_awaiter [where k = k, OF ready that]] by simp
  with ends show ?thesis by (rule ends_with_from)
qed

lemma ends_errored:
  assumes a: "settled W a = Some a'" and err: "wi_state W a' = ERRORED"
  shows "ends_with W (cor_suspend (CoAwait (AwInterface a) k) i) None"
proof -
  have "ticks_to W (Handle (Suspended True k) (ToAwaiter a')) NoHandle"
    using err by (auto simp: handle_assign_def intro: ticks_to.tick [OF _ _ ticks_to.here])
  then show ?thesis using ticks_to_settled [OF a, of "Suspended True k"] ticks_to_trans
    by (fastforce simp: ends_with_def promise_value_def)
qed

lemma body_value_reached:
  fixes W :: "('a, 'v) wait_interface"
  shows "body_value W b fresh = Some v \<Longrightarrow> ends_with W (cor_suspend b (iface_of fresh)) v"
proof (induction b arbitrary: fresh v rule: cor_body.induct [where ?P2.0 =
      "\<lambda>w :: ('a, 'v) awaited. \<forall>void b v. w = AwCoroutine void b \<longrightarrow> body_value W b True = Some v \<longrightarrow> ends_with W (cor_suspend b NoIface) v"])
  case (CoAwait w k)
  show ?case
  proof (cases w)
    case (AwCoroutine void b)
    then obtain u where u: "body_value W b True = Some u" and r: "void \<or> u \<noteq> None"
        and k: "body_value W (k (if void then None else u)) False = Some v"
      using CoAwait.prems by (auto split: option.splits if_splits)
    have "ends_with W (cor_suspend b NoIface) u" using CoAwait.hyps AwCoroutine u by blast
    moreover have "ends_with W (cor_suspend (k (if void then None else u)) Dangling) v"
      using CoAwait.IH [OF rangeI k] by (simp add: iface_of_def)
    ultimately show ?thesis unfolding AwCoroutine using r by (intro ends_coroutine)
  next
    case (AwUnallocated void)
    then have "void" "body_value W (k None) False = Some v" using CoAwait.prems by (auto split: if_splits)
    moreover from this(2) have "ends_with W (cor_suspend (k None) Dangling) v"
      using CoAwait.IH [OF rangeI, of None False v] by (simp add: iface_of_def)
    ultimately show ?thesis using AwUnallocated resume_inner [of NoHandle void None W k]
      by (simp add: ends_with_from)
  next
    case (AwInterface a)
    then obtain a' where a: "settled W a = Some a'" using CoAwait.prems by (auto split: option.splits)
    show ?thesis
    proof (cases "wi_state W a' = READY")
      case True
      then have "body_value W (k (wi_resume W a')) False = Some v" using CoAwait.prems AwInterface a by simp
      then have "ends_with W (cor_suspend (k (wi_resume W a')) Dangling) v"
        using CoAwait.IH [OF rangeI] by (fastforce simp: iface_of_def)
      then show ?thesis unfolding AwInterface by (rule ends_ready [OF a True])
    next
      case False
      then have e: "wi_state W a' = ERRORED" "v = None"
        using ticks_to_settled [OF a, of "Suspended True k"] CoAwait.prems AwInterface a by (cases "wi_state W a'"; simp)+
      show ?thesis unfolding AwInterface e(2) by (rule ends_errored [OF a e(1)])
    qed
  next
    case AwNoop
    then show ?thesis using CoAwait.prems CoAwait.IH [OF rangeI, of None True v] resume_unregistered [of W k]
      by (auto simp: iface_of_def intro: ends_with_from split: if_splits)
  next
    case AwError
    then show ?thesis using CoAwait.prems CoAwait.IH [OF rangeI, of None True v] resume_unregistered [of W k]
      by (auto simp: iface_of_def intro: ends_with_from split: if_splits)
  qed
next
  case (AwCoroutine void b)
  then have "body_value W b True = Some v \<Longrightarrow> ends_with W (cor_suspend b (iface_of True)) v" for v by blast
  then show ?case by (auto simp: iface_of_def)
qed (auto simp: ends_with_def promise_value_def intro: ticks_to.here)

text \<open>\<open>run\<close> returns, with the value of the body.\<close>

lemma run_body_value:
  assumes "body_value W b True = Some v" "void \<or> v \<noteq> None"
  shows "cor_run W void (cor_start b) = Some (if void then None else v)"
proof -
  obtain c where c: "ticks_to W (cor_start b) c" "cor_done c" "promise_value c = v"
    using body_value_reached [OF assms(1)] start_ticks by (fastforce simp: ends_with_def iface_of_def)
  then have "cor_run W void (cor_start b) = await_resume void c" using ticks_to_run run_done by metis
  then show ?thesis using c(3) assms(2) by (auto simp: await_resume_def)
qed

section \<open>Errors\<close>

text \<open>\<open>error_awaiter\<close> does not register itself, so the coroutine that awaits it goes on.\<close>

lemma error_awaiter_ignored: "body_value W (CoAwait AwError k) True = body_value W (k None) True"
  by simp

text \<open>
  A coroutine whose awaiter errs is abandoned, and is then \<^const>\<open>READY\<close>: one of \<open>void\<close> cannot be told from one
  that has ended, and the value of another is read through a null handle.
\<close>

lemma errored_looks_ready:
  fixes W :: "('a, 'v) wait_interface"
  assumes "wi_state W a = ERRORED"
  shows "cor_tick W (Handle p (ToAwaiter a)) = Some NoHandle" "cor_state NoHandle = READY"
    "cor_run W True (Handle p (ToAwaiter a)) = Some None" "\<not> handle_done p \<Longrightarrow> cor_run W False (Handle p (ToAwaiter a)) = None"
proof -
  show t: "cor_tick W (Handle p (ToAwaiter a)) = Some NoHandle" using assms by (simp add: handle_assign_def)
  show "cor_state NoHandle = READY" by (simp add: cor_state_def)
  have "\<not> handle_done p \<Longrightarrow> cor_run W void (Handle p (ToAwaiter a)) = await_resume void (NoHandle :: ('a, 'v) cor)" for void
    using ticks_to_run [OF ticks_to.tick [OF _ t ticks_to.here]] run_done [of NoHandle W] by simp
  then show "cor_run W True (Handle p (ToAwaiter a)) = Some None" "\<not> handle_done p \<Longrightarrow> cor_run W False (Handle p (ToAwaiter a)) = None"
    by (cases "handle_done p"; simp add: run_done)+
qed

text \<open>After an awaited coroutine, an awaiter that does not register itself leaves the pointer to the old one.\<close>

lemma noop_after_await:
  "cor_tick W (cor_suspend (CoAwait AwNoop k) Dangling) = None"
  by simp

end
