(* ===== verification/RequestReply.thy ===== *)
theory RequestReply
  imports Coroutine
begin

text \<open>
  \<open>experimental/coro/request_reply.hpp\<close>: a coroutine that yields requests and is resumed with replies, and
  \<open>round_robin_executor.hpp\<close>, which runs a container of them as one.  Also \<open>memory_promise.hpp\<close>, the
  memory of the frames.  The bodies may run forever, so their trees may be infinite.
\<close>

section \<open>Requests and replies\<close>

codatatype ('q, 'r) rr_body = RFinish | RYield 'q "'r \<Rightarrow> ('q, 'r) rr_body" | RUndefined

datatype ('q, 'r) rr_point = AtYield "'r \<Rightarrow> ('q, 'r) rr_body" | AtFinal

record ('q, 'r) rr_frame =
  rr_at :: "('q, 'r) rr_point"
  rr_request :: "'q option"
  rr_reply :: "'r option"

text \<open>The handle; \<^const>\<open>None\<close> is the null handle of a coroutine that could not be allocated.\<close>

type_synonym ('q, 'r) request_reply = "('q, 'r) rr_frame option"

text \<open>The body up to its next \<open>co_yield\<close>, \<open>yield_value\<close>, or to its end.\<close>

definition rr_suspend :: "('q, 'r) rr_body \<Rightarrow> ('q, 'r) rr_frame \<Rightarrow> ('q, 'r) rr_frame option" where
  "rr_suspend b h =
     (case b of
        RFinish \<Rightarrow> Some (h\<lparr>rr_at := AtFinal\<rparr>)
      | RYield out k \<Rightarrow> Some (h\<lparr>rr_at := AtYield k, rr_request := Some out\<rparr>)
      | RUndefined \<Rightarrow> None)"

definition rr_create :: "('q, 'r) rr_body \<Rightarrow> ('q, 'r) request_reply option" where
  "rr_create b = map_option Some (rr_suspend b \<lparr>rr_at = AtFinal, rr_request = None, rr_reply = None\<rparr>)"

text \<open>\<open>h_()\<close>: the awaiter gives the body the reply of the promise.\<close>

definition rr_resume :: "('q, 'r) rr_frame \<Rightarrow> ('q, 'r) rr_frame option" where
  "rr_resume h =
     (case rr_at h of
        AtFinal \<Rightarrow> None
      | AtYield k \<Rightarrow> do { r \<leftarrow> rr_reply h; rr_suspend (k r) h })"

definition rr_get_request :: "('q, 'r) request_reply \<Rightarrow> 'q option" where
  "rr_get_request c = do { h \<leftarrow> c; rr_request h }"

definition rr_has_reply :: "('q, 'r) request_reply \<Rightarrow> bool" where
  "rr_has_reply c = (case c of None \<Rightarrow> False | Some h \<Rightarrow> rr_reply h \<noteq> None)"

definition rr_store_reply :: "('q, 'r) request_reply \<Rightarrow> 'r \<Rightarrow> ('q, 'r) request_reply" where
  "rr_store_reply c inpt = map_option (\<lambda>h. h\<lparr>rr_reply := Some inpt\<rparr>) c"

text \<open>On the null handle it is not defined.\<close>

definition rr_done :: "('q, 'r) request_reply \<Rightarrow> bool option" where
  "rr_done c = map_option (\<lambda>h. case rr_at h of AtFinal \<Rightarrow> True | AtYield _ \<Rightarrow> False) c"

definition rr_tick :: "('q, 'r) request_reply \<Rightarrow> (bool \<times> ('q, 'r) request_reply) option" where
  "rr_tick c = do {
     h \<leftarrow> c;
     (if rr_reply h = None then Some (False, c)
      else if rr_done c = Some True then Some (False, c)
      else do {
        let h = h\<lparr>rr_request := None\<rparr>;
        h \<leftarrow> rr_resume h;
        let h = h\<lparr>rr_reply := None\<rparr>;
        Some (True, Some h)
      })
   }"

section \<open>The executor\<close>

text \<open>
  The loop up to the next \<open>co_yield\<close> (the request, the index of the coroutine and the next index) or to the
  end, \<^term>\<open>Some None\<close>.
\<close>

partial_function (option) rr_scan ::
  "('q, 'r) request_reply list \<Rightarrow> nat \<Rightarrow> ('q \<times> nat \<times> nat) option option" where
  "rr_scan coros i =
     (if length coros \<le> i then None
      else let cor = coros ! i; j = i; i = (i + 1) mod length coros
      in do {
        ended \<leftarrow> rr_done cor;
        (if ended then
           (if i = 0 \<and> list_all (\<lambda>c. rr_done c = Some True) coros then Some None else rr_scan coros i)
         else
           (case rr_get_request cor of
              None \<Rightarrow> Some None
            | Some out \<Rightarrow> Some (Some (out, j, i))))
      })"

text \<open>What the executor does with the reply; \<^term>\<open>Some None\<close> is its end.\<close>

definition rr_feed :: "('q, 'r) request_reply list \<Rightarrow> nat \<Rightarrow> 'r \<Rightarrow> ('q, 'r) request_reply list option option" where
  "rr_feed coros j resp = do {
     let cor = rr_store_reply (coros ! j) resp;
     (ticked, cor) \<leftarrow> rr_tick cor;
     Some (if ticked then Some (coros[j := cor]) else None)
   }"

text \<open>The executor is itself the body of such a coroutine; the state is \<^const>\<open>None\<close> after a tick that failed.\<close>

primcorec round_robin_run ::
  "('q, 'r) request_reply list option option \<Rightarrow> nat \<Rightarrow> ('q, 'r) rr_body" where
  "round_robin_run s i =
     (case s of
        None \<Rightarrow> RUndefined
      | Some None \<Rightarrow> RFinish
      | Some (Some coros) \<Rightarrow>
          (case rr_scan coros i of
             None \<Rightarrow> RUndefined
           | Some None \<Rightarrow> RFinish
           | Some (Some (out, j, i)) \<Rightarrow> RYield out (\<lambda>resp. round_robin_run (rr_feed coros j resp) i)))"

section \<open>Conversations\<close>

text \<open>
  The requests of a body that is given the replies \<open>rs\<close>, the last one without a reply, and whether it has
  ended.
\<close>

fun talk :: "('q, 'r) rr_body \<Rightarrow> 'r list \<Rightarrow> 'q list \<times> bool" where
  "talk b rs =
     (case b of
        RYield q k \<Rightarrow> (case rs of [] \<Rightarrow> ([q], False) | r # rs \<Rightarrow> (case talk (k r) rs of (qs, e) \<Rightarrow> (q # qs, e)))
      | _ \<Rightarrow> ([], b = RFinish))"

declare talk.simps [simp del]

lemma talk_simps [simp]:
  "talk RFinish rs = ([], True)" "talk RUndefined rs = ([], False)" "talk (RYield q k) [] = ([q], False)"
  "talk (RYield q k) (r # rs) = (q # fst (talk (k r) rs), snd (talk (k r) rs))"
  by (simp_all add: talk.simps case_prod_unfold)

text \<open>The same through the operations of the class.\<close>

fun rr_converse :: "('q, 'r) request_reply \<Rightarrow> 'r list \<Rightarrow> ('q list \<times> bool) option" where
  "rr_converse c [] = map_option (Pair (case rr_get_request c of None \<Rightarrow> [] | Some q \<Rightarrow> [q])) (rr_done c)"
| "rr_converse c (r # rs) =
     (case rr_get_request c of
        None \<Rightarrow> map_option (Pair []) (rr_done c)
      | Some q \<Rightarrow> do {
          (ticked, c) \<leftarrow> rr_tick (rr_store_reply c r);
          (qs, e) \<leftarrow> rr_converse c rs;
          (if ticked then Some (q # qs, e) else None)
        })"

text \<open>A coroutine between two operations: the rest of its body.\<close>

definition rr_of :: "('q, 'r) rr_body \<Rightarrow> ('q, 'r) request_reply" where
  "rr_of b =
     (case b of
        RYield q k \<Rightarrow> Some \<lparr>rr_at = AtYield k, rr_request = Some q, rr_reply = None\<rparr>
      | _ \<Rightarrow> Some \<lparr>rr_at = AtFinal, rr_request = None, rr_reply = None\<rparr>)"

lemma rr_of_simps [simp]:
  "rr_of (RYield q k) = Some \<lparr>rr_at = AtYield k, rr_request = Some q, rr_reply = None\<rparr>"
  "rr_of RFinish = Some \<lparr>rr_at = AtFinal, rr_request = None, rr_reply = None\<rparr>"
  by (simp_all add: rr_of_def)

lemma rr_create_eq: "b \<noteq> RUndefined \<Longrightarrow> rr_create b = Some (rr_of b)"
  by (cases b) (simp_all add: rr_create_def rr_suspend_def)

lemma rr_done_of: "b \<noteq> RUndefined \<Longrightarrow> rr_done (rr_of b) = Some (b = RFinish)"
  by (cases b) (simp_all add: rr_done_def)

lemma rr_request_of: "rr_get_request (rr_of (RYield q k)) = Some q" "rr_get_request (rr_of RFinish) = None"
  by (simp_all add: rr_get_request_def)

lemma rr_tick_of:
  "rr_tick (rr_store_reply (rr_of (RYield q k)) r) = (if k r = RUndefined then None else Some (True, rr_of (k r)))"
  "rr_tick (rr_store_reply (rr_of RFinish) r) = Some (False, rr_store_reply (rr_of RFinish) r)"
  by (cases "k r"; simp add: rr_tick_def rr_store_reply_def rr_done_def rr_resume_def rr_suspend_def)+

text \<open>Without a reply nothing happens.\<close>

lemma rr_tick_without_reply: "b \<noteq> RUndefined \<Longrightarrow> rr_tick (rr_of b) = Some (False, rr_of b)"
  by (cases b) (simp_all add: rr_tick_def)

text \<open>A body that is defined whatever it is told.\<close>

coinductive defined :: "('q, 'r) rr_body \<Rightarrow> bool" where
  "defined RFinish"
| "(\<And>r. defined (k r)) \<Longrightarrow> defined (RYield q k)"

inductive_simps defined_yield [simp]: "defined (RYield q k)"
declare defined.intros(1) [simp]

lemma defined_not_undefined: "defined b \<Longrightarrow> b \<noteq> RUndefined"
  by (erule defined.cases) simp_all

lemma rr_converse_talk: "defined b \<Longrightarrow> rr_converse (rr_of b) rs = Some (talk b rs)"
proof (induction rs arbitrary: b)
  case Nil
  then show ?case using defined_not_undefined by (cases b) (auto simp: rr_get_request_def rr_done_def)
next
  case (Cons r rs)
  show ?case
  proof (cases b)
    case (RYield q k)
    then have "defined (k r)" using Cons.prems by simp
    then show ?thesis using Cons.IH [of "k r"] RYield defined_not_undefined
      by (fastforce simp: rr_request_of rr_tick_of simp del: rr_of_simps)
  qed (use Cons.prems defined_not_undefined in \<open>auto simp: rr_get_request_def rr_done_def\<close>)
qed

section \<open>Fairness\<close>

text \<open>
  The specification of the executor: a queue of the bodies that have not ended.  The first one asks, gets
  the reply and goes to the end of the queue.
\<close>

definition unfinished :: "('q, 'r) rr_body list \<Rightarrow> ('q, 'r) rr_body list" where
  "unfinished bs = filter (\<lambda>b. b \<noteq> RFinish) bs"

fun queue_talk :: "('q, 'r) rr_body list \<Rightarrow> 'r list \<Rightarrow> 'q list \<times> bool" where
  "queue_talk q rs =
     (case q of
        RYield out k # q \<Rightarrow>
          (case rs of
             [] \<Rightarrow> ([out], False)
           | r # rs \<Rightarrow> (case queue_talk (q @ unfinished [k r]) rs of (outs, e) \<Rightarrow> (out # outs, e)))
      | _ \<Rightarrow> ([], q = []))"

declare queue_talk.simps [simp del]

lemma queue_talk_simps [simp]:
  "queue_talk [] rs = ([], True)" "queue_talk (RYield out k # q) [] = ([out], False)"
  "queue_talk (RYield out k # q) (r # rs) =
    (out # fst (queue_talk (q @ unfinished [k r]) rs), snd (queue_talk (q @ unfinished [k r]) rs))"
  by (subst queue_talk.simps, simp add: case_prod_unfold)+

text \<open>The queue, from the coroutines in the order in which the index meets them.\<close>

definition queue_from :: "nat \<Rightarrow> ('q, 'r) rr_body list \<Rightarrow> ('q, 'r) rr_body list" where
  "queue_from i bs = unfinished (drop i bs @ take i bs)"

lemma unfinished_simps [simp]: "unfinished [] = []" "unfinished (b # bs) = (if b = RFinish then unfinished bs else b # unfinished bs)"
    "unfinished (as @ bs) = unfinished as @ unfinished bs"
  by (simp_all add: unfinished_def)

lemma unfinished_empty: "unfinished bs = [] \<longleftrightarrow> (\<forall>b \<in> set bs. b = RFinish)"
  by (auto simp: unfinished_def filter_empty_conv)

lemma queue_from_next:
  assumes "i < length bs"
  shows "queue_from i bs = unfinished [bs ! i] @ unfinished (drop (Suc i) bs @ take i bs)"
    and "queue_from (Suc i mod length bs) bs = unfinished (drop (Suc i) bs @ take i bs) @ unfinished [bs ! i]"
proof -
  show "queue_from i bs = unfinished [bs ! i] @ unfinished (drop (Suc i) bs @ take i bs)"
    using assms by (simp add: queue_from_def Cons_nth_drop_Suc [symmetric])
  show "queue_from (Suc i mod length bs) bs = unfinished (drop (Suc i) bs @ take i bs) @ unfinished [bs ! i]"
  proof (cases "Suc i = length bs")
    case True
    then have "bs = take i bs @ [bs ! i]" by (metis take_Suc_conv_app_nth assms order_refl take_all)
    then have "unfinished bs = unfinished (take i bs) @ unfinished [bs ! i]" by (metis unfinished_simps(3))
    then show ?thesis using True by (simp add: queue_from_def)
  next
    case False
    then show ?thesis using assms by (simp add: queue_from_def take_Suc_conv_app_nth)
  qed
qed

text \<open>The scan finds the head of the queue, and that the queue is empty.\<close>

lemma rr_scan_step:
  assumes "i < length bs" "RUndefined \<notin> set bs"
  shows "rr_scan (map rr_of bs) i =
    (case bs ! i of
       RYield out k \<Rightarrow> Some (Some (out, i, Suc i mod length bs))
     | _ \<Rightarrow> if Suc i mod length bs = 0 \<and> unfinished bs = [] then Some None else rr_scan (map rr_of bs) (Suc i mod length bs))"
proof -
  have un: "b \<in> set bs \<Longrightarrow> b \<noteq> RUndefined" for b using assms(2) by auto
  then have all: "list_all (\<lambda>c. rr_done c = Some True) (map rr_of bs) \<longleftrightarrow> unfinished bs = []"
    by (auto simp: list_all_iff unfinished_empty rr_done_of)
  have "bs ! i \<noteq> RUndefined" using un assms(1) by simp
  then show ?thesis
    by (subst rr_scan.simps) (use assms(1) all in \<open>cases "bs ! i"; simp add: Let_def rr_done_of rr_request_of del: rr_of_simps\<close>)
qed

lemma rr_scan_finds:
  assumes "RUndefined \<notin> set bs" "i + m < length bs" "\<forall>j < m. bs ! (i + j) = RFinish" "bs ! (i + m) = RYield out k"
  shows "rr_scan (map rr_of bs) i = Some (Some (out, i + m, Suc (i + m) mod length bs))"
  using assms(2-4)
proof (induction m arbitrary: i)
  case 0
  then show ?case using rr_scan_step [of i bs] assms(1) by simp
next
  case (Suc m)
  have "bs ! i = RFinish" using Suc.prems(2) by (metis add_0_right zero_less_Suc)
  moreover have "Suc i mod length bs = Suc i" using Suc.prems(1) by simp
  ultimately have "rr_scan (map rr_of bs) i = rr_scan (map rr_of bs) (Suc i)"
    using rr_scan_step [of i bs] assms(1) Suc.prems(1) by simp
  also have "\<dots> = Some (Some (out, Suc i + m, Suc (Suc i + m) mod length bs))"
    using Suc.prems by (intro Suc.IH) auto
  finally show ?case by simp
qed

lemma rr_scan_wraps:
  assumes "RUndefined \<notin> set bs" "i < length bs" "\<forall>j. i \<le> j \<longrightarrow> j < length bs \<longrightarrow> bs ! j = RFinish"
  shows "rr_scan (map rr_of bs) i = (if unfinished bs = [] then Some None else rr_scan (map rr_of bs) 0)"
  using assms(2,3)
proof (induction "length bs - i" arbitrary: i)
  case (Suc d)
  have f: "bs ! i = RFinish" using Suc.prems by simp
  show ?case
  proof (cases "Suc i = length bs")
    case True
    then show ?thesis using rr_scan_step [OF Suc.prems(1) assms(1)] f by simp
  next
    case False
    then have "rr_scan (map rr_of bs) i = rr_scan (map rr_of bs) (Suc i)"
      using rr_scan_step [OF Suc.prems(1) assms(1)] f Suc.prems(1) by simp
    then show ?thesis using Suc.hyps Suc.prems False by simp
  qed
qed simp

lemma first_unfinished:
  assumes "unfinished xs \<noteq> []"
  shows "\<exists>m. m < length xs \<and> (\<forall>j < m. xs ! j = RFinish) \<and> xs ! m \<noteq> RFinish"
proof -
  let ?m = "length (takeWhile (\<lambda>b. b = RFinish) xs)"
  have "?m < length xs" using assms by (metis (mono_tags, lifting) length_takeWhile_le linorder_not_le unfinished_empty order_antisym takeWhile_eq_all_conv takeWhile_eq_take take_all)
  moreover have "\<forall>j < ?m. xs ! j = RFinish" by (metis (mono_tags, lifting) nth_mem set_takeWhileD takeWhile_nth)
  moreover have "xs ! ?m \<noteq> RFinish" using nth_length_takeWhile calculation(1) by blast
  ultimately show ?thesis by blast
qed

lemma rr_scan_queue:
  assumes "RUndefined \<notin> set bs" "i < length bs"
  shows "case rr_scan (map rr_of bs) i of
      Some None \<Rightarrow> queue_from i bs = []
    | Some (Some (out, j, i')) \<Rightarrow> j < length bs \<and> i' = Suc j mod length bs \<and> (\<exists>k. bs ! j = RYield out k) \<and>
        queue_from i bs = queue_from j bs
    | None \<Rightarrow> False"
proof -
  have found: "case rr_scan (map rr_of bs) i of
      Some None \<Rightarrow> queue_from i bs = []
    | Some (Some (out, j, i')) \<Rightarrow> j < length bs \<and> i' = Suc j mod length bs \<and> (\<exists>k. bs ! j = RYield out k) \<and>
        queue_from i bs = queue_from j bs
    | None \<Rightarrow> False" if ne: "unfinished (drop i bs) \<noteq> []" and i: "i < length bs" for i
  proof -
    obtain m where m: "m < length bs - i" "\<forall>j < m. bs ! (i + j) = RFinish" "bs ! (i + m) \<noteq> RFinish"
      using first_unfinished [OF ne] i by auto
    then have "bs ! (i + m) \<noteq> RUndefined" using assms(1) by (metis add.commute less_diff_conv nth_mem)
    then obtain out k where y: "bs ! (i + m) = RYield out k" using m(3) by (cases "bs ! (i + m)") simp_all
    have "\<forall>b \<in> set (take m (drop i bs)). b = RFinish" using m(2) by (auto simp: in_set_conv_nth)
    then have skip: "unfinished (take m (drop i bs)) = []" by (simp add: unfinished_empty)
    have "drop i bs = take m (drop i bs) @ drop (i + m) bs" by (metis add.commute append_take_drop_id drop_drop)
    then have "unfinished (drop i bs) = unfinished (drop (i + m) bs)" using skip by (metis unfinished_simps(3) append_Nil)
    moreover have "take (i + m) bs = take i bs @ take m (drop i bs)" by (simp add: take_add)
    then have "unfinished (take (i + m) bs) = unfinished (take i bs)" using skip by simp
    ultimately have "queue_from i bs = queue_from (i + m) bs" by (simp add: queue_from_def)
    then show ?thesis using rr_scan_finds [OF assms(1) _ m(2) y] m(1) y by simp
  qed
  show ?thesis
  proof (cases "unfinished (drop i bs) = []")
    case True
    have f: "\<forall>j. i \<le> j \<longrightarrow> j < length bs \<longrightarrow> bs ! j = RFinish"
    proof (intro allI impI)
      fix j assume j: "i \<le> j" "j < length bs"
      then have "drop i bs ! (j - i) \<in> set (drop i bs)" by (intro nth_mem) simp
      then show "bs ! j = RFinish" using j True by (simp add: unfinished_empty)
    qed
    have "unfinished bs = unfinished (take i bs) @ unfinished (drop i bs)" by (metis append_take_drop_id unfinished_simps(3))
    then have q: "queue_from i bs = queue_from 0 bs" using True by (simp add: queue_from_def)
    show ?thesis
    proof (cases "unfinished bs = []")
      case True
      then have "queue_from 0 bs = []" by (simp add: queue_from_def)
      then show ?thesis using rr_scan_wraps [OF assms f] True q by simp
    next
      case False
      then have "0 < length bs" by auto
      have "rr_scan (map rr_of bs) i = rr_scan (map rr_of bs) 0" using rr_scan_wraps [OF assms f] False by simp
      then show ?thesis unfolding q using found [of 0] False \<open>0 < length bs\<close> by simp
    qed
  qed (use found assms(2) in blast)
qed

text \<open>The executor is the queue.\<close>

lemma round_robin_simps:
  "round_robin_run (Some (Some coros)) i =
    (case rr_scan coros i of
       None \<Rightarrow> RUndefined
     | Some None \<Rightarrow> RFinish
     | Some (Some (out, j, i)) \<Rightarrow> RYield out (\<lambda>resp. round_robin_run (rr_feed coros j resp) i))"
  "round_robin_run (Some None) i = RFinish" "round_robin_run None i = RUndefined"
  by (subst round_robin_run.code, simp)+

lemma rr_feed_eq:
  assumes "j < length bs" "bs ! j = RYield out k" "k r \<noteq> RUndefined"
  shows "rr_feed (map rr_of bs) j r = Some (Some (map rr_of (bs[j := k r])))"
  using assms rr_tick_of(1) [of out k r] by (simp add: rr_feed_def map_update del: rr_of_simps)

lemma round_robin_queue:
  assumes "\<forall>b \<in> set bs. defined b" "i < length bs"
  shows "talk (round_robin_run (Some (Some (map rr_of bs))) i) rs = queue_talk (queue_from i bs) rs"
  using assms
proof (induction rs arbitrary: bs i)
  case Nil
  have un: "RUndefined \<notin> set bs" using Nil.prems(1) defined_not_undefined by auto
  show ?case
  proof (cases "rr_scan (map rr_of bs) i")
    case (Some res)
    then show ?thesis using rr_scan_queue [OF un Nil.prems(2)]
      by (cases res) (auto simp: round_robin_simps queue_from_next(1))
  qed (use rr_scan_queue [OF un Nil.prems(2)] in simp)
next
  case (Cons r rs)
  have un: "RUndefined \<notin> set bs" using Cons.prems(1) defined_not_undefined by auto
  note scan = rr_scan_queue [OF un Cons.prems(2)]
  show ?case
  proof (cases "rr_scan (map rr_of bs) i")
    case (Some res)
    show ?thesis
    proof (cases res)
      case None
      then show ?thesis using scan Some by (simp add: round_robin_simps)
    next
      case (Some t)
      then obtain out j k where j: "res = Some (out, j, Suc j mod length bs)" "j < length bs" "bs ! j = RYield out k"
          "queue_from i bs = queue_from j bs"
        using scan \<open>rr_scan (map rr_of bs) i = Some res\<close> by (cases t) auto
      define bs' where "bs' = bs[j := k r]"
      have d: "defined (k r)" using Cons.prems(1) j(2,3) by (metis defined_yield nth_mem)
      then have d': "\<forall>b \<in> set bs'. defined b" using Cons.prems(1) set_update_subset_insert by (fastforce simp: bs'_def)
      have feed: "rr_feed (map rr_of bs) j r = Some (Some (map rr_of bs'))"
        using rr_feed_eq [OF j(2,3)] defined_not_undefined [OF d] by (simp add: bs'_def)
      have q: "queue_from j bs = RYield out k # unfinished (drop (Suc j) bs @ take j bs)"
        using queue_from_next(1) [OF j(2)] j(3) by simp
      have q': "queue_from (Suc j mod length bs) bs' = unfinished (drop (Suc j) bs @ take j bs) @ unfinished [k r]"
        using queue_from_next(2) [of j bs'] j(2) by (simp add: bs'_def)
      have "0 < length bs" using j(2) by linarith
      then have "Suc j mod length bs < length bs'" by (simp add: bs'_def)
      then have "talk (round_robin_run (Some (Some (map rr_of bs'))) (Suc j mod length bs)) rs =
          queue_talk (unfinished (drop (Suc j) bs @ take j bs) @ unfinished [k r]) rs"
        using Cons.IH [OF d'] q' by simp
      then show ?thesis using \<open>rr_scan (map rr_of bs) i = Some res\<close> j(1,4) q feed
        by (simp add: round_robin_simps del: unfinished_simps)
    qed
  qed (use scan in simp)
qed

lemma round_robin_defined:
  fixes bs :: "('q, 'r) rr_body list"
  assumes "\<forall>b \<in> set bs. defined b" "i < length bs"
  shows "defined (round_robin_run (Some (Some (map rr_of bs))) i)"
proof -
  define runs :: "('q, 'r) rr_body \<Rightarrow> bool" where
    "runs = (\<lambda>b. \<exists>bs i. b = round_robin_run (Some (Some (map rr_of bs))) i \<and> (\<forall>b \<in> set bs. defined b) \<and> i < length bs)"
  have "runs b \<Longrightarrow> defined b" for b
  proof (coinduction arbitrary: b)
    case defined
    then obtain bs i where b: "b = round_robin_run (Some (Some (map rr_of bs))) i" "\<forall>b \<in> set bs. defined b" "i < length bs"
      unfolding runs_def by blast
    then have un: "RUndefined \<notin> set bs" using defined_not_undefined by auto
    note scan = rr_scan_queue [OF un b(3)]
    then obtain res where res: "rr_scan (map rr_of bs) i = Some res" by (auto split: option.splits)
    show ?case
    proof (cases res)
      case None
      then show ?thesis using b(1) res by (simp add: round_robin_simps)
    next
      case (Some t)
      then obtain out j k where j: "t = (out, j, Suc j mod length bs)" "j < length bs" "bs ! j = RYield out k"
        using scan res by (cases t) auto
      define cont where "cont = (\<lambda>r. round_robin_run (rr_feed (map rr_of bs) j r) (Suc j mod length bs))"
      have "runs (cont r)" for r
      proof -
        have d: "defined (k r)" using b(2) j(2,3) by (metis defined_yield nth_mem)
        then have "\<forall>b \<in> set (bs[j := k r]). defined b" using b(2) set_update_subset_insert by fastforce
        moreover have "rr_feed (map rr_of bs) j r = Some (Some (map rr_of (bs[j := k r])))"
          using rr_feed_eq [OF j(2,3)] defined_not_undefined [OF d] by simp
        moreover have "0 < length bs" using j(2) by linarith
        then have "Suc j mod length bs < length (bs[j := k r])" by simp
        ultimately show ?thesis unfolding cont_def runs_def by metis
      qed
      moreover have "b = RYield out cont" using b(1) res Some j(1) by (simp add: round_robin_simps cont_def)
      ultimately show ?thesis by (intro disjI2 [where P = "b = RFinish"] exI [of _ cont] exI [of _ out] conjI allI disjI1) auto
    qed
  qed
  then show ?thesis using assms unfolding runs_def by blast
qed

text \<open>The executor as a coroutine.\<close>

lemma round_robin_converse:
  assumes "\<forall>b \<in> set bs. defined b" "bs \<noteq> []"
  shows "\<exists>c. rr_create (round_robin_run (Some (Some (map rr_of bs))) 0) = Some c \<and> rr_converse c rs = Some (queue_talk (unfinished bs) rs)"
proof -
  let ?b = "round_robin_run (Some (Some (map rr_of bs))) 0"
  have d: "defined ?b" using round_robin_defined [of bs 0] assms by simp
  have "rr_converse (rr_of ?b) rs = Some (queue_talk (unfinished bs) rs)"
    using rr_converse_talk [OF d] round_robin_queue [of bs 0 rs] assms by (simp add: queue_from_def)
  then show ?thesis using rr_create_eq [OF defined_not_undefined [OF d]] by blast
qed

section \<open>Frames\<close>

text \<open>
  \<open>memory_promise\<close>: a frame of \<open>sz\<close> bytes is put behind a pointer to its resource.  \<open>al\<close> is the alignment of the
  promise, \<open>mem\<close> the pointers to resources in the memory.  Nothing checks that the resource gave a block.
\<close>

definition promise_ptr_size :: nat where
  "promise_ptr_size = 8"

type_synonym 'r frame_memory = "(nat \<Rightarrow> 'r) \<times> (nat \<Rightarrow> nat option)"

definition promise_alloc ::
  "'r allocate_fn \<Rightarrow> nat \<Rightarrow> 'r frame_memory \<Rightarrow> nat \<Rightarrow> nat \<Rightarrow> (nat \<times> 'r frame_memory) option" where
  "promise_alloc alloc al s sz pi = (case s of (rs, mem) \<Rightarrow> do {
     let sz = (sz + promise_ptr_size) mod 2 ^ 64;
     (vp, r) \<leftarrow> alloc (rs pi) sz al;
     p \<leftarrow> vp;
     let mem = mem(p := Some pi);
     Some (p + promise_ptr_size, (rs(pi := r), mem))
   })"

definition promise_delete ::
  "'r deallocate_fn \<Rightarrow> nat \<Rightarrow> 'r frame_memory \<Rightarrow> nat \<Rightarrow> nat \<Rightarrow> ((alloc_error + unit) \<times> 'r frame_memory) option" where
  "promise_delete dealloc al s ptr sz = (case s of (rs, mem) \<Rightarrow> do {
     let p = ptr - promise_ptr_size;
     pi \<leftarrow> mem p;
     (res, r) \<leftarrow> dealloc (rs pi) p ((sz + promise_ptr_size) mod 2 ^ 64) al;
     Some (if res then Inr () else Inl BadAlloc, (rs(pi := r), mem))
   })"

context memory_resource begin

lemma promise_alloc_law:
  assumes "ok (rs pi) live" "sz + promise_ptr_size < 2 ^ 63" "served k"
  shows "promise_alloc alloc (2 ^ k) (rs, mem) sz pi = None \<and> alloc (rs pi) (sz + promise_ptr_size) (2 ^ k) = Some (None, rs pi) \<or>
    (\<exists>ptr r us vs. promise_alloc alloc (2 ^ k) (rs, mem) sz pi = Some (ptr, rs(pi := r), mem(ptr - promise_ptr_size := Some pi)) \<and>
      promise_ptr_size \<le> ptr \<and> 2 ^ k dvd ptr - promise_ptr_size \<and> live = us @ vs \<and>
      ok r (us @ (ptr - promise_ptr_size, sz + promise_ptr_size) # vs))"
proof -
  have m: "0 < sz + promise_ptr_size" "(sz + promise_ptr_size) mod 2 ^ 64 = sz + promise_ptr_size"
    using assms(2) by (simp_all add: promise_ptr_size_def)
  obtain res r where res: "alloc (rs pi) (sz + promise_ptr_size) (2 ^ k) = Some (res, r)"
      "case res of None \<Rightarrow> r = rs pi
       | Some p \<Rightarrow> 2 ^ k dvd p \<and> (\<exists>us vs. live = us @ vs \<and> ok r (us @ (p, sz + promise_ptr_size) # vs))"
    using alloc_law [OF assms(1) m(1) assms(2,3)] by blast
  then show ?thesis using m(2) by (cases res) (auto simp: promise_alloc_def Let_def)
qed

lemma promise_delete_law:
  assumes "ok (rs pi) (us @ (ptr - promise_ptr_size, sz + promise_ptr_size) # vs)" "mem (ptr - promise_ptr_size) = Some pi"
    "sz + promise_ptr_size < 2 ^ 63" "served k"
  shows "\<exists>r. promise_delete dealloc (2 ^ k) (rs, mem) ptr sz = Some (Inr (), rs(pi := r), mem) \<and> ok r (us @ vs)"
  using dealloc_law [OF assms(1) _ assms(4)] assms(2,3) by (auto simp: promise_delete_def promise_ptr_size_def)

text \<open>The frame is not aligned when its alignment is more than that of a pointer.\<close>

lemma frame_misaligned:
  assumes "ok (rs pi) live" "sz + promise_ptr_size < 2 ^ 63" "served k" "3 < k"
    and "promise_alloc alloc (2 ^ k) (rs, mem) sz pi = Some (ptr, s)"
  shows "\<not> 2 ^ k dvd ptr"
proof
  assume "2 ^ k dvd ptr"
  moreover have p: "promise_ptr_size \<le> ptr" "2 ^ k dvd ptr - promise_ptr_size" 
    using promise_alloc_law [where rs = rs and pi = pi and mem = mem, OF assms(1-3)] assms(5) by auto
  ultimately have "2 ^ k dvd promise_ptr_size" by (metis dvd_diffD1)
  then have "(2 :: nat) ^ k \<le> 8" by (auto dest: dvd_imp_le simp: promise_ptr_size_def)
  moreover have "(2 :: nat) ^ 4 \<le> 2 ^ k" using assms(4) by (intro power_increasing) auto
  ultimately show False by simp
qed

end

end
