(* ===== verification/Geometry.thy ===== *)
theory Geometry
  imports Complex_Main Bounded
begin

text \<open>
  \<open>experimental/geom/\<close>: \<open>vec_point_base.hpp\<close>, \<open>vector.hpp\<close>, \<open>point.hpp\<close> and \<open>line.hpp\<close>.  A point or vector is the
  array of its coordinates, \<open>N\<close> is its length; \<open>float\<close> is a field, where roots are taken the real numbers:
  rounding, overflow and the values that are no numbers are left out.
\<close>

section \<open>Points and vectors\<close>

text \<open>The loop over the dimensions, with what the body writes into \<open>res[i]\<close>.\<close>

definition dim_loop :: "(nat \<Rightarrow> 'a \<Rightarrow> 'a) \<Rightarrow> 'a list \<Rightarrow> 'a list" where
  "dim_loop body res = fold (\<lambda>i res. res[i := body i (res ! i)]) [0..<length res] res"

definition vp_init :: "nat \<Rightarrow> ('a :: zero) list" where
  "vp_init N = replicate N 0"

definition make_filled_with :: "'a list \<Rightarrow> 'a \<Rightarrow> 'a list" where
  "make_filled_with raw val = dim_loop (\<lambda>_ _. val) raw"

definition vp_scale :: "('a :: field) list \<Rightarrow> 'a \<Rightarrow> 'a list" where
  "vp_scale a s = dim_loop (\<lambda>_ x. x * s) a"

definition vp_div :: "('a :: field) list \<Rightarrow> 'a \<Rightarrow> 'a list" where
  "vp_div a s = dim_loop (\<lambda>_ x. x / s) a"

definition vp_neg :: "('a :: field) list \<Rightarrow> 'a list" where
  "vp_neg a = vp_scale a (- 1)"

definition vp_dot :: "('a :: field) list \<Rightarrow> 'a list \<Rightarrow> 'a" where
  "vp_dot a b = sum_f (\<lambda>i. a ! i * b ! i) [0..<length a] 0"

definition length2_of :: "('a :: field) list \<Rightarrow> 'a" where
  "length2_of a = sum_f (\<lambda>i. (a ! i)\<^sup>2) [0..<length a] 0"

definition length_of :: "real list \<Rightarrow> real" where
  "length_of a = sqrt (length2_of a)"

definition normalized :: "real list \<Rightarrow> real list" where
  "normalized a = vp_div a (length_of a)"

definition vp_abs :: "('a :: linordered_field) list \<Rightarrow> 'a list" where
  "vp_abs a = dim_loop (\<lambda>i _. \<bar>a ! i\<bar>) (vp_init (length a))"

text \<open>The order is that of the arrays.\<close>

fun vp_less :: "('a :: linorder) list \<Rightarrow> 'a list \<Rightarrow> bool" where
  "vp_less (x # xs) (y # ys) \<longleftrightarrow> x < y \<or> x = y \<and> vp_less xs ys"
| "vp_less [] ys \<longleftrightarrow> ys \<noteq> []"
| "vp_less (x # xs) [] \<longleftrightarrow> False"

definition vp_max :: "('a :: linorder) list \<Rightarrow> 'a list \<Rightarrow> 'a list" where
  "vp_max a b = (if vp_less b a then a else b)"

definition dimensional_max :: "('a :: linordered_field) list \<Rightarrow> 'a list \<Rightarrow> 'a list" where
  "dimensional_max a b = dim_loop (\<lambda>i _. max (a ! i) (b ! i)) (vp_init (length a))"

definition dimensional_min :: "('a :: linordered_field) list \<Rightarrow> 'a list \<Rightarrow> 'a list" where
  "dimensional_min a b = dim_loop (\<lambda>i _. min (a ! i) (b ! i)) (vp_init (length a))"

definition vp_lin_interp :: "('a :: field) list \<Rightarrow> 'a list \<Rightarrow> 'a \<Rightarrow> 'a list" where
  "vp_lin_interp src goal factor = dim_loop (\<lambda>i _. src ! i + (goal ! i - src ! i) * factor) (vp_init (length src))"

text \<open>\<open>+=\<close> and \<open>-=\<close> of a point or a vector and a vector, and the operators made of them.\<close>

definition add_assign :: "('a :: field) list \<Rightarrow> 'a list \<Rightarrow> 'a list" where
  "add_assign a other = dim_loop (\<lambda>i x. x + other ! i) a"

definition sub_assign :: "('a :: field) list \<Rightarrow> 'a list \<Rightarrow> 'a list" where
  "sub_assign a other = dim_loop (\<lambda>i x. x - other ! i) a"

definition vector_add :: "('a :: field) list \<Rightarrow> 'a list \<Rightarrow> 'a list" where
  "vector_add lh rh = add_assign lh rh"

definition point_add :: "('a :: field) list \<Rightarrow> 'a list \<Rightarrow> 'a list" where
  "point_add a b = add_assign a b"

definition point_sub :: "('a :: field) list \<Rightarrow> 'a list \<Rightarrow> 'a list" where
  "point_sub a b = sub_assign a b"

definition point_diff :: "('a :: field) list \<Rightarrow> 'a list \<Rightarrow> 'a list" where
  "point_diff a b = sub_assign a b"

definition point_mul :: "('a :: field) list \<Rightarrow> 'a list \<Rightarrow> 'a list" where
  "point_mul a b = dim_loop (\<lambda>i x. x * b ! i) a"

definition x_axis :: "('a :: field) list" where "x_axis = [1, 0, 0]"
definition y_axis :: "('a :: field) list" where "y_axis = [0, 1, 0]"
definition z_axis :: "('a :: field) list" where "z_axis = [0, 0, 1]"

definition cross_product :: "('a :: field) list \<Rightarrow> 'a list \<Rightarrow> 'a list" where
  "cross_product a b =
     [(a ! 1 * b ! 2) - (a ! 2 * b ! 1), (a ! 2 * b ! 0) - (a ! 0 * b ! 2), (a ! 0 * b ! 1) - (a ! 1 * b ! 0)]"

definition vector_normal_of :: "('a :: field) list \<Rightarrow> 'a list" where
  "vector_normal_of a = [a ! 1, - (a ! 0)]"

definition points_distance_of :: "real list \<Rightarrow> real list \<Rightarrow> real" where
  "points_distance_of a b = sqrt (sum_f (\<lambda>i. (a ! i - b ! i)\<^sup>2) [0..<length a] 0)"

definition axis_projection_distance :: "('a :: field) list \<Rightarrow> 'a list \<Rightarrow> 'a" where
  "axis_projection_distance a axis_direction = vp_dot a axis_direction"

text \<open>The conversion to \<open>size_t\<close> of a quotient, undefined out of its range.\<close>

definition to_size :: "real \<Rightarrow> nat option" where
  "to_size x = (if - 1 < x \<and> x < 2 ^ 64 then Some (nat \<lfloor>x\<rfloor>) else None)"

definition quotient :: "real \<Rightarrow> real \<Rightarrow> real option" where
  "quotient x d = (if d = 0 then None else Some (x / d))"

text \<open>
  The two functions \<open>lineary_interpolate_path\<close>: \<open>seg_steps\<close> of a segment, and the points from its first
  one on.
\<close>

fun interpolate_loop :: "('p \<Rightarrow> 'p \<Rightarrow> nat option) \<Rightarrow> ('p \<Rightarrow> 'p \<Rightarrow> real \<Rightarrow> 'p) \<Rightarrow> 'p list \<Rightarrow> 'p list option" where
  "interpolate_loop steps interp [] = Some []"
| "interpolate_loop steps interp [back] = Some [back]"
| "interpolate_loop steps interp (src # to # path) = do {
     seg_steps \<leftarrow> steps src to;
     res \<leftarrow> interpolate_loop steps interp (to # path);
     Some (map (\<lambda>j. interp src to (real j / real seg_steps)) [0..<seg_steps] @ res)
   }"

definition points_interpolate_path :: "real list list \<Rightarrow> real \<Rightarrow> real list list option" where
  "points_interpolate_path ipath d_step =
     interpolate_loop (\<lambda>src to. do { x \<leftarrow> quotient (points_distance_of src to) d_step; to_size x }) vp_lin_interp ipath"

section \<open>Lines\<close>

definition line_distance_of :: "real list \<Rightarrow> real list \<Rightarrow> real list \<Rightarrow> real" where
  "line_distance_of l0 l1 p =
     (let direction = point_diff l1 l0;
          length_squared = length2_of direction
      in if length_squared = 0 then points_distance_of p l0
         else
           let projection_dist = vp_dot (point_diff p l0) direction;
               projection_dist = projection_dist / length_squared;
               projection_dist = mm_clamp projection_dist \<lparr>mm_min = 0, mm_max = 1\<rparr>;
               closest_p = point_add l0 (vp_scale direction projection_dist)
           in points_distance_of closest_p p)"

section \<open>What the loops compute\<close>

lemma dim_loop_eq: "dim_loop body res = map (\<lambda>i. body i (res ! i)) [0..<length res]"
proof -
  have "fold (\<lambda>i res. res[i := body i (res ! i)]) [0..<n] res = map (\<lambda>i. body i (res ! i)) [0..<n] @ drop n res"
    if "n \<le> length res" for n
    using that
  proof (induction n)
    case (Suc n)
    then have "n < length res" by simp
    then have "drop n res = res ! n # drop (Suc n) res" by (rule Cons_nth_drop_Suc [symmetric])
    then show ?case using Suc by (simp add: list_update_append nth_append)
  qed simp
  from this [of "length res"] show ?thesis by (simp add: dim_loop_def)
qed

lemma sum_f_range: "sum_f f [0..<n] 0 = (\<Sum>i < n. f i)" for f :: "nat \<Rightarrow> 'a :: comm_monoid_add"
  by (simp add: sum_f_eq interv_sum_list_conv_sum_set_nat atLeast0LessThan)

named_theorems geo_defs \<open>the operations on arrays as maps and sums\<close>

lemma vp_dot_eq [geo_defs]: "vp_dot a b = (\<Sum>i < length a. a ! i * b ! i)"
  by (simp add: vp_dot_def sum_f_range)

lemma length2_of_eq [geo_defs]: "length2_of a = (\<Sum>i < length a. (a ! i)\<^sup>2)"
  by (simp add: length2_of_def sum_f_range)

lemma points_distance_of_eq [geo_defs]: "points_distance_of a b = sqrt (\<Sum>i < length a. (a ! i - b ! i)\<^sup>2)"
  by (simp add: points_distance_of_def sum_f_range)

lemma dim_loop_length [simp]: "length (dim_loop body res) = length res"
  by (simp add: dim_loop_eq)

lemma dim_loop_nth [simp]: "i < length res \<Longrightarrow> dim_loop body res ! i = body i (res ! i)"
  by (simp add: dim_loop_eq)

lemmas vp_ops = vp_scale_def vp_div_def vp_neg_def add_assign_def sub_assign_def vector_add_def point_add_def
  point_sub_def point_diff_def vp_lin_interp_def point_mul_def vp_init_def vp_abs_def dimensional_max_def dimensional_min_def

text \<open>Coordinate by coordinate.\<close>

lemma vp_coordinates:
  "length (vp_scale a s) = length a" "length (vp_div a s) = length a" "length (vp_neg a) = length a"
  "length (point_add a b) = length a" "length (point_diff a b) = length a" "length (vp_lin_interp a b s) = length a"
  "length (dimensional_max a' b') = length a'" "length (dimensional_min a' b') = length a'"
  "i < length a \<Longrightarrow> vp_scale a s ! i = a ! i * s" "i < length a \<Longrightarrow> vp_div a s ! i = a ! i / s" "i < length a \<Longrightarrow> vp_neg a ! i = - (a ! i)"
  "i < length a \<Longrightarrow> point_add a b ! i = a ! i + b ! i" "i < length a \<Longrightarrow> point_diff a b ! i = a ! i - b ! i"
  "i < length a \<Longrightarrow> vp_lin_interp a b s ! i = a ! i + (b ! i - a ! i) * s"
  "i < length a' \<Longrightarrow> dimensional_max a' b' ! i = max (a' ! i) (b' ! i)"
  "i < length a' \<Longrightarrow> dimensional_min a' b' ! i = min (a' ! i) (b' ! i)"
  for a b :: "'a :: field list" and a' b' :: "'b :: linordered_field list"
  by (simp_all add: vp_ops)

lemma length2_of_dot: "length2_of a = vp_dot a a"
  by (simp add: geo_defs power2_eq_square)

lemma length2_of_nonneg: "0 \<le> length2_of a" for a :: "'a :: linordered_field list"
  by (simp add: geo_defs sum_nonneg)

lemma length2_of_zero: "length2_of a = 0 \<longleftrightarrow> (\<forall>i < length a. a ! i = 0)" for a :: "'a :: linordered_field list"
  by (auto simp: geo_defs sum_nonneg_eq_0_iff)

lemma points_distance_length: "length a = length b \<Longrightarrow> points_distance_of a b = length_of (point_diff a b)"
  by (simp add: geo_defs length_of_def vp_coordinates)

lemma points_distance_sym: "length a = length b \<Longrightarrow> points_distance_of a b = points_distance_of b a"
  by (simp add: geo_defs power2_commute)

text \<open>A normalized vector has length 1 and the direction of the vector.\<close>

lemma length2_scale: "length2_of (vp_scale a s) = s\<^sup>2 * length2_of a" "length2_of (vp_div a s) = length2_of a / s\<^sup>2"
  by (simp_all add: geo_defs vp_coordinates sum_distrib_left sum_divide_distrib power_mult_distrib power_divide mult.commute)

lemma normalized_length:
  assumes "length2_of a \<noteq> 0"
  shows "length_of (normalized a) = 1" "a = vp_scale (normalized a) (length_of a)"
proof -
  have l: "(length_of a)\<^sup>2 = length2_of a" "length_of a \<noteq> 0" using assms length2_of_nonneg [of a] by (simp_all add: length_of_def)
  have "length2_of (normalized a) = 1" unfolding normalized_def length2_scale using l assms by simp
  then show "length_of (normalized a) = 1" by (simp add: length_of_def)
  show "a = vp_scale (normalized a) (length_of a)"
    using l(2) by (auto intro!: nth_equalityI simp: normalized_def vp_coordinates)
qed

text \<open>The interpolation runs along the segment, at constant speed.\<close>

lemma lin_interp_ends: "length a = length b \<Longrightarrow> vp_lin_interp a b 0 = a \<and> vp_lin_interp a b 1 = b"
  by (auto intro!: nth_equalityI simp: vp_coordinates)

lemma lin_interp_distance:
  assumes "length a = length b"
  shows "points_distance_of (vp_lin_interp a b s) (vp_lin_interp a b t) = \<bar>s - t\<bar> * points_distance_of a b"
proof -
  have "(\<Sum>i < length a. (vp_lin_interp a b s ! i - vp_lin_interp a b t ! i)\<^sup>2) = (\<Sum>i < length a. (s - t)\<^sup>2 * (a ! i - b ! i)\<^sup>2)"
    by (intro sum.cong refl) (simp add: vp_coordinates power2_eq_square algebra_simps)
  also have "\<dots> = (s - t)\<^sup>2 * (\<Sum>i < length a. (a ! i - b ! i)\<^sup>2)" by (simp add: sum_distrib_left)
  finally show ?thesis by (simp add: geo_defs vp_coordinates real_sqrt_mult)
qed

text \<open>The cross product is orthogonal to its factors.\<close>

lemma cross_product_orthogonal:
  "length a = 3 \<Longrightarrow> vp_dot a (cross_product a b) = 0" "length b = 3 \<Longrightarrow> vp_dot b (cross_product a b) = 0"
  by (simp_all add: vp_dot_eq cross_product_def numeral_eq_Suc algebra_simps)

section \<open>The distance from a line\<close>

text \<open>The square of the distance from a point of the line is a parabola.\<close>

lemma line_parabola:
  fixes l0 :: "real list"
  assumes "length l1 = length l0" "length p = length l0"
  defines "d \<equiv> point_diff l1 l0" and "w \<equiv> point_diff p l0"
  shows "(points_distance_of (point_add l0 (vp_scale d t)) p)\<^sup>2 = t\<^sup>2 * length2_of d - 2 * t * vp_dot w d + length2_of w"
proof -
  have n: "length d = length l0" "length w = length l0" using assms by (simp_all add: vp_coordinates)
  have "(points_distance_of (point_add l0 (vp_scale d t)) p)\<^sup>2 = (\<Sum>i < length l0. (l0 ! i + d ! i * t - p ! i)\<^sup>2)"
    using n by (simp add: geo_defs vp_coordinates sum_nonneg)
  also have "\<dots> = (\<Sum>i < length l0. t\<^sup>2 * (d ! i)\<^sup>2 - 2 * t * (w ! i * d ! i) + (w ! i)\<^sup>2)"
    by (intro sum.cong refl) (use assms(2) in \<open>simp add: w_def vp_coordinates power2_eq_square algebra_simps\<close>)
  finally show ?thesis using n by (simp add: geo_defs sum.distrib sum_subtractf sum_distrib_left)
qed

lemma parabola_minimum:
  fixes L P :: real
  assumes "0 < L" "c = mm_clamp (P / L) \<lparr>mm_min = 0, mm_max = 1\<rparr>" "0 \<le> t" "t \<le> 1"
  shows "c\<^sup>2 * L - 2 * c * P \<le> t\<^sup>2 * L - 2 * t * P"
proof -
  have "\<bar>P / L - c\<bar> \<le> \<bar>P / L - t\<bar>"
    unfolding assms(2) by (rule mm_clamp_nearest) (use assms(3,4) in \<open>simp add: mm_contains_def\<close>)
  then have "(P / L - c)\<^sup>2 \<le> (P / L - t)\<^sup>2" by (simp add: abs_le_square_iff)
  then have "L * (P / L - c)\<^sup>2 \<le> L * (P / L - t)\<^sup>2" using assms(1) by simp
  moreover have "L * (P / L - x)\<^sup>2 = P\<^sup>2 / L + (x\<^sup>2 * L - 2 * x * P)" for x
    using assms(1) by (simp add: power2_eq_square field_simps)
  ultimately show ?thesis by simp
qed

text \<open>It is the distance from a point of the segment, and no point of it is nearer.\<close>

lemma line_distance_shortest:
  assumes len: "length l1 = length l0" "length p = length l0"
  shows "\<exists>t. 0 \<le> t \<and> t \<le> 1 \<and> line_distance_of l0 l1 p = points_distance_of (vp_lin_interp l0 l1 t) p"
    and "0 \<le> t \<Longrightarrow> t \<le> 1 \<Longrightarrow> line_distance_of l0 l1 p \<le> points_distance_of (vp_lin_interp l0 l1 t) p"
proof -
  let ?d = "point_diff l1 l0" and ?w = "point_diff p l0"
  have at: "vp_lin_interp l0 l1 t = point_add l0 (vp_scale ?d t)" for t
    using len by (auto intro!: nth_equalityI simp: vp_coordinates)
  have n: "length ?d = length l0" using len by (simp add: vp_coordinates)
  have "(\<exists>t. 0 \<le> t \<and> t \<le> 1 \<and> line_distance_of l0 l1 p = points_distance_of (vp_lin_interp l0 l1 t) p) \<and>
    (\<forall>t. 0 \<le> t \<longrightarrow> t \<le> 1 \<longrightarrow> line_distance_of l0 l1 p \<le> points_distance_of (vp_lin_interp l0 l1 t) p)"
  proof (cases "length2_of ?d = 0")
    case True
    then have "\<forall>i < length l0. ?d ! i = 0" using length2_of_zero n by metis
    then have "point_add l0 (vp_scale ?d t) = l0" for t
      using n by (auto intro!: nth_equalityI simp: vp_coordinates(4,12,9) simp del: vp_coordinates(13))
    then show ?thesis using True points_distance_sym [of l0 p] len(2)
      by (auto simp: at line_distance_of_def Let_def intro!: exI [of _ 0])
  next
    case False
    then have L: "0 < length2_of ?d" using length2_of_nonneg [of ?d] by simp
    let ?c = "mm_clamp (vp_dot ?w ?d / length2_of ?d) \<lparr>mm_min = 0, mm_max = 1\<rparr>"
    have dist: "line_distance_of l0 l1 p = points_distance_of (point_add l0 (vp_scale ?d ?c)) p"
      using False by (simp add: line_distance_of_def Let_def)
    have c: "0 \<le> ?c" "?c \<le> 1" using mm_clamp_contains [of "\<lparr>mm_min = 0, mm_max = 1 :: real\<rparr>"] by (simp_all add: mm_contains_def)
    have "points_distance_of (point_add l0 (vp_scale ?d ?c)) p \<le> points_distance_of (point_add l0 (vp_scale ?d t)) p"
      if "0 \<le> t" "t \<le> 1" for t
    proof (rule power2_le_imp_le)
      show "(points_distance_of (point_add l0 (vp_scale ?d ?c)) p)\<^sup>2 \<le> (points_distance_of (point_add l0 (vp_scale ?d t)) p)\<^sup>2"
        unfolding line_parabola [OF len] using parabola_minimum [OF L refl that] by simp
      show "0 \<le> points_distance_of (point_add l0 (vp_scale ?d t)) p" by (simp add: geo_defs sum_nonneg)
    qed
    then show ?thesis unfolding at dist using c by blast
  qed
  then show "\<exists>t. 0 \<le> t \<and> t \<le> 1 \<and> line_distance_of l0 l1 p = points_distance_of (vp_lin_interp l0 l1 t) p"
    "0 \<le> t \<Longrightarrow> t \<le> 1 \<Longrightarrow> line_distance_of l0 l1 p \<le> points_distance_of (vp_lin_interp l0 l1 t) p" by blast+
qed

section \<open>Paths\<close>

text \<open>Every point of the path is kept when each segment has a step.\<close>

lemma interpolate_keeps:
  assumes "interpolate_loop steps interp path = Some res" "\<And>a b. steps a b \<noteq> Some 0" "\<And>a b. b \<in> set path \<Longrightarrow> a \<in> set path \<Longrightarrow> interp a b 0 = a"
  shows "set path \<subseteq> set res"
  using assms
proof (induction steps interp path arbitrary: res rule: interpolate_loop.induct)
  case (3 steps interp a b path)
  then obtain n r where n: "steps a b = Some n" "interpolate_loop steps interp (b # path) = Some r"
      "res = map (\<lambda>j. interp a b (real j / real n)) [0..<n] @ r"
    by (auto split: bind_splits)
  then have "0 < n" using "3.prems"(2) [of a b] by (cases n) auto
  then have "interp a b (real 0 / real n) \<in> set res" using n(3) by force
  moreover have "set (b # path) \<subseteq> set r" using "3.IH" [OF n(1,2)] "3.prems"(2,3) by (metis list.set_intros(2))
  ultimately show ?case using n(3) "3.prems"(3) [of b a] by auto
qed auto

text \<open>Of points, a segment shorter than the step has none: its first point is lost.\<close>

lemma short_segment_lost:
  assumes "0 < d_step" "points_distance_of a b < d_step"
  shows "points_interpolate_path (a # b # path) d_step = points_interpolate_path (b # path) d_step"
proof -
  have "0 \<le> points_distance_of a b" by (simp add: geo_defs sum_nonneg)
  then have "to_size (points_distance_of a b / d_step) = Some 0"
    using assms by (simp add: to_size_def field_simps floor_eq_iff order_less_le_trans)
  then show ?thesis using assms(1) by (cases "points_interpolate_path (b # path) d_step") (simp_all add: points_interpolate_path_def quotient_def)
qed

end
