(* ===== verification/Quaternion.thy ===== *)
theory Quaternion
  imports Geometry
begin

text \<open>
  \<open>experimental/geom/quaternion.hpp\<close> and \<open>pose.hpp\<close>: rotations and poses in space, over a field, and the real
  numbers where there are roots and angles.
\<close>

section \<open>Quaternions\<close>

datatype 'a quaternion = Quat (qx: 'a) (qy: 'a) (qz: 'a) (qw: 'a)

definition neutral_quat :: "('a :: field) quaternion" where
  "neutral_quat = Quat 0 0 0 1"

text \<open>The constructor from an axis and an angle.\<close>

definition quat_of_axis :: "real list \<Rightarrow> real \<Rightarrow> real quaternion" where
  "quat_of_axis ax a =
     (let s = sin (a * (1 / 2)) / length_of ax in Quat (ax ! 0 * s) (ax ! 1 * s) (ax ! 2 * s) (cos (a * (1 / 2))))"

definition quat_nth :: "'a quaternion \<Rightarrow> nat \<Rightarrow> 'a" where
  "quat_nth q i = [qx q, qy q, qz q, qw q] ! i"

definition quat_inverse :: "('a :: field) quaternion \<Rightarrow> 'a quaternion" where
  "quat_inverse q = Quat (- qx q) (- qy q) (- qz q) (qw q)"

definition quat_neg :: "('a :: field) quaternion \<Rightarrow> 'a quaternion" where
  "quat_neg q = Quat (- qx q) (- qy q) (- qz q) (- qw q)"

definition quat_dot :: "('a :: field) quaternion \<Rightarrow> 'a quaternion \<Rightarrow> 'a" where
  "quat_dot q s = (qx q * qx s) + (qy q * qy s) + (qz q * qz s) + (qw q * qw s)"

definition norm2_of :: "('a :: field) quaternion \<Rightarrow> 'a" where
  "norm2_of q = quat_dot q q"

definition angle_shortest_path :: "real quaternion \<Rightarrow> real quaternion \<Rightarrow> real" where
  "angle_shortest_path m n =
     (let s = sqrt (norm2_of m * norm2_of n);
          d = quat_dot m n;
          d = (if d < 0 then quat_dot m (quat_neg n) else d)
      in arccos (d / s) * 2)"

definition slerp :: "real quaternion \<Rightarrow> real quaternion \<Rightarrow> real \<Rightarrow> real quaternion" where
  "slerp q s f =
     (let theta = angle_shortest_path q s / 2
      in if theta = 0 then q
         else
           let d = 1 / sin theta;
               s0 = sin ((1 - f) * theta);
               s1 = sin (f * theta);
               m = (if quat_dot q s < 0 then - 1 else 1)
           in Quat
             (((qx q * s0) + (m * qx s * s1)) * d)
             (((qy q * s0) + (m * qy s * s1)) * d)
             (((qz q * s0) + (m * qz s * s1)) * d)
             (((qw q * s0) + (m * qw s * s1)) * d))"

definition quat_eq :: "'a quaternion \<Rightarrow> 'a quaternion \<Rightarrow> bool" where
  "quat_eq q s \<longleftrightarrow> qx q = qx s \<and> qy q = qy s \<and> qz q = qz s \<and> qw q = qw s"

text \<open>\<open>find_if\<close> gives the iterator at the end of the range, 4, when there is no index.\<close>

definition quat_less :: "('a :: linorder) quaternion \<Rightarrow> 'a quaternion \<Rightarrow> bool" where
  "quat_less q s =
     (let i = find_if (\<lambda>i. quat_nth q i \<noteq> quat_nth s i) [0..<4]
      in if i = 4 then False else quat_nth q i < quat_nth s i)"

definition quat_mul :: "('a :: field) quaternion \<Rightarrow> 'a quaternion \<Rightarrow> 'a quaternion" where
  "quat_mul q s = Quat
     ((qw q * qx s) + (qx q * qw s) + (qy q * qz s) - (qz q * qy s))
     ((qw q * qy s) + (qy q * qw s) + (qz q * qx s) - (qx q * qz s))
     ((qw q * qz s) + (qz q * qw s) + (qx q * qy s) - (qy q * qx s))
     ((qw q * qw s) - (qx q * qx s) - (qy q * qy s) - (qz q * qz s))"

definition quat_mul_point :: "('a :: field) quaternion \<Rightarrow> 'a list \<Rightarrow> 'a quaternion" where
  "quat_mul_point q x = quat_mul q (Quat (x ! 0) (x ! 1) (x ! 2) 0)"

definition point_mul_quat :: "('a :: field) list \<Rightarrow> 'a quaternion \<Rightarrow> 'a quaternion" where
  "point_mul_quat x q = quat_mul (Quat (x ! 0) (x ! 1) (x ! 2) 0) q"

definition quat_add :: "('a :: field) quaternion \<Rightarrow> 'a quaternion \<Rightarrow> 'a quaternion" where
  "quat_add lh rh = Quat (qx lh + qx rh) (qy lh + qy rh) (qz lh + qz rh) (qw lh + qw rh)"

definition quat_almost_equal :: "('a :: linordered_field) quaternion \<Rightarrow> 'a quaternion \<Rightarrow> 'a \<Rightarrow> bool" where
  "quat_almost_equal q s eps = all_of (\<lambda>i. \<bar>quat_nth q i - quat_nth s i\<bar> < eps) [0..<4]"

definition shortest_arc_quat :: "real \<Rightarrow> real list \<Rightarrow> real list \<Rightarrow> real quaternion" where
  "shortest_arc_quat default_epsilon x y =
     (let x = normalized x;
          y = normalized y;
          c = cross_product x y;
          d = vp_dot x y
      in if d < - 1 + default_epsilon then Quat (c ! 0) (c ! 1) (c ! 2) 0
         else
           let s = sqrt ((1 + d) * 2);
               rs = 1 / s
           in Quat (c ! 0 * rs) (c ! 1 * rs) (c ! 2 * rs) (s * 0))"

definition rotate_point :: "('a :: field) list \<Rightarrow> 'a quaternion \<Rightarrow> 'a list" where
  "rotate_point x q = (let r = quat_mul (quat_mul_point q x) (quat_inverse q) in [qx r, qy r, qz r])"

definition rotate_quat :: "('a :: field) quaternion \<Rightarrow> 'a quaternion \<Rightarrow> 'a quaternion" where
  "rotate_quat x q = quat_mul (quat_mul q x) (quat_inverse q)"

definition rotate_vector :: "('a :: field) list \<Rightarrow> 'a quaternion \<Rightarrow> 'a list" where
  "rotate_vector v q = rotate_point v q"

section \<open>Poses\<close>

record 'a pose =
  position :: "'a list"
  orientation :: "'a quaternion"

record pose_distance =
  pd_dist :: real
  pd_angle_dist :: real

definition pose_default :: "('a :: field) pose" where
  "pose_default = \<lparr>position = [0, 0, 0], orientation = neutral_quat\<rparr>"

definition pose_of_point :: "('a :: field) list \<Rightarrow> 'a pose" where
  "pose_of_point p = \<lparr>position = p, orientation = neutral_quat\<rparr>"

definition pose_of_quat :: "('a :: field) quaternion \<Rightarrow> 'a pose" where
  "pose_of_quat q = \<lparr>position = [0, 0, 0], orientation = q\<rparr>"

definition pose_less :: "('a :: linorder) pose \<Rightarrow> 'a pose \<Rightarrow> bool" where
  "pose_less x y =
     (if position x = position y then quat_less (orientation x) (orientation y) else vp_less (position x) (position y))"

definition pose_eq :: "'a pose \<Rightarrow> 'a pose \<Rightarrow> bool" where
  "pose_eq x y \<longleftrightarrow> position x = position y \<and> quat_eq (orientation x) (orientation y)"

definition pose_distance_of :: "real pose \<Rightarrow> real pose \<Rightarrow> pose_distance" where
  "pose_distance_of x y =
     \<lparr>pd_dist = points_distance_of (position x) (position y),
      pd_angle_dist = angle_shortest_path (orientation x) (orientation y)\<rparr>"

definition pose_steps :: "pose_distance \<Rightarrow> real \<Rightarrow> real \<Rightarrow> nat option" where
  "pose_steps dis dist_step angle_step = do {
     d \<leftarrow> quotient (pd_dist dis) dist_step;
     a \<leftarrow> quotient (pd_angle_dist dis) angle_step;
     d_steps \<leftarrow> to_size (1 + d);
     a_steps \<leftarrow> to_size (1 + a);
     Some (max d_steps a_steps)
   }"

definition pose_lin_interp :: "real pose \<Rightarrow> real pose \<Rightarrow> real \<Rightarrow> real pose" where
  "pose_lin_interp src goal factor =
     \<lparr>position = vp_lin_interp (position src) (position goal) factor,
      orientation = slerp (orientation src) (orientation goal) factor\<rparr>"

definition pose_interpolate_path :: "real pose list \<Rightarrow> real \<Rightarrow> real \<Rightarrow> real pose list option" where
  "pose_interpolate_path ipath d_step a_step =
     interpolate_loop (\<lambda>src to. pose_steps (pose_distance_of to src) d_step a_step) pose_lin_interp ipath"

definition transform_point :: "('a :: field) list \<Rightarrow> 'a pose \<Rightarrow> 'a list" where
  "transform_point a transformation = point_add (rotate_point a (orientation transformation)) (position transformation)"

definition transform_vector :: "('a :: field) list \<Rightarrow> 'a pose \<Rightarrow> 'a list" where
  "transform_vector v transformation = vector_add (rotate_vector v (orientation transformation)) (position transformation)"

definition transform_pose :: "('a :: field) pose \<Rightarrow> 'a pose \<Rightarrow> 'a pose" where
  "transform_pose x transformation =
     \<lparr>position = transform_point (position x) transformation,
      orientation = quat_mul (orientation transformation) (orientation x)\<rparr>"

definition pose_inverse :: "('a :: field) pose \<Rightarrow> 'a pose" where
  "pose_inverse x = \<lparr>position = vp_neg (position x), orientation = quat_inverse (orientation x)\<rparr>"

definition inverse_transform :: "('a :: field) list \<Rightarrow> 'a pose \<Rightarrow> 'a list" where
  "inverse_transform item transformation = transform_point item (pose_inverse transformation)"

definition rotate_pose :: "('a :: field) pose \<Rightarrow> 'a quaternion \<Rightarrow> 'a pose" where
  "rotate_pose x quat = \<lparr>position = rotate_point (position x) quat, orientation = quat_mul quat (orientation x)\<rparr>"

section \<open>Algebra\<close>

named_theorems quat_defs \<open>the algebra of quaternions by components\<close>

lemmas [quat_defs] = neutral_quat_def quat_inverse_def quat_neg_def quat_dot_def norm2_of_def quat_mul_def quat_add_def
  quat_mul_point_def point_mul_quat_def rotate_point_def rotate_quat_def rotate_vector_def Let_def

lemma length_3: "length a = 3 \<Longrightarrow> \<exists>x y z. a = [x, y, z]"
  by (auto simp: numeral_3_eq_3 length_Suc_conv)

lemma vp_ops_3 [simp]:
  "point_add [a, b, c] [d, e, f] = [a + d, b + e, c + f]" "vp_neg [a, b, c] = [- a, - b, - c]"
  "vp_scale [a, b, c] s = [a * s, b * s, c * s]"
  by (simp_all add: vp_ops dim_loop_eq upt_rec)

lemma length2_3: "length2_of [a, b, c] = a\<^sup>2 + b\<^sup>2 + c\<^sup>2"
  by (simp add: length2_of_eq numeral_3_eq_3)

lemma quat_mul_assoc: "quat_mul (quat_mul p q) r = quat_mul p (quat_mul q r)"
  by (simp add: quat_mul_def algebra_simps)

lemma quat_mul_neutral: "quat_mul neutral_quat q = q" "quat_mul q neutral_quat = q"
  by (cases q; simp add: quat_defs)+

lemma quat_inverse_mul: "quat_inverse (quat_mul p q) = quat_mul (quat_inverse q) (quat_inverse p)"
  by (simp add: quat_defs algebra_simps)

lemma norm2_of_mul: "norm2_of (quat_mul p q) = norm2_of p * norm2_of q"
  by (simp add: quat_defs algebra_simps)

lemma norm2_of_inverse [simp]: "norm2_of (quat_inverse q) = norm2_of q" "norm2_of (quat_neg q) = norm2_of q"
  by (simp_all add: quat_defs)

lemma quat_mul_inverse: "quat_mul q (quat_inverse q) = Quat 0 0 0 (norm2_of q)" "quat_mul (quat_inverse q) q = Quat 0 0 0 (norm2_of q)"
  by (simp_all add: quat_defs algebra_simps)

lemma quat_eq_iff: "quat_eq q s \<longleftrightarrow> q = s"
  by (cases q; cases s) (simp add: quat_eq_def)

text \<open>The order is the one of the four fields.\<close>

lemma quat_less_iff: "quat_less q s \<longleftrightarrow> vp_less [qx q, qy q, qz q, qw q] [qx s, qy s, qz s, qw s]"
  by (simp add: quat_less_def quat_nth_def Let_def upt_rec)

section \<open>Rotations\<close>

text \<open>The rotation by a product is that by the factors.\<close>

lemma rotate_point_mul:
  assumes "length x = 3"
  shows "rotate_point (rotate_point x q) p = rotate_point x (quat_mul p q)"
proof -
  obtain a b c where x: "x = [a, b, c]" using length_3 [OF assms] by auto
  let ?v = "Quat a b c 0"
  let ?r = "quat_mul (quat_mul q ?v) (quat_inverse q)"
  have "qw ?r = 0" by (simp add: quat_defs algebra_simps)
  then have r: "Quat (qx ?r) (qy ?r) (qz ?r) 0 = ?r" by (metis quaternion.collapse)
  have "quat_mul (quat_mul (quat_mul p q) ?v) (quat_inverse (quat_mul p q)) = quat_mul (quat_mul p ?r) (quat_inverse p)"
    by (simp add: quat_inverse_mul quat_mul_assoc)
  then show ?thesis using r by (simp add: rotate_point_def quat_mul_point_def Let_def x)
qed

lemma rotate_point_linear:
  assumes "length x = 3" "length y = 3"
  shows "rotate_point (point_add x y) q = point_add (rotate_point x q) (rotate_point y q)"
    "rotate_point (vp_neg x) q = vp_neg (rotate_point x q)"
proof -
  obtain a b c d e f where xy: "x = [a, b, c]" "y = [d, e, f]" using assms length_3 by metis
  show "rotate_point (point_add x y) q = point_add (rotate_point x q) (rotate_point y q)"
    "rotate_point (vp_neg x) q = vp_neg (rotate_point x q)"
    unfolding xy by (simp_all add: quat_defs algebra_simps)
qed

lemma rotate_point_length [simp]: "length (rotate_point x q) = 3"
  by (simp add: rotate_point_def Let_def)

lemma rotate_point_inverse:
  assumes "length x = 3" "norm2_of q = 1"
  shows "rotate_point (rotate_point x q) (quat_inverse q) = x" "rotate_point (rotate_point x (quat_inverse q)) q = x"
proof -
  obtain a b c where x: "x = [a, b, c]" using length_3 [OF assms(1)] by auto
  have "Quat 0 0 0 1 = (neutral_quat :: 'a quaternion)" by (simp add: neutral_quat_def)
  then have e: "rotate_point x (Quat 0 0 0 1) = x" by (simp add: x quat_defs)
  show "rotate_point (rotate_point x q) (quat_inverse q) = x" "rotate_point (rotate_point x (quat_inverse q)) q = x"
    unfolding rotate_point_mul [OF assms(1)] quat_mul_inverse assms(2) by (rule e)+
qed

text \<open>A rotation keeps lengths, and with the linearity distances and angles.\<close>

lemma rotate_point_length2:
  assumes "length x = 3"
  shows "length2_of (rotate_point x q) = (norm2_of q)\<^sup>2 * length2_of x"
proof -
  obtain a b c where x: "x = [a, b, c]" using length_3 [OF assms] by auto
  let ?r = "quat_mul (quat_mul q (Quat a b c 0)) (quat_inverse q)"
  have w: "qw ?r = 0" by (simp add: quat_defs algebra_simps)
  have "length2_of (rotate_point x q) = norm2_of ?r"
    using w by (simp add: x rotate_point_def quat_mul_point_def Let_def length2_3 norm2_of_def quat_dot_def power2_eq_square)
  also have "\<dots> = norm2_of q * norm2_of (Quat a b c 0) * norm2_of q" by (simp add: norm2_of_mul)
  also have "norm2_of (Quat a b c 0) = length2_of x"
    by (simp add: x length2_3 norm2_of_def quat_dot_def power2_eq_square)
  finally show ?thesis by (simp add: power2_eq_square mult_ac)
qed

text \<open>The quaternion of an axis and an angle is a unit, and its rotation leaves the axis as it is.\<close>

lemma quat_of_axis_unit:
  assumes "length ax = 3" "length2_of ax \<noteq> 0"
  shows "norm2_of (quat_of_axis ax a) = 1" "rotate_point ax (quat_of_axis ax a) = ax"
proof -
  obtain x y z where ax: "ax = [x, y, z]" using length_3 [OF assms(1)] by auto
  define L where "L = length_of ax"
  have L: "L\<^sup>2 = x\<^sup>2 + y\<^sup>2 + z\<^sup>2" "L \<noteq> 0"
    using assms(2) length2_of_nonneg [of ax] by (simp_all add: L_def length_of_def ax length2_3)
  define S where "S = sin (a * (1 / 2)) / L"
  have q: "quat_of_axis ax a = Quat (x * S) (y * S) (z * S) (cos (a * (1 / 2)))"
    by (simp add: quat_of_axis_def Let_def ax S_def L_def)
  have "(x * S)\<^sup>2 + (y * S)\<^sup>2 + (z * S)\<^sup>2 = (x\<^sup>2 + y\<^sup>2 + z\<^sup>2) * S\<^sup>2" by (simp add: power_mult_distrib algebra_simps)
  also have "\<dots> = (L * S)\<^sup>2" by (simp add: L(1) power_mult_distrib)
  also have "L * S = sin (a * (1 / 2))" using L(2) by (simp add: S_def)
  finally show unit: "norm2_of (quat_of_axis ax a) = 1"
    by (simp add: q norm2_of_def quat_dot_def power2_eq_square [symmetric])
  have "rotate_point ax (quat_of_axis ax a) = vp_scale ax (norm2_of (quat_of_axis ax a))"
    unfolding q unfolding ax by (simp add: quat_defs algebra_simps)
  then show "rotate_point ax (quat_of_axis ax a) = ax" unfolding unit by (simp add: ax)
qed

section \<open>Angles and interpolation\<close>

lemma quat_cauchy_schwarz: "(quat_dot q s)\<^sup>2 \<le> norm2_of q * norm2_of s" for q s :: "real quaternion"
proof -
  let ?p = "quat_mul q (quat_inverse s)"
  have "norm2_of q * norm2_of s = norm2_of ?p" by (simp add: norm2_of_mul)
  moreover have "qw ?p = quat_dot q s" by (simp add: quat_defs)
  moreover have "(qw ?p)\<^sup>2 \<le> norm2_of ?p" by (simp add: norm2_of_def quat_dot_def power2_eq_square)
  ultimately show ?thesis by simp
qed

lemma norm2_of_pos: "0 \<le> norm2_of q" "norm2_of q = 0 \<longleftrightarrow> q = Quat 0 0 0 0" for q :: "real quaternion"
  by (cases q, simp add: norm2_of_def quat_dot_def)
    (cases q, simp add: norm2_of_def quat_dot_def power2_eq_square [symmetric] add_nonneg_eq_0_iff)

text \<open>Half of the angle between units is that whose cosine is the dot product, without its sign.\<close>

lemma half_angle:
  assumes "norm2_of q = 1" "norm2_of s = 1"
  defines "theta \<equiv> angle_shortest_path q s / 2"
  shows "cos theta = \<bar>quat_dot q s\<bar>" "0 \<le> theta" "theta \<le> pi / 2"
proof -
  have neg: "quat_dot q (quat_neg s) = - quat_dot q s" by (simp add: quat_defs)
  have "(quat_dot q s)\<^sup>2 \<le> 1" using quat_cauchy_schwarz [of q s] assms by simp
  then have c: "\<bar>quat_dot q s\<bar> \<le> 1" by (simp add: abs_le_square_iff [of _ 1, simplified])
  have t: "theta = arccos \<bar>quat_dot q s\<bar>"
    by (simp add: theta_def angle_shortest_path_def Let_def assms(1,2) neg)
  show "cos theta = \<bar>quat_dot q s\<bar>" unfolding t using c by (simp add: cos_arccos_abs)
  show "0 \<le> theta" unfolding t using c by (intro arccos_lbound) auto
  show "theta \<le> pi / 2" unfolding t using c by (intro arccos_le_pi2) auto
qed

lemma sin_sum_identity:
  "(sin A)\<^sup>2 + (sin B)\<^sup>2 + 2 * sin A * sin B * cos (A + B) = (sin (A + B))\<^sup>2" for A B :: real
proof -
  have "(cos A)\<^sup>2 = 1 - (sin A)\<^sup>2" "(cos B)\<^sup>2 = 1 - (sin B)\<^sup>2" by (simp_all add: cos_squared_eq)
  then show ?thesis by (simp add: sin_add cos_add power2_sum power_mult_distrib) (simp add: algebra_simps power2_eq_square)
qed

lemma norm2_combination:
  "norm2_of (Quat ((qx q * a + m * qx s * b) * d) ((qy q * a + m * qy s * b) * d) ((qz q * a + m * qz s * b) * d)
      ((qw q * a + m * qw s * b) * d)) =
    (a\<^sup>2 * norm2_of q + m * m * b\<^sup>2 * norm2_of s + 2 * a * b * (m * quat_dot q s)) * d\<^sup>2"
  by (simp add: norm2_of_def quat_dot_def power2_eq_square algebra_simps)

text \<open>\<open>slerp\<close> of units starts at the first, ends at the second or its negative, which is the same rotation, and gives units.\<close>

lemma slerp_ends:
  assumes "norm2_of q = 1" "norm2_of s = 1"
  shows "slerp q s 0 = q" "slerp q s 1 = (if angle_shortest_path q s = 0 then q else if quat_dot q s < 0 then quat_neg s else s)"
    "norm2_of (slerp q s f) = 1"
proof -
  define theta where "theta = angle_shortest_path q s / 2"
  note h = half_angle [OF assms, folded theta_def]
  have zero: "angle_shortest_path q s = 0 \<longleftrightarrow> theta = 0" by (simp add: theta_def)
  have sn: "sin theta \<noteq> 0" if "theta \<noteq> 0" using h(2,3) that sin_gt_zero [of theta] pi_gt_zero by (simp add: field_simps)
  show "slerp q s 0 = q" using sn by (cases "theta = 0") (simp_all add: slerp_def Let_def theta_def [symmetric])
  show "slerp q s 1 = (if angle_shortest_path q s = 0 then q else if quat_dot q s < 0 then quat_neg s else s)"
    using sn by (cases "theta = 0") (simp_all add: slerp_def Let_def theta_def [symmetric] zero quat_neg_def)
  show "norm2_of (slerp q s f) = 1"
  proof (cases "theta = 0")
    case False
    define m :: real where "m = (if quat_dot q s < 0 then - 1 else 1)"
    let ?A = "(1 - f) * theta" and ?B = "f * theta"
    have ab: "?A + ?B = theta" by (simp add: algebra_simps)
    have m: "m * m = 1" "m * quat_dot q s = cos theta" by (auto simp: m_def h(1))
    have "slerp q s f = Quat ((qx q * sin ?A + m * qx s * sin ?B) * (1 / sin theta)) ((qy q * sin ?A + m * qy s * sin ?B) * (1 / sin theta))
        ((qz q * sin ?A + m * qz s * sin ?B) * (1 / sin theta)) ((qw q * sin ?A + m * qw s * sin ?B) * (1 / sin theta))"
      using False by (simp add: slerp_def Let_def theta_def [symmetric] m_def)
    then have "norm2_of (slerp q s f) = ((sin ?A)\<^sup>2 + (sin ?B)\<^sup>2 + 2 * sin ?A * sin ?B * cos (?A + ?B)) * (1 / sin theta)\<^sup>2"
      unfolding ab by (simp only: norm2_combination m assms mult_1 mult_1_right)
    also have "\<dots> = 1" unfolding sin_sum_identity unfolding ab using sn [OF False] by (simp add: power_divide)
    finally show ?thesis .
  qed (use assms in \<open>simp add: slerp_def Let_def theta_def [symmetric]\<close>)
qed

section \<open>Transformations\<close>

text \<open>Poses compose: a point in \<open>x\<close> in \<open>T\<close> is the point in the transformed pose.\<close>

lemma transform_compose:
  assumes "length a = 3" "length (position x) = 3" "length (position T) = 3"
  shows "transform_point (transform_point a x) T = transform_point a (transform_pose x T)"
proof -
  have "point_add (point_add u v) w = point_add u (point_add v w)"
    if "length u = 3" "length v = 3" "length w = 3" for u v w :: "'a list"
    using that by (auto dest!: length_3 simp: add.assoc)
  then show ?thesis
    using assms rotate_point_linear(1) [of "rotate_point a (orientation x)" "position x"]
    by (simp add: transform_point_def transform_pose_def rotate_point_mul)
qed

lemma transform_default: "length a = 3 \<Longrightarrow> transform_point a pose_default = a"
  by (auto dest!: length_3 simp: transform_point_def pose_default_def quat_defs)

text \<open>
  \<open>inverse_transform\<close> does not undo \<open>transform\<close>, unless the rotation leaves the position as it is: the position of
  the inverse is not rotated.
\<close>

lemma inverse_transform_error:
  assumes "length a = 3" "length (position T) = 3" "norm2_of (orientation T) = 1"
  shows "inverse_transform (transform_point a T) T =
    point_add a (point_add (rotate_point (position T) (quat_inverse (orientation T))) (vp_neg (position T)))"
proof -
  have "point_add (point_add u v) w = point_add u (point_add v w)"
    if "length u = 3" "length v = 3" "length w = 3" for u v w :: "'a list"
    using that by (auto dest!: length_3 simp: add.assoc)
  moreover have "length (vp_neg (position T)) = 3" using assms(2) by (simp add: vp_coordinates)
  ultimately show ?thesis
    using assms rotate_point_linear(1) [of "rotate_point a (orientation T)" "position T" "quat_inverse (orientation T)"]
    by (simp add: inverse_transform_def transform_point_def pose_inverse_def rotate_point_inverse)
qed

lemma inverse_transform_undoes:
  assumes "length a = 3" "length (position T) = 3" "norm2_of (orientation T) = 1"
  shows "inverse_transform (transform_point a T) T = a \<longleftrightarrow> rotate_point (position T) (quat_inverse (orientation T)) = position T"
proof -
  obtain x y z u v w where "a = [x, y, z]" "position T = [u, v, w]" using assms(1,2) length_3 by metis
  moreover obtain d e f where "rotate_point (position T) (quat_inverse (orientation T)) = [d, e, f]"
    using length_3 rotate_point_length by metis
  ultimately show ?thesis using inverse_transform_error [OF assms] by (simp add: add_eq_0_iff)
qed

text \<open>Every segment of the path of poses has enough steps: both distances of neighbours are less than the step.\<close>

lemma pose_steps_bound:
  assumes "pose_steps dis d_step a_step = Some n" "0 < d_step" "0 < a_step" "0 \<le> pd_dist dis" "0 \<le> pd_angle_dist dis"
  shows "0 < n" "pd_dist dis / n < d_step" "pd_angle_dist dis / n < a_step"
proof -
  have d: "0 \<le> pd_dist dis / d_step" "0 \<le> pd_angle_dist dis / a_step" using assms(2-5) by simp_all
  have n: "n = max (nat \<lfloor>1 + pd_dist dis / d_step\<rfloor>) (nat \<lfloor>1 + pd_angle_dist dis / a_step\<rfloor>)"
    using assms(1-3) by (auto simp: pose_steps_def quotient_def to_size_def split: if_splits bind_splits)
  have "x < real (nat \<lfloor>1 + x\<rfloor>)" if "0 \<le> x" for x :: real using that by linarith
  then have "pd_dist dis / d_step < real n" "pd_angle_dist dis / a_step < real n"
    unfolding n using d by (meson less_le_trans max.cobounded1 max.cobounded2 of_nat_le_iff)+
  moreover show "0 < n" using calculation(1) d(1) by (cases n) auto
  ultimately show "pd_dist dis / n < d_step" "pd_angle_dist dis / n < a_step"
    using assms(2,3) by (simp_all add: field_simps)
qed

text \<open>\<open>shortest_arc_quat\<close> has always 0 as its last field, so it is no rotation from \<open>x\<close> to itself.\<close>

lemma shortest_arc_same:
  "shortest_arc_quat eps x x = Quat 0 0 0 0" "qw (shortest_arc_quat eps x y) = 0"
proof -
  have c: "cross_product a a = [0, 0, 0]" for a :: "real list" by (simp add: cross_product_def)
  show "shortest_arc_quat eps x x = Quat 0 0 0 0" "qw (shortest_arc_quat eps x y) = 0"
    by (simp_all add: shortest_arc_quat_def Let_def c)
qed

end
