(* ===== verification/Simplex.thy ===== *)
theory Simplex
  imports Quaternion Matrix "HOL-Library.Multiset"
begin

text \<open>
  \<open>experimental/geom/simplex.hpp\<close> and \<open>triangle.hpp\<close>: simplexes as the array of their \<open>N + 1\<close> items, their
  center and volume, and triangles in space.
\<close>

section \<open>Simplexes\<close>

definition simplex_of_item :: "nat \<Rightarrow> 'i \<Rightarrow> 'i \<Rightarrow> 'i list" where
  "simplex_of_item N dflt item = item # replicate N dflt"

definition simplex_of_sub :: "('i :: linorder) list \<Rightarrow> 'i \<Rightarrow> 'i list" where
  "simplex_of_sub sub item = sort (sub @ [item])"

definition simplex_of_array :: "('i :: linorder) list \<Rightarrow> 'i list" where
  "simplex_of_array data = sort data"

text \<open>The constructor from \<open>N + 1\<close> arguments does not sort.\<close>

definition simplex_of_items :: "'i list \<Rightarrow> 'i list" where
  "simplex_of_items ts = ts"

text \<open>The sum starts with a vector of zeros.\<close>

definition center_of :: "nat \<Rightarrow> ('a :: field_char_0) list list \<Rightarrow> 'a list" where
  "center_of N s = fold (\<lambda>p avg. add_assign avg (vp_div p (of_nat (length s)))) s (vp_init N)"

definition edge_matrix :: "nat \<Rightarrow> ('a :: field) list list \<Rightarrow> 'a matrix" where
  "edge_matrix N s =
     fold (\<lambda>i m. let diff = point_diff (s ! (i + 1)) (s ! 0) in m[i := diff]) [0..<length s - 1] (matrix_init N N)"

definition volume_of :: "nat \<Rightarrow> ('a :: {linordered_field, field_char_0}) list list \<Rightarrow> 'a" where
  "volume_of N s = \<bar>(1 / fact N) * determinant N (mat N N (edge_matrix N s))\<bar>"

text \<open>\<open>find_if\<close> looks at the first \<open>N\<close> items; at the end of its range the last one is compared.\<close>

definition simplex_less :: "nat \<Rightarrow> ('i :: linorder) list \<Rightarrow> 'i list \<Rightarrow> bool" where
  "simplex_less N lh rh = (let i = find_if (\<lambda>j. lh ! j \<noteq> rh ! j) [0..<N] in lh ! i < rh ! i)"

definition simplex_greater :: "nat \<Rightarrow> ('i :: linorder) list \<Rightarrow> 'i list \<Rightarrow> bool" where
  "simplex_greater N lh rh = simplex_less N rh lh"

definition simplex_less_eq :: "nat \<Rightarrow> ('i :: linorder) list \<Rightarrow> 'i list \<Rightarrow> bool" where
  "simplex_less_eq N lh rh = (\<not> simplex_greater N lh rh)"

definition simplex_greater_eq :: "nat \<Rightarrow> ('i :: linorder) list \<Rightarrow> 'i list \<Rightarrow> bool" where
  "simplex_greater_eq N lh rh = (\<not> simplex_less N lh rh)"

section \<open>Triangles\<close>

definition get_triangle_sphere_center :: "real list list \<Rightarrow> real list option" where
  "get_triangle_sphere_center tri =
     (let ab = point_diff (tri ! 0) (tri ! 1);
          ac = point_diff (tri ! 0) (tri ! 2);
          normal = normalized (cross_product ab ac);
          p_ab = cross_product normal ab;
          p_ac = cross_product normal ac;
          c_ac = vp_div (vector_add (tri ! 0) (tri ! 2)) 2;
          c_ab = vp_div (vector_add (tri ! 0) (tri ! 1)) 2;
          k = (p_ab ! 0 * (c_ab ! 1 - c_ac ! 1)) + (p_ab ! 1 * (c_ac ! 0 - c_ab ! 0));
          det = (p_ab ! 0 * p_ac ! 1) - (p_ac ! 0 * p_ab ! 1)
      in do {
        k \<leftarrow> quotient k det;
        Some (vector_add c_ac (vp_scale p_ac k))
      })"

definition triangle_normal_of :: "('a :: field) list list \<Rightarrow> 'a list" where
  "triangle_normal_of tri = cross_product (point_diff (tri ! 0) (tri ! 1)) (point_diff (tri ! 0) (tri ! 2))"

definition triangle_transform :: "('a :: field) list list \<Rightarrow> 'a pose \<Rightarrow> 'a list list" where
  "triangle_transform t transformation =
     simplex_of_items [transform_point (t ! 0) transformation, transform_point (t ! 1) transformation,
       transform_point (t ! 2) transformation]"

definition triangle_scale :: "('a :: field) list list \<Rightarrow> 'a list \<Rightarrow> 'a list list" where
  "triangle_scale t scales = simplex_of_items [point_mul (t ! 0) scales, point_mul (t ! 1) scales, point_mul (t ! 2) scales]"

section \<open>The order\<close>

text \<open>A simplex made of an array, or of a smaller one and an item, is the same whatever the order of the points.\<close>

lemma simplex_of_any_order: "mset xs = mset ys \<Longrightarrow> simplex_of_array xs = simplex_of_array ys"
  by (simp add: simplex_of_array_def properties_for_sort)

lemma simplex_of_sub_array: "simplex_of_sub (simplex_of_array xs) x = simplex_of_array (xs @ [x])"
  by (simp add: simplex_of_array_def simplex_of_sub_def properties_for_sort)

text \<open>The order is the lexicographic one of all \<open>N + 1\<close> items.\<close>

lemma find_if_upt_Suc: "find_if P [0..<Suc n] = (if P 0 then 0 else Suc (find_if (\<lambda>j. P (Suc j)) [0..<n]))"
proof -
  have "find_if P (map Suc xs) = find_if (\<lambda>j. P (Suc j)) xs" for xs by (induction xs) auto
  then show ?thesis by (simp add: upt_conv_Cons map_Suc_upt [symmetric] del: upt_Suc)
qed

lemma simplex_less_iff:
  "length lh = Suc N \<Longrightarrow> length rh = Suc N \<Longrightarrow> simplex_less N lh rh \<longleftrightarrow> vp_less lh rh"
proof (induction N arbitrary: lh rh)
  case 0
  then show ?case by (auto simp: simplex_less_def Let_def length_Suc_conv)
next
  case (Suc N)
  obtain x xs y ys where l: "lh = x # xs" "rh = y # ys" "length xs = Suc N" "length ys = Suc N"
    using Suc.prems by (auto simp: length_Suc_conv)
  then have "simplex_less (Suc N) lh rh \<longleftrightarrow> (if x \<noteq> y then x < y else simplex_less N xs ys)"
    by (simp add: simplex_less_def Let_def find_if_upt_Suc del: upt_Suc)
  then show ?case using Suc.IH [OF l(3,4)] l(1,2) by auto
qed

section \<open>Center and volume\<close>

lemma center_of_nth:
  assumes "\<forall>p \<in> set s. length p = N" "i < N"
  shows "length (center_of N s) = N" "center_of N s ! i = (\<Sum>p \<leftarrow> s. p ! i) / of_nat (length s)"
proof -
  have "length (fold (\<lambda>p avg. add_assign avg (vp_div p c)) s avg) = N \<and>
      fold (\<lambda>p avg. add_assign avg (vp_div p c)) s avg ! i = avg ! i + (\<Sum>p \<leftarrow> s. p ! i) / c"
    if "length avg = N" "\<forall>p \<in> set s. length p = N" for avg c
    using that assms(2)
    by (induction s arbitrary: avg) (simp_all add: add_assign_def vp_coordinates add_divide_distrib)
  from this [of "vp_init N"] show "length (center_of N s) = N" "center_of N s ! i = (\<Sum>p \<leftarrow> s. p ! i) / of_nat (length s)"
    using assms by (simp_all add: center_of_def vp_init_def)
qed

lemma edge_matrix_eq:
  assumes "length s = Suc N"
  shows "edge_matrix N s = map (\<lambda>i. point_diff (s ! Suc i) (s ! 0)) [0..<N]"
proof -
  have "fold (\<lambda>i m. m[i := f i]) [0..<n] m = map f [0..<n] @ drop n m" if "n \<le> length m" for f and m :: "'a matrix" and n
    using that
  proof (induction n)
    case (Suc n)
    then have "drop n m = m ! n # drop (Suc n) m" by (intro Cons_nth_drop_Suc [symmetric]) simp
    then show ?case using Suc by (simp add: list_update_append)
  qed simp
  from this [of N "matrix_init N N"] show ?thesis using assms by (simp add: edge_matrix_def Let_def matrix_init_def)
qed

text \<open>Both follow a translation.\<close>

lemma center_translation:
  assumes "\<forall>p \<in> set s. length p = N" "0 < N" "s \<noteq> []"
  shows "center_of N (map (\<lambda>p. point_add p v) s) = point_add (center_of N s) v"
proof -
  have len: "\<forall>p \<in> set (map (\<lambda>p. point_add p v) s). length p = N" using assms(1) by (simp add: vp_coordinates)
  show ?thesis
  proof (rule nth_equalityI)
    show "length (center_of N (map (\<lambda>p. point_add p v) s)) = length (point_add (center_of N s) v)"
      using center_of_nth(1) [OF len] center_of_nth(1) [OF assms(1)] assms(2) by (simp add: vp_coordinates)
    fix i assume "i < length (center_of N (map (\<lambda>p. point_add p v) s))"
    then have i: "i < N" using center_of_nth(1) [OF len] assms(2) by simp
    have "(\<Sum>p \<leftarrow> map (\<lambda>p. point_add p v) s. p ! i) = (\<Sum>p \<leftarrow> s. p ! i) + of_nat (length s) * v ! i"
      using assms(1) i by (induction s) (simp_all add: vp_coordinates algebra_simps)
    then show "center_of N (map (\<lambda>p. point_add p v) s) ! i = point_add (center_of N s) v ! i"
      using center_of_nth [OF len i] center_of_nth [OF assms(1) i] i assms(3) by (simp add: vp_coordinates add_divide_distrib)
  qed
qed

lemma volume_translation:
  assumes "length s = Suc N" "\<forall>p \<in> set s. length p = N"
  shows "volume_of N (map (\<lambda>p. point_add p v) s) = volume_of N s"
proof -
  have "point_diff (point_add a v) (point_add b v) = point_diff a b" if "length a = N" "length b = N" for a b
    using that by (intro nth_equalityI) (simp_all add: vp_coordinates)
  then have "edge_matrix N (map (\<lambda>p. point_add p v) s) = edge_matrix N s"
    using assms by (simp add: edge_matrix_eq)
  then show ?thesis by (simp add: volume_of_def)
qed

section \<open>The sphere of a triangle\<close>

lemma nth_3 [simp]: "[a, b, c] ! 2 = c"
  by (simp add: numeral_2_eq_2)

lemma vp_ops_3' [simp]: "point_diff [a, b, c] [d, e, f] = [a - d, b - e, c - f]" "vp_div [a, b, c] s = [a / s, b / s, c / s]"
    "vector_add [a, b, c] [d, e, f] = [a + d, b + e, c + f]" "vp_dot [a, b, c] [d, e, f] = a * d + b * e + c * f"
  by (simp_all add: vp_ops dim_loop_eq upt_rec vp_dot_eq numeral_3_eq_3)

text \<open>
  When the triangle is not in a plane parallel to the z axis, the center is at the same distance from its
  corners; otherwise the function divides by zero.
\<close>

lemma sphere_det:
  fixes n0 :: real
  assumes "a1 * b2 - a2 * b1 = L * n0" "a2 * b0 - a0 * b2 = L * n1" "a0 * b1 - a1 * b0 = L * n2" "n0 * n0 + n1 * n1 + n2 * n2 = 1"
  shows "(n1 * a2 - n2 * a1) * (n2 * b0 - n0 * b2) - (n1 * b2 - n2 * b1) * (n2 * a0 - n0 * a2) = L * n2"
proof -
  have "(n1 * a2 - n2 * a1) * (n2 * b0 - n0 * b2) - (n1 * b2 - n2 * b1) * (n2 * a0 - n0 * a2) =
      n2 * (n0 * (a1 * b2 - a2 * b1) + n1 * (a2 * b0 - a0 * b2) + n2 * (a0 * b1 - a1 * b0))" by algebra
  also have "\<dots> = L * n2 * (n0 * n0 + n1 * n1 + n2 * n2)" unfolding assms(1-3) by (simp add: algebra_simps)
  finally show ?thesis using assms(4) by simp
qed

lemma sphere_num:
  fixes n0 :: real
  assumes "a1 * b2 - a2 * b1 = L * n0" "a2 * b0 - a0 * b2 = L * n1" "a0 * b1 - a1 * b0 = L * n2" "L \<noteq> 0"
  shows "(n1 * a2 - n2 * a1) * (b1 - a1) + (n2 * a0 - n0 * a2) * (a0 - b0) = n2 * (a0 * (a0 - b0) + a1 * (a1 - b1) + a2 * (a2 - b2))"
    "n0 * (b1 * a2 - b2 * a1) + n1 * (b2 * a0 - b0 * a2) + n2 * (b0 * a1 - b1 * a0) = - L * (n0 * n0 + n1 * n1 + n2 * n2)"
proof -
  have "L * (n0 * a0 + n1 * a1 + n2 * a2) = (a1 * b2 - a2 * b1) * a0 + (a2 * b0 - a0 * b2) * a1 + (a0 * b1 - a1 * b0) * a2"
    unfolding assms(1-3) by (simp add: algebra_simps)
  also have "\<dots> = 0" by algebra
  finally have na: "n0 * a0 + n1 * a1 + n2 * a2 = 0" using assms(4) by simp
  have "L * (n0 * b0 + n1 * b1 + n2 * b2) = (a1 * b2 - a2 * b1) * b0 + (a2 * b0 - a0 * b2) * b1 + (a0 * b1 - a1 * b0) * b2"
    unfolding assms(1-3) by (simp add: algebra_simps)
  also have "\<dots> = 0" by algebra
  finally have nb: "n0 * b0 + n1 * b1 + n2 * b2 = 0" using assms(4) by simp
  have "(n1 * a2 - n2 * a1) * (b1 - a1) + (n2 * a0 - n0 * a2) * (a0 - b0) =
      a2 * ((n0 * b0 + n1 * b1 + n2 * b2) - (n0 * a0 + n1 * a1 + n2 * a2)) +
      n2 * (a0 * (a0 - b0) + a1 * (a1 - b1) + a2 * (a2 - b2))" by algebra
  then show "(n1 * a2 - n2 * a1) * (b1 - a1) + (n2 * a0 - n0 * a2) * (a0 - b0) = n2 * (a0 * (a0 - b0) + a1 * (a1 - b1) + a2 * (a2 - b2))"
    unfolding na nb by simp
  have "n0 * (b1 * a2 - b2 * a1) + n1 * (b2 * a0 - b0 * a2) + n2 * (b0 * a1 - b1 * a0) =
      - (n0 * (a1 * b2 - a2 * b1) + n1 * (a2 * b0 - a0 * b2) + n2 * (a0 * b1 - a1 * b0))" by algebra
  then show "n0 * (b1 * a2 - b2 * a1) + n1 * (b2 * a0 - b0 * a2) + n2 * (b0 * a1 - b1 * a0) = - L * (n0 * n0 + n1 * n1 + n2 * n2)"
    unfolding assms(1-3) by (simp add: algebra_simps)
qed

text \<open>The center relative to the first corner.\<close>

lemma sphere_core:
  fixes n0 :: real
  assumes c: "a1 * b2 - a2 * b1 = L * n0" "a2 * b0 - a0 * b2 = L * n1" "a0 * b1 - a1 * b0 = L * n2"
    and n: "n0 * n0 + n1 * n1 + n2 * n2 = 1" and L: "L \<noteq> 0" and n2: "n2 \<noteq> 0"
    and k: "k = ((n1 * a2 - n2 * a1) * ((b1 - a1) / 2) + (n2 * a0 - n0 * a2) * ((a0 - b0) / 2)) / (L * n2)"
    and z: "z0 = k * (n1 * b2 - n2 * b1) - b0 / 2" "z1 = k * (n2 * b0 - n0 * b2) - b1 / 2" "z2 = k * (n0 * b1 - n1 * b0) - b2 / 2"
  shows "z0\<^sup>2 + z1\<^sup>2 + z2\<^sup>2 = (z0 + a0)\<^sup>2 + (z1 + a1)\<^sup>2 + (z2 + a2)\<^sup>2"
    "z0\<^sup>2 + z1\<^sup>2 + z2\<^sup>2 = (z0 + b0)\<^sup>2 + (z1 + b1)\<^sup>2 + (z2 + b2)\<^sup>2"
proof -
  note num = sphere_num [OF c L]
  have "2 * L * k = ((n1 * a2 - n2 * a1) * (b1 - a1) + (n2 * a0 - n0 * a2) * (a0 - b0)) / n2"
    unfolding k using L n2 by (simp add: field_simps)
  then have k': "2 * L * k = a0 * (a0 - b0) + a1 * (a1 - b1) + a2 * (a2 - b2)" unfolding num(1) using n2 by simp
  have "2 * (z0 * a0 + z1 * a1 + z2 * a2) =
      2 * k * (n0 * (b1 * a2 - b2 * a1) + n1 * (b2 * a0 - b0 * a2) + n2 * (b0 * a1 - b1 * a0)) - (a0 * b0 + a1 * b1 + a2 * b2)"
    unfolding z by (simp add: algebra_simps)
  also have "\<dots> = - (2 * L * k) - (a0 * b0 + a1 * b1 + a2 * b2)" unfolding num(2) n by (simp add: algebra_simps)
  also have "\<dots> = - (a0 * a0 + a1 * a1 + a2 * a2)" unfolding k' by (simp add: algebra_simps)
  finally show "z0\<^sup>2 + z1\<^sup>2 + z2\<^sup>2 = (z0 + a0)\<^sup>2 + (z1 + a1)\<^sup>2 + (z2 + a2)\<^sup>2" by (simp add: power2_eq_square algebra_simps)
  have "2 * (z0 * b0 + z1 * b1 + z2 * b2) = - (b0 * b0 + b1 * b1 + b2 * b2)" unfolding z by (simp add: algebra_simps)
  then show "z0\<^sup>2 + z1\<^sup>2 + z2\<^sup>2 = (z0 + b0)\<^sup>2 + (z1 + b1)\<^sup>2 + (z2 + b2)\<^sup>2" by (simp add: power2_eq_square algebra_simps)
qed

lemma normalized_3:
  fixes c0 c1 c2 :: real
  defines "L \<equiv> length_of [c0, c1, c2]"
  shows "normalized [c0, c1, c2] = [c0 / L, c1 / L, c2 / L]" "L = 0 \<longleftrightarrow> c0 = 0 \<and> c1 = 0 \<and> c2 = 0"
    "L \<noteq> 0 \<Longrightarrow> c0 / L * (c0 / L) + c1 / L * (c1 / L) + c2 / L * (c2 / L) = 1"
proof -
  show "normalized [c0, c1, c2] = [c0 / L, c1 / L, c2 / L]" by (simp add: normalized_def L_def)
  have sq: "L * L = c0 * c0 + c1 * c1 + c2 * c2" by (simp add: L_def length_of_def length2_3 power2_eq_square)
  show "L = 0 \<longleftrightarrow> c0 = 0 \<and> c1 = 0 \<and> c2 = 0"
    using length2_of_zero [of "[c0, c1, c2]"] by (auto simp: L_def length_of_def length2_3 add_nonneg_eq_0_iff)
  assume "L \<noteq> 0"
  have "c0 / L * (c0 / L) + c1 / L * (c1 / L) + c2 / L * (c2 / L) = (c0 * c0 + c1 * c1 + c2 * c2) / (L * L)"
    by (simp add: add_divide_distrib)
  then show "c0 / L * (c0 / L) + c1 / L * (c1 / L) + c2 / L * (c2 / L) = 1"
    using \<open>L \<noteq> 0\<close> unfolding sq [symmetric] by simp
qed

lemma sphere_center:
  assumes "length t0 = 3" "length t1 = 3" "length t2 = 3"
  shows "get_triangle_sphere_center [t0, t1, t2] = None \<longleftrightarrow> triangle_normal_of [t0, t1, t2] ! 2 = 0"
    and "get_triangle_sphere_center [t0, t1, t2] = Some c \<Longrightarrow>
      points_distance_of c t0 = points_distance_of c t1 \<and> points_distance_of c t0 = points_distance_of c t2"
proof -
  obtain x0 y0 z0 x1 y1 z1 x2 y2 z2 where t: "t0 = [x0, y0, z0]" "t1 = [x1, y1, z1]" "t2 = [x2, y2, z2]"
    using assms length_3 by metis
  define a0 a1 a2 b0 b1 b2 where ab: "a0 = x0 - x1" "a1 = y0 - y1" "a2 = z0 - z1" "b0 = x0 - x2" "b1 = y0 - y2" "b2 = z0 - z2"
  define c0 c1 c2 where cr: "c0 = a1 * b2 - a2 * b1" "c1 = a2 * b0 - a0 * b2" "c2 = a0 * b1 - a1 * b0"
  define L where "L = length_of [c0, c1, c2]"
  define n0 n1 n2 where n: "n0 = c0 / L" "n1 = c1 / L" "n2 = c2 / L"
  note norm = normalized_3 [of c0 c1 c2, folded L_def]
  define det where "det = (n1 * a2 - n2 * a1) * (n2 * b0 - n0 * b2) - (n1 * b2 - n2 * b1) * (n2 * a0 - n0 * a2)"
  define k where "k = ((n1 * a2 - n2 * a1) * ((b1 - a1) / 2) + (n2 * a0 - n0 * a2) * ((a0 - b0) / 2)) / det"
  have diffs: "(y0 + y1) / 2 - (y0 + y2) / 2 = (b1 - a1) / 2" "(x0 + x2) / 2 - (x0 + x1) / 2 = (a0 - b0) / 2"
    by (simp_all add: ab field_simps)
  have det0: "(n1 * a2 - n2 * a1) * (n2 * b0 - n0 * b2) = (n1 * b2 - n2 * b1) * (n2 * a0 - n0 * a2) \<longleftrightarrow> det = 0"
    by (simp add: det_def)
  have center: "get_triangle_sphere_center [t0, t1, t2] = (if det = 0 then None else
      Some [(x0 + x2) / 2 + (n1 * b2 - n2 * b1) * k, (y0 + y2) / 2 + (n2 * b0 - n0 * b2) * k, (z0 + z2) / 2 + (n0 * b1 - n1 * b0) * k])"
    by (simp add: get_triangle_sphere_center_def Let_def t cross_product_def ab [symmetric] cr [symmetric] norm(1) n [symmetric]
        diffs det0 det_def [symmetric] k_def quotient_def)
  have L: "L \<noteq> 0 \<Longrightarrow> c0 = L * n0 \<and> c1 = L * n1 \<and> c2 = L * n2 \<and> n0 * n0 + n1 * n1 + n2 * n2 = 1"
    using norm(3) by (simp add: n)
  have det: "det = c2"
  proof (cases "L = 0")
    case True
    then show ?thesis using norm(2) by (simp add: det_def n)
  next
    case False
    then show ?thesis using sphere_det [of a1 b2 a2 b1 L n0 b0 a0 n1 n2] L [OF False] unfolding det_def cr by simp
  qed
  have normal: "triangle_normal_of [t0, t1, t2] ! 2 = c2"
    by (simp add: triangle_normal_of_def cross_product_def t ab [symmetric] cr)
  show "get_triangle_sphere_center [t0, t1, t2] = None \<longleftrightarrow> triangle_normal_of [t0, t1, t2] ! 2 = 0"
    unfolding center normal det by simp
  assume some: "get_triangle_sphere_center [t0, t1, t2] = Some c"
  then have "c2 \<noteq> 0" using center det by (simp split: if_splits)
  then have L0: "L \<noteq> 0" "n2 \<noteq> 0" using norm(2) by (simp_all add: n)
  note core = sphere_core [where k = k, OF _ _ _ _ L0 _ refl refl refl, of a1 b2 a2 b1 n0 b0 a0 n1]
  have det': "det = L * n2" using det L [OF L0(1)] by simp
  define w0 w1 w2 where w: "w0 = k * (n1 * b2 - n2 * b1) - b0 / 2" "w1 = k * (n2 * b0 - n0 * b2) - b1 / 2" "w2 = k * (n0 * b1 - n1 * b0) - b2 / 2"
  have core: "w0\<^sup>2 + w1\<^sup>2 + w2\<^sup>2 = (w0 + a0)\<^sup>2 + (w1 + a1)\<^sup>2 + (w2 + a2)\<^sup>2" "w0\<^sup>2 + w1\<^sup>2 + w2\<^sup>2 = (w0 + b0)\<^sup>2 + (w1 + b1)\<^sup>2 + (w2 + b2)\<^sup>2"
    using L [OF L0(1)] det' unfolding w by (intro core; simp add: cr k_def)+
  have dists: "points_distance_of c t0 = sqrt (w0\<^sup>2 + w1\<^sup>2 + w2\<^sup>2)"
      "points_distance_of c t1 = sqrt ((w0 + a0)\<^sup>2 + (w1 + a1)\<^sup>2 + (w2 + a2)\<^sup>2)"
      "points_distance_of c t2 = sqrt ((w0 + b0)\<^sup>2 + (w1 + b1)\<^sup>2 + (w2 + b2)\<^sup>2)"
  proof -
    have "c = [(x0 + x2) / 2 + (n1 * b2 - n2 * b1) * k, (y0 + y2) / 2 + (n2 * b0 - n0 * b2) * k, (z0 + z2) / 2 + (n0 * b1 - n1 * b0) * k]"
      using some center by (simp split: if_splits)
    moreover have "(x0 + x2) / 2 + (n1 * b2 - n2 * b1) * k = w0 + x0" "(y0 + y2) / 2 + (n2 * b0 - n0 * b2) * k = w1 + y0"
        "(z0 + z2) / 2 + (n0 * b1 - n1 * b0) * k = w2 + z0"
      unfolding w ab(4-6) by (simp_all add: field_simps)
    ultimately have "c = [w0 + x0, w1 + y0, w2 + z0]" by simp
    then show "points_distance_of c t0 = sqrt (w0\<^sup>2 + w1\<^sup>2 + w2\<^sup>2)"
      "points_distance_of c t1 = sqrt ((w0 + a0)\<^sup>2 + (w1 + a1)\<^sup>2 + (w2 + a2)\<^sup>2)"
      "points_distance_of c t2 = sqrt ((w0 + b0)\<^sup>2 + (w1 + b1)\<^sup>2 + (w2 + b2)\<^sup>2)"
      unfolding t by (simp_all add: points_distance_of_eq numeral_3_eq_3 ab algebra_simps)
  qed
  show "points_distance_of c t0 = points_distance_of c t1 \<and> points_distance_of c t0 = points_distance_of c t2"
    unfolding dists using core by simp
qed

end
