(* ===== verification/Hash.thy ===== *)
theory Hash
  imports "HOL-Library.Word"
begin

text \<open>\<open>hash.hpp\<close>: FNV-1a over bytes and over texts, a text by its characters as bytes.\<close>

unbundle bit_operations_syntax

definition fnv1a_offset_basis :: "32 word" where
  "fnv1a_offset_basis = 2166136261"

definition fnv1a_prime :: "32 word" where
  "fnv1a_prime = 16777619"

definition fnv1a :: "8 word list \<Rightarrow> 32 word \<Rightarrow> 32 word" where
  "fnv1a data acc = fold (\<lambda>b acc. (acc XOR ucast b) * fnv1a_prime) data acc"

text \<open>The overload for texts: at compile time character by character, otherwise at once.\<close>

definition char_byte :: "char \<Rightarrow> 8 word" where
  "char_byte c = word_of_nat (of_char c)"

definition fnv1a_text :: "bool \<Rightarrow> string \<Rightarrow> 32 word \<Rightarrow> 32 word" where
  "fnv1a_text consteval data acc =
     (if consteval then fold (\<lambda>c acc. fnv1a [char_byte c] acc) data acc else fnv1a (map char_byte data) acc)"

lemma fnv1a_text_eq: "fnv1a_text consteval data acc = fnv1a (map char_byte data) acc"
proof -
  have "fold (\<lambda>c acc. fnv1a [char_byte c] acc) data acc = fnv1a (map char_byte data) acc" for acc
    by (induction data arbitrary: acc) (simp_all add: fnv1a_def)
  then show ?thesis by (simp add: fnv1a_text_def)
qed

text \<open>A hash can be computed in pieces.\<close>

lemma fnv1a_append: "fnv1a (xs @ ys) acc = fnv1a ys (fnv1a xs acc)"
  by (simp add: fnv1a_def)

text \<open>The prime is odd, so a step can be undone.\<close>

definition fnv1a_inverse :: "32 word" where
  "fnv1a_inverse = 899433627"

lemma prime_inverse: "fnv1a_prime * fnv1a_inverse = 1"
  by (simp add: fnv1a_prime_def fnv1a_inverse_def)

lemma prime_cancel:
  assumes "a * fnv1a_prime = b * fnv1a_prime"
  shows "a = b"
proof -
  have "x = x * fnv1a_prime * fnv1a_inverse" for x using prime_inverse by (simp only: mult.assoc mult_1_right)
  then show ?thesis using assms by metis
qed

lemma xor_cancel:
  fixes a b c :: "'a :: len word"
  assumes "a XOR c = b XOR c"
  shows "a = b"
proof -
  have "a = (a XOR c) XOR c" by (simp add: xor.assoc)
  also have "\<dots> = b" unfolding assms by (simp add: xor.assoc)
  finally show ?thesis .
qed

lemma fnv1a_injective: "fnv1a xs a = fnv1a xs b \<Longrightarrow> a = b"
proof (induction xs arbitrary: a b)
  case (Cons x xs)
  then have "(a XOR ucast x) * fnv1a_prime = (b XOR ucast x) * fnv1a_prime" by (simp add: fnv1a_def)
  then show ?case using prime_cancel xor_cancel by blast
qed (simp add: fnv1a_def)

text \<open>Two sequences that differ in one byte have different hashes.\<close>

lemma fnv1a_one_byte:
  assumes "x \<noteq> y"
  shows "fnv1a (us @ x # vs) acc \<noteq> fnv1a (us @ y # vs) acc"
proof
  let ?a = "fnv1a us acc"
  assume "fnv1a (us @ x # vs) acc = fnv1a (us @ y # vs) acc"
  then have "fnv1a vs (fnv1a [x] ?a) = fnv1a vs (fnv1a [y] ?a)"
    by (metis append_Cons append_Nil fnv1a_append)
  then have "fnv1a [x] ?a = fnv1a [y] ?a" by (rule fnv1a_injective)
  then have "(ucast x XOR ?a) * fnv1a_prime = (ucast y XOR ?a) * fnv1a_prime" by (simp add: fnv1a_def xor.commute)
  then have "(ucast x :: 32 word) = ucast y" using prime_cancel xor_cancel by blast
  moreover have "unat (ucast b :: 32 word) = unat b" for b :: "8 word"
  proof -
    have "unat b < 2 ^ 8" using unsigned_less [of b] by simp
    then show ?thesis by (simp add: unsigned_ucast_eq take_bit_eq_mod)
  qed
  ultimately have "x = y" by (metis word_unat_eq_iff)
  then show False using assms by simp
qed

text \<open>The values in the tests.\<close>

lemma fnv1a_values:
  "fnv1a_text True '''' fnv1a_offset_basis = 0x811C9DC5" "fnv1a_text True ''a'' fnv1a_offset_basis = 0xE40C292C"
  "fnv1a_text False ''foobar'' fnv1a_offset_basis = 0xBF9CF968"
  by code_simp+

end
