(* ===== verification/Utilities.thy ===== *)
theory Utilities
  imports Handler CfgHandler Indices StaticStorage
begin

text \<open>
  Small headers: \<open>error_code.hpp\<close> with the category of \<open>cfg/handler.hpp\<close>, \<open>visit.hpp\<close> and \<open>match.hpp\<close>, the
  computations on types of \<open>types.hpp\<close>, \<open>types/base.hpp\<close> and \<open>concepts.hpp\<close>, the counting of members of
  \<open>experimental/decompose.hpp\<close>, \<open>protocol/tuple.hpp\<close> and the texts of \<open>protocol/streams.hpp\<close>.
\<close>

section \<open>Error codes\<close>

text \<open>A category is an object with an address and a message for each value.\<close>

record error_category =
  ec_address :: nat
  ec_message :: "32 word \<Rightarrow> string"

record error_code =
  ec_code :: "32 word"
  ec_category :: error_category

definition bool_cast :: "bool \<Rightarrow> 32 word" where
  "bool_cast x = (if x then 0 else 1)"

definition bool_message :: "32 word \<Rightarrow> string" where
  "bool_message code = (if code \<noteq> 0 then ''true'' else ''false'')"

definition bool_category :: "nat \<Rightarrow> error_category" where
  "bool_category address = \<lparr>ec_address = address, ec_message = bool_message\<rparr>"

definition error_code_of :: "error_category \<Rightarrow> ('x \<Rightarrow> 32 word) \<Rightarrow> 'x \<Rightarrow> error_code" where
  "error_code_of category cast x = \<lparr>ec_code = cast x, ec_category = category\<rparr>"

definition error_message :: "error_code \<Rightarrow> string" where
  "error_message e = ec_message (ec_category e) (ec_code e)"

definition error_bool :: "error_code \<Rightarrow> bool" where
  "error_bool e \<longleftrightarrow> ec_code e = 0"

definition error_eq :: "error_code \<Rightarrow> error_code \<Rightarrow> bool" where
  "error_eq a b \<longleftrightarrow> ec_code a = ec_code b \<and> ec_address (ec_category a) = ec_address (ec_category b)"

text \<open>The values of \<open>cfg::status\<close> and their texts.\<close>

fun status_value :: "status \<Rightarrow> 32 word" where
  "status_value SUCCESS = 0"
| "status_value FULL = 1"
| "status_value MISSING_PAGE = 2"
| "status_value SERIALIZE_VALUE_ERROR = 3"
| "status_value WRITE_ERROR = 4"
| "status_value READ_ERROR = 5"
| "status_value DESER_ERROR = 6"
| "status_value RESET_KEYS_ERROR = 7"
| "status_value CLEAR_ERROR = 8"
| "status_value LOCATE_FAILED_ERROR = 9"
| "status_value ON_KVAL_ERROR = 10"
| "status_value MEM_NOT_PAGE_MULTIPLY_ERROR = 11"

definition status_message :: "32 word \<Rightarrow> string" where
  "status_message code =
     (let s = (ucast (ucast code :: 8 word) :: 32 word)
      in if s = 0 then ''success''
         else if s = 1 then ''not enough space to store the value''
         else if s = 2 then ''no page header found in memory''
         else if s = 3 then ''failed to serialize the value''
         else if s = 4 then ''failed to write to memory''
         else if s = 5 then ''failed to read from memory''
         else if s = 6 then ''failed to deserialize the value''
         else if s = 7 then ''failed to reset keys''
         else if s = 8 then ''failed to clear page''
         else if s = 9 then ''failed to locate page''
         else if s = 10 then ''error in on_kval callback''
         else if s = 11 then ''memory size is not a multiple of page size''
         else ''unknown error'')"

lemma status_value_inject: "status_value s = status_value t \<longleftrightarrow> s = t"
  by (cases s; cases t) simp_all

lemma status_ok: "error_bool (error_code_of cat status_value s) \<longleftrightarrow> s = SUCCESS"
  by (cases s) (simp_all add: error_bool_def error_code_of_def)

text \<open>No two errors have the same text, and each has one: two texts of the same length differ in one of two characters.\<close>

definition status_key :: "status \<Rightarrow> nat" where
  "status_key s = length (status_message (status_value s))"

lemma status_key_eq:
  "status_key s =
    (case s of SUCCESS \<Rightarrow> 7 | FULL \<Rightarrow> 35 | MISSING_PAGE \<Rightarrow> 30 | SERIALIZE_VALUE_ERROR \<Rightarrow> 29 | WRITE_ERROR \<Rightarrow> 25
     | READ_ERROR \<Rightarrow> 26 | DESER_ERROR \<Rightarrow> 31 | RESET_KEYS_ERROR \<Rightarrow> 20 | CLEAR_ERROR \<Rightarrow> 20 | LOCATE_FAILED_ERROR \<Rightarrow> 21
     | ON_KVAL_ERROR \<Rightarrow> 25 | MEM_NOT_PAGE_MULTIPLY_ERROR \<Rightarrow> 42)"
  by (cases s) (simp_all add: status_key_def status_message_def Let_def)

lemma status_texts_differ:
  "status_message (status_value WRITE_ERROR) \<noteq> status_message (status_value ON_KVAL_ERROR)"
  "status_message (status_value RESET_KEYS_ERROR) \<noteq> status_message (status_value CLEAR_ERROR)"
  by (simp_all add: status_message_def Let_def)

lemma status_texts: "status_message (status_value s) = status_message (status_value t) \<longleftrightarrow> s = t"
proof
  assume eq: "status_message (status_value s) = status_message (status_value t)"
  then have "status_key s = status_key t" by (simp add: status_key_def)
  then consider "s = t" | "{s, t} = {WRITE_ERROR, ON_KVAL_ERROR}" | "{s, t} = {RESET_KEYS_ERROR, CLEAR_ERROR}"
    unfolding status_key_eq by (cases s; cases t) (simp_all add: insert_commute)
  then show "s = t"
    using eq status_texts_differ status_texts_differ [symmetric] by cases (auto simp: doubleton_eq_iff)
qed simp

lemma status_text_known: "status_message (status_value s) \<noteq> ''unknown error''"
proof
  assume "status_message (status_value s) = ''unknown error''"
  then have "status_key s = 13" by (simp add: status_key_def)
  then show False by (cases s) (simp_all add: status_key_eq)
qed

text \<open>The texts of \<^typ>\<open>bool\<close> are those of the other value: the code of \<^const>\<open>True\<close> is 0.\<close>

lemma bool_message_swapped:
  "error_message (error_code_of (bool_category a) bool_cast True) = ''false''" "error_bool (error_code_of (bool_category a) bool_cast True)"
  "error_message (error_code_of (bool_category a) bool_cast False) = ''true''"
  by (simp_all add: error_message_def error_code_of_def bool_category_def bool_message_def bool_cast_def error_bool_def)

section \<open>Visiting\<close>

text \<open>
  A variant is its index and its value; \<^const>\<open>None\<close> is \<open>abort()\<close>.  The callable of a \<open>matcher\<close> that is called for
  an alternative is chosen by overload resolution, a parameter.
\<close>

definition visit_index :: "(nat \<Rightarrow> 'a) \<Rightarrow> nat \<Rightarrow> nat \<Rightarrow> 'a option" where
  "visit_index vis sz index = map_option vis (index_switch 0 sz index)"

definition visit_variant :: "(nat \<Rightarrow> 'v \<Rightarrow> 'a) \<Rightarrow> nat \<Rightarrow> nat \<times> 'v \<Rightarrow> 'a option" where
  "visit_variant vis sz var = visit_index (\<lambda>I. vis I (snd var)) sz (fst var)"

definition apply_on_visit :: "(nat \<Rightarrow> 'v list \<Rightarrow> 'a) \<Rightarrow> nat \<Rightarrow> nat \<times> 'v list \<Rightarrow> 'a option" where
  "apply_on_visit vis sz var = visit_variant (\<lambda>I item. vis I item) sz var"

definition matcher :: "(nat \<Rightarrow> nat) \<Rightarrow> ('v \<Rightarrow> 'a) list \<Rightarrow> nat \<Rightarrow> 'v \<Rightarrow> 'a" where
  "matcher overload cals = (\<lambda>I. cals ! overload I)"

definition match_variant :: "(nat \<Rightarrow> nat) \<Rightarrow> nat \<Rightarrow> nat \<times> 'v \<Rightarrow> ('v \<Rightarrow> 'a) list \<Rightarrow> 'a option" where
  "match_variant overload sz var cals = visit_variant (matcher overload cals) sz var"

definition apply_on_match :: "(nat \<Rightarrow> nat) \<Rightarrow> nat \<Rightarrow> nat \<times> 'v list \<Rightarrow> ('v list \<Rightarrow> 'a) list \<Rightarrow> 'a option" where
  "apply_on_match overload sz var cals = apply_on_visit (matcher overload cals) sz var"

text \<open>The visitor is called with the value that the variant holds, for up to 64 alternatives.\<close>

lemma visit_variant_eq: "i < sz \<Longrightarrow> sz \<le> 64 \<Longrightarrow> visit_variant vis sz (i, v) = Some (vis i v)"
  by (simp add: visit_variant_def visit_index_def index_switch_eq)

lemma match_variant_eq: "i < sz \<Longrightarrow> sz \<le> 64 \<Longrightarrow> match_variant overload sz (i, v) cals = Some ((cals ! overload i) v)"
  by (simp add: match_variant_def visit_variant_eq matcher_def)

section \<open>Deferred calls\<close>

text \<open>
  The statements of a scope with objects of \<open>defer\<close> among them: an object that is declared, or copied from the object
  of an index, calls its callable when the scope ends, in the reverse order of the declarations.
\<close>

datatype 's scope_step = Statement "'s \<Rightarrow> 's" | Defer "'s \<Rightarrow> 's" | CopyDefer nat

definition end_scope :: "('s \<Rightarrow> 's) list \<Rightarrow> 's \<Rightarrow> 's" where
  "end_scope objects s = fold (\<lambda>call s. call s) objects s"

fun run_scope :: "'s scope_step list \<Rightarrow> ('s \<Rightarrow> 's) list \<Rightarrow> 's \<Rightarrow> 's" where
  "run_scope [] objects s = end_scope objects s"
| "run_scope (Statement f # ps) objects s = run_scope ps objects (f s)"
| "run_scope (Defer f # ps) objects s = run_scope ps (f # objects) s"
| "run_scope (CopyDefer i # ps) objects s = run_scope ps (if i < length objects then objects ! i # objects else objects) s"

fun scope_copies :: "'s scope_step list \<Rightarrow> bool" where
  "scope_copies [] = False"
| "scope_copies (CopyDefer i # ps) = True"
| "scope_copies (_ # ps) = scope_copies ps"

text \<open>Without copies, a callable is called once, after all that follows it in the scope; a copy calls it again.\<close>

lemma end_scope_append: "end_scope (objects @ [f]) s = f (end_scope objects s)"
  by (simp add: end_scope_def)

lemma run_scope_append: "\<not> scope_copies ps \<Longrightarrow> run_scope ps (objects @ [f]) s = f (run_scope ps objects s)"
proof (induction ps objects s rule: run_scope.induct)
  case (3 g ps objects s)
  then show ?case by (metis append_Cons run_scope.simps(3) scope_copies.simps(4))
qed (simp_all add: end_scope_append)

lemma defer_runs_last: "\<not> scope_copies ps \<Longrightarrow> run_scope (Defer f # ps) [] s = f (run_scope ps [] s)"
  using run_scope_append [of ps "[]" f s] by simp

lemma defer_copy_runs_twice: "run_scope [Defer f, CopyDefer 0, Statement g] [] s = f (f (g s))"
  by (simp add: end_scope_def)

section \<open>Types\<close>

datatype cpp_type =
    TOther string
  | TArray cpp_type nat
  | TTuple "cpp_type list"
  | TVariant "cpp_type list"
  | TVector cpp_type
  | TConst cpp_type
  | TRef cpp_type

definition decay :: "cpp_type \<Rightarrow> cpp_type" where
  "decay T =
     (let T = (case T of TRef T \<Rightarrow> T | _ \<Rightarrow> T) in case T of TConst T \<Rightarrow> T | _ \<Rightarrow> T)"

definition are_same :: "cpp_type list \<Rightarrow> bool" where
  "are_same Ts = (case Ts of [] \<Rightarrow> True | T # Ts \<Rightarrow> list_all (\<lambda>U. T = U) Ts)"

definition tuple_has_type :: "cpp_type \<Rightarrow> cpp_type \<Rightarrow> bool option" where
  "tuple_has_type T U = (case U of TTuple Us \<Rightarrow> Some (list_ex (\<lambda>U. T = U) Us) | _ \<Rightarrow> None)"

definition is_std_tuple :: "cpp_type \<Rightarrow> bool" where
  "is_std_tuple T = (case decay T of TTuple _ \<Rightarrow> True | _ \<Rightarrow> False)"

definition is_std_array :: "cpp_type \<Rightarrow> bool" where
  "is_std_array T = (case decay T of TArray _ _ \<Rightarrow> True | _ \<Rightarrow> False)"

definition is_std_vector :: "cpp_type \<Rightarrow> bool" where
  "is_std_vector T = (case decay T of TVector _ \<Rightarrow> True | _ \<Rightarrow> False)"

definition static_size :: "cpp_type \<Rightarrow> nat option" where
  "static_size T = (case decay T of TArray _ N \<Rightarrow> Some N | TTuple Ts \<Rightarrow> Some (length Ts) | _ \<Rightarrow> None)"

definition select_utype :: "nat \<Rightarrow> base_type option" where
  "select_utype N = (if N \<in> {1, 2, 4, 8} then Some (BUInt N) else None)"

definition type_map :: "cpp_type \<Rightarrow> (cpp_type \<Rightarrow> cpp_type) \<Rightarrow> cpp_type option" where
  "type_map T Fun = (case T of TTuple Ts \<Rightarrow> Some (TTuple (map Fun Ts)) | _ \<Rightarrow> None)"

text \<open>The construction of the variant of tags is ambiguous when the type is there twice.\<close>

definition index_of :: "cpp_type \<Rightarrow> cpp_type \<Rightarrow> nat option" where
  "index_of T V =
     (case V of
        TVariant Ts \<Rightarrow> if length (filter (\<lambda>U. U = T) Ts) = 1 then Some (find_if (\<lambda>U. U = T) Ts) else None
      | _ \<Rightarrow> None)"

definition alternative_of :: "cpp_type \<Rightarrow> cpp_type \<Rightarrow> bool option" where
  "alternative_of T V = (case V of TVariant Ts \<Rightarrow> Some (list_ex (\<lambda>U. T = U) Ts) | _ \<Rightarrow> None)"

definition element_of :: "cpp_type \<Rightarrow> cpp_type \<Rightarrow> bool option" where
  "element_of T V = (case V of TTuple Ts \<Rightarrow> Some (list_ex (\<lambda>U. T = U) Ts) | _ \<Rightarrow> None)"

lemma index_of_nth: "distinct Ts \<Longrightarrow> i < length Ts \<Longrightarrow> index_of (Ts ! i) (TVariant Ts) = Some i"
proof -
  assume d: "distinct Ts" "i < length Ts"
  have "find_if (\<lambda>U. U = Ts ! i) Ts = i" using d
  proof (induction Ts arbitrary: i)
    case (Cons T Ts)
    then show ?case by (cases i) auto
  qed simp
  moreover have "length (filter (\<lambda>U. U = Ts ! i) Ts) = 1"
    using d by (induction Ts arbitrary: i) (auto simp: nth_Cons filter_empty_conv split: nat.splits)
  ultimately show ?thesis by (simp add: index_of_def)
qed

section \<open>Members\<close>

text \<open>
  The number of members of a class: \<open>inits n\<close> when \<open>T{ a1, ..., an }\<close> is valid with \<open>n\<close> arguments that convert
  to anything, \<open>dflt\<close> when it can be default constructed.
\<close>

definition max_decompose_count :: nat where
  "max_decompose_count = 16"

fun decompose_count_impl :: "(nat \<Rightarrow> bool) \<Rightarrow> bool \<Rightarrow> nat \<Rightarrow> int" where
  "decompose_count_impl inits dflt 0 = (if dflt then 0 else - 1)"
| "decompose_count_impl inits dflt (Suc n) = (if inits (Suc n) then int (n + 1) else decompose_count_impl inits dflt n)"

definition decompose_count :: "(nat \<Rightarrow> bool) \<Rightarrow> bool \<Rightarrow> int" where
  "decompose_count inits dflt = decompose_count_impl inits dflt max_decompose_count"

definition decomposable :: "bool \<Rightarrow> bool \<Rightarrow> (nat \<Rightarrow> bool) \<Rightarrow> bool \<Rightarrow> bool" where
  "decomposable is_class gettable inits dflt \<longleftrightarrow> is_class \<and> \<not> gettable \<and> 0 \<le> decompose_count inits dflt"

text \<open>An aggregate of up to 16 members takes as many initializers as it has members, or less.\<close>

lemma decompose_count_aggregate:
  assumes "\<And>n. inits n \<longleftrightarrow> n \<le> members" "dflt"
  shows "decompose_count inits dflt = int (min members 16)"
proof -
  have "decompose_count_impl inits dflt n = int (min members n)" for n
    using assms by (induction n) auto
  then show ?thesis by (simp add: decompose_count_def max_decompose_count_def)
qed

section \<open>Tuples of a protocol\<close>

definition tuple_def_type :: "endian \<Rightarrow> pdef list \<Rightarrow> pdef" where
  "tuple_def_type Endianess Ds = DDef (DEndian Endianess (DTuple Ds))"

definition tuple_with_items :: "pdef list \<Rightarrow> pdef list \<Rightarrow> pdef list" where
  "tuple_with_items Ds SubDs = Ds @ SubDs"

definition tuple_max_size :: "endian \<Rightarrow> pdef list \<Rightarrow> nat" where
  "tuple_max_size Endianess Ds = tr_max (traits_for (DEndian Endianess (DTuple Ds)))"

definition tuple_make_val :: "pval list \<Rightarrow> pval" where
  "tuple_make_val args = VTuple args"

section \<open>Texts\<close>

definition hex_chars :: "string" where
  "hex_chars = ''0123456789ABCDEF''"

text \<open>Each byte is a separator and two digits; the state of the loop is the separator, the index and the text.\<close>

definition pretty_print_msg_format :: "byte list \<Rightarrow> string" where
  "pretty_print_msg_format item =
     snd (snd (fold (\<lambda>b (l, i, out).
       let l = (if i mod 4 = (0 :: nat) then CHR ''|'' else l);
           val = unat b;
           out = out @ [l] @ [hex_chars ! (val div 16)] @ [hex_chars ! (val mod 16)]
       in (CHR '':'', i + 1, out)) item (CHR ''|'', 0, '''')))"

fun decimal_text :: "nat \<Rightarrow> string" where
  "decimal_text n = (if n < 10 then [hex_chars ! n] else decimal_text (n div 10) @ [hex_chars ! (n mod 10)])"

declare decimal_text.simps [simp del]

text \<open>\<open>convert_enum\<close> without \<open>magic_enum\<close>: \<open>std::to_string\<close> of the underlying value.\<close>

definition convert_enum :: "int \<Rightarrow> string" where
  "convert_enum val = (if val < 0 then CHR ''-'' # decimal_text (nat (- val)) else decimal_text (nat val))"

definition digit_value :: "char \<Rightarrow> nat" where
  "digit_value c = of_char c - 48"

definition decimal_value :: "string \<Rightarrow> nat" where
  "decimal_value t = foldl (\<lambda>a c. 10 * a + digit_value c) 0 t"

lemma digit_cases: "n < 10 \<Longrightarrow> digit_value (hex_chars ! n) = n \<and> hex_chars ! n \<noteq> CHR ''-''"
proof -
  assume "n < 10"
  then have "n \<in> {0, 1, 2, 3, 4, 5, 6, 7, 8, 9}" by auto
  then show ?thesis by (elim insertE; simp add: hex_chars_def digit_value_def)
qed

lemma decimal_value_text: "decimal_value (decimal_text n) = n"
  by (induction n rule: decimal_text.induct) (subst decimal_text.simps, auto simp: decimal_value_def digit_cases)

lemma decimal_text_start: "decimal_text n \<noteq> CHR ''-'' # t"
proof (induction n arbitrary: t rule: decimal_text.induct)
  case (1 n)
  have "decimal_text m \<noteq> []" for m by (subst decimal_text.simps) simp
  with 1 digit_cases show ?case by (subst decimal_text.simps) (auto simp: append_eq_Cons_conv)
qed

text \<open>The text determines the value.\<close>

lemma convert_enum_inject: "convert_enum a = convert_enum b \<longleftrightarrow> a = b"
proof
  assume eq: "convert_enum a = convert_enum b"
  have *: "decimal_text m = decimal_text n \<Longrightarrow> m = n" for m n by (metis decimal_value_text)
  from eq show "a = b"
    using decimal_text_start decimal_text_start [symmetric] by (auto simp: convert_enum_def split: if_splits dest!: *)
qed simp

definition sb_text :: "string_buffer \<Rightarrow> string" where
  "sb_text m = map (\<lambda>c. char_of (unat c)) (sb_sv m)"

text \<open>The order of two buffers is that of their texts, by characters as unsigned numbers.\<close>

definition byte_compare :: "byte \<Rightarrow> byte \<Rightarrow> three_way" where
  "byte_compare a b = (if a < b then TW_less else if a = b then TW_equal else TW_greater)"

definition sb_compare :: "string_buffer \<Rightarrow> string_buffer \<Rightarrow> three_way" where
  "sb_compare a b = list_compare byte_compare (sb_sv a) (sb_sv b)"

definition sb_eq_view :: "string_buffer \<Rightarrow> byte list \<Rightarrow> bool" where
  "sb_eq_view a sv \<longleftrightarrow> sb_sv a = sv"

definition turn_round :: "three_way \<Rightarrow> three_way" where
  "turn_round c = (case c of TW_less \<Rightarrow> TW_greater | TW_equal \<Rightarrow> TW_equal | TW_greater \<Rightarrow> TW_less)"

lemma byte_compare_eq: "byte_compare a b = TW_equal \<longleftrightarrow> a = b"
  by (simp add: byte_compare_def)

lemma list_compare_eq: "list_compare byte_compare xs ys = TW_equal \<longleftrightarrow> xs = ys"
  by (induction byte_compare xs ys rule: list_compare.induct) (auto simp: byte_compare_eq)

lemma list_compare_turn: "list_compare byte_compare ys xs = turn_round (list_compare byte_compare xs ys)"
  by (induction byte_compare xs ys rule: list_compare.induct) (auto simp: byte_compare_def turn_round_def)

lemma sb_compare_order:
  "sb_compare a b = TW_equal \<longleftrightarrow> sb_eq a b" "sb_compare b a = turn_round (sb_compare a b)"
  by (simp_all add: sb_compare_def sb_eq_def list_compare_eq list_compare_turn [of "sb_sv b"])

definition error_record_text :: "error_record \<Rightarrow> string" where
  "error_record_text rec = sb_text (error_mark rec) @ ''('' @ decimal_text (error_offset rec) @ '')''"

definition endian_text :: "endian \<Rightarrow> string" where
  "endian_text e = (case e of Big \<Rightarrow> ''big endian'' | Little \<Rightarrow> ''little endian'')"

definition separator :: "nat \<Rightarrow> char" where
  "separator i = (if i mod 4 = 0 then CHR ''|'' else CHR '':'')"

lemma pretty_print_eq:
  "pretty_print_msg_format item =
    concat (map (\<lambda>(i, b). [separator i, hex_chars ! (unat b div 16), hex_chars ! (unat b mod 16)]) (enumerate 0 item))"
proof -
  have "snd (snd (fold (\<lambda>b (l, i, out).
       let l = (if i mod 4 = (0 :: nat) then CHR ''|'' else l);
           val = unat b;
           out = out @ [l] @ [hex_chars ! (val div 16)] @ [hex_chars ! (val mod 16)]
       in (CHR '':'', i + 1, out)) item (l, i, out))) =
     out @ concat (map (\<lambda>(i, b). [separator i, hex_chars ! (unat b div 16), hex_chars ! (unat b mod 16)]) (enumerate i item))"
    if "i mod 4 = 0 \<or> l = CHR '':''" for l i out
    using that by (induction item arbitrary: l i out) (auto simp: separator_def Let_def)
  from this [of 0 "CHR ''|''" "''''"] show ?thesis by (simp add: pretty_print_msg_format_def)
qed

lemma hex_chars_inject: "i < 16 \<Longrightarrow> j < 16 \<Longrightarrow> hex_chars ! i = hex_chars ! j \<longleftrightarrow> i = j"
  by (rule nth_eq_iff_index_eq) (simp_all add: hex_chars_def)

text \<open>The text of a message has three characters for each byte, and determines it.\<close>

lemma pretty_print_length: "length (pretty_print_msg_format item) = 3 * length item"
proof -
  have "length (concat (map (\<lambda>(i, b). [separator i, hex_chars ! (unat b div 16), hex_chars ! (unat b mod 16)]) (enumerate n item))) =
      3 * length item" for n by (induction item arbitrary: n) auto
  then show ?thesis by (simp add: pretty_print_eq)
qed

lemma pretty_print_inject: "pretty_print_msg_format a = pretty_print_msg_format b \<longleftrightarrow> a = b"
proof -
  let ?f = "\<lambda>(i, b :: byte). [separator i, hex_chars ! (unat b div 16), hex_chars ! (unat b mod 16)]"
  have byte: "x = y" if "hex_chars ! (unat x div 16) = hex_chars ! (unat y div 16)" "hex_chars ! (unat x mod 16) = hex_chars ! (unat y mod 16)"
    for x y :: byte
  proof -
    have "unat x < 2 ^ 8" "unat y < 2 ^ 8" using unsigned_less [of x] unsigned_less [of y] by simp_all
    then have "unat x div 16 < 16" "unat y div 16 < 16" by simp_all
    then have "unat x div 16 = unat y div 16" "unat x mod 16 = unat y mod 16" using that hex_chars_inject by simp_all
    then have "unat x = unat y" by (metis div_mult_mod_eq)
    then show ?thesis by (simp add: word_unat_eq_iff)
  qed
  have "concat (map ?f (enumerate n a)) = concat (map ?f (enumerate n b)) \<Longrightarrow> a = b" for n
  proof (induction a arbitrary: b n)
    case Nil
    then show ?case by (cases b) auto
  next
    case (Cons x a)
    then show ?case using byte by (cases b) auto
  qed
  then show ?thesis by (auto simp: pretty_print_eq)
qed

end
