(* ===== verification/Units.thy ===== *)
theory Units
  imports Quantity "HOL-Library.Word" Complex_Main
begin

text \<open>
  The named units of \<open>physical_quantity.hpp\<close>, the rest of \<open>quantity.hpp\<close>, and what the types of quantities are for: an
  expression that compiles has a value whose unit is the one of its type, and its value does not depend on the choice of
  the base units.
\<close>

section \<open>The named units\<close>

datatype unit_type =
    Unitless | Length | Mass_unit | Timeq | Current_unit | Temp_unit | Amount_of_substance | Luminous_intensity
  | Angle_unit | Byte_unit | Acceleration | Angular_velocity | Area | Volume | Velocity | Frequency | Force | Power
  | Voltage | Resistance | Distance | Radius

definition exponents :: "int \<Rightarrow> int \<Rightarrow> int \<Rightarrow> int \<Rightarrow> int \<Rightarrow> int \<Rightarrow> int \<Rightarrow> int \<Rightarrow> int \<Rightarrow> dims" where
  "exponents l m t c te mo li an by =
     \<lparr>Len = l, Mass = m, Time = t, Current = c, Temp = te, Mol = mo, Li = li, Angle = an, Byte = by\<rparr>"

primrec unit_dims :: "unit_type \<Rightarrow> dims" where
  "unit_dims Unitless = exponents 0 0 0 0 0 0 0 0 0"
| "unit_dims Length = exponents 1 0 0 0 0 0 0 0 0"
| "unit_dims Mass_unit = exponents 0 1 0 0 0 0 0 0 0"
| "unit_dims Timeq = exponents 0 0 1 0 0 0 0 0 0"
| "unit_dims Current_unit = exponents 0 0 0 1 0 0 0 0 0"
| "unit_dims Temp_unit = exponents 0 0 0 0 1 0 0 0 0"
| "unit_dims Amount_of_substance = exponents 0 0 0 0 0 1 0 0 0"
| "unit_dims Luminous_intensity = exponents 0 0 0 0 0 0 1 0 0"
| "unit_dims Angle_unit = exponents 0 0 0 0 0 0 0 1 0"
| "unit_dims Byte_unit = exponents 0 0 0 0 0 0 0 0 1"
| "unit_dims Acceleration = exponents 1 0 (-2) 0 0 0 0 0 0"
| "unit_dims Angular_velocity = exponents 0 0 (-1) 0 0 0 0 1 0"
| "unit_dims Area = exponents 2 0 0 0 0 0 0 0 0"
| "unit_dims Volume = exponents 3 0 0 0 0 0 0 0 0"
| "unit_dims Velocity = exponents 1 0 (-1) 0 0 0 0 0 0"
| "unit_dims Frequency = exponents 0 0 (-1) 0 0 0 0 0 0"
| "unit_dims Force = exponents 1 1 (-2) 0 0 0 0 0 0"
| "unit_dims Power = exponents 2 1 (-3) 0 0 0 0 0 0"
| "unit_dims Voltage = exponents 2 1 (-3) (-1) 0 0 0 0 0"
| "unit_dims Resistance = exponents 2 1 (-3) (-2) 0 0 0 0 0"
| "unit_dims Distance = exponents 1 0 0 0 0 0 0 0 0"
| "unit_dims Radius = exponents 1 0 0 0 0 0 0 0 0"

text \<open>The laws of physics that the names stand for.\<close>

lemma unit_laws:
  "map2_dims (-) (unit_dims Length) (unit_dims Timeq) = unit_dims Velocity"
  "map2_dims (-) (unit_dims Velocity) (unit_dims Timeq) = unit_dims Acceleration"
  "map2_dims (+) (unit_dims Mass_unit) (unit_dims Acceleration) = unit_dims Force"
  "map2_dims (+) (unit_dims Force) (unit_dims Velocity) = unit_dims Power"
  "map2_dims (-) (unit_dims Power) (unit_dims Current_unit) = unit_dims Voltage"
  "map2_dims (-) (unit_dims Voltage) (unit_dims Current_unit) = unit_dims Resistance"
  "map2_dims (-) (unit_dims Angle_unit) (unit_dims Timeq) = unit_dims Angular_velocity"
  "map2_dims (-) (unit_dims Unitless) (unit_dims Timeq) = unit_dims Frequency"
  "map2_dims (+) (unit_dims Length) (unit_dims Length) = unit_dims Area"
  "map2_dims (+) (unit_dims Area) (unit_dims Length) = unit_dims Volume"
  by (simp_all add: map2_dims_def exponents_def)

text \<open>All exponents are within what \<open>get_single_unit\<close> accepts.\<close>

lemma unit_dims_small: "all_dims (\<lambda>x. - 10 < x \<and> x < 10) (unit_dims u)"
  by (cases u) (simp_all add: all_dims_def exponents_def)

lemma unit_texts: "get_unit (unit_dims u) = get_unit (unit_dims w) \<longleftrightarrow> unit_dims u = unit_dims w"
  using get_unit_inject [OF _ unit_dims_small unit_dims_small] by auto

section \<open>The rest of the quantities\<close>

definition value_times_q :: "('a :: linordered_field) \<Rightarrow> 'a quantity \<Rightarrow> 'a quantity" where
  "value_times_q v q = q_scale q v"

definition q_convert :: "('a \<Rightarrow> 'u) \<Rightarrow> 'a quantity \<Rightarrow> 'u" where
  "q_convert conv q = conv (val_of q)"

definition q_cos :: "real quantity \<Rightarrow> real" where
  "q_cos u = cos (val_of u)"

definition q_sin :: "real quantity \<Rightarrow> real" where
  "q_sin u = sin (val_of u)"

text \<open>\<open>std::numeric_limits\<close> and \<open>std::hash\<close>: the limits and the hashes of the value type are parameters.\<close>

record 'a limits =
  lim_lowest :: 'a
  lim_min :: 'a
  lim_max :: 'a

definition q_lowest :: "'a limits \<Rightarrow> 'a quantity" where
  "q_lowest l = Quantity (lim_lowest l)"

definition q_limit_min :: "'a limits \<Rightarrow> 'a quantity" where
  "q_limit_min l = Quantity (lim_min l)"

definition q_limit_max :: "'a limits \<Rightarrow> 'a quantity" where
  "q_limit_max l = Quantity (lim_max l)"

definition q_hash :: "('a \<Rightarrow> 64 word) \<Rightarrow> (string \<Rightarrow> 64 word) \<Rightarrow> string \<Rightarrow> 'a quantity \<Rightarrow> 64 word" where
  "q_hash hash_value hash_text u q = xor (hash_value (val_of q)) (hash_text u)"

definition q_text :: "('a \<Rightarrow> string) \<Rightarrow> string \<Rightarrow> 'a quantity \<Rightarrow> string" where
  "q_text text_of u q = text_of (val_of q) @ u"

lemma q_limits:
  assumes "\<And>x. lim_lowest l \<le> x \<and> x \<le> lim_max l"
  shows "q_lowest l \<le> q" "q \<le> q_limit_max l"
  using assms by (cases q; simp add: q_lowest_def q_limit_max_def less_eq_quantity_def)+

text \<open>For quantities of one unit, the hashes differ when those of the values do.\<close>

lemma q_hash_inject: "q_hash hv ht u a = q_hash hv ht u b \<longleftrightarrow> hv (val_of a) = hv (val_of b)"
proof
  assume "q_hash hv ht u a = q_hash hv ht u b"
  then have "xor (xor (hv (val_of a)) (ht u)) (ht u) = xor (xor (hv (val_of b)) (ht u)) (ht u)" by (simp add: q_hash_def)
  then show "hv (val_of a) = hv (val_of b)" by (simp only: xor.assoc xor_self_eq xor.right_neutral)
qed (simp add: q_hash_def)

lemma q_circle: "q_sin u ^ 2 + q_cos u ^ 2 = 1"
  by (simp add: q_sin_def q_cos_def)

section \<open>Expressions\<close>

text \<open>
  An expression over quantities as a program writes it.  The sum of two types does not compile, so it is \<^const>\<open>None\<close>;
  \<open>sqrt\<close> is that of the real numbers.
\<close>

datatype q_exp =
    Given "real physical"
  | Plus q_exp q_exp
  | Minus q_exp q_exp
  | Scaled real q_exp
  | Times q_exp q_exp
  | Over q_exp q_exp
  | Root q_exp
  | Raised int q_exp

fun exp_type :: "q_exp \<Rightarrow> dims option" where
  "exp_type (Given v) = Some (units v)"
| "exp_type (Plus a b) = do { d \<leftarrow> exp_type a; d' \<leftarrow> exp_type b; (if d = d' then Some d else None) }"
| "exp_type (Minus a b) = do { d \<leftarrow> exp_type a; d' \<leftarrow> exp_type b; (if d = d' then Some d else None) }"
| "exp_type (Scaled c a) = exp_type a"
| "exp_type (Times a b) = do { d \<leftarrow> exp_type a; d' \<leftarrow> exp_type b; Some (map2_dims (+) d d') }"
| "exp_type (Over a b) = do { d \<leftarrow> exp_type a; d' \<leftarrow> exp_type b; Some (map2_dims (-) d d') }"
| "exp_type (Root a) = do { d \<leftarrow> exp_type a; (if all_dims even d then Some (map2_dims (\<lambda>x _. x div 2) d d) else None) }"
| "exp_type (Raised p a) = do { d \<leftarrow> exp_type a; Some (map2_dims (\<lambda>x _. x * p) d d) }"

fun exp_eval :: "q_exp \<Rightarrow> real physical option" where
  "exp_eval (Given v) = Some v"
| "exp_eval (Plus a b) = do {
     x \<leftarrow> exp_eval a; y \<leftarrow> exp_eval b;
     (if units x = units y then Some (x\<lparr>quant := q_plus (quant x) (quant y)\<rparr>) else None) }"
| "exp_eval (Minus a b) = do {
     x \<leftarrow> exp_eval a; y \<leftarrow> exp_eval b;
     (if units x = units y then Some (x\<lparr>quant := q_minus (quant x) (quant y)\<rparr>) else None) }"
| "exp_eval (Scaled c a) = do { x \<leftarrow> exp_eval a; Some (x\<lparr>quant := value_times_q c (quant x)\<rparr>) }"
| "exp_eval (Times a b) = do { x \<leftarrow> exp_eval a; y \<leftarrow> exp_eval b; Some (physical_mul x y) }"
| "exp_eval (Over a b) = do { x \<leftarrow> exp_eval a; y \<leftarrow> exp_eval b; Some (physical_div x y) }"
| "exp_eval (Root a) = do { x \<leftarrow> exp_eval a; physical_sqrt sqrt x }"
| "exp_eval (Raised p a) = do { x \<leftarrow> exp_eval a; Some (physical_pow p x) }"

text \<open>What compiles has a value of its type, and only that.\<close>

lemma exp_type_eval: "exp_type e = map_option units (exp_eval e)"
  by (induction e)
    (auto simp: physical_mul_def physical_div_def physical_sqrt_def physical_pow_def split: Option.bind_splits)

section \<open>The choice of the base units\<close>

text \<open>\<open>k\<close> has for each base unit how many of the new ones are an old one.\<close>

record base_change =
  k_len :: real
  k_mass :: real
  k_time :: real
  k_current :: real
  k_temp :: real
  k_mol :: real
  k_li :: real
  k_angle :: real
  k_byte :: real

definition change_ok :: "base_change \<Rightarrow> bool" where
  "change_ok k \<longleftrightarrow> 0 < k_len k \<and> 0 < k_mass k \<and> 0 < k_time k \<and> 0 < k_current k \<and> 0 < k_temp k \<and> 0 < k_mol k \<and>
     0 < k_li k \<and> 0 < k_angle k \<and> 0 < k_byte k"

definition change_factor :: "base_change \<Rightarrow> dims \<Rightarrow> real" where
  "change_factor k d =
     k_len k powi Len d * k_mass k powi Mass d * k_time k powi Time d * k_current k powi Current d *
     k_temp k powi Temp d * k_mol k powi Mol d * k_li k powi Li d * k_angle k powi Angle d * k_byte k powi Byte d"

definition change_units :: "base_change \<Rightarrow> real physical \<Rightarrow> real physical" where
  "change_units k v = v\<lparr>quant := Quantity (change_factor k (units v) * val_of (quant v))\<rparr>"

primrec change_exp :: "base_change \<Rightarrow> q_exp \<Rightarrow> q_exp" where
  "change_exp k (Given v) = Given (change_units k v)"
| "change_exp k (Plus a b) = Plus (change_exp k a) (change_exp k b)"
| "change_exp k (Minus a b) = Minus (change_exp k a) (change_exp k b)"
| "change_exp k (Scaled c a) = Scaled c (change_exp k a)"
| "change_exp k (Times a b) = Times (change_exp k a) (change_exp k b)"
| "change_exp k (Over a b) = Over (change_exp k a) (change_exp k b)"
| "change_exp k (Root a) = Root (change_exp k a)"
| "change_exp k (Raised p a) = Raised p (change_exp k a)"

named_theorems change_simps

lemma change_factor_pos: "change_ok k \<Longrightarrow> 0 < change_factor k d"
  by (simp add: change_ok_def change_factor_def)

lemma change_factor_ops [change_simps]:
  assumes "change_ok k"
  shows "change_factor k (map2_dims (+) d d') = change_factor k d * change_factor k d'"
    "change_factor k (map2_dims (-) d d') = change_factor k d / change_factor k d'"
    "change_factor k (map2_dims (\<lambda>x _. x * p) d d) = change_factor k d powi p"
proof -
  show "change_factor k (map2_dims (+) d d') = change_factor k d * change_factor k d'"
    "change_factor k (map2_dims (-) d d') = change_factor k d / change_factor k d'"
    using assms
    by (simp_all add: change_factor_def change_ok_def map2_dims_def power_int_add power_int_diff field_simps)
  show "change_factor k (map2_dims (\<lambda>x _. x * p) d d) = change_factor k d powi p"
    by (simp add: change_factor_def map2_dims_def power_int_mult power_int_mult_distrib)
qed

lemma change_factor_half:
  assumes "change_ok k" "all_dims even d"
  shows "change_factor k (map2_dims (\<lambda>x _. x div 2) d d) = sqrt (change_factor k d)"
proof -
  let ?h = "map2_dims (\<lambda>x _. x div 2) d d"
  have "map2_dims (\<lambda>x _. x * 2) ?h ?h = d"
    using assms(2) by (intro dims.equality) (auto simp: map2_dims_def all_dims_def)
  then have "change_factor k d = change_factor k ?h powi 2"
    using change_factor_ops(3) [OF assms(1), of 2 ?h] by simp
  then show ?thesis using change_factor_pos [OF assms(1), of ?h] by (simp add: power_int_def)
qed

lemma change_units_ops [change_simps]:
  assumes "change_ok k"
  shows "units (change_units k x) = units x"
    "physical_mul (change_units k x) (change_units k y) = change_units k (physical_mul x y)"
    "physical_div (change_units k x) (change_units k y) = change_units k (physical_div x y)"
    "physical_pow p (change_units k x) = change_units k (physical_pow p x)"
    "physical_sqrt sqrt (change_units k x) = map_option (change_units k) (physical_sqrt sqrt x)"
    "(change_units k x)\<lparr>quant := value_times_q c (quant (change_units k x))\<rparr> = change_units k (x\<lparr>quant := value_times_q c (quant x)\<rparr>)"
  using assms change_factor_half [OF assms]
  by (simp_all add: change_units_def physical_mul_def physical_div_def physical_pow_def physical_sqrt_def
      change_factor_ops power_int_mult_distrib real_sqrt_mult value_times_q_def q_defs)

lemma change_units_sums [change_simps]:
  "units x = units y \<Longrightarrow>
    (change_units k x)\<lparr>quant := q_plus (quant (change_units k x)) (quant (change_units k y))\<rparr>
      = change_units k (x\<lparr>quant := q_plus (quant x) (quant y)\<rparr>)"
  "units x = units y \<Longrightarrow>
    (change_units k x)\<lparr>quant := q_minus (quant (change_units k x)) (quant (change_units k y))\<rparr>
      = change_units k (x\<lparr>quant := q_minus (quant x) (quant y)\<rparr>)"
  by (simp_all add: change_units_def q_defs algebra_simps)

text \<open>An expression in other base units has the same value, in the other base units.\<close>

lemma exp_homogeneous:
  assumes "change_ok k"
  shows "exp_eval (change_exp k e) = map_option (change_units k) (exp_eval e)"
proof (induction e)
  case (Plus a b)
  then show ?case by (cases "exp_eval a"; cases "exp_eval b") (simp_all add: change_simps assms)
next
  case (Minus a b)
  then show ?case by (cases "exp_eval a"; cases "exp_eval b") (simp_all add: change_simps assms)
next
  case (Scaled c a)
  then show ?case by (cases "exp_eval a") (simp_all add: change_simps assms)
next
  case (Times a b)
  then show ?case by (cases "exp_eval a"; cases "exp_eval b") (simp_all add: change_simps assms)
next
  case (Over a b)
  then show ?case by (cases "exp_eval a"; cases "exp_eval b") (simp_all add: change_simps assms)
next
  case (Root a)
  then show ?case by (cases "exp_eval a") (simp_all add: change_simps assms)
next
  case (Raised p a)
  then show ?case by (cases "exp_eval a") (simp_all add: change_simps assms)
qed simp

end
