(* ===== verification/Json.thy ===== *)
theory Json
  imports Units Pid Message Simplex
begin

text \<open>
  The conversions from and to JSON, in \<open>quantity.hpp\<close>, \<open>min_max.hpp\<close>, \<open>pid.hpp\<close>, \<open>protocol/message.hpp\<close>,
  \<open>experimental/string_buffer.hpp\<close> and \<open>experimental/geom/json.hpp\<close>.  The library of JSON values is not part of the
  repository: its operations are a record that the conversions get, and what they rely on is a locale.
\<close>

section \<open>The library\<close>

text \<open>
  \<open>'j\<close> are the values, \<open>'v\<close> the numbers.  \<^const>\<open>None\<close> is an exception: the value is not of the type that is asked for,
  has no such key, or is not one to which a key can be added.
\<close>

record ('j, 'v) json_ops =
  jo_null :: 'j
  jo_of_num :: "'v \<Rightarrow> 'j"
  jo_num :: "'j \<Rightarrow> 'v option"
  jo_of_byte :: "byte \<Rightarrow> 'j"
  jo_byte :: "'j \<Rightarrow> byte option"
  jo_of_text :: "byte list \<Rightarrow> 'j"
  jo_text :: "'j \<Rightarrow> byte list option"
  jo_of_list :: "'j list \<Rightarrow> 'j"
  jo_list :: "'j \<Rightarrow> 'j list option"
  jo_push_back :: "'j \<Rightarrow> 'j \<Rightarrow> 'j option"
  jo_set :: "'j \<Rightarrow> string \<Rightarrow> 'j \<Rightarrow> 'j option"
  jo_key :: "'j \<Rightarrow> string \<Rightarrow> 'j option"

definition jo_at :: "('j, 'v) json_ops \<Rightarrow> 'j \<Rightarrow> nat \<Rightarrow> 'j option" where
  "jo_at J j i = do { xs \<leftarrow> jo_list J j; (if i < length xs then Some (xs ! i) else None) }"

text \<open>A conversion of all the elements of a list.\<close>

primrec all_some :: "('j \<Rightarrow> 'a option) \<Rightarrow> 'j list \<Rightarrow> 'a list option" where
  "all_some f [] = Some []"
| "all_some f (j # js) = do { x \<leftarrow> f j; xs \<leftarrow> all_some f js; Some (x # xs) }"

primrec push_all :: "('j, 'v) json_ops \<Rightarrow> 'j list \<Rightarrow> 'j \<Rightarrow> 'j option" where
  "push_all J [] j = Some j"
| "push_all J (x # xs) j = do { j \<leftarrow> jo_push_back J j x; push_all J xs j }"

section \<open>The conversions\<close>

definition q_to_json :: "('j, 'v) json_ops \<Rightarrow> string \<Rightarrow> 'v quantity \<Rightarrow> 'j \<Rightarrow> 'j option" where
  "q_to_json J u q j = (if u = [] then Some (jo_of_num J (val_of q)) else jo_set J j u (jo_of_num J (val_of q)))"

definition q_from_json :: "('j, 'v) json_ops \<Rightarrow> string \<Rightarrow> 'j \<Rightarrow> 'v quantity option" where
  "q_from_json J u j =
     (if u = [] then map_option Quantity (jo_num J j)
      else do { x \<leftarrow> jo_key J j u; map_option Quantity (jo_num J x) })"

definition min_max_to_json :: "('j, 'v) json_ops \<Rightarrow> 'v min_max \<Rightarrow> 'j \<Rightarrow> 'j option" where
  "min_max_to_json J mm j = do {
     j \<leftarrow> jo_set J j ''min'' (jo_of_num J (mm_min mm));
     jo_set J j ''max'' (jo_of_num J (mm_max mm)) }"

definition min_max_from_json :: "('j, 'v) json_ops \<Rightarrow> 'j \<Rightarrow> 'v min_max option" where
  "min_max_from_json J j = do {
     a \<leftarrow> jo_key J j ''min''; a \<leftarrow> jo_num J a;
     b \<leftarrow> jo_key J j ''max''; b \<leftarrow> jo_num J b;
     Some \<lparr>mm_min = a, mm_max = b\<rparr> }"

definition coefficients_to_json :: "('j, 'v) json_ops \<Rightarrow> 'v pid_coefficients \<Rightarrow> 'j \<Rightarrow> 'j option" where
  "coefficients_to_json J c j = do {
     j \<leftarrow> jo_set J j ''p'' (jo_of_num J (coeff_p c));
     j \<leftarrow> jo_set J j ''i'' (jo_of_num J (coeff_i c));
     jo_set J j ''d'' (jo_of_num J (coeff_d c)) }"

definition coefficients_from_json :: "('j, 'v) json_ops \<Rightarrow> 'j \<Rightarrow> 'v pid_coefficients option" where
  "coefficients_from_json J j = do {
     p \<leftarrow> jo_key J j ''p''; p \<leftarrow> jo_num J p;
     i \<leftarrow> jo_key J j ''i''; i \<leftarrow> jo_num J i;
     d \<leftarrow> jo_key J j ''d''; d \<leftarrow> jo_num J d;
     Some \<lparr>coeff_p = p, coeff_i = i, coeff_d = d\<rparr> }"

definition config_to_json :: "('j, 'v) json_ops \<Rightarrow> 'v pid_config \<Rightarrow> 'j \<Rightarrow> 'j option" where
  "config_to_json J c j = do {
     x \<leftarrow> coefficients_to_json J (coefficients c) (jo_null J);
     j \<leftarrow> jo_set J j ''coefficients'' x;
     x \<leftarrow> min_max_to_json J (limits c) (jo_null J);
     jo_set J j ''limits'' x }"

definition config_from_json :: "('j, 'v) json_ops \<Rightarrow> 'j \<Rightarrow> 'v pid_config option" where
  "config_from_json J j = do {
     x \<leftarrow> jo_key J j ''coefficients''; c \<leftarrow> coefficients_from_json J x;
     x \<leftarrow> jo_key J j ''limits''; l \<leftarrow> min_max_from_json J x;
     Some \<lparr>coefficients = c, limits = l\<rparr> }"

definition msg_to_json :: "('j, 'v) json_ops \<Rightarrow> message \<Rightarrow> 'j option" where
  "msg_to_json J m = do {
     bs \<leftarrow> msg_bytes m;
     push_all J (map (jo_of_byte J) bs) (jo_of_list J []) }"

definition msg_from_json :: "('j, 'v) json_ops \<Rightarrow> byte list \<Rightarrow> 'j \<Rightarrow> message option" where
  "msg_from_json J raw j = do {
     xs \<leftarrow> jo_list J j;
     (if length xs > length raw then None
      else do { tmp \<leftarrow> all_some (jo_byte J) xs; msg_of_view raw tmp }) }"

definition sb_to_json :: "('j, 'v) json_ops \<Rightarrow> string_buffer \<Rightarrow> 'j" where
  "sb_to_json J b = jo_of_text J (sb_sv b)"

definition sb_from_json :: "('j, 'v) json_ops \<Rightarrow> nat \<Rightarrow> 'j \<Rightarrow> string_buffer option" where
  "sb_from_json J N j = do { s \<leftarrow> jo_text J j; sb_of_view N s }"

definition point_to_json :: "('j, 'v) json_ops \<Rightarrow> 'v list \<Rightarrow> 'j" where
  "point_to_json J p = jo_of_list J (map (jo_of_num J) p)"

definition point_from_json :: "('j, 'v) json_ops \<Rightarrow> nat \<Rightarrow> 'j \<Rightarrow> 'v list option" where
  "point_from_json J N j = do {
     xs \<leftarrow> jo_list J j;
     (if length xs < N then None else all_some (jo_num J) (take N xs)) }"

definition quat_to_json :: "('j, 'v) json_ops \<Rightarrow> 'v quaternion \<Rightarrow> 'j" where
  "quat_to_json J q = jo_of_list J (map (\<lambda>i. jo_of_num J (quat_nth q i)) [0, 1, 2, 3])"

definition quat_from_json :: "('j, 'v) json_ops \<Rightarrow> 'j \<Rightarrow> 'v quaternion option" where
  "quat_from_json J j = do {
     a \<leftarrow> jo_at J j 0; a \<leftarrow> jo_num J a;
     b \<leftarrow> jo_at J j 1; b \<leftarrow> jo_num J b;
     c \<leftarrow> jo_at J j 2; c \<leftarrow> jo_num J c;
     d \<leftarrow> jo_at J j 3; d \<leftarrow> jo_num J d;
     Some (Quat a b c d) }"

definition pose_to_json :: "('j, 'v) json_ops \<Rightarrow> 'v pose \<Rightarrow> 'j \<Rightarrow> 'j option" where
  "pose_to_json J p j = do {
     j \<leftarrow> jo_set J j ''position'' (point_to_json J (position p));
     jo_set J j ''orientation'' (quat_to_json J (orientation p)) }"

definition pose_from_json :: "('j, 'v) json_ops \<Rightarrow> 'j \<Rightarrow> 'v pose option" where
  "pose_from_json J j = do {
     x \<leftarrow> jo_key J j ''position''; p \<leftarrow> point_from_json J 3 x;
     x \<leftarrow> jo_key J j ''orientation''; q \<leftarrow> quat_from_json J x;
     Some \<lparr>position = p, orientation = q\<rparr> }"

text \<open>The items of a simplex have conversions of their own, \<open>item_to\<close> and \<open>item_from\<close>.\<close>

definition simplex_to_json :: "('j, 'v) json_ops \<Rightarrow> ('i \<Rightarrow> 'j) \<Rightarrow> 'i list \<Rightarrow> 'j \<Rightarrow> 'j option" where
  "simplex_to_json J item_to s j = push_all J (map item_to s) j"

definition simplex_from_json :: "('j, 'v) json_ops \<Rightarrow> ('j \<Rightarrow> ('i :: linorder) option) \<Rightarrow> nat \<Rightarrow> 'j \<Rightarrow> 'i list option" where
  "simplex_from_json J item_from N j = do {
     xs \<leftarrow> jo_list J j;
     (if length xs < N + 1 then None else map_option simplex_of_array (all_some item_from (take (N + 1) xs))) }"

section \<open>What the library promises\<close>

text \<open>\<open>keyed J j\<close>: keys can be added to \<open>j\<close>, as to the null value.  Elements can be added to the null value and to lists.\<close>

locale json_library =
  fixes J :: "('j, 'v) json_ops" and keyed :: "'j \<Rightarrow> bool"
  assumes num_law: "jo_num J (jo_of_num J v) = Some v"
    and byte_law: "jo_byte J (jo_of_byte J b) = Some b"
    and text_law: "jo_text J (jo_of_text J t) = Some t"
    and list_law: "jo_list J (jo_of_list J xs) = Some xs"
    and push_law: "jo_push_back J (jo_of_list J xs) x = Some (jo_of_list J (xs @ [x]))"
      "jo_push_back J (jo_null J) x = Some (jo_of_list J [x])"
    and keyed_null: "keyed (jo_null J)"
    and set_law: "keyed j \<Longrightarrow> \<exists>j'. jo_set J j k x = Some j' \<and> keyed j' \<and>
      (\<forall>k'. jo_key J j' k' = (if k' = k then Some x else jo_key J j k'))"
begin

lemma set_cases:
  assumes "keyed j"
  obtains j' where "jo_set J j k x = Some j'" "keyed j'" "\<And>k'. jo_key J j' k' = (if k' = k then Some x else jo_key J j k')"
  using set_law [OF assms] by metis

lemma push_all_list: "push_all J xs (jo_of_list J ys) = Some (jo_of_list J (ys @ xs))"
  by (induction xs arbitrary: ys) (simp_all add: push_law)

lemma push_all_null: "xs \<noteq> [] \<Longrightarrow> push_all J xs (jo_null J) = Some (jo_of_list J xs)"
  by (cases xs) (simp_all add: push_law push_all_list)

lemma all_some_map: "(\<And>x. x \<in> set xs \<Longrightarrow> f (g x) = Some x) \<Longrightarrow> all_some f (map g xs) = Some xs"
  by (induction xs) auto

text \<open>Each conversion is undone by the other one.\<close>

lemma q_json: "keyed j \<Longrightarrow> \<exists>j'. q_to_json J u q j = Some j' \<and> q_from_json J u j' = Some q"
  by (cases q; cases "u = []"; (erule set_cases [where k = u and x = "jo_of_num J (val_of q)"])?)
    (auto simp: q_to_json_def q_from_json_def num_law)

lemma min_max_json:
  assumes "keyed j"
  shows "\<exists>j'. min_max_to_json J mm j = Some j' \<and> keyed j' \<and> min_max_from_json J j' = Some mm"
proof -
  obtain j1 where 1: "jo_set J j ''min'' (jo_of_num J (mm_min mm)) = Some j1" "keyed j1"
    "\<And>k'. jo_key J j1 k' = (if k' = ''min'' then Some (jo_of_num J (mm_min mm)) else jo_key J j k')"
    using set_cases [OF assms] by metis
  obtain j2 where 2: "jo_set J j1 ''max'' (jo_of_num J (mm_max mm)) = Some j2" "keyed j2"
    "\<And>k'. jo_key J j2 k' = (if k' = ''max'' then Some (jo_of_num J (mm_max mm)) else jo_key J j1 k')"
    using set_cases [OF 1(2)] by metis
  show ?thesis using 1(1) 2 by (simp add: min_max_to_json_def min_max_from_json_def 1(3) num_law)
qed

lemma coefficients_json:
  assumes "keyed j"
  shows "\<exists>j'. coefficients_to_json J c j = Some j' \<and> keyed j' \<and> coefficients_from_json J j' = Some c"
proof -
  obtain j1 where 1: "jo_set J j ''p'' (jo_of_num J (coeff_p c)) = Some j1" "keyed j1"
    "\<And>k'. jo_key J j1 k' = (if k' = ''p'' then Some (jo_of_num J (coeff_p c)) else jo_key J j k')"
    using set_cases [OF assms] by metis
  obtain j2 where 2: "jo_set J j1 ''i'' (jo_of_num J (coeff_i c)) = Some j2" "keyed j2"
    "\<And>k'. jo_key J j2 k' = (if k' = ''i'' then Some (jo_of_num J (coeff_i c)) else jo_key J j1 k')"
    using set_cases [OF 1(2)] by metis
  obtain j3 where 3: "jo_set J j2 ''d'' (jo_of_num J (coeff_d c)) = Some j3" "keyed j3"
    "\<And>k'. jo_key J j3 k' = (if k' = ''d'' then Some (jo_of_num J (coeff_d c)) else jo_key J j2 k')"
    using set_cases [OF 2(2)] by metis
  show ?thesis using 1(1) 2(1) 3 by (simp add: coefficients_to_json_def coefficients_from_json_def 1(3) 2(3) num_law)
qed

lemma config_json:
  assumes "keyed j"
  shows "\<exists>j'. config_to_json J c j = Some j' \<and> config_from_json J j' = Some c"
proof -
  obtain x where x: "coefficients_to_json J (coefficients c) (jo_null J) = Some x"
      "coefficients_from_json J x = Some (coefficients c)"
    using coefficients_json [OF keyed_null] by metis
  obtain y where y: "min_max_to_json J (limits c) (jo_null J) = Some y" "min_max_from_json J y = Some (limits c)"
    using min_max_json [OF keyed_null] by metis
  obtain j1 where 1: "jo_set J j ''coefficients'' x = Some j1" "keyed j1"
    "\<And>k'. jo_key J j1 k' = (if k' = ''coefficients'' then Some x else jo_key J j k')"
    using set_cases [OF assms] by metis
  obtain j2 where 2: "jo_set J j1 ''limits'' y = Some j2" "keyed j2"
    "\<And>k'. jo_key J j2 k' = (if k' = ''limits'' then Some y else jo_key J j1 k')"
    using set_cases [OF 1(2)] by metis
  show ?thesis using x y 1(1) 2 by (simp add: config_to_json_def config_from_json_def 1(3))
qed

lemma msg_json:
  assumes "msg_ok M m" "length raw = N" "M \<le> N"
  shows "\<exists>j m'. msg_to_json J m = Some j \<and> msg_from_json J raw j = Some m' \<and> msg_ok N m' \<and> msg_bytes m' = msg_bytes m"
proof -
  obtain bs where bs: "msg_bytes m = Some bs" "length bs \<le> N"
    using assms msg_bytes_ok [OF assms(1)] by (auto simp: msg_ok_def)
  then obtain m' where "msg_of_view raw bs = Some m'" "msg_ok N m'" "msg_bytes m' = Some bs"
    using msg_of_view_eq [OF assms(2)] by blast
  then show ?thesis
    using bs assms(2) all_some_map [of bs "jo_byte J" "jo_of_byte J"]
    by (simp add: msg_to_json_def msg_from_json_def push_all_list list_law byte_law)
qed

text \<open>A message that is too long is refused, whatever is in it.\<close>

lemma msg_json_too_long: "jo_list J j = Some xs \<Longrightarrow> length raw < length xs \<Longrightarrow> msg_from_json J raw j = None"
  by (simp add: msg_from_json_def)

lemma sb_json:
  assumes "sb_canonical N b" "N < 2 ^ 64"
  shows "sb_from_json J N (sb_to_json J b) = Some b"
proof -
  have N: "0 < N" "length (sb_sv b) < N" using assms(1) by (auto simp: sb_canonical_def)
  obtain c where c: "sb_of_view N (sb_sv b) = Some c" "sb_canonical N c" "sb_sv c = take (N - 1) (sb_sv b)"
    using sb_of_view_canonical [OF N(1) assms(2) sb_sv_nonzero] by blast
  then have "sb_sv c = sb_sv b" using N by simp
  then have "c = b" using assms(1) c(2) unfolding sb_canonical_def by (metis length_sb_sv)
  then show ?thesis using c(1) by (simp add: sb_from_json_def sb_to_json_def text_law)
qed

lemma point_json: "length p = N \<Longrightarrow> point_from_json J N (point_to_json J p) = Some p"
  by (simp add: point_from_json_def point_to_json_def list_law all_some_map num_law)

lemma quat_json: "quat_from_json J (quat_to_json J q) = Some q"
  by (cases q) (simp add: quat_from_json_def quat_to_json_def quat_nth_def jo_at_def list_law num_law numeral_2_eq_2 numeral_3_eq_3)

lemma pose_json:
  assumes "keyed j" "length (position p) = 3"
  shows "\<exists>j'. pose_to_json J p j = Some j' \<and> pose_from_json J j' = Some p"
proof -
  let ?x = "point_to_json J (position p)" and ?y = "quat_to_json J (orientation p)"
  obtain j1 where 1: "jo_set J j ''position'' ?x = Some j1" "keyed j1"
    "\<And>k'. jo_key J j1 k' = (if k' = ''position'' then Some ?x else jo_key J j k')"
    using set_cases [OF assms(1)] by metis
  obtain j2 where 2: "jo_set J j1 ''orientation'' ?y = Some j2" "keyed j2"
    "\<And>k'. jo_key J j2 k' = (if k' = ''orientation'' then Some ?y else jo_key J j1 k')"
    using set_cases [OF 1(2)] by metis
  show ?thesis using 1(1) 2 assms(2) by (simp add: pose_to_json_def pose_from_json_def 1(3) point_json quat_json)
qed

text \<open>A simplex comes back sorted: the same, unless it was made of single items.\<close>

lemma simplex_json:
  assumes "length s = N + 1" "\<And>x. x \<in> set s \<Longrightarrow> item_from (item_to x) = Some x"
  shows "\<exists>j. simplex_to_json J item_to s (jo_null J) = Some j \<and> simplex_from_json J item_from N j = Some (sort s)"
proof -
  have "s \<noteq> []" using assms(1) by auto
  then show ?thesis
    using assms all_some_map [of s item_from item_to]
    by (simp add: simplex_to_json_def simplex_from_json_def push_all_null list_law simplex_of_array_def)
qed

end

section \<open>A library that keeps the promise\<close>

datatype json_value =
    JNull
  | JNum real
  | JByte byte
  | JText "byte list"
  | JList "json_value list"
  | JObject "(string \<times> json_value) list"

definition json_tree :: "(json_value, real) json_ops" where
  "json_tree =
     \<lparr>jo_null = JNull,
      jo_of_num = JNum, jo_num = (\<lambda>j. case j of JNum v \<Rightarrow> Some v | _ \<Rightarrow> None),
      jo_of_byte = JByte, jo_byte = (\<lambda>j. case j of JByte b \<Rightarrow> Some b | _ \<Rightarrow> None),
      jo_of_text = JText, jo_text = (\<lambda>j. case j of JText t \<Rightarrow> Some t | _ \<Rightarrow> None),
      jo_of_list = JList, jo_list = (\<lambda>j. case j of JList xs \<Rightarrow> Some xs | _ \<Rightarrow> None),
      jo_push_back = (\<lambda>j x. case j of JNull \<Rightarrow> Some (JList [x]) | JList xs \<Rightarrow> Some (JList (xs @ [x])) | _ \<Rightarrow> None),
      jo_set = (\<lambda>j k x. case j of JNull \<Rightarrow> Some (JObject [(k, x)]) | JObject kxs \<Rightarrow> Some (JObject ((k, x) # kxs)) | _ \<Rightarrow> None),
      jo_key = (\<lambda>j k. case j of JObject kxs \<Rightarrow> map_of kxs k | _ \<Rightarrow> None)\<rparr>"

definition tree_keyed :: "json_value \<Rightarrow> bool" where
  "tree_keyed j = (case j of JNull \<Rightarrow> True | JObject _ \<Rightarrow> True | _ \<Rightarrow> False)"

interpretation tree: json_library json_tree tree_keyed
  by unfold_locales (auto simp: json_tree_def tree_keyed_def split: json_value.splits)

text \<open>A simplex of two points, made of single items, does not come back.\<close>

lemma simplex_json_differs:
  "simplex_to_json json_tree JNum (simplex_of_items [2, 1]) JNull = Some (JList [JNum 2, JNum 1])"
  "simplex_from_json json_tree (jo_num json_tree) 1 (JList [JNum 2, JNum 1]) = Some [1, 2]"
  by (simp_all add: simplex_to_json_def simplex_from_json_def simplex_of_items_def simplex_of_array_def json_tree_def)

end
