(* ===== verification/Views.thy ===== *)
theory Views
  imports Iterators StaticStorage StaticVector
begin

text \<open>
  The constructors of \<open>view.hpp\<close> and its stream output, the postfix operators of \<open>iterator.hpp\<close> for the iterators that
  define \<open>++\<close> and \<open>--\<close> themselves, and the views of the containers: a ring and a vector as a range.
\<close>

section \<open>Views of containers\<close>

text \<open>A container is what \<open>std::begin\<close>, \<open>std::end\<close>, \<open>std::data\<close> and \<open>std::size\<close> give for it.\<close>

record 'it container =
  ct_begin :: 'it
  ct_end :: 'it

definition view_of_range :: "'it container \<Rightarrow> 'it view" where
  "view_of_range cont = \<lparr>v_begin = ct_begin cont, v_end = ct_end cont\<rparr>"

definition view_of_data :: "('it, 'v) iter_class \<Rightarrow> 'it \<Rightarrow> nat \<Rightarrow> 'it view" where
  "view_of_data C data sz = (let b = data in \<lparr>v_begin = b, v_end = it_plus C b (int sz)\<rparr>)"

definition view_make :: "'it \<Rightarrow> 'it \<Rightarrow> 'it view" where
  "view_make b e = \<lparr>v_begin = b, v_end = e\<rparr>"

text \<open>From a view with iterators that convert, \<open>conv\<close>.\<close>

definition view_of_view :: "('other \<Rightarrow> 'it) \<Rightarrow> 'other view \<Rightarrow> 'it view" where
  "view_of_view conv other = \<lparr>v_begin = conv (v_begin other), v_end = conv (v_end other)\<rparr>"

definition view_rbegin :: "'it view \<Rightarrow> 'it" where
  "view_rbegin v = v_end v"

definition view_rend :: "'it view \<Rightarrow> 'it" where
  "view_rend v = v_begin v"

definition view_ne :: "('i, 'v) iter_class \<Rightarrow> ('j, 'v) iter_class \<Rightarrow> 'i view \<Rightarrow> 'j view \<Rightarrow> bool option" where
  "view_ne C D lh rh = map_option Not (view_eq C D lh rh)"

text \<open>The stream output: the items with commas between them.\<close>

definition view_text :: "('v \<Rightarrow> string) \<Rightarrow> ('it, 'v) iter_class \<Rightarrow> 'it view \<Rightarrow> string option" where
  "view_text text_of C v =
     map_option (\<lambda>calls. concat (map (\<lambda>call. case call of None \<Rightarrow> '','' | Some x \<Rightarrow> text_of x) calls)) (string_serialize_view C v)"

fun comma_separated :: "string list \<Rightarrow> string" where
  "comma_separated [] = []"
| "comma_separated [t] = t"
| "comma_separated (t # ts) = t @ '','' @ comma_separated ts"

lemma view_text_eq:
  assumes "view_list C v = Some xs"
  shows "view_text text_of C v = Some (comma_separated (map text_of xs))"
proof -
  let ?t = "\<lambda>call. case call of None \<Rightarrow> '','' | Some x \<Rightarrow> text_of x"
  have "concat (map ?t (serialize_items False (x # ys))) = '','' @ comma_separated (map text_of (x # ys))" for x ys
    by (induction ys arbitrary: x) simp_all
  then have "concat (map ?t (serialize_items True xs)) = comma_separated (map text_of xs)"
    by (cases xs; cases "tl xs") (auto simp del: serialize_items.simps simp: serialize_items.simps(1) serialize_items.simps(2) [of True])
  then show ?thesis using assms by (simp add: view_text_def string_serialize_view_def)
qed

text \<open>The reverse iterators of a view run over its items backwards.\<close>

lemma view_reverse_items:
  "view_list (reverse_iterator (pointer xs)) \<lparr>v_begin = view_rbegin (data_view xs), v_end = view_rend (data_view xs)\<rparr> = Some (rev xs)"
  using reversed_items [of xs]
  by (simp add: view_rbegin_def view_rend_def reversed_def data_view_def view_n_def pointer_def)

lemma view_of_data_items: "view_list (pointer xs) (view_of_data (pointer xs) 0 (length xs)) = Some xs"
  using data_view_items [of xs] by (simp add: view_of_data_def data_view_def view_n_def it_plus_def)

section \<open>Iterators with their own steps\<close>

text \<open>\<open>step\<close> is the \<open>++\<close> or \<open>--\<close> of the class; the result is the copy and the iterator.\<close>

definition own_post :: "('it \<Rightarrow> 'it) \<Rightarrow> 'it \<Rightarrow> 'it \<times> 'it" where
  "own_post step it = (let copy = it; it = step it in (copy, it))"

lemma own_post_ring:
  assumes "ri_ok m it"
  shows "own_post ri_dec (snd (own_post ri_inc it)) = (ri_inc it, it)"
  using ri_refines(5) [OF assms] by (simp add: own_post_def)

section \<open>A ring as a range\<close>

text \<open>The iterators of a ring of \<open>m\<close> slots, by their slots.  They are bidirectional: there are no distances.\<close>

definition ring_class :: "'a option list \<Rightarrow> (nat, 'a) iter_class" where
  "ring_class st =
     \<lparr>deref = storage_at st, add_assign = iter_add (length st), sub_assign = iter_sub (length st),
      it_eq = (=), it_diff = (\<lambda>_ _. 0)\<rparr>"

definition cb_view :: "strategy \<Rightarrow> 'a cbuf \<Rightarrow> nat view" where
  "cb_view S b = view_of_range \<lparr>ct_begin = cb_begin S b, ct_end = cb_end S b\<rparr>"

definition cb_text :: "('a \<Rightarrow> string) \<Rightarrow> strategy \<Rightarrow> 'a cbuf \<Rightarrow> string option" where
  "cb_text text_of S b = view_text text_of (ring_class (cb_store b)) (cb_view S b)"

lemma iter_add_one: "p < m \<Longrightarrow> iter_add m p 1 = iter_next m p"
proof -
  assume "p < m"
  then have "iter_add m p 1 = (p + 1) mod m"
    using iter_add_eq [of m p 1] by (simp add: nat_mod_distrib nat_add_distrib)
  then show ?thesis using \<open>p < m\<close> by (auto simp: iter_next_def)
qed

context index_strategy
begin

lemma ring_iterates:
  assumes q: "queue_of S N valid b q" and "length q < st_max S"
  shows "iterates (ring_class (cb_store b)) (\<lambda>i. (st_idx S (cb_from b) + i) mod st_max S) q"
proof -
  note d = queue_ofD [OF q]
  show ?thesis
  proof
    show "deref (ring_class (cb_store b)) ((st_idx S (cb_from b) + i) mod st_max S) = Some (q ! i)" if "i < length q" for i
      using d(2) d(8) [of i] d(6) that by (simp add: ring_class_def storage_at_def)
    show "pre_inc (ring_class (cb_store b)) ((st_idx S (cb_from b) + i) mod st_max S) = (st_idx S (cb_from b) + Suc i) mod st_max S"
      if "i < length q" for i
      using d(2,6) by (simp add: pre_inc_def ring_class_def iter_add_one iter_next_ring)
    show "it_eq (ring_class (cb_store b)) ((st_idx S (cb_from b) + i) mod st_max S) ((st_idx S (cb_from b) + length q) mod st_max S)
        \<longleftrightarrow> i = length q" if "i \<le> length q" for i
      using ring_inject [OF d(6) _ assms(2), of i] that assms(2) by (simp add: ring_class_def)
  qed
qed

text \<open>The view of a buffer that does not fill all its slots, and its text, are those of the queue.\<close>

lemma cb_view_items:
  assumes "queue_of S N valid b q" "length q < st_max S"
  shows "view_list (ring_class (cb_store b)) (cb_view S b) = Some q"
  using iterates.view_list_whole [OF ring_iterates [OF assms]] queue_ofD(6,7) [OF assms(1)]
  by (simp add: span_of_def cb_view_def view_of_range_def cb_begin_def cb_end_def)

lemma cb_text_eq:
  assumes "queue_of S N valid b q" "length q < st_max S"
  shows "cb_text text_of S b = Some (comma_separated (map text_of q))"
  using view_text_eq [OF cb_view_items [OF assms]] by (simp add: cb_text_def)

text \<open>When the elements fill all the slots, the view is empty.\<close>

lemma cb_text_full:
  assumes "queue_of S N valid b q" "length q = st_max S"
  shows "cb_text text_of S b = Some []"
proof -
  have "cb_begin S b = cb_end S b" using queue_ofD(6,7) [OF assms(1)] assms(2) by (simp add: cb_begin_def cb_end_def)
  then have "view_list (ring_class (cb_store b)) (cb_view S b) = Some []"
    by (simp add: view_list_def cb_view_def view_of_range_def view_items.simps ring_class_def)
  from view_text_eq [OF this] show ?thesis by (simp add: cb_text_def)
qed

end

section \<open>A vector as a range\<close>

definition vector_class :: "'a option list \<Rightarrow> (int, 'a) iter_class" where
  "vector_class st =
     \<lparr>deref = (\<lambda>i. deref (pointer st) i \<bind> (\<lambda>x. x)), add_assign = (+), sub_assign = (-), it_eq = (=), it_diff = (-)\<rparr>"

definition sv_text :: "('a \<Rightarrow> string) \<Rightarrow> 'a svec \<Rightarrow> string option" where
  "sv_text text_of v = view_text text_of (vector_class (sv_storage v)) (view_make 0 (int (sv_count v)))"

lemma vector_iterates:
  assumes "fits N xs"
  shows "iterates (vector_class (sv_storage (svec_of N xs))) int xs"
  using svec_nth [of _ xs N] assms
  by unfold_locales (auto simp: vector_class_def pointer_def pre_inc_def svec_of_def fits_def)

lemma sv_text_eq:
  assumes "fits N xs"
  shows "sv_text text_of (svec_of N xs) = Some (comma_separated (map text_of xs))"
proof -
  have "view_list (vector_class (sv_storage (svec_of N xs))) (view_make 0 (int (sv_count (svec_of N xs)))) = Some xs"
    using iterates.view_list_whole [OF vector_iterates [OF assms]] by (simp add: span_of_def view_make_def svec_of_def)
  from view_text_eq [OF this] show ?thesis by (simp add: sv_text_def)
qed

end
