(* ===== verification/Spec2Isabelle.thy ===== *)
theory Spec2Isabelle
  imports Packet RegisterMap Bounded Spsc EdgeCases Cobs Message PoolResource StackResource SystemResource StaticStorage CfgRam Matrix Quantity Iterators Rpc Pid StaticFunction RequestReply Simplex Hash Utilities Units Json Views
begin

text \<open>
  The library \<open>emlabcpp\<close> (headers under \<open>src/include/emlabcpp/\<close>; all file names below are relative to
  that directory) is a set of C++ templates for embedded programs: containers of fixed capacity, a
  language of protocol definitions with its serialization, the framing of messages in a stream of
  bytes, the storage of a configuration in pages of a memory, memory resources, and generic algorithms.
  This development is a shallow embedding of that code.  Each theory models one or a few headers; the
  definitions have the names of the code, and the order of a theory is the order of its header.

  \<^bold>\<open>How C++ is read.\<close>
  \<^item> An \<open>option\<close> around a result is definedness: \<^const>\<open>None\<close> means that the program runs into
    undefined behaviour (a span outside of its buffer, an object used outside of its lifetime, an empty
    \<open>std::optional\<close> dereferenced, a violated \<open>EMLABCPP_ASSERT\<close>, which is empty by default).  Errors that
    the code reports are values: an \<open>error_record\<close>, a \<open>status\<close>, a sum or an inner option.
  \<^item> Integers on which the code relies to wrap around are words of their width, or \<open>nat\<close> and \<open>int\<close> with
    the wrap-around written out (\<open>cast\<close>, \<open>size_minus\<close>, \<open>arith\<close>); where a theorem needs that nothing wraps
    it says so (\<open>N < 2 ^ 64\<close>).  \<open>std::size_t\<close> has 64 bits.  Memory and messages are lists of \<open>8 word\<close>.
  \<^item> A template parameter is an argument or a type variable; a template that is selected by the type of
    its argument (\<open>converter< D, E >\<close>, \<open>proto_traits< D >\<close>) is a function on the datatype \<open>pdef\<close> of
    protocol definitions.  Compile-time loops over indices are recursions over lists.
  \<^item> Memory that the code leaves uninitialised is an argument (\<open>raw\<close>), over which the theorems quantify.
  \<^item> An object with a virtual interface or a user's callback is a record of functions over a state, and
    what the code relies on is a locale over it; each locale has an interpretation on the model's own
    definitions.

  \<^bold>\<open>The theories.\<close>

  \<^item> \<open>Prelude\<close>: bytes, spans (\<open>subspan\<close>, \<open>with_span\<close>), the option monad.
  \<^item> Protocol.  \<open>Serializer\<close> (\<open>protocol/serializer.hpp\<close>: the two loops of the integer serializer, floats,
    booleans), \<open>StringBuffer\<close> (\<open>experimental/string_buffer.hpp\<close>, \<open>protocol/error.hpp\<close>), \<open>ProtoTraits\<close>
    (\<open>protocol/base.hpp\<close>, \<open>protocol/traits.hpp\<close>: definitions, values, sizes), \<open>Converter\<close>
    (\<open>protocol/converter.hpp\<close>: all specializations).  \<open>Codec\<close>, \<open>CodecGroups\<close> and \<open>ProtoCodec\<close> prove the
    contract \<open>codec\<close> (what is written is read back, within the bounds of \<open>size_type\<close>, whatever follows)
    for each specialization and then for every well-formed definition; \<open>ProtoParser\<close> proves the contract
    \<open>parser\<close> (no bytes whatever lead to undefined behaviour) for the definitions in \<open>read_safe\<close>.
    \<open>Handler\<close> is \<open>protocol/handler.hpp\<close> and \<open>protocol/command_group.hpp\<close>, \<open>RegisterMap\<close> is
    \<open>protocol/register_map.hpp\<close> and \<open>protocol/register_handler.hpp\<close>, \<open>Rpc\<close> (\<open>experimental/rpc.hpp\<close>) are the
    remote calls over two handlers, \<open>Message\<close> is \<open>protocol/message.hpp\<close>.
  \<^item> Streams.  \<open>CircularBuffer\<close> (\<open>static_circular_buffer.hpp\<close>, \<open>static_storage.hpp\<close>): the ring and its two
    index strategies, refined to a queue, the strategies through the locale \<open>index_strategy\<close>; \<open>StaticStorage\<close>
    has the two versions of the storage, and the order, the moves and the iterator objects of the ring.
    \<open>Sequencer\<close> (\<open>protocol/sequencer.hpp\<close>) keeps the bytes of a stream in such a ring and looks for
    messages; \<open>Packet\<close> (\<open>protocol/packet.hpp\<close>, \<open>protocol/packet_handler.hpp\<close>, \<open>protocol/endpoint.hpp\<close>)
    composes it with the handler and a checksum.  \<open>Spsc\<close> interleaves the memory accesses of one producer
    and one consumer of a ring.
  \<^item> Memory.  \<open>StaticVector\<close> (\<open>static_vector.hpp\<close>); \<open>MemoryResource\<close> (\<open>pmr/memory_resource.hpp\<close>,
    \<open>pmr/util.hpp\<close>, \<open>pmr/allocator.hpp\<close>: the interface as a locale and its client), \<open>PoolResource\<close> and
    \<open>StackResource\<close> (\<open>pmr/pool_resource.hpp\<close>, \<open>pmr/stack_resource.hpp\<close>), which interpret it; the nodes
    of the latter are bytes in the memory that it hands out.  \<open>SystemResource\<close> (\<open>pmr/new_delete_resource.hpp\<close>,
    \<open>pmr/aliases.hpp\<close>) derives the interface from what \<open>operator new\<close> promises, for clients of one alignment.
  \<^item> Configuration, \<open>experimental/cfg/\<close>.  \<open>CfgCell\<close> (cells and page headers), \<open>CfgHandler\<close> (all
    operations of \<open>handler.hpp\<close>), \<open>CfgLog\<close>, \<open>CfgUpdate\<close>, \<open>CfgPages\<close> (a page as a list of records, what
    each operation does to it, and the ring of pages), \<open>CfgRam\<close> (the interfaces over an array of bytes).
  \<^item> \<open>Cobs\<close> (\<open>experimental/cobs.hpp\<close>), \<open>Algorithm\<close> and \<open>Indices\<close> (\<open>algorithm.hpp\<close>,
    \<open>algorithm/impl.hpp\<close>), \<open>Bounded\<close> (\<open>bounded.hpp\<close>, \<open>min_max.hpp\<close>).
  \<^item> \<open>Iterators\<close> (\<open>iterator.hpp\<close>, \<open>iterators/\<close>, \<open>view.hpp\<close>, \<open>range.hpp\<close>, \<open>convert_view.hpp\<close>, \<open>zip.hpp\<close>,
    \<open>enumerate.hpp\<close>, \<open>experimental/bounded_view.hpp\<close>): an iterator class is a record of its operators, the
    locale \<open>random_access\<close> says that it runs over a list, and the loops over views are proved for it.
    \<open>Views\<close> has the constructors and the text of a view, and the ring and the vector as ranges.
    \<open>Matrix\<close> (\<open>experimental/matrix.hpp\<close>), \<open>Quantity\<close> (\<open>quantity.hpp\<close>, \<open>physical_quantity.hpp\<close>); \<open>Units\<close> has the
    named units and expressions over quantities, with their types and the change of the base units.
  \<^item> \<open>StaticFunction\<close> (\<open>static_function.hpp\<close>, \<open>experimental/function_view.hpp\<close>), \<open>Pid\<close> (\<open>pid.hpp\<close>).
  \<^item> \<open>Geometry\<close> (\<open>experimental/geom/\<close>: \<open>vec_point_base.hpp\<close>, \<open>vector.hpp\<close>, \<open>point.hpp\<close>, \<open>line.hpp\<close>),
    \<open>Quaternion\<close> (\<open>quaternion.hpp\<close>, \<open>pose.hpp\<close>) and \<open>Simplex\<close> (\<open>simplex.hpp\<close>, \<open>triangle.hpp\<close>).
  \<^item> Coroutines, \<open>experimental/coro/\<close>.  \<open>Coroutine\<close> (\<open>recursive.hpp\<close>, \<open>owning_coroutine_handle.hpp\<close>,
    \<open>data_promise.hpp\<close>): a body is the tree of its suspensions, \<open>body_value\<close> the specification.
    \<open>RequestReply\<close> (\<open>request_reply.hpp\<close>, \<open>round_robin_executor.hpp\<close>, \<open>memory_promise.hpp\<close>), with infinite trees.
  \<^item> \<open>Hash\<close> (\<open>hash.hpp\<close>), \<open>Utilities\<close> (\<open>error_code.hpp\<close>, \<open>visit.hpp\<close>, \<open>match.hpp\<close>, \<open>defer.hpp\<close>, \<open>types.hpp\<close>,
    \<open>types/base.hpp\<close>, \<open>experimental/decompose.hpp\<close>, \<open>protocol/tuple.hpp\<close>, \<open>protocol/streams.hpp\<close>), \<open>Json\<close> (the
    conversions from and to JSON of all headers, over a library of JSON values with the locale \<open>json_library\<close>).
  \<^item> \<open>EdgeCases\<close>: where the code does something else than the other theories rely on.

  \<^bold>\<open>Bounds and fuel.\<close>  There is no fuel in a theorem's statement.  The loops that are not structural are
  functions with a termination proof: the loops of \<open>cfg/handler.hpp\<close> by the address that decreases (or
  the free space), the sequencer by the number of bytes in its buffer, the integer loops by their
  index.  \<open>ci_collect\<close> (the view of \<open>Cobs\<close>) runs for at most as many steps as there are bytes left, and
  \<open>sv_shrink\<close>, \<open>cb_pop_front_n\<close> for as many as there are elements.  The theorems ask for what the types
  of the code give: capacities below \<open>2 ^ 64\<close>, alignments that are powers of two, a page of a multiple of
  eight bytes, keys below \<open>2 ^ 31\<close>.

  \<^bold>\<open>What is not modelled.\<close>  Code that is outside of the repository is a parameter: the operators \<open>new\<close> and
  \<open>delete\<close> (\<open>operator_new\<close>), the library of JSON values (\<open>json_library\<close>), hashes and texts of numbers.  Each of the
  two locales has one interpretation, on a heap and on trees of values, which shows that the promises can be kept.
  Left out are concepts that ask whether an expression compiles, the names of types, the tables that \<open>decompose.hpp\<close>
  generates, formatting of streams beyond the texts; \<open>derived_storage\<close>, the postfix \<open>++\<close> of the COBS iterator,
  \<open>sequencer_simple_load\<close> and \<open>memcpy_converter::serialize_at\<close>, which do not compile or do not return; move
  constructors beyond what they do to trivially copyable elements.  Floats are bit patterns where they are serialized.
  \<open>Matrix\<close>, \<open>Quantity\<close>, \<open>Pid\<close> and the geometry compute in a ring, a field or the real numbers instead of \<open>float\<close>.
\<close>

section \<open>The protocol library\<close>

text \<open>Samples for the instances of the theorems.\<close>

definition sample_def :: pdef where
  "sample_def = DTuple [DBase (BUInt 2), DSized (DBase (BUInt 1)) (DVector (DBase (BUInt 1)) 3)]"

definition sample_val :: pval where
  "sample_val = VTuple [VInt 258, VVector [VInt 7, VInt 9]]"

definition other_val :: pval where
  "other_val = VTuple [VInt 258, VVector [VInt 7]]"

lemma sample_ok: "well_formed sample_def" "read_safe sample_def" "typed sample_def sample_val"
    "typed sample_def other_val" "sample_val \<noteq> other_val" "\<not> greedy sample_def"
  by (auto simp: sample_def_def sample_val_def other_val_def tuple_traits_def sized_traits_def vector_traits_def
      base_traits_def int_in_unsigned tuple_typed_def vector_typed_def tuple_greedy_def)




text \<open>
  C2: On any bytes whatever, \<open>handler::extract\<close> of a definition whose converters check their sizes
  returns a value of the type or an error record; it never reads outside the bytes it was given.
\<close>

theorem protocol_extract_safe:
  assumes "read_safe d" "well_formed d"
  shows "(\<exists>v. handler_extract d e msg = Some (Inl v) \<and> shaped d v) \<or>
    (\<exists>r. handler_extract d e msg = Some (Inr r))"
  by (rule handler_extract_safe [OF assms(1) well_formed_init [OF assms(2)]])

theorem protocol_extract_safe_witness:
  "(\<exists>v. handler_extract sample_def Little [1, 2, 200, 4] = Some (Inl v) \<and> shaped sample_def v) \<or>
    (\<exists>r. handler_extract sample_def Little [1, 2, 200, 4] = Some (Inr r))"
  by (rule protocol_extract_safe [OF sample_ok(2,1)])



section \<open>Packets in a stream\<close>

definition sample_packet :: packet where
  "sample_packet = \<lparr>pk_endianess = Big, pk_prefix = [170, 85], pk_size_type = BUInt 2, pk_checksum_type = BUInt 1,
     pk_payload = DVector (DBase (BUInt 1)) 3, pk_get_checksum = (\<lambda>m. sum_list (map uint m) mod 256)\<rparr>"

lemma sample_packet_size: "tr_max (traits_for (packet_base sample_packet)) = 10"
  by (simp add: sample_packet_def packet_base_def byte_def_def tuple_traits_def array_traits_def sized_traits_def
      vector_traits_def base_traits_def)

lemma sample_packet_ok: "endpoint_ok sample_packet" "packet_ok sample_packet"
    "typed (pk_payload sample_packet) (VVector [VInt 7, VInt 9])" "typed (pk_payload sample_packet) (VVector [])"
proof -
  show ok: "packet_ok sample_packet"
    using sample_packet_size unfolding packet_ok_def
    by (simp add: sample_packet_def int_in_unsigned vector_traits_def base_traits_def)
  have "capacity_ok 20"
    by (simp add: capacity_ok_def select_index_bits_def promoted_bits_def)
  then show "endpoint_ok sample_packet" using ok by (simp add: endpoint_ok_def sample_packet_size)
  show "typed (pk_payload sample_packet) (VVector [VInt 7, VInt 9])" "typed (pk_payload sample_packet) (VVector [])"
    by (simp_all add: sample_packet_def vector_typed_def int_in_unsigned)
qed


lemma sample_messages:
  "packet_serialize sample_packet (replicate 10 0) (VVector [VInt 7, VInt 9]) = Some [170, 85, 0, 4, 0, 2, 7, 9, 21]"
  "packet_serialize sample_packet (replicate 10 0) (VVector []) = Some [170, 85, 0, 2, 0, 0, 1]"
  by code_simp+




text \<open>
  C6: A packet whose checksum field is not the checksum of the bytes before it is rejected, with the
  mark \<open>checksum_err\<close> and the position of the field.
\<close>

theorem packet_checksum_rejected:
  assumes "packet_ok p" "typed (pk_payload p) v" "length raw = tr_max (traits_for (packet_base p))"
    and "packet_serialize p raw v = Some (body @ check)" "length check = packet_checksum_size p"
    and "length bad = packet_checksum_size p" "bad \<noteq> check"
  shows "packet_extract p (body @ bad) = Some (Inr \<lparr>error_mark = mark_text checksum_err, error_offset = length body\<rparr>)"
proof -
  note d = packet_okD [OF assms(1)]
  let ?e = "pk_endianess p" and ?b = "pk_checksum_type p"
  let ?c = "deserialize_int ?e ?b bad" and ?n = "base_size ?b"
  have body: "body = packet_body p v" and check: "check = bytes_in ?e ?n (pk_get_checksum p body)"
    using packet_serialize_eq [OF assms(1-3)] assms(4,5) d(9)
    by (auto simp: packet_message_def packet_bytes_def)
  have c: "int_in ?b ?c" using deserialize_int_in [OF d(2)] assms(6) d(9) by simp
  have bad: "bad = bytes_in ?e ?n ?c" by (rule bytes_in_deserialize [symmetric]) (use d(2,9) assms(6) in auto)
  then have "?c \<noteq> pk_get_checksum p body" using assms(7) check by auto
  from packet_extract_corrupted [OF assms(1,2) c this [unfolded body]] show ?thesis
    using bad d(9) unfolding packet_bytes_def body by simp
qed

theorem packet_checksum_rejected_witness:
  "packet_extract sample_packet ([170, 85, 0, 4, 0, 2, 7, 9] @ [22])
     = Some (Inr \<lparr>error_mark = mark_text checksum_err, error_offset = 8\<rparr>)"
proof -
  have "packet_checksum_size sample_packet = 1"
    by (simp add: packet_checksum_size_def sample_packet_def base_traits_def)
  then show ?thesis
    using packet_checksum_rejected [OF sample_packet_ok(2,3), of "replicate 10 0" "[170, 85, 0, 4, 0, 2, 7, 9]" "[21]" "[22]"]
    by (simp add: sample_messages sample_packet_size One_nat_def)
qed



text \<open>
  C8: While a packet is incomplete, \<open>get_value\<close> keeps what there is of it and requests at least one
  byte and never more than the packet still has, so that a blocking read of that size always returns.
\<close>

theorem endpoint_request_exact:
  assumes "endpoint_ok p" "typed (pk_payload p) v" "n < length (packet_message p v)"
    and "endpoint_holds p b (take n (packet_message p v))"
  shows "\<exists>k b'. endpoint_get_value p b = Some (Read_request k, b') \<and> 0 < k \<and>
    n + k \<le> length (packet_message p v) \<and> endpoint_holds p b' (take n (packet_message p v))"
  using endpoint_waits [OF assms] assms(3) by fastforce

theorem endpoint_request_exact_witness:
  "\<exists>k b'. endpoint_get_value sample_packet (endpoint_new sample_packet) = Some (Read_request k, b') \<and> 0 < k \<and>
    k \<le> length (packet_message sample_packet (VVector [])) \<and> endpoint_holds sample_packet b' []"
  using endpoint_request_exact [OF sample_packet_ok(1,4), of 0] endpoint_new_holds [OF sample_packet_ok(1)]
    length_packet_message(3) [OF sample_packet_ok(2,4)]
  by simp

text \<open>
  C9: \<open>sequencer::get_message\<close>, whatever its definition, does to the bytes in its buffer what the
  specification \<open>seq_spec\<close> says, if the frames it finds are not longer than a message may be.
\<close>

theorem sequencer_refines_specification:
  fixes d N
  defines "N \<equiv> sq_capacity d * 2"
  assumes "sequencer_ok d" "queue_of (select_strategy N) N (selected_valid N) b q" "length q < st_max (select_strategy N)"
    and "\<And>b q. queue_of (select_strategy N) N (selected_valid N) b q \<Longrightarrow> length q < st_max (select_strategy N) \<Longrightarrow>
      sq_fixed_size d \<le> length q \<Longrightarrow> sq_get_size d (select_strategy N) b = Some (get q)"
    and "\<And>q. get q \<le> sq_capacity d"
  shows "\<exists>b'. seq_get_message d b = Some (fst (seq_spec (sq_prefix d) (sq_fixed_size d) get q), b') \<and>
    queue_of (select_strategy N) N (selected_valid N) b' (snd (seq_spec (sq_prefix d) (sq_fixed_size d) get q))"
proof (rule selected.queue_get_message)
  show "select_strategy N = sq_strategy d" by (simp add: N_def sq_strategy_def)
  fix m assume "fst (seq_spec (sq_prefix d) (sq_fixed_size d) get q) = Inr m"
  then show "length m \<le> sq_capacity d"
    using assms(6) [of "resync (sq_prefix d) q"] by (auto simp: seq_spec_def Let_def split: if_splits)
qed (use assms in auto)

definition sample_sequencer :: sequencer_def where
  "sample_sequencer = \<lparr>sq_prefix = [9], sq_fixed_size = 2, sq_capacity = 4, sq_get_size = (\<lambda>_ _. Some 4)\<rparr>"

theorem sequencer_refines_specification_witness:
  "\<exists>b'. seq_get_message sample_sequencer (seq_insert sample_sequencer (seq_new sample_sequencer) [1, 9, 2, 3, 4, 5])
      = Some (Inr [9, 2, 3, 4], b') \<and> queue_of (select_strategy 8) 8 (selected_valid 8) b' [5]"
proof -
  have ok: "capacity_ok 8" by (simp add: capacity_ok_def select_index_bits_def promoted_bits_def)
  have S: "sq_strategy sample_sequencer = select_strategy 8" "sq_capacity sample_sequencer = 4"
    by (simp_all add: sq_strategy_def sample_sequencer_def)
  have "queue_of (select_strategy 8) 8 (selected_valid 8) (seq_new sample_sequencer) []"
    unfolding seq_new_def S by (rule selected.queue_new [OF selected_valid_0 [OF ok]])
  from selected.queue_seq_insert [OF S(1) [symmetric] this, of "[1, 9, 2, 3, 4, 5]"]
  have "queue_of (select_strategy 8) 8 (selected_valid 8)
      (seq_insert sample_sequencer (seq_new sample_sequencer) [1, 9, 2, 3, 4, 5]) [1, 9, 2, 3, 4, 5]" by simp
  moreover have "sequencer_ok sample_sequencer" using ok by (simp add: sequencer_ok_def sample_sequencer_def)
  moreover have "8 \<le> st_max (select_strategy 8)"
    by (simp add: select_strategy_def spacer_strategy_def overflow_strategy_def)
  moreover have "seq_spec [9] 2 (\<lambda>_. 4) [1, 9, 2, 3, 4, 5 :: byte] = (Inr [9, 2, 3, 4], [5])"
    by (simp add: seq_spec_def compatible_def Let_def)
  ultimately show ?thesis
    using sequencer_refines_specification [of sample_sequencer _ "[1, 9, 2, 3, 4, 5]" "\<lambda>_. 4"]
    by (simp add: sample_sequencer_def)
qed

section \<open>The circular buffer\<close>

text \<open>
  C10: One producer and one consumer that access a \<open>static_circular_buffer\<close> interleaved: what was
  taken is what was pushed, in order, less at most \<open>N\<close> elements that are still there.  The slot the
  producer constructs in holds no object, the consumer finds an object to move out and to destroy,
  and while both are busy they are so in different slots.
\<close>

theorem spsc_safe:
  assumes "spsc_reachable (select_strategy N) s" "capacity_ok N"
  shows "(\<exists>q. pushed s = taken s @ q \<and> length q \<le> N) \<and>
    (\<forall>x. prod s = PChecked x \<longrightarrow> cb_store (buf s) ! st_idx (select_strategy N) (cb_to (buf s)) = None) \<and>
    (cons s = CChecked \<longrightarrow> cb_front (select_strategy N) (buf s) \<noteq> None) \<and>
    (\<forall>x. cons s = CMoved x \<longrightarrow>
       delete_item (cb_store (buf s)) (st_idx (select_strategy N) (cb_from (buf s))) \<noteq> None) \<and>
    (prod s \<noteq> PIdle \<and> cons s \<noteq> CIdle \<longrightarrow>
       st_idx (select_strategy N) (cb_to (buf s)) \<noteq> st_idx (select_strategy N) (cb_from (buf s)))"
  using selected.spsc_reachable_safe [OF assms(1) selected_valid_0 [OF assms(2)]] by auto

lemma sample_capacity: "capacity_ok 4"
  by (simp add: capacity_ok_def select_index_bits_def promoted_bits_def)

lemma sample_run: "spsc_reachable (select_strategy 4) ((spsc_init (select_strategy 4)) \<lparr>prod := PChecked (7 :: int)\<rparr>)"
proof -
  have "\<not> cb_full (select_strategy 4) (buf (spsc_init (select_strategy 4)))"
    by (simp add: spsc_init_def cb_full_def cb_new_def select_strategy_def power_of_two_def overflow_strategy_def
        overflow_size_def select_index_bits_def)
  then show ?thesis
    by (intro spsc_reachable.step [OF spsc_reachable.init check_full]) (simp_all add: spsc_init_def)
qed

theorem spsc_safe_witness:
  "\<exists>s :: int system. spsc_reachable (select_strategy 4) s \<and> prod s = PChecked 7 \<and>
    cb_store (buf s) ! st_idx (select_strategy 4) (cb_to (buf s)) = None"
  using spsc_safe [OF sample_run sample_capacity] sample_run by (intro exI conjI) auto

text \<open>
  C11: Neither of the two waits for the other: while there are elements the consumer can take the
  oldest one by its own steps, and while there is room the producer can push any item by its own.
\<close>

theorem spsc_progress:
  assumes "spsc_reachable (select_strategy N) s" "capacity_ok N" "pushed s = taken s @ q"
  shows "(q \<noteq> [] \<longrightarrow> can_take (select_strategy N) s (hd q)) \<and>
    (length q < N \<and> prod s = PIdle \<longrightarrow> can_push (select_strategy N) s x)"
proof -
  obtain r where inv: "spsc_inv (select_strategy N) N (selected_valid N) s r"
    using selected.spsc_reachable_inv [OF assms(1) selected_valid_0 [OF assms(2)]] by blast
  then have "r = q" using spsc_invD(6) [OF inv] assms(3) by simp
  then show ?thesis
    using selected.consumer_progress [OF inv] selected.producer_progress [OF inv] by blast
qed

theorem spsc_progress_witness:
  "can_push (select_strategy 4) (spsc_init (select_strategy 4)) (7 :: int)"
  using spsc_progress [OF spsc_reachable.init sample_capacity, of "[]"] by (simp add: spsc_init_def)

definition buffer_holds :: "nat \<Rightarrow> 'a cbuf \<Rightarrow> 'a list \<Rightarrow> bool" where
  "buffer_holds N b q \<longleftrightarrow>
     queue_of (select_strategy N) N (selected_valid N) b q \<and> tidy (select_strategy N) b q"

lemma sample_buffer: "buffer_holds 4 (cb_new (select_strategy 4)) []"
  using selected.queue_new [OF selected_valid_0 [OF sample_capacity]]
    selected.tidy_new [OF selected_valid_0 [OF sample_capacity]]
  by (simp add: buffer_holds_def)

text \<open>
  C12: A \<open>static_circular_buffer\<close> of either strategy is a queue of \<open>N\<close> elements: the observers tell
  what it holds, \<open>emplace_back\<close> appends while there is room, \<open>take_front\<close> gives the oldest element,
  and after each of them the slots outside the queue hold no objects.
\<close>

theorem circular_buffer_is_queue:
  assumes "buffer_holds N b q"
  shows "cb_size (select_strategy N) b = length q \<and> cb_empty (select_strategy N) b = (q = []) \<and>
    cb_full (select_strategy N) b = (length q = N) \<and>
    (q \<noteq> [] \<longrightarrow> cb_front (select_strategy N) b = Some (hd q) \<and> cb_back (select_strategy N) b = Some (last q) \<and>
      (\<exists>b'. cb_take_front (select_strategy N) b = Some (hd q, b') \<and> buffer_holds N b' (tl q))) \<and>
    (length q < N \<longrightarrow> buffer_holds N (cb_emplace_back (select_strategy N) b x) (q @ [x]))"
  using assms selected.queue_size [of N b q] selected.queue_empty [of N b q] selected.queue_full [of N b q]
    selected.queue_front [of N b q] selected.queue_back [of N b q] selected.queue_take_front [of N b q]
    selected.queue_emplace_back [of N b q x]
  unfolding buffer_holds_def by blast

theorem circular_buffer_is_queue_witness:
  "buffer_holds 4 (cb_emplace_back (select_strategy 4) (cb_new (select_strategy 4)) 7) [7 :: int]"
  using circular_buffer_is_queue [OF sample_buffer, of "7 :: int"] by simp



text \<open>
  C14: While one slot is free, the iterators visit the elements in their order and in reverse, and
  two buffers are equal when their queues are, wherever in the arrays these lie.
\<close>

theorem circular_buffer_iteration:
  assumes "buffer_holds N a p" "buffer_holds N b q" "length p < st_max (select_strategy N)"
  shows "cb_iterate (select_strategy N) a = Some p \<and> cb_iterate_back (select_strategy N) a = Some (rev p) \<and>
    cb_eq (select_strategy N) a b = Some (p = q)"
  using assms selected.queue_iterate [of N a p] selected.queue_iterate_back [of N a p] selected.queue_eq [of N a p b q]
  unfolding buffer_holds_def by blast

theorem circular_buffer_iteration_witness:
  "\<exists>b. buffer_holds 4 b [1, 2 :: int] \<and> cb_iterate (select_strategy 4) b = Some [1, 2] \<and>
    cb_iterate_back (select_strategy 4) b = Some [2, 1] \<and> cb_eq (select_strategy 4) b b = Some True"
proof -
  obtain b :: "int cbuf" where b: "buffer_holds 4 b [1, 2]"
    using selected.queue_copy_range_back [of 4 "cb_new (select_strategy 4)" "[]" "[1, 2]"] sample_buffer
    by (auto simp: buffer_holds_def)
  have "length [1, 2 :: int] < st_max (select_strategy 4)"
    by (simp add: select_strategy_def spacer_strategy_def overflow_strategy_def)
  from circular_buffer_iteration [OF b b this] b show ?thesis by auto
qed

text \<open>
  C15: The \<open>static_storage\<close> for trivial types, an array that is never destroyed, can stand in for the general
  one: whatever an owner does with the general storage that is defined, element by element or in ranges, the
  array does as well; all reads give the same values, and so does every slot that is alive in the end.
\<close>

theorem trivial_storage_agrees:
  assumes "length raw = N" "storage_run ps (replicate N None) = Some (xs, st)"
  shows "\<exists>t. trivial_run ps raw = Some (xs, t) \<and> (\<forall>i x. storage_at st i = Some x \<longrightarrow> trivial_at t i = Some x)"
proof -
  obtain t where "trivial_run ps raw = Some (xs, t)" "agrees st t"
    using trivial_simulates [OF agrees_new [OF assms(1)] assms(2)] by metis
  then show ?thesis using agrees_at by fast
qed

theorem trivial_storage_agrees_witness:
  "\<exists>t. trivial_run [CopyN 1 2 [7, 8, 9 :: int], DeleteItem 1, EmplaceItem 0 5, ReadItem 0, ReadItem 2] [0, 0, 0] = Some ([5, 8], t) \<and>
    trivial_at t 2 = Some 8"
proof -
  let ?ps = "[CopyN 1 2 [7, 8, 9 :: int], DeleteItem 1, EmplaceItem 0 5, ReadItem 0, ReadItem 2]"
  have "storage_run ?ps (replicate 3 None) = Some ([5, 8], [Some 5, None, Some 8])"
    by (simp add: storage_copy_n_def store_n_def delete_item_def storage_emplace_def storage_at_def numeral_3_eq_3 numeral_2_eq_2)
  from trivial_storage_agrees [OF _ this, of "[0, 0, 0]"] show ?thesis
    by (force simp: storage_at_def numeral_3_eq_3 numeral_2_eq_2)
qed

text \<open>
  A copy holds the same elements, if the elements are not trivially copyable or do not wrap
  around the end of the array.
\<close>

theorem circular_buffer_copy:
  assumes "buffer_holds N b q" "capacity_ok N"
    and "trivial \<Longrightarrow> st_idx (select_strategy N) (cb_from b) + length q \<le> st_max (select_strategy N)"
  shows "\<exists>b'. cb_copy_construct trivial (select_strategy N) b = Some b' \<and> buffer_holds N b' q"
  using assms(1) selected.queue_copy_construct [OF _ selected_valid_0 [OF assms(2)] assms(3)]
  unfolding buffer_holds_def by blast

theorem circular_buffer_copy_witness:
  "\<exists>b'. cb_copy_construct True (select_strategy 4) (cb_new (select_strategy 4)) = Some b' \<and> buffer_holds 4 b' ([] :: int list)"
proof (rule circular_buffer_copy [OF sample_buffer sample_capacity])
  show "st_idx (select_strategy 4) (cb_from (cb_new (select_strategy 4) :: int cbuf)) + length ([] :: int list)
      \<le> st_max (select_strategy 4)"
    using selected.slot_less [OF selected_valid_0 [OF sample_capacity]] by (simp add: cb_new_def)
qed

section \<open>Registers and commands\<close>

definition sample_registers :: registers where
  "sample_registers = [(1, DBase (BUInt 1)), (5, DVector (DBase (BUInt 2)) 2)]"

lemma sample_registers_ok: "registers_ok sample_registers" "length sample_registers = 2"
    "reg_key sample_registers 1 = 5" "reg_def sample_registers 1 = DVector (DBase (BUInt 2)) 2"
    "reg_key sample_registers 0 = 1" "rm_max_value_size sample_registers = 6"
  by (simp_all add: registers_ok_def sample_registers_def reg_key_def reg_def_def rm_max_value_size_def max_of_def
      vector_traits_def base_traits_def One_nat_def)

text \<open>
  C16: \<open>register_map\<close>: every key has the index of its own register, \<open>set_val\<close> changes the value of its
  register and no other one.
\<close>

theorem register_map_set_get:
  assumes "registers_ok regs" "length m = length regs" "i < length regs" "j < length regs"
  shows "get_reg_index regs (reg_key regs i) = i \<and>
    (\<exists>m'. rm_set_val regs m (reg_key regs i) v = Some m' \<and> length m' = length regs \<and>
       rm_get_val regs m' (reg_key regs j) = Some (if i = j then v else m ! j))"
  using get_reg_index_eq [OF assms(1,3)] get_set_val [OF assms] by blast

theorem register_map_set_get_witness:
  "\<exists>m'. rm_set_val sample_registers [VInt 3, VVector []] 5 (VVector [VInt 8]) = Some m' \<and>
     rm_get_val sample_registers m' 1 = Some (VInt 3)"
  using register_map_set_get [OF sample_registers_ok(1), of "[VInt 3, VVector []]" 1 0 "VVector [VInt 8]"]
    sample_registers_ok
  by auto



definition sample_commands :: "command list" where
  "sample_commands = [(1, [DBase (BUInt 2)]), (2, []), (7, [DBase BBool, DString 8])]"

text \<open>
  \<open>command_group\<close>: the value that \<open>make_val\<close> makes for a command and its arguments goes through
  \<open>handler\<close> and comes back as that command with those arguments, so that no command is taken for
  another one.
\<close>

theorem command_group_round_trip:
  assumes "commands_ok id_type cmds" "i < length cmds" "cmds ! i = (ID, defs)" "tuple_typed (map typed defs) args"
    and "length raw = max_size (converter_for (command_group_def_type e id_type cmds) e')"
  shows "\<exists>v m. command_group_make_val cmds ID args = Some v \<and>
    handler_serialize (command_group_def_type e id_type cmds) e' raw v = Some m \<and>
    handler_extract (command_group_def_type e id_type cmds) e' m = Some (Inl (VVariant i (command_make_val args)))"
proof -
  let ?d = "command_group_def_type e id_type cmds"
  have dist: "distinct (map fst cmds)" using assms(1) by (simp add: commands_ok_def)
  have wf: "well_formed ?d" by (rule commands_well_formed [OF assms(1)])
  have v: "command_group_make_val cmds ID args = Some (VVariant i (command_make_val args))"
    using make_val_nth [OF dist assms(2)] assms(3) by simp
  then have "typed ?d (VVariant i (command_make_val args))"
    using make_val_typed [OF dist assms(2-4), of e id_type] by simp
  from handler_serialize_eq [OF wf this assms(5)] handler_extract_eq [OF wf this, of "[]" e'] v show ?thesis by simp
qed

theorem command_group_round_trip_witness:
  "\<exists>v m. command_group_make_val sample_commands 1 [VInt 300] = Some v \<and>
    handler_serialize (command_group_def_type Big (BUInt 1) sample_commands) Little
      (replicate (max_size (converter_for (command_group_def_type Big (BUInt 1) sample_commands) Little)) 0) v = Some m \<and>
    handler_extract (command_group_def_type Big (BUInt 1) sample_commands) Little m
      = Some (Inl (VVariant 0 (command_make_val [VInt 300])))"
  by (rule command_group_round_trip [of _ _ _ _ "[DBase (BUInt 2)]"])
    (simp_all add: commands_ok_def sample_commands_def int_in_unsigned tuple_typed_def One_nat_def)

section \<open>Remote calls\<close>


definition sample_calls :: "rpc_call list" where
  "sample_calls = [\<lparr>call_id = 1, call_request = DTuple [DBase (BSInt 4)], call_reply = DBase (BSInt 4)\<rparr>,
     \<lparr>call_id = 3, call_request = DTuple [DBase (BSInt 4)], call_reply = void_return_type\<rparr>]"

definition sample_double :: "int callee" where
  "sample_double args n = (case args of [VInt x] \<Rightarrow> (Some (VInt (x * 2)), n + 1) | _ \<Rightarrow> (None, n))"

lemma sample_calls_ok: "calls_ok (BUInt 1) sample_calls"
  by (simp add: calls_ok_def sample_calls_def void_return_type_def int_in_unsigned)


text \<open>
  C19: A request whose arguments cannot be read runs no method, and the controller gets the error record of
  the reactor.
\<close>

theorem remote_error_is_reported:
  assumes "handler_extract (request_group b calls) Big msg = Some (Inr r)" "error_offset r < 2 ^ 64"
    and "length raw = max_size (converter_for (outter_reply_group b calls) Big)"
  shows "\<exists>m. on_message b calls raw h msg s = Some (m, s) \<and> on_reply_msg b calls ID m = Some (Inr (Reactor_error r))"
  by (rule on_message_error [OF assms])

theorem remote_error_is_reported_witness:
  "\<exists>m. on_message (BUInt 1) sample_calls (replicate (max_size (converter_for (outter_reply_group (BUInt 1) sample_calls) Big)) 0)
      (\<lambda>I req s. Some (VInt 0, s + 1)) [1, 0] (5 :: int) = Some (m, 5) \<and>
    on_reply_msg (BUInt 1) sample_calls 1 m = Some (Inr (Reactor_error \<lparr>error_mark = mark_text size_err, error_offset = 1\<rparr>))"
proof (rule remote_error_is_reported)
  show "handler_extract (request_group (BUInt 1) sample_calls) Big [1, 0]
      = Some (Inr \<lparr>error_mark = mark_text size_err, error_offset = 1\<rparr>)"
  proof -
    have "deserialize_int Big (BUInt 1) [1] = 1" by code_simp
    then show ?thesis
      by (simp add: handler_extract_def request_group_def sample_calls_def conv_tag_group_def conv_tuple_def conv_tag_def
          conv_base_def tag_traits_def base_traits_def conv_ok_def conv_err_def has_error_def add_used_def subspan_def
          Let_def One_nat_def)
  qed
qed simp_all

text \<open>
  C20: A request with an id of no call, or too short for an id, is not an error for the reactor: it runs the
  first method on default arguments and replies its result.
\<close>

theorem unknown_id_runs_first_call:
  assumes "int_base b" "base_size b \<le> length msg \<Longrightarrow> deserialize_int Big b (take (base_size b) msg) \<notin> set (map call_id calls)"
    and "calls \<noteq> []" "length calls \<le> 64"
    and "h 0 (default_val (call_request (hd calls))) s = Some (val, s')"
    and "calls_ok b calls" "typed (call_reply (hd calls)) val"
    and "length raw = max_size (converter_for (outter_reply_group b calls) Big)"
  shows "\<exists>m. on_message b calls raw h msg s = Some (m, s') \<and> on_reply_msg b calls (call_id (hd calls)) m = Some (Inl val)"
proof -
  have "typed (reply_group b calls) (VVariant 0 val)" using assms(3,7) by (simp add: request_typed hd_conv_nth)
  from outter_reply [OF groups_well_formed(2) [OF assms(6)] this] assms(8) obtain m where
    "handler_serialize (outter_reply_group b calls) Big raw (VVariant 0 (VVariant 0 val)) = Some m"
    "handler_extract (outter_reply_group b calls) Big m = Some (Inl (VVariant 0 (VVariant 0 val)))"
    by (auto simp: outter_reply_group_def)
  moreover have "get_call_index calls (call_id (hd calls)) = 0"
    using get_call_index_eq [OF assms(6), of 0] assms(3) by (simp add: hd_conv_nth)
  ultimately show ?thesis
    using on_message_unknown [OF assms(1-4), of raw h s] assms(5) by (intro exI [of _ m]) (simp add: on_reply_msg_def)
qed

theorem unknown_id_runs_first_call_witness:
  "\<exists>m. on_message (BUInt 1) sample_calls (replicate (max_size (converter_for (outter_reply_group (BUInt 1) sample_calls) Big)) 0)
      (class_wrapper_apply [sample_double, sample_double]) [9, 0, 0, 0, 8] 7 = Some (m, 8) \<and>
    on_reply_msg (BUInt 1) sample_calls 1 m = Some (Inl (VInt 0))"
proof -
  have "deserialize_int Big (BUInt 1) [9] = 9" by code_simp
  moreover have "call_id (hd sample_calls) = 1" by (simp add: sample_calls_def)
  ultimately show ?thesis
    using unknown_id_runs_first_call [of "BUInt 1" "[9, 0, 0, 0, 8]" sample_calls "class_wrapper_apply [sample_double, sample_double]"
        7 "VInt 0" 8 "replicate (max_size (converter_for (outter_reply_group (BUInt 1) sample_calls) Big)) 0"] sample_calls_ok
    by (simp add: sample_calls_def class_wrapper_apply_def derive_handle_def sample_double_def int_in_signed One_nat_def)
qed

section \<open>Serializers and texts\<close>

text \<open>
  C21: \<open>serializer\<close> of the integers and enumerations: the bytes are the positional notation of the
  value modulo the width, in the order of the endianness, \<open>deserialize\<close> inverts \<open>serialize_at\<close>, and
  any bytes are those of the value they are read as.
\<close>

theorem serializer_bijective:
  assumes "int_base b" "int_in b x" "length buffer = base_size b" "length raw = base_size b"
  shows "serialize_int e b raw x = bytes_in e (base_size b) x \<and>
    deserialize_int e b (serialize_int e b raw x) = x \<and>
    int_in b (deserialize_int e b buffer) \<and>
    serialize_int e b raw (deserialize_int e b buffer) = buffer"
  using serialize_int_eq [OF assms(1,2,4)] serializer_roundtrip [OF assms(1,2)] deserialize_int_in [OF assms(1,3)]
    serialize_int_eq [OF assms(1) deserialize_int_in [OF assms(1,3)] assms(4)] bytes_in_deserialize [OF assms(1,3)]
  by simp

theorem serializer_bijective_witness:
  "deserialize_int Little (BSInt 2) (serialize_int Little (BSInt 2) [9, 9] (-300)) = -300 \<and>
   serialize_int Little (BSInt 2) [9, 9] (deserialize_int Little (BSInt 2) [212, 254]) = [212, 254]"
proof -
  have "int_base (BSInt 2)" "int_in (BSInt 2) (-300)" by (simp_all add: int_in_signed)
  from serializer_bijective [OF this, of "[212, 254]" "[9, 9]" Little] show ?thesis by auto
qed

text \<open>
  \<open>string_buffer\<close>: construction from a text and \<open>extend\<close> keep as much of it as fits before the
  final zero, and the buffer stays a text followed by zeros.
\<close>

theorem string_buffer_append:
  assumes "0 < N" "N < 2 ^ 64" "0 \<notin> set a" "0 \<notin> set b"
  shows "\<exists>x y. sb_of_view N a = Some x \<and> sb_sv x = take (N - 1) a \<and>
    sb_extend x b = Some y \<and> sb_sv y = take (N - 1) (take (N - 1) a @ b) \<and>
    sb_size y = min (N - 1) (length a + length b) \<and> sb_canonical N y"
proof -
  obtain x where x: "sb_of_view N a = Some x" "sb_canonical N x" "sb_sv x = take (N - 1) a"
    using sb_of_view_canonical [OF assms(1-3)] by blast
  obtain y where y: "sb_extend x b = Some y" "sb_canonical N y" "sb_sv y = take (N - 1) (sb_sv x @ b)"
    using sb_extend_canonical [OF x(2) assms(4,2)] by blast
  have "sb_size y = length (sb_sv y)" by simp
  also have "\<dots> = min (min (length a) (N - 1) + length b) (N - 1)"
    unfolding y(3) x(3) by (simp only: length_take length_append min.commute)
  also have "\<dots> = min (N - 1) (length a + length b)" by arith
  finally have "sb_size y = min (N - 1) (length a + length b)" .
  with x y show ?thesis by auto
qed

theorem string_buffer_append_witness:
  "\<exists>x y. sb_of_view 5 [65, 66] = Some x \<and> sb_extend x [67, 68, 69] = Some y \<and> sb_sv y = [65, 66, 67, 68] \<and> sb_size y = 4"
  using string_buffer_append [of 5 "[65, 66]" "[67, 68, 69]"] by auto

section \<open>Stored configurations\<close>


definition sample_config :: cfg_ram where
  "sample_config = \<lparr>ram_mem = replicate 32 0 @ replicate 32 0, ram_buf = replicate 24 0, ram_keys = [5, 9],
     ram_vals = [(5, [1, 2]), (9, [1, 2, 3, 4, 5, 6, 7, 8])], ram_loaded = []\<rparr>"

definition sample_pages :: "byte list list" where
  "sample_pages = [replicate 32 0, replicate 32 0]"

lemma sample_pages_in: "pages_in 32 sample_pages (ram_mem sample_config)" "ring (map header_of sample_pages)"
    "current_from None (map header_of sample_pages) 0 = None" "sample_pages \<noteq> []"
    "length (ram_mem sample_config) = 64" "length (ram_buf sample_config) = 24"
proof -
  have hdr: "map header_of sample_pages = [None, None]"
    by (simp add: sample_pages_def header_of_def hdr_of_zeros)
  show "ring (map header_of sample_pages)" "current_from None (map header_of sample_pages) 0 = None"
    unfolding hdr ring_def by simp_all
qed (simp_all add: pages_in_def sample_config_def sample_pages_def)


text \<open>
  C23: The pages are used in turn.  \<open>locate_next_page\<close> finds a page, and once that page has the state it
  gives, \<open>locate_current_page\<close> finds this page and the headers are again of the form that this needs.
\<close>

theorem config_page_ring:
  assumes "pages_in psize ps (ram_mem s)" "ps \<noteq> []" "ring (map header_of ps)"
  shows "\<exists>j st. locate_next_page (length (ram_mem s)) psize (ram_update psize) s = Some ((SUCCESS, j * psize, st), s) \<and>
    j < length ps \<and>
    (\<forall>page s'. length page = psize \<longrightarrow> header_of page = Some st \<longrightarrow> ram_mem s' = concat (ps [j := page]) \<longrightarrow>
      ring (map header_of (ps [j := page])) \<and>
      locate_current_page (length (ram_mem s)) psize (ram_update psize) s' = Some ((SUCCESS, j * psize), s'))"
proof -
  obtain j st where j: "next_from None (map header_of ps) 0 = Some (j, st)" "j < length ps"
    "ring ((map header_of ps) [j := Some st])" "current_from None ((map header_of ps) [j := Some st]) 0 = Some j"
    using ring_next [OF assms(3)] assms(2) by auto
  have "locate_next_page (length (ram_mem s)) psize (ram_update psize) s = Some ((SUCCESS, j * psize, st), s)"
    using ram_memory.locate_next_eq [OF assms(1)] j(1) by simp
  moreover have "ring (map header_of (ps [j := page])) \<and>
      locate_current_page (length (ram_mem s)) psize (ram_update psize) s' = Some ((SUCCESS, j * psize), s')"
    if p: "length page = psize" "header_of page = Some st" "ram_mem s' = concat (ps [j := page])" for page s'
  proof -
    have hdrs: "map header_of (ps [j := page]) = (map header_of ps) [j := Some st]" using p(2) by (simp add: map_update)
    have "pages_in psize (ps [j := page]) (ram_mem s')"
      using pages_update [OF assms(1) j(2) p(1)] p(3) concat_update [OF j(2), of page] by simp
    from ram_memory.locate_current_eq [OF this] pages_size [OF this] pages_size [OF assms(1)] show ?thesis
      using j(3,4) hdrs by simp
  qed
  ultimately show ?thesis using j(2) by blast
qed

theorem config_page_ring_witness:
  "\<exists>j st. locate_next_page 64 32 (ram_update 32) sample_config = Some ((SUCCESS, j * 32, st), sample_config) \<and> j < 2"
proof -
  have "length sample_pages = 2" by (simp add: sample_pages_def)
  then show ?thesis using config_page_ring [OF sample_pages_in(1,4,2)] sample_pages_in(5) by auto
qed

section \<open>Containers and memory\<close>

text \<open>
  A message made from bytes holds just these; assigned from a smaller one it holds what that one
  does and is equal to a message made from it, whatever the unused parts of the arrays are; \<open>resize\<close>
  to a smaller size cuts it.
\<close>

theorem message_operations:
  assumes "length raw = N" "length raw' = N" "length v \<le> N" "N < 2 ^ 64" "msg_ok M other" "M \<le> N"
  shows "\<exists>m m' m''. msg_of_view raw v = Some m \<and> msg_ok N m \<and> msg_bytes m = Some v \<and>
    msg_assign m other = Some m' \<and> msg_of_message raw' other = Some m'' \<and> msg_eq m' m'' = Some True \<and>
    msg_bytes m' = msg_bytes other \<and> msg_eq m m' = Some (Some v = msg_bytes other) \<and>
    (\<forall>n \<le> length v. msg_bytes (msg_resize m n) = Some (take n v)) \<and>
    (v \<noteq> [] \<longrightarrow> msg_front m = Some (hd v) \<and> msg_back m = Some (last v))"
proof -
  obtain m where m: "msg_of_view raw v = Some m" "msg_ok N m" "msg_bytes m = Some v"
    using msg_of_view_eq [OF assms(1,3)] by blast
  obtain m' where m': "msg_assign m other = Some m'" "msg_ok N m'" "msg_bytes m' = msg_bytes other"
    using msg_assign_eq [OF m(2) assms(5,6)] by blast
  obtain m'' where m'': "msg_of_message raw' other = Some m''" "msg_ok N m''" "msg_bytes m'' = msg_bytes other"
    using msg_of_message_eq [OF assms(2,5,6)] by blast
  have used: "ms_used m = length v" using m(1) by (auto simp: msg_of_view_def)
  have "msg_bytes (msg_resize m n) = Some (take n v)" if "n \<le> length v" for n
    using msg_resize_prefix [OF m(2), of n] m(3) used that by simp
  moreover have "v \<noteq> [] \<Longrightarrow> msg_front m = Some (hd v) \<and> msg_back m = Some (last v)"
    using msg_back_eq [OF m(2) _ assms(4) m(3)] used by simp
  moreover have "msg_eq m' m'' = Some True" "msg_eq m m' = Some (Some v = msg_bytes other)"
    using msg_eq_iff [OF m'(2) m''(2)] msg_eq_iff [OF m(2) m'(2)] m(3) m'(3) m''(3) by simp_all
  ultimately show ?thesis using m m' m'' by blast
qed

theorem message_operations_witness:
  "\<exists>m. msg_of_view [0, 0, 0] [5, 6] = Some m \<and> msg_bytes (msg_resize m 1) = Some [5]"
  using message_operations [of "[0, 0, 0]" 3 "[9, 9, 9]" "[5, 6]" 1 "\<lparr>ms_data = [1], ms_used = 1\<rparr>"]
  by (force simp: msg_ok_def)

text \<open>
  C24: A static vector is the list of its elements: each operation of the class on the vector of a list
  is the operation on the list, \<open>swap\<close> of vectors of different sizes included; the operations are
  defined whenever there is room, or an element to take.
\<close>

theorem static_vector_is_list:
  assumes "fits N xs" "fits N ys"
  shows "sv_new N = svec_of N [] \<and> sv_elems (svec_of N xs) = Some xs \<and>
    sv_emplace_back (svec_of N xs) x = (if length xs < N then Some (svec_of N (xs @ [x])) else None) \<and>
    sv_take_back (svec_of N xs) = (if xs = [] then None else Some (last xs, svec_of N (butlast xs))) \<and>
    sv_clear (svec_of N xs) = Some (svec_of N []) \<and>
    sv_swap (svec_of N xs) (svec_of N ys) = Some (svec_of N ys, svec_of N xs) \<and>
    sv_assign False (svec_of N xs) (svec_of N ys) = Some (svec_of N ys) \<and>
    sv_move_assign False (svec_of N xs) (svec_of N ys) = Some (svec_of N ys, svec_of N []) \<and>
    sv_of_vector N (svec_of N xs) = Some (svec_of N xs) \<and>
    sv_move_vector N (svec_of N xs) = Some (svec_of N xs, svec_of N []) \<and>
    sv_of_array N xs = Some (svec_of N xs) \<and> sv_fill N n x = Some (svec_of N (replicate (min n N) x))"
proof (intro conjI)
  have len: "length xs \<le> N" "N < 2 ^ 64" using assms(1) by (simp_all add: fits_def)
  show "sv_emplace_back (svec_of N xs) x = (if length xs < N then Some (svec_of N (xs @ [x])) else None)"
    using svec_emplace_back [of xs N x] svec_emplace_full [OF assms(1), of x] len(1) by auto
  have "sv_back (svec_of N xs) = None" if "xs = []"
    using that len by (auto simp: sv_back_def sv_at_def sv_last_index_def size_minus_def svec_of_def sv_capacity_def)
  then show "sv_take_back (svec_of N xs) = (if xs = [] then None else Some (last xs, svec_of N (butlast xs)))"
    using svec_take_back [OF assms(1)] svec_pop_empty [OF len(2)] by (auto simp: sv_take_back_def)
  show "sv_new N = svec_of N []" by (rule svec_new)
  show "sv_of_vector N (svec_of N xs) = Some (svec_of N xs)" by (rule svec_of_vector [OF assms(1) len(1)])
  show "sv_of_array N xs = Some (svec_of N xs)" by (rule svec_of_array [OF len(1)])
qed (rule svec_elems svec_clear svec_swap svec_assign(1) svec_move_assign svec_move_vector svec_fill assms)+

theorem static_vector_is_list_witness:
  "sv_swap (svec_of 4 [1, 2, 3 :: int]) (svec_of 4 [7]) = Some (svec_of 4 [7], svec_of 4 [1, 2, 3]) \<and>
   sv_take_back (svec_of 4 [1, 2, 3 :: int]) = Some (3, svec_of 4 [1, 2])"
  using static_vector_is_list [of 4 "[1, 2, 3 :: int]" "[7]" 0 0] by (auto simp: fits_def)

text \<open>
  \<open>==\<close> of two static vectors is equality of their lists, whatever the unused slots hold, and
  \<open>\<^bold><=\<^bold>>\<close> is the lexicographic order of the lists.
\<close>

theorem static_vector_comparisons:
  assumes "fits N xs" "fits N ys"
  shows "sv_eq (svec_of N xs) (svec_of N ys) = Some (xs = ys) \<and>
    (\<exists>c. sv_three_way (svec_of N xs) (svec_of N ys) = Some c \<and>
      (c = Equal \<longleftrightarrow> xs = ys) \<and> (c = Less \<longleftrightarrow> ord_class.lexordp xs ys) \<and> (c = Greater \<longleftrightarrow> ord_class.lexordp ys xs))"
  using svec_eq [OF assms] svec_three_way [OF assms] lex_three_way_Equal [of xs ys] lex_three_way_Less [of xs ys]
    lex_three_way_Less [of ys xs] lex_three_way_flip [of ys xs] by auto

theorem static_vector_comparisons_witness:
  "sv_three_way (svec_of 3 [1, 5 :: int]) (svec_of 3 [2]) = Some Less"
  using static_vector_comparisons [of 3 "[1, 5 :: int]" "[2]"] by (auto simp: fits_def)

text \<open>
  C25: What \<open>encode_cobs\<close> writes has no zero in it and at most one byte more for each 254; \<open>decode_cobs\<close>
  gives the data back and the iterator of \<open>cobs_decode_view\<close> yields it, up to the zero that ends the
  message.  The encoder succeeds exactly when the target is longer than its output.
\<close>

theorem cobs_round_trip:
  assumes "2 \<le> length target"
  shows "\<exists>out. encode_cobs xs target = Some (if length out < length target then (True, out) else (False, [])) \<and>
    0 \<notin> set out \<and> length out \<le> length xs + 1 + length xs div 254 \<and>
    (\<forall>buf. buf \<noteq> [] \<longrightarrow>
      decode_cobs out buf = Some (if length xs < length buf then (True, xs) else (False, take (length buf) xs))) \<and>
    (\<forall>rest. decode_view_all (out @ 0 # rest) = Some xs)"
proof -
  have "0 \<notin> set (cobs_ref xs)" "length (cobs_ref xs) \<le> length xs + 1 + length xs div 254"
    using cobs_blocks_nonzero [of "[]" xs] cobs_blocks_length [of "[]" xs] by (simp_all add: cobs_ref_def)
  then show ?thesis
    using encode_cobs_eq [OF assms, of xs] decode_cobs_blocks [of _ xs] decode_view_blocks [of xs] by blast
qed

theorem cobs_round_trip_witness:
  "\<exists>out. encode_cobs [1, 0, 2] (replicate 9 0) = Some (True, out) \<and> decode_cobs out (replicate 9 0) = Some (True, [1, 0, 2])"
proof -
  obtain out where "encode_cobs [1, 0, 2] (replicate 9 0) = Some (if length out < 9 then (True, out) else (False, []))"
    "length out \<le> 4" "\<forall>buf. buf \<noteq> [] \<longrightarrow> decode_cobs out buf =
      Some (if length ([1, 0, 2] :: byte list) < length buf then (True, [1, 0, 2]) else (False, take (length buf) [1, 0, 2]))"
    using cobs_round_trip [of "replicate 9 0" "[1, 0, 2]"] by auto
  then show ?thesis by (intro exI [of _ out]) simp
qed

text \<open>
  C26: Whatever a client of an \<open>allocator\<close> does on a \<open>stack_resource\<close>, in whatever order it frees its
  blocks, every \<open>deallocate\<close> succeeds, and its blocks are aligned, inside the buffer and apart.
\<close>

theorem stack_resource_serves:
  assumes new: "stack_new base cap = Some r" and room: "node_size \<le> cap" "0 < base" "base + cap + 2 ^ max_align_log \<le> 2 ^ 64"
    and client: "0 < sz" "k \<le> max_align_log" "\<forall>n. Allocate n \<in> set rs \<longrightarrow> 0 < n \<and> n * sz < 2 ^ 63"
  shows "\<exists>r' hs. serve stack_allocate stack_deallocate sz (2 ^ k) rs (r, []) = Some (r', hs) \<and>
    (\<forall>h \<in> set hs. 2 ^ k dvd fst h \<and> base \<le> fst h \<and> fst h + snd h * sz \<le> base + cap) \<and>
    (\<forall>i j. i < j \<longrightarrow> j < length hs \<longrightarrow> disjoint_blocks (block_of sz (hs ! i)) (block_of sz (hs ! j)))"
proof (rule stack.serve_ok [OF _ client])
  have "0 < (2 :: nat) ^ max_align_log" by simp
  then have "base + cap < 2 ^ 64" using room(3) by linarith
  then show "stack_ok base cap r []" using stack_new_inv [of cap base] new room unfolding stack_ok_def by auto
qed

theorem stack_resource_serves_witness:
  "\<exists>r r' hs. stack_new 4096 256 = Some r \<and>
    serve stack_allocate stack_deallocate 4 (2 ^ 2) [Allocate 3, Allocate 5, Deallocate 1, Allocate 1] (r, []) = Some (r', hs) \<and>
    (\<forall>h \<in> set hs. 2 ^ 2 dvd fst h \<and> 4096 \<le> fst h \<and> fst h + snd h * 4 \<le> 4096 + 256)"
proof -
  obtain r where r: "stack_new 4096 256 = Some r" using stack_new_inv [of 256 4096] by (auto simp: node_size_def)
  then show ?thesis
    using stack_resource_serves [OF r, of 4 2 "[Allocate 3, Allocate 5, Deallocate 1, Allocate 1]"]
    by (auto simp: node_size_def max_align_log_def simp del: serve.simps)
qed

text \<open>
  One call on a \<open>stack_resource\<close>: \<open>allocate\<close> gives the first aligned address behind the top, and the
  null pointer exactly when the block and its node do not fit; \<open>deallocate\<close> of any block takes just it
  out of the list; a client that writes into its block changes none of this.
\<close>

theorem stack_resource_operations:
  assumes inv: "stack_inv r (us @ (p, n) # vs)" and room: "0 < bytes" "k < 64" "sk_base r + length (sk_buff r) + 2 ^ k \<le> 2 ^ 64"
    and data: "length bs \<le> n"
  shows "(\<exists>res r'. stack_allocate r bytes (2 ^ k) = Some (res, r') \<and>
      (if align (sk_top r) (2 ^ k) + bytes + node_size \<le> sk_base r + length (sk_buff r)
       then res = Some (align (sk_top r) (2 ^ k)) \<and> stack_inv r' ((us @ (p, n) # vs) @ [(align (sk_top r) (2 ^ k), bytes)])
       else res = None \<and> r' = r)) \<and>
    (\<exists>r'. stack_deallocate r p n al = Some (True, r') \<and> stack_inv r' (us @ vs)) \<and>
    (\<exists>r'. poke r p bs = Some r' \<and> stack_inv r' (us @ (p, n) # vs))"
proof -
  obtain res r' where step: "stack_allocate r bytes (2 ^ k) = Some (res, r')" and res: "case res of
      None \<Rightarrow> r' = r \<and> sk_base r + length (sk_buff r) < align (sk_top r) (2 ^ k) + bytes + node_size
    | Some p' \<Rightarrow> p' = align (sk_top r) (2 ^ k) \<and> p' + bytes + node_size \<le> sk_base r + length (sk_buff r) \<and>
        stack_inv r' ((us @ (p, n) # vs) @ [(p', bytes)])"
    using stack_allocate_inv [OF inv room] by blast
  have "if align (sk_top r) (2 ^ k) + bytes + node_size \<le> sk_base r + length (sk_buff r)
       then res = Some (align (sk_top r) (2 ^ k)) \<and> stack_inv r' ((us @ (p, n) # vs) @ [(align (sk_top r) (2 ^ k), bytes)])
       else res = None \<and> r' = r"
    using res by (cases res) auto
  with step stack_deallocate_inv [OF inv, of al] stack_write_inv [OF inv, of p n p bs] data show ?thesis by auto
qed

theorem stack_resource_operations_witness:
  "\<exists>r r'. stack_inv r [(4112, 8)] \<and> stack_deallocate r 4112 8 1 = Some (True, r') \<and> stack_inv r' []"
proof -
  have m: "node_size \<le> 256" "(0 :: nat) < 4096" "(4096 :: nat) + 256 < 2 ^ 64" by (simp_all add: node_size_def)
  obtain r where r: "stack_inv r []" "sk_base r = 4096" "length (sk_buff r) = 256"
    using stack_new_inv [OF m] by blast
  have top: "sk_top r = 4112" using r by (simp add: stack_inv_def nodes_def first_node_def node_size_def)
  have al: "align (sk_top r) (2 ^ 0) = 4112" unfolding top by (subst align_eq) simp_all
  have pos: "(0 :: nat) < 8" "(0 :: nat) < 64" "sk_base r + length (sk_buff r) + 2 ^ 0 \<le> 2 ^ 64"
    using r by simp_all
  obtain res r1 where "same_frame r r1" "case res of
      None \<Rightarrow> r1 = r \<and> sk_base r + length (sk_buff r) < 4112 + 8 + node_size
    | Some p \<Rightarrow> p = 4112 \<and> p + 8 + node_size \<le> sk_base r + length (sk_buff r) \<and> stack_inv r1 ([] @ [(p, 8)])"
    using stack_allocate_inv [OF r(1) pos] unfolding al by blast
  then have r1: "stack_inv r1 ([] @ (4112, 8) # [])" "sk_base r1 = 4096" "length (sk_buff r1) = 256"
    using r by (auto simp: same_frame_def node_size_def split: option.splits)
  from stack_resource_operations [OF r1(1), of 1 0 "[]" 1] r1(2,3) show ?thesis using r1(1) by auto
qed

text \<open>
  C27: Whatever a client of an \<open>allocator\<close> does on a \<open>pool_resource\<close>, every \<open>deallocate\<close> succeeds, and its
  blocks are aligned, inside the pools and apart.
\<close>

theorem pool_resource_serves:
  assumes new: "pool_new base psz cnt = Some r" and room: "0 < psz" "0 < base" "cnt < 2 ^ 16"
      "base + cnt * psz + 2 ^ max_align_log \<le> 2 ^ 64"
    and client: "0 < sz" "k \<le> max_align_log" "\<forall>n. Allocate n \<in> set rs \<longrightarrow> 0 < n \<and> n * sz < 2 ^ 63"
  shows "\<exists>r' hs. serve pool_allocate pool_deallocate sz (2 ^ k) rs (r, []) = Some (r', hs) \<and>
    (\<forall>h \<in> set hs. 2 ^ k dvd fst h \<and> base \<le> fst h \<and> fst h + snd h * sz \<le> base + cnt * psz) \<and>
    (\<forall>i j. i < j \<longrightarrow> j < length hs \<longrightarrow> disjoint_blocks (block_of sz (hs ! i)) (block_of sz (hs ! j)))"
proof (rule pool.serve_ok [OF _ client])
  have "0 < (2 :: nat) ^ max_align_log" by simp
  then have "base + cnt * psz \<le> 2 ^ 64" using room(4) by linarith
  then show "pool_ok base psz cnt r []" using pool_new_inv [of psz base cnt] new room unfolding pool_ok_def by auto
qed

theorem pool_resource_serves_witness:
  "\<exists>r r' hs. pool_new 4096 32 4 = Some r \<and>
    serve pool_allocate pool_deallocate 8 (2 ^ 3) [Allocate 3, Allocate 4, Deallocate 1, Allocate 9] (r, []) = Some (r', hs) \<and>
    (\<forall>h \<in> set hs. 2 ^ 3 dvd fst h \<and> 4096 \<le> fst h \<and> fst h + snd h * 8 \<le> 4096 + 4 * 32)"
proof -
  obtain r where r: "pool_new 4096 32 4 = Some r" using pool_new_inv [of 32 4096 4] by auto
  then show ?thesis
    using pool_resource_serves [OF r, of 8 3 "[Allocate 3, Allocate 4, Deallocate 1, Allocate 9]"]
    by (auto simp: max_align_log_def simp del: serve.simps)
qed

section \<open>Callables and regulators\<close>

text \<open>
  C28: A \<open>static_function\<close> is a variable that holds nothing or a callable: any sequence of assignments of
  callables, copies, moves, self-assignments, resets, constructions, destructions and calls, over any
  number of functions, is defined and gives the results that it gives on a map of the variables to
  callables; copies have a state of their own.  A callable whose size and alignment pass the assertion of
  the class always lies within the buffer.
\<close>

theorem static_function_is_variable:
  fixes ops :: "('s, 'x, 'r) sf_op list"
  assumes "\<forall>v. buffer_ok (base v) Capacity Align" "all_allowed Capacity Align ops (\<lambda>_. None)"
  shows "\<exists>fs. sf_program base Capacity Align ops (\<lambda>_. sf_empty) = Some (fst (spec_program ops (\<lambda>_. None)), fs) \<and>
    callables fs = snd (spec_program ops (\<lambda>_. None)) \<and>
    (\<forall>v vt s. callables fs v = Some (vt, s) \<longrightarrow>
      (\<exists>p. obj_ptr (fs v) = Some p \<and> base v \<le> p \<and> p + vt_size vt \<le> base v + Capacity \<and> vt_align vt dvd p))"
proof -
  let ?fs = "(\<lambda>_. sf_empty) :: ('s, 'x, 'r) variables"
  have "variables_ok base Capacity Align ?fs" using assms(1) by (simp add: variables_ok_def)
  from sf_program_refines [OF this, of ops] assms(2)
  obtain fs where fs: "sf_program base Capacity Align ops ?fs = Some (fst (spec_program ops (\<lambda>_. None)), fs)"
      "variables_ok base Capacity Align fs" "callables fs = snd (spec_program ops (\<lambda>_. None))"
    by (auto simp: no_callables)
  have "\<exists>p. obj_ptr (fs v) = Some p \<and> base v \<le> p \<and> p + vt_size vt \<le> base v + Capacity \<and> vt_align vt dvd p"
    if "callables fs v = Some (vt, s)" for v vt s
    using sf_obj_place [OF fs(2) that] by blast
  then show ?thesis using fs by blast
qed

definition counter_callable :: "(nat, nat, nat) vtable" where
  "counter_callable = \<lparr>vt_size = 16, vt_align = 16, vt_invoke = (\<lambda>s x. (s + x, s + x)), vt_moved = (\<lambda>_. 0)\<rparr>"

theorem static_function_is_variable_witness:
  "\<exists>fs. sf_program (\<lambda>v. 8 + 64 * (v mod 3)) 32 8
      [Assign 0 counter_callable 5, Call 0 1, Copy 1 0, Call 1 1, Call 0 10, Copy 0 0, Move 2 0, Call 2 0] (\<lambda>_. sf_empty) =
    Some ([None, Some 6, None, Some 7, Some 16, None, None, Some 16], fs) \<and>
    callables fs 1 = Some (counter_callable, 7)"
proof -
  let ?ops = "[Assign 0 counter_callable 5, Call 0 1, Copy 1 0, Call 1 1, Call 0 10, Copy 0 0, Move 2 0, Call 2 0] :: (nat, nat, nat) sf_op list"
  have fits: "callable_fits 32 8 counter_callable"
    by (auto simp: callable_fits_def counter_callable_def required_space_def intro!: exI [of _ 4])
  have buf: "\<forall>v :: nat. buffer_ok (8 + 64 * (v mod 3)) 32 8"
    by (auto simp: buffer_ok_def intro!: exI [of _ 3])
  have inv: "vt_invoke counter_callable = (\<lambda>s x. (s + x, s + x))" "vt_moved counter_callable = (\<lambda>_. 0)"
    by (simp_all add: counter_callable_def)
  have al: "all_allowed 32 8 ?ops (\<lambda>_. None)" using fits inv by (simp add: moved_def)
  have res: "fst (spec_program ?ops (\<lambda>_. None)) = [None, Some 6, None, Some 7, Some 16, None, None, Some 16]"
      "snd (spec_program ?ops (\<lambda>_. None)) 1 = Some (counter_callable, 7)"
    using inv by (simp_all add: moved_def)
  obtain fs where "sf_program (\<lambda>v. 8 + 64 * (v mod 3)) 32 8 ?ops (\<lambda>_. sf_empty) = Some (fst (spec_program ?ops (\<lambda>_. None)), fs)"
      "callables fs = snd (spec_program ?ops (\<lambda>_. None))"
    using static_function_is_variable [OF buf al] by blast
  then show ?thesis using res by (intro exI [of _ fs]) (simp only: simp_thms)
qed




section \<open>Coroutines\<close>

text \<open>
  C30: \<open>run\<close> of a coroutine returns, with the value that its body has when every \<open>co_await\<close> of a coroutine
  is read as a call of it, however deep they are nested, and every other awaiter is ticked until it waits
  no more.  Where a body has a value: the awaiters settle, and no \<open>noop_awaiter\<close> follows another \<open>co_await\<close>.
\<close>

theorem coroutine_runs_as_calls:
  assumes "body_value W b True = Some v" "void \<or> v \<noteq> None"
  shows "cor_run W void (cor_start b) = Some (if void then None else v) \<and>
    (\<exists>c. ticks_to W (cor_start b) c \<and> cor_state c = READY \<and> promise_value c = v)"
proof -
  obtain c where "ticks_to W (cor_start b) c" "cor_done c" "promise_value c = v"
    using body_value_reached [OF assms(1)] start_ticks by (fastforce simp: ends_with_def iface_of_def)
  then show ?thesis using run_body_value [OF assms] by (auto simp: cor_state_def)
qed

definition countdown :: "(nat, nat) wait_interface" where
  "countdown = \<lparr>wi_state = (\<lambda>n. if n = 0 then READY else WAITING), wi_tick = (\<lambda>n. n - 1), wi_resume = (\<lambda>_. Some 7)\<rparr>"

theorem coroutine_runs_as_calls_witness:
  "cor_run countdown False (cor_start
     (CoAwait AwNoop (\<lambda>_. CoAwait (AwCoroutine False (CoAwait (AwInterface 3) (\<lambda>v. CoReturn (the v + 1))))
       (\<lambda>v. CoReturn (2 * the v))))) = Some (Some 16)"
proof -
  have "settled countdown 3 = Some 0" by (simp add: settled_def while_option_unfold countdown_def)
  then have "body_value countdown (CoAwait AwNoop (\<lambda>_. CoAwait (AwCoroutine False (CoAwait (AwInterface 3) (\<lambda>v. CoReturn (the v + 1))))
      (\<lambda>v. CoReturn (2 * the v)))) True = Some (Some 16)"
    by (simp add: countdown_def)
  from coroutine_runs_as_calls [OF this, of False] show ?thesis by simp
qed

text \<open>
  C31: \<open>round_robin_run\<close> over coroutines is a queue: the first one that has not ended asks, gets its reply
  and goes to the end, until all have ended, so no coroutine waits for more than one request of each other.
  \<open>get_request\<close>, \<open>store_reply\<close> and \<open>tick\<close> of the executor, and of any coroutine, show just the requests of its
  body, one for each reply.
\<close>

theorem round_robin_is_queue:
  assumes "\<forall>b \<in> set bs. defined b" "bs \<noteq> []"
  shows "(\<exists>c. rr_create (round_robin_run (Some (Some (map rr_of bs))) 0) = Some c \<and>
      rr_converse c rs = Some (queue_talk (unfinished bs) rs)) \<and>
    (\<forall>b \<in> set bs. rr_create b = Some (rr_of b) \<and> rr_converse (rr_of b) rs = Some (talk b rs) \<and>
      rr_tick (rr_of b) = Some (False, rr_of b))"
proof -
  have "rr_create b = Some (rr_of b) \<and> rr_converse (rr_of b) rs = Some (talk b rs) \<and> rr_tick (rr_of b) = Some (False, rr_of b)"
    if "b \<in> set bs" for b
    using that assms(1) rr_create_eq rr_converse_talk rr_tick_without_reply defined_not_undefined by blast
  then show ?thesis using round_robin_converse [OF assms] by blast
qed

theorem round_robin_is_queue_witness:
  "\<exists>c. rr_create (round_robin_run (Some (Some (map rr_of
      [RYield 1 (\<lambda>r. RYield (r + 1) (\<lambda>_. RFinish)), RYield 10 (\<lambda>_. RFinish)]))) 0) = Some c \<and>
    rr_converse c [5, 6, 7] = Some ([1, 10, 6 :: nat], True)"
proof -
  let ?bs = "[RYield 1 (\<lambda>r. RYield (r + 1) (\<lambda>_. RFinish)), RYield 10 (\<lambda>_. RFinish)] :: (nat, nat) rr_body list"
  have "\<forall>b \<in> set ?bs. defined b" by simp
  moreover have "queue_talk (unfinished ?bs) [5, 6, 7] = ([1, 10, 6], True)" by simp
  ultimately show ?thesis using round_robin_is_queue [of ?bs "[5, 6, 7]"] by (metis list.distinct(1))
qed

section \<open>Index loops\<close>

text \<open>
  C32: The loops over indices in \<open>algorithm.hpp\<close>: for at most 64 indices \<open>for_each_index\<close> visits
  each once and in order, \<open>until_index\<close> stops after the first one for which the predicate holds,
  and \<open>select_index\<close> calls with exactly the index it is given.
\<close>

theorem index_loops_exact:
  assumes "N \<le> 64"
  shows "for_each_index N f s = fold f [0..<N] s \<and>
    until_index N g s = until_list [0..<N] g s \<and>
    (i < N \<longrightarrow> select_index (N - 1) i h = Some (h i))"
  using assms by (cases N) (simp_all add: for_each_index_def until_index_def index_until_seq index_seq_eq
      select_index_def index_switch_eq)

theorem index_loops_exact_witness:
  "for_each_index 40 (\<lambda>i s. s @ [i]) [] = [0..<40] \<and> select_index 39 35 (\<lambda>i. i * i) = Some 1225"
proof -
  have "fold (\<lambda>i s. s @ [i]) xs ys = ys @ xs" for xs ys :: "nat list" by (induction xs arbitrary: ys) auto
  then show ?thesis
    using index_loops_exact [of 40 "\<lambda>i s. s @ [i]" "[]" "\<lambda>i s. (False, s)" 35 "\<lambda>i. i * i"] by simp
qed

text \<open>
  C33: \<open>find_if_index\<close> over at most 64 indices gives the first one for which the predicate holds, and
  the last index, not the number of them, when there is none.  So a \<open>register_map\<close> says it contains
  any key, and an unknown key has the index of the last register.
\<close>

theorem find_index_and_unknown_keys:
  assumes "length regs \<le> 64" "regs \<noteq> []" "key \<notin> fst ` set regs"
  shows "(\<forall>N f. N \<le> 64 \<longrightarrow> find_if_index N f =
      (if \<exists>i < N. f i then find_if f [0..<N] else if N = 0 then 0 else N - 1)) \<and>
    get_reg_index regs key = length regs - 1 \<and> rm_contains regs key \<and>
    rh_insert regs e m key buff = Some (None, m)"
  using unknown_key_index [OF assms] unknown_insert [OF assms(1,3)] find_if_index_eq by blast

theorem find_index_and_unknown_keys_witness:
  "get_reg_index sample_registers 77 = 1 \<and> rm_contains sample_registers 77 \<and>
    rh_insert sample_registers Big [VInt 3, VVector []] 77 [1, 2] = Some (None, [VInt 3, VVector []])"
  using find_index_and_unknown_keys [of sample_registers 77 Big "[VInt 3, VVector []]" "[1, 2]"]
  by (simp add: sample_registers_def One_nat_def)

section \<open>Views\<close>

text \<open>
  C34: The loop over a view ends and visits its items in order: the numbers of a \<open>range\<close>, the items of an
  array converted (\<open>convert_view\<close>) or backwards (\<open>reversed\<close>); \<open>==\<close> of two views compares their items.
\<close>

theorem views_of_ranges:
  assumes "numeric_type T" "int_in T from" "int_in T to" "from \<le> to" "- (2 ^ 63) \<le> from" "to < 2 ^ 63"
    and "length xs < 2 ^ 63" "length ys < 2 ^ 63"
  shows "view_list (numeric_iterator T) (range_view from to) = Some [from..to - 1] \<and>
    view_list (convert_iterator conv (pointer xs)) (convert_view xs) = Some (map conv xs) \<and>
    view_list (reverse_iterator (pointer xs)) (reversed xs) = Some (rev xs) \<and>
    view_size (pointer xs) (data_view xs) = length xs \<and>
    (xs \<noteq> [] \<longrightarrow> view_front (pointer xs) (data_view xs) = Some (hd xs) \<and> view_back (pointer xs) (data_view xs) = Some (last xs)) \<and>
    view_eq (pointer xs) (pointer ys) (data_view xs) (data_view ys) = Some (xs = ys)"
proof -
  have v: "data_view zs = span_of int (length zs)" for zs :: "'a list"
    by (simp add: data_view_def view_n_def span_of_def pointer_def)
  show ?thesis
    unfolding v
    using range_items [OF assms(1-6)] convert_view_items [of conv xs] reversed_items [of xs]
      pointers.view_size_whole [OF assms(7)] pointers.view_front_whole [of xs] pointers.view_back_whole [of xs]
      view_eq_iff [OF pointers.random_access_axioms pointers.random_access_axioms assms(7,8)]
    by blast
qed

theorem views_of_ranges_witness:
  "view_list (numeric_iterator (BUInt 1)) (range_view 250 255) = Some [250, 251, 252, 253, 254] \<and>
   view_list (reverse_iterator (pointer [1, 2, 3 :: int])) (reversed [1, 2, 3 :: int]) = Some [3, 2, 1] \<and>
   view_eq (pointer [1, 2, 3 :: int]) (pointer [1, 2, 4]) (data_view [1, 2, 3 :: int]) (data_view [1, 2, 4 :: int]) = Some False"
proof -
  have "[250..255 - 1] = [250, 251, 252, 253, 254 :: int]" by (simp add: upto_rec1)
  then show ?thesis
    using views_of_ranges [of "BUInt 1" 250 255 "[1, 2, 3 :: int]" "[1, 2, 4]" "\<lambda>x. x"]
    by (simp add: numeric_type_def int_in_unsigned)
qed



text \<open>
  The operations on a \<open>bounded_view\<close> give views whose sizes are within the bounds of their types and
  which are parts of the view: \<open>make\<close> checks the size, \<open>first\<close> and \<open>offset\<close> split a view, and \<open>opt_offset\<close>
  takes as much as its type allows, or nothing when that is less than the minimum.
\<close>

theorem bounded_view_sizes:
  assumes "i \<le> j" "j \<le> length xs" "length xs < 2 ^ 63" "N \<le> j - i" "i + k + hi \<le> length xs" "lo \<le> hi"
  shows "bounded_view_make (pointer xs) lo hi \<lparr>v_begin = int i, v_end = int j\<rparr> =
      (if lo \<le> j - i \<and> j - i \<le> hi then Some \<lparr>v_begin = int i, v_end = int j\<rparr> else None) \<and>
    view_list (pointer xs) (bounded_view_first (pointer xs) N \<lparr>v_begin = int i, v_end = int j\<rparr>) = Some (take N (drop i xs)) \<and>
    view_list (pointer xs) (bounded_view_offset (pointer xs) N \<lparr>v_begin = int i, v_end = int j\<rparr>)
      = Some (drop N (take (j - i) (drop i xs))) \<and>
    (case bounded_view_opt_offset (pointer xs) lo hi k \<lparr>v_begin = int i, v_end = int j\<rparr> of
       None \<Rightarrow> j - i < k + lo
     | Some w \<Rightarrow> lo \<le> view_size (pointer xs) w \<and> view_size (pointer xs) w \<le> hi \<and>
         view_list (pointer xs) w = Some (take hi (drop k (take (j - i) (drop i xs)))))"
proof -
  note ops = bounded_view_ops [OF pointers.random_access_axioms assms(3,1,2)]
  have size: "view_size (pointer xs) \<lparr>v_begin = int a, v_end = int b\<rparr> = b - a" if "a \<le> b" "b \<le> length xs" for a b
    using pointers.view_size_part [OF that assms(3)] .
  have "view_list (pointer xs) \<lparr>v_begin = int (i + N), v_end = int j\<rparr> = Some (drop N (take (j - i) (drop i xs)))"
    "view_list (pointer xs) \<lparr>v_begin = int i, v_end = int (i + N)\<rparr> = Some (take N (drop i xs))"
    using pointer_items [of "i + N" j xs] pointer_items [of i "i + N" xs] assms(1,2,4)
    by (simp_all add: drop_take add.commute)
  moreover have "view_list (pointer xs) \<lparr>v_begin = int (i + k), v_end = int (min (i + k + hi) j)\<rparr>
      = Some (take hi (drop k (take (j - i) (drop i xs))))" if "k + lo \<le> j - i"
  proof -
    have "min (i + k + hi) j - (i + k) = min hi (j - i - k)" using assms(1) that by arith
    moreover have "i + k \<le> min (i + k + hi) j" "min (i + k + hi) j \<le> length xs" using assms(1,2) that by auto
    ultimately show ?thesis
      using pointer_items [of "i + k" "min (i + k + hi) j" xs] by (simp add: drop_take add.commute)
  qed
  moreover have "lo \<le> min (i + k + hi) j - (i + k) \<and> min (i + k + hi) j - (i + k) \<le> hi" if "k + lo \<le> j - i"
    using assms(6) that by arith
  ultimately show ?thesis
    using ops(1) [of lo hi] ops(2,3) [OF assms(4)] ops(4) [OF assms(5,6)] size [of "i + k" "min (i + k + hi) j"] assms(1,2)
    by (auto split: if_splits)
qed

theorem bounded_view_sizes_witness:
  "(case bounded_view_opt_offset (pointer [1, 2, 3, 4, 5 :: int]) 1 2 1 \<lparr>v_begin = 0, v_end = 4\<rparr> of
     None \<Rightarrow> False | Some w \<Rightarrow> view_list (pointer [1, 2, 3, 4, 5 :: int]) w = Some [2, 3])"
  using bounded_view_sizes [of 0 4 "[1, 2, 3, 4, 5 :: int]" 0 1 2 1] by (auto split: option.splits)

section \<open>Matrices and quantities\<close>

text \<open>
  C36: The loops of the operators compute sums, differences and products of matrices: the product is
  associative and distributive, the identity is neutral, the transposition of a product is the product of
  the transpositions in the other order, and \<open>-\<close> takes back what \<open>+\<close> has added.
\<close>

theorem matrix_algebra:
  fixes a :: "('a :: comm_ring_1) matrix"
  assumes "is_matrix N K a" "is_matrix K L b" "is_matrix K L b'" "is_matrix L M c"
  shows "is_matrix N L (mat_mul (mat N K a) (mat K L b)) \<and>
    mat_mul (mat N L (mat_mul (mat N K a) (mat K L b))) (mat L M c)
      = mat_mul (mat N K a) (mat K M (mat_mul (mat K L b) (mat L M c))) \<and>
    mat_mul (mat N K a) (mat K L (mat_add (mat K L b) (mat K L b')))
      = mat_add (mat N L (mat_mul (mat N K a) (mat K L b))) (mat N L (mat_mul (mat N K a) (mat K L b'))) \<and>
    mat_mul (identity_matrix N) (mat N K a) = a \<and> mat_mul (mat N K a) (mat K K (identity_to_matrix K)) = a \<and>
    transposed_to_matrix (mat N L (mat_mul (mat N K a) (mat K L b)))
      = mat_mul (transposed_matrix (mat K L b)) (transposed_matrix (mat N K a)) \<and>
    mat_sub (mat K L (mat_add (mat K L b) (mat K L b'))) (mat K L b') = b"
proof -
  have "mat_mul (mat N K a) (mat K K (identity_to_matrix K)) = mat_mul (mat N K a) (identity_matrix K)"
    unfolding mat_mul_eq by (auto simp: identity_to_matrix_eq intro!: of_entries_cong sum.cong)
  then show ?thesis
    using mat_mul_assoc [of "mat N K a" "mat K L b" "mat L M c"] mat_mul_distrib [of "mat K L b" "mat K L b'" "mat N K a"]
      mat_mul_identity [OF assms(1)] mat_mul_transposed [of "mat N K a" "mat K L b"] mat_add_sub [OF assms(2,3)]
    by (simp add: mat_mul_eq [of "mat N K a" "mat K L b"])
qed

theorem matrix_algebra_witness:
  "mat_mul (mat 1 2 [[1, 2 :: int]]) (mat 2 2 (identity_to_matrix 2)) = [[1, 2]] \<and>
   is_matrix 1 2 (mat_mul (mat 1 2 [[1, 2 :: int]]) (mat 2 2 [[3, 4], [5, 6]]))"
  using matrix_algebra [of 1 2 "[[1, 2 :: int]]" 2 "[[3, 4], [5, 6]]" "[[3, 4], [5, 6]]" 1 "[[1], [1]]"]
  by (simp add: is_matrix_def)



text \<open>
  C38: The types of physical quantities.  An expression compiles exactly when it has a value, and its type is the
  unit of the value.  Expressed in other base units, however chosen, an expression has the same type and the same
  quantity for its value, as sums of one unit, products, quotients, roots and powers of quantities do.
\<close>

theorem units_homogeneous:
  assumes "change_ok k"
  shows "exp_type e = map_option units (exp_eval e) \<and> exp_type (change_exp k e) = exp_type e \<and>
    exp_eval (change_exp k e) = map_option (change_units k) (exp_eval e)"
  using exp_type_eval [of e] exp_type_eval [of "change_exp k e"] exp_homogeneous [OF assms, of e]
  by (cases "exp_eval e") (simp_all add: change_units_def)

text \<open>From metres to millimetres.\<close>

definition to_millimetres :: base_change where
  "to_millimetres =
     \<lparr>k_len = 1000, k_mass = 1, k_time = 1, k_current = 1, k_temp = 1, k_mol = 1, k_li = 1, k_angle = 1, k_byte = 1\<rparr>"

definition speed_exp :: q_exp where
  "speed_exp = Over (Given \<lparr>units = unit_dims Length, quant = Quantity 3\<rparr>) (Given \<lparr>units = unit_dims Timeq, quant = Quantity 2\<rparr>)"

theorem units_homogeneous_witness:
  "exp_eval (change_exp to_millimetres speed_exp) = Some \<lparr>units = unit_dims Velocity, quant = Quantity 1500\<rparr>"
proof -
  have "change_ok to_millimetres" by (simp add: change_ok_def to_millimetres_def)
  from units_homogeneous [OF this, of speed_exp] show ?thesis
    by (simp add: speed_exp_def physical_div_def unit_laws change_units_def change_factor_def to_millimetres_def exponents_def map2_dims_def)
qed

text \<open>
  The unit of a \<open>physical_quantity\<close> can be told from its text: with exponents of one digit, two units
  with the same text are the same.  Division undoes multiplication in the value and in the unit, powers add
  up, and \<open>sqrt\<close> of a square gives back the quantity with its unit.
\<close>

theorem unit_text_and_arithmetic:
  assumes "all_dims (\<lambda>x. - 10 < x \<and> x < 10) d" "all_dims (\<lambda>x. - 10 < x \<and> x < 10) d'"
    and "val_of (quant a) \<noteq> 0" "val_of (quant b) \<noteq> 0" "sqrtf (val_of (quant a) * val_of (quant a)) = val_of (quant a)"
  shows "(get_unit d = get_unit d' \<longleftrightarrow> d = d') \<and> physical_div (physical_mul a b) b = a \<and>
    physical_mul (physical_pow p a) (physical_pow q a) = physical_pow (p + q) a \<and>
    physical_sqrt sqrtf (physical_mul a a) = Some a"
  using get_unit_inject [OF _ assms(1,2)] physical_mul_div [OF assms(4)] physical_pow_add [OF assms(3)]
    physical_sqrt_square [of sqrtf, OF assms(5)] by auto

definition metre_per_second :: "rat physical" where
  "metre_per_second = \<lparr>units = \<lparr>Len = 1, Mass = 0, Time = -1, Current = 0, Temp = 0, Mol = 0, Li = 0, Angle = 0, Byte = 0\<rparr>,
     quant = Quantity 3\<rparr>"

theorem unit_text_and_arithmetic_witness:
  "physical_div (physical_mul metre_per_second metre_per_second) metre_per_second = metre_per_second \<and>
   physical_sqrt (\<lambda>x. if x = 9 then 3 else 0) (physical_mul metre_per_second metre_per_second) = Some metre_per_second"
  using unit_text_and_arithmetic [of "units metre_per_second" "units metre_per_second" metre_per_second metre_per_second
      "\<lambda>x. if x = 9 then 3 else 0"]
  by (simp add: metre_per_second_def all_dims_def)

section \<open>Geometry\<close>

text \<open>
  C39: Rotation by a unit quaternion keeps lengths, is undone by the inverse, and by a product it is the
  rotation by the factors; the quaternion of an axis and an angle is a unit that leaves the axis in place.
  Poses compose: to transform by one and then by another is to transform by the transformed pose.
  \<open>slerp\<close> between units goes from the first to the second, or its negative, the same rotation, over units.
\<close>

theorem rotations_and_poses:
  fixes x :: "real list"
  assumes "length x = 3" "length (position P) = 3" "length (position T) = 3" "norm2_of q = 1" "norm2_of s = 1"
    and "length ax = 3" "length2_of ax \<noteq> 0"
  shows "length_of (rotate_point x q) = length_of x \<and> rotate_point (rotate_point x q) (quat_inverse q) = x \<and>
    rotate_point (rotate_point x q) s = rotate_point x (quat_mul s q) \<and>
    norm2_of (quat_of_axis ax a) = 1 \<and> rotate_point ax (quat_of_axis ax a) = ax \<and>
    transform_point (transform_point x P) T = transform_point x (transform_pose P T) \<and>
    slerp q s 0 = q \<and> slerp q s 1 = (if angle_shortest_path q s = 0 then q else if quat_dot q s < 0 then quat_neg s else s) \<and>
    norm2_of (slerp q s f) = 1"
proof (intro conjI)
  show "length_of (rotate_point x q) = length_of x"
    using rotate_point_length2 [OF assms(1), of q] assms(4) by (simp add: length_of_def)
  show "rotate_point (rotate_point x q) (quat_inverse q) = x" by (rule rotate_point_inverse(1) [OF assms(1,4)])
  show "rotate_point (rotate_point x q) s = rotate_point x (quat_mul s q)" by (rule rotate_point_mul [OF assms(1)])
  show "norm2_of (quat_of_axis ax a) = 1" "rotate_point ax (quat_of_axis ax a) = ax"
    by (rule quat_of_axis_unit [OF assms(6,7)])+
  show "transform_point (transform_point x P) T = transform_point x (transform_pose P T)"
    by (rule transform_compose [OF assms(1-3)])
qed (rule slerp_ends [OF assms(4,5)])+

theorem rotations_and_poses_witness:
  "length_of (rotate_point [1, 2, 3] (Quat 0 0 1 0)) = length_of [1, 2, 3] \<and> rotate_point [1, 2, 3] (Quat 0 0 1 0) = [-1, -2, 3 :: real] \<and>
   norm2_of (slerp (Quat 0 0 1 0) (Quat 0 (3 / 5) 0 (4 / 5)) (1 / 3)) = 1 \<and> norm2_of (quat_of_axis [0, 3, 4] 2) = 1"
  using rotations_and_poses [of "[1, 2, 3]" pose_default pose_default "Quat 0 0 1 0" "Quat 0 (3 / 5) 0 (4 / 5)" "[0, 3, 4]" 2 "1 / 3"]
  by (simp add: pose_default_def quat_defs length2_3 power2_eq_square)

text \<open>
  C40: The distance of a point from a line is that to a point of the segment between its two points, and no
  point of the segment is nearer.  \<open>lin_interp\<close> runs along the segment at constant speed, from one end to
  the other.
\<close>

theorem line_distance_is_shortest:
  assumes "length l1 = length l0" "length p = length l0"
  shows "(\<exists>u. 0 \<le> u \<and> u \<le> 1 \<and> line_distance_of l0 l1 p = points_distance_of (vp_lin_interp l0 l1 u) p) \<and>
    (\<forall>u. 0 \<le> u \<and> u \<le> 1 \<longrightarrow> line_distance_of l0 l1 p \<le> points_distance_of (vp_lin_interp l0 l1 u) p) \<and>
    vp_lin_interp l0 l1 0 = l0 \<and> vp_lin_interp l0 l1 1 = l1 \<and>
    points_distance_of (vp_lin_interp l0 l1 u) (vp_lin_interp l0 l1 v) = \<bar>u - v\<bar> * points_distance_of l0 l1"
  using line_distance_shortest [OF assms] lin_interp_ends [of l0 l1] lin_interp_distance [of l0 l1 u v] assms(1) by simp

theorem line_distance_is_shortest_witness:
  "line_distance_of [0, 0] [0, 2] [3, 5] \<le> points_distance_of [0, 1] [3, 5 :: real]"
proof -
  have "vp_lin_interp [0, 0] [0, 2] (1 / 2) = [0, 1 :: real]" by (simp add: vp_ops dim_loop_eq upt_rec)
  moreover have "\<forall>u. 0 \<le> u \<and> u \<le> 1 \<longrightarrow>
      line_distance_of [0, 0] [0, 2] [3, 5] \<le> points_distance_of (vp_lin_interp [0, 0] [0, 2] u) [3, 5 :: real]"
    using line_distance_is_shortest [of "[0, 2]" "[0, 0]" "[3, 5]"] by simp
  from this [rule_format, of "1 / 2"] calculation show ?thesis by simp
qed

section \<open>Bounded values and numbers\<close>

text \<open>
  \<open>bounded::make\<close> gives a value exactly when its argument, converted to the type, is between the
  bounds, and that value; so every \<open>bounded\<close> it makes satisfies the invariant of the class.
\<close>

theorem bounded_make_checks:
  "bounded_make T lo hi x = (if bounded_inv lo hi (cast_to T x) then Some (cast_to T x) else None) \<and>
   (\<forall>v. bounded_make T lo hi x = Some v \<longrightarrow> bounded_inv lo hi v)"
  by (auto simp: bounded_make_def bounded_inv_def)

theorem bounded_make_checks_witness:
  "bounded_make (BUInt 1) 2 9 300 = None \<and> bounded_make (BUInt 1) 2 9 5 = Some 5 \<and> bounded_inv 2 9 5"
  using bounded_make_checks [of "BUInt 1" 2 9 300] bounded_make_checks [of "BUInt 1" 2 9 5]
  by (simp add: bounded_inv_def)

text \<open>
  \<open>rotate_right\<close> and \<open>rotate_left\<close> move around the range and stay in it, undo each other, and a
  whole turn is no change, when the results in between are in the range of the type.
\<close>

theorem bounded_rotations:
  assumes "range_ok T lo hi" "bounded_inv lo hi v"
    and "\<And>u. bounded_inv lo hi u \<Longrightarrow> rotates_exactly T lo hi u s"
  shows "\<exists>r l. rotate_right T lo hi v s = Some r \<and> bounded_inv lo hi r \<and> rotate_left T lo hi r s = Some v \<and>
    rotate_left T lo hi v s = Some l \<and> bounded_inv lo hi l \<and> rotate_right T lo hi l s = Some v \<and>
    (s = hi - lo + 1 \<longrightarrow> r = v)"
proof -
  let ?m = "hi - lo + 1"
  have m: "0 < ?m" using assms(1) by (simp add: range_ok_def)
  have v: "(v - lo) mod ?m = v - lo" using assms(2) by (simp add: bounded_inv_def)
  have inv: "bounded_inv lo hi (lo + d mod ?m)" for d
    using pos_mod_sign [OF m, of d] pos_mod_bound [OF m, of d] by (simp add: bounded_inv_def)
  have undo: "lo + ((lo + d mod ?m) + t - lo) mod ?m = lo + (d + t) mod ?m"
    "lo + ((lo + d mod ?m) - t - lo) mod ?m = lo + (d - t) mod ?m" for d t
    by (simp_all add: mod_simps)
  have "rotate_left T lo hi (lo + (v + s - lo) mod ?m) s = Some v"
    using rotate_eq(2) [OF assms(1) assms(3) [OF inv]] undo(2) [of "v + s - lo" s] v by simp
  moreover have "rotate_right T lo hi (lo + (v - s - lo) mod ?m) s = Some v"
    using rotate_eq(1) [OF assms(1) assms(3) [OF inv]] undo(1) [of "v - s - lo" s] v by simp
  moreover have "lo + (v + s - lo) mod ?m = v" if s: "s = ?m"
  proof -
    have "v + s - lo = (v - lo) + ?m" using s by simp
    then show ?thesis using v by (simp only: mod_add_self2)
  qed
  ultimately show ?thesis
    using rotate_eq [OF assms(1) assms(3) [OF assms(2)]] inv by blast
qed

theorem bounded_rotations_witness:
  "\<exists>r. rotate_right (BSInt 4) (-2) 5 4 3 = Some r \<and> bounded_inv (-2) 5 r \<and> rotate_left (BSInt 4) (-2) 5 r 3 = Some 4"
proof -
  have ok: "range_ok (BSInt 4) (-2) 5"
    by (simp add: range_ok_def integral_def int_in_signed interval_range_def arith_def)
  have ex: "rotates_exactly (BSInt 4) (-2) 5 u 3" if "bounded_inv (-2) 5 u" for u
    using that by (auto simp: rotates_exactly_def bounded_inv_def arith_def int_in_signed)
  show ?thesis
    using bounded_rotations [OF ok _ ex, of 4] by (auto simp: bounded_inv_def)
qed

text \<open>\<open>ceil_to\<close> of a value that is not negative is the least multiple of the base not below it.\<close>

theorem ceil_to_least_multiple:
  assumes "0 \<le> val" "0 < b"
  shows "b dvd ceil_to val b \<and> val \<le> ceil_to val b \<and> ceil_to val b < val + b \<and>
    (\<forall>k. b dvd k \<longrightarrow> val \<le> k \<longrightarrow> ceil_to val b \<le> k)"
  using ceil_to_least [OF assms] by blast

theorem ceil_to_least_multiple_witness: "ceil_to 13 8 = 16 \<and> 13 \<le> ceil_to 13 8 \<and> (8 :: int) dvd ceil_to 13 8"
  using ceil_to_least_multiple [of 13 8] by (simp add: ceil_to_def c_mod_def)

text \<open>
  \<open>map_range\<close> on integers takes the ends of the one range to the ends of the other and what lies
  between to what lies between, in the same order.
\<close>

theorem map_range_monotone:
  assumes "from_min \<le> x" "x \<le> y" "y \<le> from_max" "from_min < from_max" "to_min \<le> to_max"
  shows "\<exists>u v. map_range x from_min from_max to_min to_max = Some u \<and>
    map_range y from_min from_max to_min to_max = Some v \<and> to_min \<le> u \<and> u \<le> v \<and> v \<le> to_max \<and>
    map_range from_min from_min from_max to_min to_max = Some to_min \<and>
    map_range from_max from_min from_max to_min to_max = Some to_max"
proof -
  let ?n = "\<lambda>x. (to_max - to_min) * (x - from_min)" and ?d = "from_max - from_min"
  have n: "0 \<le> ?n x" "?n x \<le> ?n y" "0 < ?d"
    using assms by (simp_all add: mult_left_mono)
  then have "cdiv (?n x) ?d \<le> cdiv (?n y) ?d"
    by (simp add: cdiv_nonneg zdiv_mono1)
  moreover obtain u v where
    "map_range x from_min from_max to_min to_max = Some u" "to_min \<le> u"
    "map_range y from_min from_max to_min to_max = Some v" "v \<le> to_max"
    using map_range_between [of from_min x from_max to_min to_max]
      map_range_between [of from_min y from_max to_min to_max] assms by auto
  ultimately show ?thesis
    using map_range_ends [OF assms(4)] n(3) by (auto simp: map_range_def)
qed

theorem map_range_monotone_witness:
  "\<exists>u v. map_range 3 0 10 100 200 = Some u \<and> map_range 7 0 10 100 200 = Some v \<and> 100 \<le> u \<and> u \<le> v \<and> v \<le> 200"
  using map_range_monotone [of 0 3 7 10 100 200] by auto

text \<open>
  The algorithms on containers do what they are for: \<open>find_if\<close> gives the first element with the
  property or the end, the tests are the quantifiers, \<open>equal\<close> compares element by element, \<open>joined\<close>
  puts the separator between elements only, and \<open>merge_arrays\<close> and \<open>for_cross_joint\<close> keep the order.
\<close>

theorem container_algorithms:
  "(if \<exists>x \<in> set xs. P x then find_if P xs < length xs \<and> P (xs ! find_if P xs) \<and> (\<forall>i < find_if P xs. \<not> P (xs ! i))
    else find_if P xs = length xs) \<and>
   find_if_tuple P xs 0 (length xs) = find_if P xs \<and>
   any_of P xs = (\<exists>x \<in> set xs. P x) \<and> all_of P xs = (\<forall>x \<in> set xs. P x) \<and>
   count_f P xs = length (filter P xs) \<and> map_f_array (length xs) dflt f xs = Some (map f xs) \<and>
   equal_f R xs ys = Some (list_all2 R xs ys) \<and> merge_arrays arrs = Some (concat arrs) \<and>
   for_cross_joint xs ys = List.product xs ys \<and>
   joined (x # xs) sep g = Some (g x @ concat (map (\<lambda>x. sep @ g x) xs))"
proof -
  have "find_if P xs < length xs" if "\<exists>x \<in> set xs. P x"
    using that find_if_le [of P xs] find_if_end [of P xs] by (auto simp: order.order_iff_strict)
  moreover have "concat (map (\<lambda>x. map (Pair x) ys) xs) = List.product xs ys" by (induction xs) auto
  ultimately show ?thesis
    using find_if_end [of P xs] find_if_first [of P xs] find_if_tuple_eq [of P xs 0]
    by (simp add: any_of_iff all_of_iff count_f_eq map_f_array_eq equal_f_eq merge_arrays_eq joined_eq for_cross_joint_eq)
qed

theorem container_algorithms_witness:
  "find_if even [3, 5, 8, 6 :: int] = 2 \<and> find_if even [3, 5 :: int] = 2 \<and> count_f even [3, 8, 6 :: int] = 2 \<and>
   joined [1, 2, 3 :: int] [0] (\<lambda>x. [x, x]) = Some [1, 1, 0, 2, 2, 0, 3, 3 :: int]"
  using container_algorithms [of "[3, 5, 8, 6 :: int]" even 0 "\<lambda>x. x" "(=)" "[]" "[]" 1 "[0 :: int]" "\<lambda>x. [x, x]"]
    container_algorithms [of "[3, 8, 6 :: int]" even 0 "\<lambda>x. x" "(=)" "[]" "[]" 1 "[0 :: int]" "\<lambda>x. [x, x]"]
    container_algorithms [of "[2, 3 :: int]" even 0 "\<lambda>x. x" "(=)" "[]" "[]" 1 "[0 :: int]" "\<lambda>x. [x, x]"]
  by (auto simp: numeral_2_eq_2)

text \<open>
  \<open>min_max\<close>: \<open>clamp\<close> gives the point of the range next to its argument, \<open>intersection\<close> and
  \<open>expand\<close> are the operations on the ranges as sets, and \<open>min_max_elem\<close> is the least range around
  the images of a container.
\<close>

theorem min_max_operations:
  fixes mm :: "int min_max"
  assumes "mm_min mm \<le> mm_max mm"
  shows "mm_contains mm (mm_clamp x mm) \<and> (\<forall>y. mm_contains mm y \<longrightarrow> \<bar>x - mm_clamp x mm\<bar> \<le> \<bar>x - y\<bar>) \<and>
    (mm_contains (mm_intersection mm others) x = (mm_contains mm x \<and> (\<forall>o' \<in> set others. mm_contains o' x))) \<and>
    mm_contains (mm_expand mm x) x \<and> (\<forall>y. mm_contains mm y \<longrightarrow> mm_contains (mm_expand mm x) y) \<and>
    (\<forall>c \<in> set cont. mm_contains (min_max_elem lowest highest f cont) (f c))"
  using mm_clamp_contains [OF assms] mm_clamp_nearest [of mm _ x] mm_intersection_contains [of mm others x] mm_expand_contains [OF assms, of x]
    min_elem_le [of highest f cont] max_elem_ge [of lowest f cont]
  by (simp add: min_max_elem_eq) (simp add: mm_contains_def)

theorem min_max_operations_witness:
  "mm_contains \<lparr>mm_min = -3, mm_max = 4 :: int\<rparr> (mm_clamp 9 \<lparr>mm_min = -3, mm_max = 4\<rparr>) \<and>
   mm_contains (mm_expand \<lparr>mm_min = -3, mm_max = 4 :: int\<rparr> 9) 9"
  using min_max_operations [of "\<lparr>mm_min = -3, mm_max = 4\<rparr>" 9 "[]" "[] :: int list" 0 0 "\<lambda>x. x"] by simp

section \<open>Outside the contracts\<close>

text \<open>
  A circular buffer without a spare slot, so of a size that is a power of two, looks empty to
  its iterators when it is full, and any two full buffers are equal.
\<close>

theorem full_buffer_iterates_as_empty:
  assumes "power_of_two N" "buffer_holds N a p" "length p = N" "buffer_holds N b q" "length q = N"
  shows "cb_iterate (select_strategy N) a = Some [] \<and> cb_eq (select_strategy N) a b = Some True"
proof -
  have "st_max (select_strategy N) = N" using assms(1) by (simp add: select_strategy_def overflow_strategy_def)
  then show ?thesis
    using assms(2-5) selected.full_iterate [of N a p] selected.full_eq [of N a p b q] by (simp add: buffer_holds_def)
qed

theorem full_buffer_iterates_as_empty_witness:
  "\<exists>a b. buffer_holds 4 a [1, 2, 3, 4 :: int] \<and> buffer_holds 4 b [5, 6, 7, 8] \<and>
    cb_iterate (select_strategy 4) a = Some [] \<and> cb_eq (select_strategy 4) a b = Some True"
proof -
  have fill: "\<exists>b. buffer_holds 4 b xs" if "length xs = 4" for xs :: "int list"
    using selected.queue_copy_range_back [of 4 "cb_new (select_strategy 4)" "[]" xs] sample_buffer that
    by (auto simp: buffer_holds_def)
  obtain a where a: "buffer_holds 4 a [1, 2, 3, 4 :: int]" using fill [of "[1, 2, 3, 4]"] by auto
  obtain b where b: "buffer_holds 4 b [5, 6, 7, 8 :: int]" using fill [of "[5, 6, 7, 8]"] by auto
  have "power_of_two 4" by (simp add: power_of_two_def)
  from full_buffer_iterates_as_empty [OF this a _ b] a b show ?thesis by auto
qed

text \<open>
  The copy of a buffer of trivially copyable elements that wrap around the end of the array is
  one block of memory that runs past the end: it is undefined.
\<close>

theorem wrapped_copy_is_undefined:
  assumes "buffer_holds N b q" "st_max (select_strategy N) < st_idx (select_strategy N) (cb_from b) + length q"
  shows "cb_copy_construct True (select_strategy N) b = None"
  using assms selected.wrapped_copy_undefined [of N b q] by (simp add: buffer_holds_def)

theorem wrapped_copy_is_undefined_witness:
  "cb_copy_construct True (select_strategy 4) \<lparr>cb_from = 2, cb_to = 5, cb_store = [Some 3, None, Some 1, Some (2 :: int)]\<rparr> = None"
proof (rule wrapped_copy_is_undefined [of 4 _ "[1, 2, 3]"])
  show "buffer_holds 4 \<lparr>cb_from = 2, cb_to = 5, cb_store = [Some 3, None, Some 1, Some (2 :: int)]\<rparr> [1, 2, 3]"
    by code_simp
qed (simp add: select_strategy_def power_of_two_def overflow_strategy_def)

end
